(* ===== verification/Prelude.thy ===== *)
theory Prelude
  imports Main "HOL-Library.Word"
begin

text \<open>
  Shared vocabulary of the minhq development: the errors the Go code returns, the
  state-passing result type of fallible operations, the signed 64-bit wrap-around of
  Go's \<open>int\<close>, and the bit lists by which the codecs are specified.
\<close>

unbundle bit_operations_syntax

named_theorems bits_simps \<open>facts about bit lists\<close>
named_theorems io_simps \<open>unfolding rules for the operations on readers and writers\<close>

type_synonym byte = "8 word"
type_synonym u32 = "32 word"
type_synonym u64 = "64 word"

section \<open>Errors and results\<close>

text \<open>
  The error values of \<open>io\<close>, \<open>bytes\<close>, \<open>io/bitio.go\<close> and the \<open>hc\<close> package.
  Three further outcomes are not error values of Go: \<open>Panic\<close> is a run-time panic (it is
  never caught by this code), \<open>Diverge\<close> a call that spins forever, and \<open>Blocked\<close> a
  call that waits for another goroutine.
\<close>

datatype goerr =
    EOF
  | ErrUnexpectedEOF
  | ErrNoProgress
  | ErrShortWrite
  | ErrTooLarge
  | ErrIntegerOverflow
  | ErrInvalidHuffman
  | ErrIndexError
  | ErrPseudoHeaderOrdering
  | ErrTableOverflow
  | ErrInvalidDelta
  | ErrOther string
  | Panic string
  | Diverge
  | Blocked

text \<open>A fallible operation keeps the state it reached when it fails, as Go code does.\<close>

type_synonym ('s, 'a) io = "'s \<Rightarrow> (goerr + 'a) \<times> 's"

definition ret :: "'a \<Rightarrow> ('s, 'a) io" where
  "ret x s = (Inr x, s)"

definition throw :: "goerr \<Rightarrow> ('s, 'a) io" where
  "throw e s = (Inl e, s)"

definition bnd :: "('s, 'a) io \<Rightarrow> ('a \<Rightarrow> ('s, 'b) io) \<Rightarrow> ('s, 'b) io" where
  "bnd m f s = (case m s of (Inl e, s') \<Rightarrow> (Inl e, s') | (Inr x, s') \<Rightarrow> f x s')"

lemma ret_apply [simp]: "ret x s = (Inr x, s)"
  by (simp add: ret_def)

lemma throw_apply [simp]: "throw e s = (Inl e, s)"
  by (simp add: throw_def)

lemma bnd_Inl [simp]: "m s = (Inl e, s') \<Longrightarrow> bnd m f s = (Inl e, s')"
  by (simp add: bnd_def)

lemma bnd_Inr [simp]: "m s = (Inr x, s') \<Longrightarrow> bnd m f s = f x s'"
  by (simp add: bnd_def)

lemma bnd_eq_Inr_iff:
  "bnd m f s = (Inr y, s'') \<longleftrightarrow> (\<exists>x s'. m s = (Inr x, s') \<and> f x s' = (Inr y, s''))"
  by (auto simp: bnd_def split: prod.splits sum.splits)

lemma bnd_assoc: "bnd (bnd m f) g = bnd m (\<lambda>x. bnd (f x) g)"
  by (rule ext) (auto simp: bnd_def split: prod.splits sum.splits)

section \<open>Go's signed 64-bit integers\<close>

text \<open>
  Values of type \<open>int\<close> are mathematical integers; \<open>s64\<close> is the wrap-around of one
  arithmetic operation on them, and is written out wherever the operands are not bounded by
  the code itself.
\<close>

definition s64 :: "int \<Rightarrow> int" where
  "s64 x = (x + 2 ^ 63) mod 2 ^ 64 - 2 ^ 63"

definition intMax :: int where
  "intMax = 2 ^ 63 - 1"

lemma s64_id: "- (2 ^ 63) \<le> x \<Longrightarrow> x \<le> intMax \<Longrightarrow> s64 x = x"
  by (simp add: s64_def intMax_def)

lemma s64_range: "- (2 ^ 63) \<le> s64 x \<and> s64 x \<le> intMax"
proof -
  have "0 \<le> (x + 2 ^ 63) mod 2 ^ 64 \<and> (x + 2 ^ 63) mod 2 ^ 64 < (2 ^ 64 :: int)"
    by simp
  then show ?thesis by (simp add: s64_def intMax_def)
qed

lemma s64_above: "intMax < x \<Longrightarrow> x \<le> 2 * intMax + 1 \<Longrightarrow> s64 x = x - 2 ^ 64"
proof -
  assume a: "intMax < x" "x \<le> 2 * intMax + 1"
  have "(x + 2 ^ 63) mod 2 ^ 64 = (x + 2 ^ 63 - 2 ^ 64) mod (2 ^ 64 :: int)"
    by (metis minus_mod_self2)
  also have "\<dots> = x + 2 ^ 63 - 2 ^ 64"
    using a by (intro mod_pos_pos_trivial) (simp_all add: intMax_def)
  finally show ?thesis by (simp add: s64_def)
qed

section \<open>Bit lists\<close>

text \<open>
  \<open>bits n w\<close> are the low \<open>n\<close> bits of \<open>w\<close>, most significant first: the order in
  which the codecs put them on the wire. \<open>unbits\<close> reads such a list as a number.
\<close>

definition bits :: "nat \<Rightarrow> 'a::semiring_bit_operations \<Rightarrow> bool list" where
  "bits n w = rev (map (bit w) [0..<n])"

definition unbits :: "bool list \<Rightarrow> 'a::semiring_bit_operations" where
  "unbits bs = horner_sum of_bool 2 (rev bs)"

lemma length_bits [simp]: "length (bits n w) = n"
  by (simp add: bits_def)

lemma bits_0 [simp]: "bits 0 w = []"
  by (simp add: bits_def)

lemma bits_Suc: "bits (Suc n) w = bit w n # bits n w"
  by (simp add: bits_def)

lemma bits_1 [simp]: "bits (Suc 0) w = [bit w 0]"
  by (simp add: bits_Suc)

lemma nth_bits: "i < n \<Longrightarrow> bits n w ! i = bit w (n - Suc i)"
  by (simp add: bits_def rev_nth)

lemma bits_eqI: "(\<And>i. i < n \<Longrightarrow> bit v i = bit w i) \<Longrightarrow> bits n v = bits n w"
  by (simp add: bits_def)

lemma bits_eqD: "bits n v = bits n w \<Longrightarrow> i < n \<Longrightarrow> bit v i = bit w i"
  by (simp add: bits_def)

lemma unbits_bits [simp]: "unbits (bits n w) = take_bit n w"
  by (simp add: unbits_def bits_def horner_sum_bit_eq_take_bit)

lemma unbits_Nil [simp]: "unbits [] = 0"
  by (simp add: unbits_def)

lemma bits_append: "bits (m + n) w = bits m (drop_bit n w) @ bits n w"
proof (rule nth_equalityI)
  fix i assume "i < length (bits (m + n) w)"
  then show "bits (m + n) w ! i = (bits m (drop_bit n w) @ bits n w) ! i"
    by (cases "i < m") (auto simp: nth_append nth_bits bit_drop_bit_eq add.commute)
qed simp

lemma take_bits: "k \<le> n \<Longrightarrow> take k (bits n w) = bits k (drop_bit (n - k) w)"
  using bits_append [of k "n - k" w] by simp

lemma drop_bits: "k \<le> n \<Longrightarrow> drop k (bits n w) = bits (n - k) w"
  using bits_append [of k "n - k" w] by simp

lemma bits_take_bit: "n \<le> m \<Longrightarrow> bits n (take_bit m w) = bits n w"
  by (rule bits_eqI) (simp add: bit_take_bit_iff)

lemma bits_inj:
  fixes v w :: "'a::len word"
  assumes "bits n v = bits n w" "take_bit n v = v" "take_bit n w = w"
  shows "v = w"
  using assms by (metis unbits_bits)

lemma bits_unbits:
  assumes "length bs = n" "n \<le> LENGTH('a)"
  shows "bits n (unbits bs :: 'a::len word) = bs"
proof (rule nth_equalityI)
  fix i assume "i < length (bits n (unbits bs :: 'a word))"
  with assms show "bits n (unbits bs :: 'a word) ! i = bs ! i"
    by (simp add: nth_bits unbits_def bit_horner_sum_bit_word_iff rev_nth)
qed (simp add: assms)

lemma take_bit_unbits:
  assumes "length bs \<le> n" "n \<le> LENGTH('a)"
  shows "take_bit n (unbits bs :: 'a::len word) = unbits bs"
  using assms
  by (intro bit_eqI) (auto simp: bit_take_bit_iff unbits_def bit_horner_sum_bit_word_iff)

lemma take_bit_eq_self_unat_iff: "take_bit n v = v \<longleftrightarrow> unat v < 2 ^ n" for v :: "'a::len word"
proof -
  have "take_bit n v = v \<longleftrightarrow> unat (take_bit n v) = unat v"
    by (simp add: word_unat_eq_iff)
  also have "\<dots> \<longleftrightarrow> unat v < 2 ^ n"
    by (simp add: unsigned_take_bit_eq take_bit_nat_eq_self_iff)
  finally show ?thesis .
qed

lemma unat_2p: "n < LENGTH('a) \<Longrightarrow> unat (2 ^ n :: 'a::len word) = 2 ^ n"
  using unat_of_nat [of "2 ^ n", where 'a = 'a] by simp

lemma bits_ucast:
  "n \<le> LENGTH('b) \<Longrightarrow> bits n (ucast w :: 'b::len word) = bits n (w :: 'a::len word)"
  by (rule bits_eqI) (simp add: bit_ucast_iff)

lemma take_bit_ucast:
  "LENGTH('a) \<le> n \<Longrightarrow> take_bit n (ucast (c :: 'a::len word)) = (ucast c :: 'b::len word)"
  by (rule bit_word_eqI) (auto simp: bit_take_bit_iff bit_ucast_iff dest: bit_imp_le_length)

lemma unat_ucast_up: "LENGTH('a) \<le> LENGTH('b) \<Longrightarrow> unat (ucast (w :: 'a::len word) :: 'b::len word) = unat w"
proof -
  assume a: "LENGTH('a) \<le> LENGTH('b)"
  have "unat w < 2 ^ LENGTH('a)" by simp
  also have "\<dots> \<le> 2 ^ LENGTH('b)" using a by simp
  finally show ?thesis by (simp add: unsigned_ucast_eq take_bit_nat_eq_self_iff)
qed

lemma bits_push_or:
  fixes a b :: "'a::len word"
  assumes "m + n \<le> LENGTH('a)" "take_bit n b = b"
  shows "bits (m + n) (push_bit n a OR b) = bits m a @ bits n b"
proof (rule nth_equalityI)
  have b: "bit b j \<longleftrightarrow> j < n \<and> bit b j" for j
    by (metis assms(2) bit_take_bit_iff)
  fix i assume i: "i < length (bits (m + n) (push_bit n a OR b))"
  show "bits (m + n) (push_bit n a OR b) ! i = (bits m a @ bits n b) ! i"
  proof (cases "i < m")
    case True
    with i assms(1) b [of "m + n - Suc i"] show ?thesis
      by (auto simp: nth_append nth_bits bit_or_iff bit_push_bit_iff)
  next
    case False
    then have "m + n - Suc i = n - Suc (i - m)" and "\<not> n \<le> n - Suc (i - m)" using i by auto
    with False i show ?thesis
      by (simp add: nth_append nth_bits bit_or_iff bit_push_bit_iff)
  qed
qed simp

lemma unat_add_of_nat:
  assumes "unat v + n < 2 ^ LENGTH('a)"
  shows "unat (v + word_of_nat n :: 'a::len word) = unat v + n"
  using assms by (simp add: unat_word_ariths unat_of_nat mod_simps)

lemma bits_unat: "n \<le> LENGTH('a) \<Longrightarrow> bits n (unat (v :: 'a::len word)) = bits n v"
  by (rule bits_eqI) (simp add: bit_unsigned_iff)

lemma unat_of_int: "0 \<le> k \<Longrightarrow> k < 2 ^ 64 \<Longrightarrow> unat (word_of_int k :: u64) = nat k"
proof -
  assume k: "0 \<le> k" "k < 2 ^ 64"
  then have eq: "(word_of_int k :: u64) = word_of_nat (nat k)" by simp
  show ?thesis unfolding eq unat_of_nat using k by (simp add: nat_less_iff)
qed

lemma sint_small:
  assumes "n < 2 ^ 63"
  shows "sint (word_of_nat n :: u64) = int n"
proof -
  have "uint (word_of_nat n :: u64) = int n" using assms by (simp add: uint_nat unat_of_nat)
  with assms show ?thesis by (simp add: sint_uint signed_take_bit_int_eq_self)
qed

text \<open>Bytes as bits, and whole bytes recovered from a bit list.\<close>

definition bytes_bits :: "byte list \<Rightarrow> bool list" where
  "bytes_bits bs = concat (map (bits 8) bs)"

fun bits_bytes :: "bool list \<Rightarrow> byte list" where
  "bits_bytes bs = (if length bs < 8 then [] else unbits (take 8 bs) # bits_bytes (drop 8 bs))"

declare bits_bytes.simps [simp del]

lemma bytes_bits_Nil [simp]: "bytes_bits [] = []"
  by (simp add: bytes_bits_def)

lemma bytes_bits_Cons [simp]: "bytes_bits (b # bs) = bits 8 b @ bytes_bits bs"
  by (simp add: bytes_bits_def)

lemma bytes_bits_append [simp]: "bytes_bits (as @ bs) = bytes_bits as @ bytes_bits bs"
  by (simp add: bytes_bits_def)

lemma length_bytes_bits [simp]: "length (bytes_bits bs) = 8 * length bs"
  by (induction bs) simp_all

lemma bits_bytes_short [simp]: "length bs < 8 \<Longrightarrow> bits_bytes bs = []"
  by (simp add: bits_bytes.simps)

lemma bits_bytes_append [simp]: "bits_bytes (bits 8 b @ bs) = b # bits_bytes bs"
  by (simp add: bits_bytes.simps [of "bits 8 b @ bs"] take_bit_length_eq [where 'a = 8, simplified])

lemma bits_bytes_bytes_bits [simp]: "bits_bytes (bytes_bits bs) = bs"
  by (induction bs) simp_all

lemma bits_bytes_bytes_append: "bits_bytes (bytes_bits bs @ r) = bs @ bits_bytes r"
  by (induction bs) simp_all

lemma length_bits_bytes: "length (bits_bytes bs) = length bs div 8"
proof (induction bs rule: bits_bytes.induct)
  case (1 bs)
  then show ?case by (cases "length bs < 8") (simp_all add: bits_bytes.simps [of bs] le_div_geq)
qed

lemma bits_bytes_drop: "bits_bytes (drop (8 * k) bs) = drop k (bits_bytes bs)"
proof (induction k arbitrary: bs)
  case 0
  then show ?case by simp
next
  case (Suc k)
  show ?case
  proof (cases "length bs < 8")
    case True
    then show ?thesis by simp
  next
    case False
    with Suc.IH [of "drop 8 bs"] show ?thesis
      by (simp add: bits_bytes.simps [of bs] add.commute)
  qed
qed

text \<open>The bits short of a whole byte at the end of a bit list.\<close>

definition tail_bits :: "bool list \<Rightarrow> bool list" where
  "tail_bits bs = drop (8 * (length bs div 8)) bs"

lemma tail_bits_drop: "8 * k \<le> length bs \<Longrightarrow> tail_bits (drop (8 * k) bs) = tail_bits bs"
  by (simp add: tail_bits_def) (metis div_mult_self4 le_add_diff_inverse2 mult.commute
      distrib_left drop_drop add.commute zero_neq_numeral div_mult_self1)

lemma bytes_and_tail_bits: "bytes_bits (bits_bytes bs) @ tail_bits bs = bs"
proof (induction bs rule: bits_bytes.induct)
  case (1 bs)
  show ?case
  proof (cases "length bs < 8")
    case True
    then show ?thesis by (simp add: tail_bits_def)
  next
    case False
    then have "tail_bits bs = tail_bits (drop 8 bs)"
      using tail_bits_drop [of 1 bs] by simp
    with 1 False show ?thesis
      by (simp add: bits_bytes.simps [of bs] bits_unbits)
  qed
qed

lemma bytes_bits_inj: "bytes_bits as = bytes_bits bs \<Longrightarrow> as = bs"
  by (metis bits_bytes_bytes_bits)

lemma bytes_bits_eq_Nil [simp]: "bytes_bits bs = [] \<longleftrightarrow> bs = []"
  by (metis bits_bytes_bytes_bits bits_bytes_short bytes_bits_Nil list.size(3) zero_less_numeral)

section \<open>Characters and bytes\<close>

text \<open>Go strings are byte sequences; a HOL character is one byte.\<close>

definition byte_of :: "char \<Rightarrow> byte" where
  "byte_of c = word_of_nat (of_char c)"

definition char_of_byte :: "byte \<Rightarrow> char" where
  "char_of_byte b = char_of (unat b)"

definition string_bytes :: "string \<Rightarrow> byte list" where
  "string_bytes s = map byte_of s"

definition bytes_string :: "byte list \<Rightarrow> string" where
  "bytes_string bs = map char_of_byte bs"

lemma unat_byte_of: "unat (byte_of c) = of_char c"
  using of_char_mod_256 [of c, where 'a = nat] by (simp add: byte_of_def unat_of_nat)

lemma char_of_byte_of [simp]: "char_of_byte (byte_of c) = c"
  by (simp add: char_of_byte_def unat_byte_of)

lemma bytes_string_bytes [simp]: "bytes_string (string_bytes s) = s"
  by (simp add: bytes_string_def string_bytes_def comp_def)

lemma length_string_bytes [simp]: "length (string_bytes s) = length s"
  by (simp add: string_bytes_def)

end
