(* ===== verification/BitIO.thy ===== *)
theory BitIO
  imports Prelude
begin

text \<open>
  Bit-level reading and writing: \<open>src/io/bitio.go\<close>. A bit writer or reader wraps an
  \<open>io.Writer\<close> or \<open>io.Reader\<close>, whose operations are parameters (\<open>snk_ops\<close>,
  \<open>src_ops\<close>); the laws the code relies on are the locales \<open>byte_sink\<close>,
  \<open>reliable_sink\<close> and \<open>byte_source\<close>. The lemmas refine both to plain bit lists.
\<close>

section \<open>Writing\<close>

text \<open>
  The operations of an \<open>io.Writer\<close>: \<open>snkWriteByte\<close> is present when the writer is an
  \<open>io.ByteWriter\<close> too; \<open>snkWrite\<close> returns the number of bytes it took and an error.
\<close>

record 'w snk_ops =
  snkWriteByte :: "('w \<Rightarrow> byte \<Rightarrow> goerr option \<times> 'w) option"
  snkWrite :: "'w \<Rightarrow> byte list \<Rightarrow> (nat \<times> goerr option) \<times> 'w"

text \<open>
  \<open>savedBits\<close> and \<open>count\<close> are of type \<open>byte\<close> in the source: they are naturals here,
  and the one subtraction that can wrap around is written out modulo 256.
\<close>

record 'w bitWriter =
  writer :: 'w
  wsaved :: u64
  wsavedBits :: nat
  written :: int

definition NewBitWriter :: "'w \<Rightarrow> 'w bitWriter" where
  "NewBitWriter w = \<lparr>writer = w, wsaved = 0, wsavedBits = 0, written = 0\<rparr>"

definition Written :: "('w bitWriter, int) io" where
  "Written bw =
     (if wsavedBits bw > 0 then (Inl (Panic ''Checking written with partially written bytes''), bw)
      else (Inr (written bw), bw))"

definition writeByteInternal :: "'w snk_ops \<Rightarrow> byte \<Rightarrow> ('w bitWriter, unit) io" where
  "writeByteInternal ops c bw =
     (case snkWriteByte ops of
        Some wb \<Rightarrow>
          (case wb (writer bw) c of (e, w') \<Rightarrow>
             ((case e of Some e \<Rightarrow> Inl e | None \<Rightarrow> Inr ()),
              bw\<lparr>writer := w', written := s64 (written bw + 1)\<rparr>))
      | None \<Rightarrow>
          (case snkWrite ops (writer bw) [c] of ((n, e), w') \<Rightarrow>
             (case e of
                Some e \<Rightarrow> (Inl e, bw\<lparr>writer := w'\<rparr>)
              | None \<Rightarrow>
                  if n = 0 then (Inl ErrShortWrite, bw\<lparr>writer := w'\<rparr>)
                  else (Inr (), bw\<lparr>writer := w', written := s64 (written bw + int n)\<rparr>))))"

lemma writeByteInternal_saved [simp]:
  "wsaved (snd (writeByteInternal ops c bw)) = wsaved bw"
  "wsavedBits (snd (writeByteInternal ops c bw)) = wsavedBits bw"
  by (auto simp: writeByteInternal_def split: option.splits prod.splits if_splits)

lemma writeByteInternal_savedBits:
  "writeByteInternal ops c bw = (x, bw') \<Longrightarrow> wsavedBits bw' = wsavedBits bw"
  by (metis snd_conv writeByteInternal_saved(2))

text \<open>The loop writes out whole octets of the saved bits, most significant first.\<close>

function writeSaved :: "'w snk_ops \<Rightarrow> ('w bitWriter, unit) io" where
  "writeSaved ops bw =
     (if 8 \<le> wsavedBits bw then
        (case writeByteInternal ops (ucast (drop_bit (wsavedBits bw - 8) (wsaved bw))) bw of
           (Inl e, bw') \<Rightarrow> (Inl e, bw')
         | (Inr _, bw') \<Rightarrow> writeSaved ops (bw'\<lparr>wsavedBits := wsavedBits bw' - 8\<rparr>))
      else (Inr (), bw))"
  by pat_completeness auto
termination
  by (relation "measure (\<lambda>(ops, bw). wsavedBits bw)")
    (auto dest!: writeByteInternal_savedBits [OF sym])

declare writeSaved.simps [simp del]

definition WriteBits :: "'w snk_ops \<Rightarrow> u64 \<Rightarrow> nat \<Rightarrow> ('w bitWriter, unit) io" where
  "WriteBits ops v count bw =
     (if count > 64 then (Inl ErrTooLarge, bw)
      else if count < 64 \<and> v \<ge> push_bit count 1 then (Inl ErrTooLarge, bw)
      else if wsavedBits bw + count < 8 then
        (Inr (), bw\<lparr>wsavedBits := wsavedBits bw + count,
                    wsaved := push_bit count (wsaved bw) OR v\<rparr>)
      else
        (case writeSaved ops bw of
           (Inl e, bw1) \<Rightarrow> (Inl e, bw1)
         | (Inr _, bw1) \<Rightarrow>
             (let remainder = (count + wsavedBits bw1 + 248) mod 256;
                  x = ucast (push_bit (8 - wsavedBits bw1) (wsaved bw1) OR drop_bit remainder v)
              in (case writeByteInternal ops x bw1 of
                    (Inl e, bw2) \<Rightarrow> (Inl e, bw2)
                  | (Inr _, bw2) \<Rightarrow>
                      (Inr (), snd (writeSaved ops
                         (bw2\<lparr>wsaved := v, wsavedBits := remainder\<rparr>)))))))"

definition WriteBit :: "'w snk_ops \<Rightarrow> byte \<Rightarrow> ('w bitWriter, unit) io" where
  "WriteBit ops b = WriteBits ops (ucast b) 1"

definition WriteByte :: "'w snk_ops \<Rightarrow> byte \<Rightarrow> ('w bitWriter, unit) io" where
  "WriteByte ops c = WriteBits ops (ucast c) 8"

fun writeEach :: "'w snk_ops \<Rightarrow> nat \<Rightarrow> byte list \<Rightarrow> 'w bitWriter \<Rightarrow> (nat \<times> goerr option) \<times> 'w bitWriter" where
  "writeEach ops i [] bw = ((i, None), bw)"
| "writeEach ops i (b # p) bw =
     (case WriteByte ops b bw of
        (Inl e, bw') \<Rightarrow> ((i, Some e), bw')
      | (Inr _, bw') \<Rightarrow> writeEach ops (Suc i) p bw')"

definition Write :: "'w snk_ops \<Rightarrow> byte list \<Rightarrow> 'w bitWriter \<Rightarrow> (nat \<times> goerr option) \<times> 'w bitWriter" where
  "Write ops p bw =
     (if wsavedBits bw = 0 then
        (case snkWrite ops (writer bw) p of ((n, e), w') \<Rightarrow>
           ((n, e), bw\<lparr>writer := w', written := s64 (written bw + int n)\<rparr>))
      else writeEach ops 0 p bw)"

definition Pad :: "'w snk_ops \<Rightarrow> byte \<Rightarrow> ('w bitWriter, unit) io" where
  "Pad ops pad bw =
     (if wsavedBits bw > 0 then
        (case writeSaved ops bw of
           (Inl e, bw1) \<Rightarrow> (Inl e, bw1)
         | (Inr _, bw1) \<Rightarrow>
             (case WriteBits ops (ucast (drop_bit (wsavedBits bw1) pad)) (8 - wsavedBits bw1) bw1 of
                (Inl e, bw2) \<Rightarrow> (Inl e, bw2)
              | (Inr _, bw2) \<Rightarrow> (Inr (), bw2\<lparr>wsaved := 0, wsavedBits := 0\<rparr>)))
      else (Inr (), bw))"

section \<open>Reading\<close>

text \<open>
  The operations of an \<open>io.Reader\<close>: \<open>srcReadByte\<close> is present when the reader is an
  \<open>io.ByteReader\<close>; \<open>srcRead n\<close> reads into a buffer of \<open>n\<close> bytes and returns the bytes
  it stored and an error.
\<close>

record 'r src_ops =
  srcReadByte :: "('r, byte) io option"
  srcRead :: "nat \<Rightarrow> 'r \<Rightarrow> (byte list \<times> goerr option) \<times> 'r"

record 'r bitReader =
  reader :: 'r
  rsaved :: u64
  rsavedBits :: nat

definition NewBitReader :: "'r \<Rightarrow> 'r bitReader" where
  "NewBitReader r = \<lparr>reader = r, rsaved = 0, rsavedBits = 0\<rparr>"

definition readByteInternal :: "'r src_ops \<Rightarrow> ('r bitReader, byte) io" where
  "readByteInternal ops br =
     (case srcReadByte ops of
        Some rb \<Rightarrow> (case rb (reader br) of (x, r') \<Rightarrow> (x, br\<lparr>reader := r'\<rparr>))
      | None \<Rightarrow>
          (case srcRead ops 1 (reader br) of ((p, e), r') \<Rightarrow>
             (case e of
                Some e \<Rightarrow> (Inl e, br\<lparr>reader := r'\<rparr>)
              | None \<Rightarrow>
                  if length p \<noteq> 1 then (Inl ErrNoProgress, br\<lparr>reader := r'\<rparr>)
                  else (Inr (hd p), br\<lparr>reader := r'\<rparr>))))"

definition readNext :: "'r src_ops \<Rightarrow> ('r bitReader, unit) io" where
  "readNext ops br =
     (case readByteInternal ops br of
        (Inl e, br') \<Rightarrow> (Inl e, br')
      | (Inr b, br') \<Rightarrow>
          (Inr (), br'\<lparr>rsaved := push_bit 8 (rsaved br') OR ucast b,
                       rsavedBits := rsavedBits br' + 8\<rparr>))"

lemma readByteInternal_saved [simp]:
  "rsaved (snd (readByteInternal ops br)) = rsaved br"
  "rsavedBits (snd (readByteInternal ops br)) = rsavedBits br"
  by (auto simp: readByteInternal_def split: option.splits prod.splits if_splits)

lemma readNext_savedBits: "readNext ops br = (Inr u, br') \<Longrightarrow> rsavedBits br' = rsavedBits br + 8"
  by (auto simp: readNext_def split: prod.splits sum.splits)
    (metis snd_conv readByteInternal_saved(2))

definition ReadBit :: "'r src_ops \<Rightarrow> ('r bitReader, byte) io" where
  "ReadBit ops br =
     (if rsavedBits br > 0 then
        (Inr (ucast (drop_bit (rsavedBits br - 1) (rsaved br)) AND 1),
         br\<lparr>rsavedBits := rsavedBits br - 1\<rparr>)
      else
        (case readNext ops br of
           (Inl e, br') \<Rightarrow> (Inl e, br')
         | (Inr _, br') \<Rightarrow>
             (Inr (ucast (drop_bit (rsavedBits br' - 1) (rsaved br')) AND 1),
              br'\<lparr>rsavedBits := rsavedBits br' - 1\<rparr>)))"

function readWhole :: "'r src_ops \<Rightarrow> nat \<Rightarrow> ('r bitReader, unit) io" where
  "readWhole ops count br =
     (if rsavedBits br + 8 \<le> count then
        (case readNext ops br of
           (Inl e, br') \<Rightarrow> (Inl e, br')
         | (Inr _, br') \<Rightarrow> readWhole ops count br')
      else (Inr (), br))"
  by pat_completeness auto
termination
  by (relation "measure (\<lambda>(ops, count, br). count - rsavedBits br)")
    (auto dest!: readNext_savedBits [OF sym])

declare readWhole.simps [simp del]

definition ReadBits :: "'r src_ops \<Rightarrow> nat \<Rightarrow> ('r bitReader, u64) io" where
  "ReadBits ops count br =
     (if count > 64 then (Inl ErrTooLarge, br)
      else
        (case readWhole ops count br of
           (Inl e, br1) \<Rightarrow> (Inl e, br1)
         | (Inr _, br1) \<Rightarrow>
             if rsavedBits br1 \<ge> count then
               (Inr (drop_bit (rsavedBits br1 - count) (rsaved br1) AND drop_bit (64 - count) (NOT 0)),
                br1\<lparr>rsavedBits := rsavedBits br1 - count\<rparr>)
             else
               (let result = rsaved br1 AND drop_bit (64 - rsavedBits br1) (NOT 0);
                    remainder = count - rsavedBits br1
                in (case readByteInternal ops br1 of
                      (Inl e, br2) \<Rightarrow> (Inl e, br2)
                    | (Inr b, br2) \<Rightarrow>
                        (Inr (push_bit remainder result OR drop_bit (8 - remainder) (ucast b)),
                         br2\<lparr>rsaved := ucast b, rsavedBits := 8 - remainder\<rparr>)))))"

definition ReadByte :: "'r src_ops \<Rightarrow> ('r bitReader, byte) io" where
  "ReadByte ops br =
     (if rsavedBits br = 0 then readByteInternal ops br
      else (case ReadBits ops 8 br of
              (Inl e, br') \<Rightarrow> (Inl e, br')
            | (Inr b, br') \<Rightarrow> (Inr (ucast b), br')))"

fun readEach :: "'r src_ops \<Rightarrow> nat \<Rightarrow> byte list \<Rightarrow> 'r bitReader \<Rightarrow> (byte list \<times> goerr option) \<times> 'r bitReader" where
  "readEach ops 0 p br = ((p, None), br)"
| "readEach ops (Suc n) p br =
     (case ReadByte ops br of
        (Inl e, br') \<Rightarrow> ((p, Some e), br')
      | (Inr b, br') \<Rightarrow> readEach ops n (p @ [b]) br')"

definition Read :: "'r src_ops \<Rightarrow> nat \<Rightarrow> 'r bitReader \<Rightarrow> (byte list \<times> goerr option) \<times> 'r bitReader" where
  "Read ops n br =
     (if rsavedBits br = 0 then
        (case srcRead ops n (reader br) of (pe, r') \<Rightarrow> (pe, br\<lparr>reader := r'\<rparr>))
      else readEach ops n [] br)"

text \<open>A bit reader is itself an \<open>io.Reader\<close> and an \<open>io.ByteReader\<close>.\<close>

definition br_ops :: "'r src_ops \<Rightarrow> 'r bitReader src_ops" where
  "br_ops ops = \<lparr>srcReadByte = Some (ReadByte ops), srcRead = Read ops\<rparr>"

section \<open>The interface of writers and its refinement to bit lists\<close>

text \<open>
  What \<open>io.Writer\<close> and \<open>io.ByteWriter\<close> document: a write that takes fewer bytes than
  it was given returns an error, and an error means it stopped early. \<open>out\<close> is what the
  underlying writer has received so far. Writes may fail at any time.
\<close>

locale byte_sink =
  fixes ops :: "'w snk_ops" and out :: "'w \<Rightarrow> byte list"
  assumes sink_write_byte:
    "snkWriteByte ops = Some wb \<Longrightarrow> wb w b = (e, w') \<Longrightarrow>
       out w' = (if e = None then out w @ [b] else out w)"
  and sink_write:
    "snkWrite ops w p = ((n, e), w') \<Longrightarrow>
       out w' = out w @ take n p \<and> (if e = None then n = length p else n < length p)"

text \<open>All bits handed to the writer: those written out and those still saved.\<close>

definition wbits :: "('w \<Rightarrow> byte list) \<Rightarrow> 'w bitWriter \<Rightarrow> bool list" where
  "wbits out bw = bytes_bits (out (writer bw)) @ bits (wsavedBits bw) (wsaved bw)"

lemma take_bit_word64_iff: "n < 64 \<Longrightarrow> take_bit n v = (v :: u64) \<longleftrightarrow> \<not> v \<ge> push_bit n 1"
  by (simp add: take_bit_eq_self_unat_iff not_le word_less_nat_alt unat_2p)

lemma WriteBits_unfold:
  "count \<le> 64 \<Longrightarrow> take_bit count v = v \<Longrightarrow>
   WriteBits ops v count bw =
     (if wsavedBits bw + count < 8 then
        (Inr (), bw\<lparr>wsavedBits := wsavedBits bw + count,
                    wsaved := push_bit count (wsaved bw) OR v\<rparr>)
      else
        (case writeSaved ops bw of
           (Inl e, bw1) \<Rightarrow> (Inl e, bw1)
         | (Inr _, bw1) \<Rightarrow>
             (let remainder = (count + wsavedBits bw1 + 248) mod 256;
                  x = ucast (push_bit (8 - wsavedBits bw1) (wsaved bw1) OR drop_bit remainder v)
              in (case writeByteInternal ops x bw1 of
                    (Inl e, bw2) \<Rightarrow> (Inl e, bw2)
                  | (Inr _, bw2) \<Rightarrow>
                      (Inr (), snd (writeSaved ops
                         (bw2\<lparr>wsaved := v, wsavedBits := remainder\<rparr>)))))))"
  using take_bit_word64_iff [of count v] unfolding WriteBits_def by auto

context byte_sink
begin

lemma writeByteInternal_out:
  assumes "writeByteInternal ops c bw = (r, bw')"
  shows "out (writer bw') = (case r of Inl _ \<Rightarrow> out (writer bw) | Inr _ \<Rightarrow> out (writer bw) @ [c])"
proof (cases "snkWriteByte ops")
  case (Some wb)
  with assms show ?thesis
    by (auto simp: writeByteInternal_def split: prod.splits option.splits
        dest!: sink_write_byte [OF Some])
next
  case None
  then show ?thesis
    using assms sink_write [of "writer bw" "[c]"]
    by (fastforce simp: writeByteInternal_def split: prod.splits option.splits if_splits)
qed

lemma writeByteInternal_wbits:
  assumes "writeByteInternal ops c bw = (r, bw')" and "8 \<le> wsavedBits bw"
    and "c = ucast (drop_bit (wsavedBits bw - 8) (wsaved bw))"
  shows "case r of Inl _ \<Rightarrow> wbits out bw' = wbits out bw
    | Inr _ \<Rightarrow> wbits out (bw'\<lparr>wsavedBits := wsavedBits bw' - 8\<rparr>) = wbits out bw"
proof -
  have same: "wsaved bw' = wsaved bw" "wsavedBits bw' = wsavedBits bw"
    using assms(1) by (metis snd_conv writeByteInternal_saved)+
  have "bits (wsavedBits bw) (wsaved bw) = bits 8 c @ bits (wsavedBits bw - 8) (wsaved bw)"
    using bits_append [of 8 "wsavedBits bw - 8" "wsaved bw"] assms(2,3) by (simp add: bits_ucast)
  with writeByteInternal_out [OF assms(1)] same show ?thesis
    by (auto simp: wbits_def split: sum.splits)
qed

lemma writeSaved_spec:
  "writeSaved ops bw = (r, bw') \<Longrightarrow>
     wbits out bw' = wbits out bw \<and> wsaved bw' = wsaved bw \<and> wsavedBits bw' \<le> wsavedBits bw \<and>
     (case r of Inl _ \<Rightarrow> 8 \<le> wsavedBits bw' | Inr _ \<Rightarrow> wsavedBits bw' = wsavedBits bw mod 8)"
proof (induction "wsavedBits bw" arbitrary: bw rule: less_induct)
  case less
  show ?case
  proof (cases "8 \<le> wsavedBits bw")
    case True
    let ?c = "ucast (drop_bit (wsavedBits bw - 8) (wsaved bw)) :: byte"
    obtain r1 bw1 where w: "writeByteInternal ops ?c bw = (r1, bw1)"
      by fastforce
    have same: "wsaved bw1 = wsaved bw" "wsavedBits bw1 = wsavedBits bw"
      using w by (metis snd_conv writeByteInternal_saved)+
    note eq = less.prems [unfolded writeSaved.simps [of ops bw]]
    show ?thesis
    proof (cases r1)
      case (Inl e)
      with eq True w same writeByteInternal_wbits [OF w True refl] show ?thesis by auto
    next
      case (Inr u)
      let ?bw = "bw1\<lparr>wsavedBits := wsavedBits bw1 - 8\<rparr>"
      have "wsavedBits ?bw < wsavedBits bw" using same True by simp
      moreover have "writeSaved ops ?bw = (r, bw')" using eq True w Inr by simp
      ultimately show ?thesis
        using less.hyps [of ?bw] writeByteInternal_wbits [OF w True refl] same Inr True
        by (auto simp: le_mod_geq split: sum.splits)
    qed
  next
    case False
    with less.prems show ?thesis by (auto simp: writeSaved.simps [of ops bw])
  qed
qed

text \<open>
  One call of \<open>WriteBits\<close> appends all of its bits or none of them, even when the
  underlying writer fails between two bytes: what could not be written stays saved.
\<close>

lemma WriteBits_spec:
  assumes "WriteBits ops v count bw = (r, bw')" and "count \<le> 64" and "take_bit count v = v"
    and "wsavedBits bw < 8 \<or> 8 \<le> wsavedBits bw mod 8 + count"
  shows "case r of Inl _ \<Rightarrow> wbits out bw' = wbits out bw
    | Inr _ \<Rightarrow> wbits out bw' = wbits out bw @ bits count v"
proof (cases "wsavedBits bw + count < 8")
  case True
  with assms have "r = Inr ()" "bw' = bw\<lparr>wsavedBits := wsavedBits bw + count,
      wsaved := push_bit count (wsaved bw) OR v\<rparr>"
    by (auto simp: WriteBits_unfold)
  with True assms(3) show ?thesis by (simp add: wbits_def bits_push_or)
next
  case False
  obtain r1 bw1 where w1: "writeSaved ops bw = (r1, bw1)" by fastforce
  note s1 = writeSaved_spec [OF w1]
  show ?thesis
  proof (cases r1)
    case (Inl e)
    with w1 False assms(1) WriteBits_unfold [OF assms(2,3), of ops bw] s1 show ?thesis by auto
  next
    case (Inr u)
    define k where "k = wsavedBits bw1"
    have k: "k = wsavedBits bw mod 8" "k < 8" using s1 Inr k_def by auto
    have kc: "8 \<le> k + count" using assms(4) k False by auto
    define rem where "rem = count + k - 8"
    have rem: "(count + wsavedBits bw1 + 248) mod 256 = rem"
    proof -
      have "count + wsavedBits bw1 + 248 = rem + 256" using kc by (simp add: rem_def k_def)
      moreover have "rem < 256" using assms(2) k by (simp add: rem_def)
      ultimately show ?thesis by simp
    qed
    define x :: byte where "x = ucast (push_bit (8 - k) (wsaved bw1) OR drop_bit rem v)"
    have vk: "take_bit (8 - k) (drop_bit rem v) = drop_bit rem v"
      using assms(3) kc k by (simp add: rem_def take_bit_drop_bit)
    have x: "bits 8 x @ bits rem v = bits k (wsaved bw1) @ bits count v"
      using bits_push_or [of k "8 - k" "drop_bit rem v" "wsaved bw1"] vk k
        bits_append [of "8 - k" rem v] kc
      by (simp add: x_def bits_ucast rem_def)
    obtain r2 bw2 where w2: "writeByteInternal ops x bw1 = (r2, bw2)" by fastforce
    have same: "wsaved bw2 = wsaved bw1" "wsavedBits bw2 = wsavedBits bw1"
      using w2 by (metis snd_conv writeByteInternal_saved)+
    have eq: "(r, bw') = (case writeByteInternal ops x bw1 of
                    (Inl e, bw2) \<Rightarrow> (Inl e, bw2)
                  | (Inr _, bw2) \<Rightarrow>
                      (Inr (), snd (writeSaved ops (bw2\<lparr>wsaved := v, wsavedBits := rem\<rparr>))))"
      using assms(1) False w1 Inr
      by (simp add: WriteBits_unfold [OF assms(2,3)] x_def rem k_def)
    show ?thesis
    proof (cases r2)
      case (Inl e)
      with eq w2 s1 same writeByteInternal_out [OF w2] show ?thesis by (auto simp: wbits_def)
    next
      case (Inr u)
      let ?bw = "bw2\<lparr>wsaved := v, wsavedBits := rem\<rparr>"
      obtain r3 bw3 where w3: "writeSaved ops ?bw = (r3, bw3)" by fastforce
      have "wbits out ?bw = wbits out bw @ bits count v"
        using writeByteInternal_out [OF w2] Inr s1 x by (auto simp: wbits_def k_def [symmetric])
      with eq w2 Inr w3 writeSaved_spec [OF w3] show ?thesis by simp
    qed
  qed
qed

end

text \<open>
  A writer that never fails: \<open>bytes.Buffer\<close>. Then \<open>produces out m bs x\<close> says that the
  operation \<open>m\<close> returns \<open>x\<close> and appends exactly the bits \<open>bs\<close>.
\<close>

locale reliable_sink = byte_sink +
  assumes reliable_write_byte: "snkWriteByte ops = Some wb \<Longrightarrow> fst (wb w b) = None"
  and reliable_write: "snd (fst (snkWrite ops w p)) = None"

definition produces :: "('w \<Rightarrow> byte list) \<Rightarrow> ('w bitWriter, 'a) io \<Rightarrow> bool list \<Rightarrow> 'a \<Rightarrow> bool" where
  "produces out m bs x \<longleftrightarrow> (\<forall>bw. wsavedBits bw < 8 \<longrightarrow>
     (\<exists>bw'. m bw = (Inr x, bw') \<and> wsavedBits bw' < 8 \<and> wbits out bw' = wbits out bw @ bs))"

lemma producesI:
  "(\<And>bw. wsavedBits bw < 8 \<Longrightarrow>
     \<exists>bw'. m bw = (Inr x, bw') \<and> wsavedBits bw' < 8 \<and> wbits out bw' = wbits out bw @ bs) \<Longrightarrow>
   produces out m bs x"
  by (simp add: produces_def)

lemma producesE:
  assumes "produces out m bs x" "wsavedBits bw < 8"
  obtains bw' where "m bw = (Inr x, bw')" "wsavedBits bw' < 8" "wbits out bw' = wbits out bw @ bs"
  using assms by (auto simp: produces_def)

lemma produces_ret: "produces out (ret x) [] x"
  by (simp add: produces_def)

lemma produces_bnd:
  assumes "produces out m bs x" and "produces out (f x) cs y"
  shows "produces out (bnd m f) (bs @ cs) y"
proof (rule producesI)
  fix bw :: "'a bitWriter" assume "wsavedBits bw < 8"
  from assms(1) this obtain bw1 where 1: "m bw = (Inr x, bw1)" "wsavedBits bw1 < 8"
    "wbits out bw1 = wbits out bw @ bs" by (rule producesE)
  from assms(2) 1(2) obtain bw2 where "f x bw1 = (Inr y, bw2)" "wsavedBits bw2 < 8"
    "wbits out bw2 = wbits out bw1 @ cs" by (rule producesE)
  with 1 show "\<exists>bw'. bnd m f bw = (Inr y, bw') \<and> wsavedBits bw' < 8 \<and>
      wbits out bw' = wbits out bw @ bs @ cs"
    by simp
qed

context reliable_sink
begin

lemma writeByteInternal_reliable: "fst (writeByteInternal ops c bw) = Inr ()"
proof (cases "snkWriteByte ops")
  case (Some wb)
  with reliable_write_byte [OF Some, of "writer bw" c] show ?thesis
    by (auto simp: writeByteInternal_def split: prod.splits)
next
  case None
  obtain n e w' where w: "snkWrite ops (writer bw) [c] = ((n, e), w')"
    by (metis surj_pair)
  with reliable_write [of "writer bw" "[c]"] sink_write [OF w] None show ?thesis
    by (auto simp: writeByteInternal_def split: if_splits)
qed

lemma writeSaved_reliable: "fst (writeSaved ops bw) = Inr ()"
proof (induction "wsavedBits bw" arbitrary: bw rule: less_induct)
  case less
  let ?c = "ucast (drop_bit (wsavedBits bw - 8) (wsaved bw)) :: byte"
  obtain bw1 where w: "writeByteInternal ops ?c bw = (Inr (), bw1)"
    using writeByteInternal_reliable [of ?c bw] by (metis prod.collapse)
  with less [of "bw1\<lparr>wsavedBits := wsavedBits bw1 - 8\<rparr>"] writeByteInternal_savedBits [OF w]
  show ?case by (simp add: writeSaved.simps [of ops bw])
qed

lemma WriteBits_produces:
  assumes "count \<le> 64" and "take_bit count v = v"
  shows "produces out (WriteBits ops v count) (bits count v) ()"
proof (rule producesI)
  fix bw :: "'a bitWriter" assume 8: "wsavedBits bw < 8"
  obtain r bw' where w: "WriteBits ops v count bw = (r, bw')" by fastforce
  have "r = Inr () \<and> wsavedBits bw' < 8"
  proof (cases "wsavedBits bw + count < 8")
    case True
    with w show ?thesis by (auto simp: WriteBits_unfold [OF assms])
  next
    case False
    obtain bw1 where 1: "writeSaved ops bw = (Inr (), bw1)"
      using writeSaved_reliable [of bw] by (metis prod.collapse)
    define x :: byte where "x = ucast (push_bit (8 - wsavedBits bw1) (wsaved bw1) OR
      drop_bit ((count + wsavedBits bw1 + 248) mod 256) v)"
    obtain bw2 where 2: "writeByteInternal ops x bw1 = (Inr (), bw2)"
      using writeByteInternal_reliable [of x bw1] by (metis prod.collapse)
    let ?bw = "bw2\<lparr>wsaved := v, wsavedBits := (count + wsavedBits bw1 + 248) mod 256\<rparr>"
    obtain bw3 where 3: "writeSaved ops ?bw = (Inr (), bw3)"
      using writeSaved_reliable [of ?bw] by (metis prod.collapse)
    have "(r, bw') = (Inr (), bw3)"
      using w False 1 2 3 by (simp add: WriteBits_unfold [OF assms] x_def [symmetric])
    with writeSaved_spec [OF 3] show ?thesis by simp
  qed
  with WriteBits_spec [OF w assms] 8 w show "\<exists>bw'. WriteBits ops v count bw = (Inr (), bw') \<and>
      wsavedBits bw' < 8 \<and> wbits out bw' = wbits out bw @ bits count v"
    by auto
qed

lemma WriteByte_produces: "produces out (WriteByte ops c) (bits 8 c) ()"
  using WriteBits_produces [of 8 "ucast c"]
  by (simp add: WriteByte_def bits_ucast take_bit_ucast)

lemma WriteBit_produces:
  assumes "b = 0 \<or> b = 1"
  shows "produces out (WriteBit ops b) [b = 1] ()"
  using WriteBits_produces [of 1 "ucast b"] assms by (auto simp: WriteBit_def)

lemma writeEach_spec:
  "wsavedBits bw < 8 \<Longrightarrow> \<exists>bw'. writeEach ops i p bw = ((i + length p, None), bw') \<and>
     wsavedBits bw' < 8 \<and> wbits out bw' = wbits out bw @ bytes_bits p"
proof (induction p arbitrary: i bw)
  case Nil
  then show ?case by simp
next
  case (Cons b p)
  from WriteByte_produces Cons.prems obtain bw1 where 1: "WriteByte ops b bw = (Inr (), bw1)"
    "wsavedBits bw1 < 8" "wbits out bw1 = wbits out bw @ bits 8 b" by (rule producesE)
  from Cons.IH [OF 1(2), of "Suc i"] 1 show ?case by simp
qed

lemma Write_spec:
  assumes "wsavedBits bw < 8"
  shows "\<exists>bw'. Write ops p bw = ((length p, None), bw') \<and>
     wsavedBits bw' < 8 \<and> wbits out bw' = wbits out bw @ bytes_bits p"
proof (cases "wsavedBits bw = 0")
  case True
  obtain n e w' where w: "snkWrite ops (writer bw) p = ((n, e), w')"
    by (metis surj_pair)
  with reliable_write [of "writer bw" p] sink_write [OF w] True show ?thesis
    by (simp add: Write_def wbits_def)
next
  case False
  with writeEach_spec [OF assms, of 0 p] show ?thesis by (simp add: Write_def)
qed

lemma Pad_spec:
  assumes "wsavedBits bw < 8"
  shows "\<exists>bw'. Pad ops pad bw = (Inr (), bw') \<and> wsavedBits bw' = 0 \<and>
     wbits out bw' = wbits out bw @
       (if wsavedBits bw = 0 then [] else bits (8 - wsavedBits bw) (drop_bit (wsavedBits bw) pad))"
proof (cases "wsavedBits bw = 0")
  case True
  then show ?thesis by (simp add: Pad_def)
next
  case False
  let ?k = "wsavedBits bw"
  let ?v = "ucast (drop_bit ?k pad) :: u64"
  have sv: "writeSaved ops bw = (Inr (), bw)"
    using assms by (simp add: writeSaved.simps)
  have tb: "take_bit (8 - ?k) ?v = ?v"
    by (rule bit_word_eqI)
      (auto simp: bit_take_bit_iff bit_ucast_iff bit_drop_bit_eq dest: bit_imp_le_length)
  have p: "produces out (WriteBits ops ?v (8 - ?k)) (bits (8 - ?k) ?v) ()"
    by (rule WriteBits_produces) (use tb in auto)
  from p assms obtain bw1 where
    1: "WriteBits ops ?v (8 - ?k) bw = (Inr (), bw1)" "wsavedBits bw1 < 8"
      "wbits out bw1 = wbits out bw @ bits (8 - ?k) ?v"
    by (rule producesE)
  have "length (wbits out bw1) = length (bytes_bits (out (writer bw))) + 8"
    using 1(3) assms by (simp add: wbits_def)
  then have "wsavedBits bw1 = 0"
    using 1(2) by (simp add: wbits_def) presburger
  with 1 sv False show ?thesis
    by (simp add: Pad_def wbits_def bits_ucast)
qed

end

section \<open>The interface of readers and its refinement to bit lists\<close>

text \<open>
  What \<open>io.Reader\<close> and \<open>io.ByteReader\<close> document: \<open>content\<close> is what the reader
  still has to deliver, \<open>fin\<close> the error it ends with. A read with a buffer that is not
  empty stores at least one byte or returns an error; an error comes only with or after the
  last byte. How many bytes a read stores is up to the reader.
\<close>

locale byte_source =
  fixes ops :: "'r src_ops" and content :: "'r \<Rightarrow> byte list" and fin :: "'r \<Rightarrow> goerr"
    and ok :: "'r \<Rightarrow> bool"
  assumes source_read_byte_Cons:
    "srcReadByte ops = Some rb \<Longrightarrow> ok r \<Longrightarrow> content r = b # bs \<Longrightarrow>
       \<exists>r'. rb r = (Inr b, r') \<and> ok r' \<and> content r' = bs \<and> fin r' = fin r"
  and source_read_byte_Nil:
    "srcReadByte ops = Some rb \<Longrightarrow> ok r \<Longrightarrow> content r = [] \<Longrightarrow>
       \<exists>r'. rb r = (Inl (fin r), r') \<and> ok r' \<and> content r' = [] \<and> fin r' = fin r"
  and source_read:
    "ok r \<Longrightarrow> 0 < n \<Longrightarrow> \<exists>k e r'. srcRead ops n r = ((take k (content r), e), r') \<and>
       k \<le> n \<and> k \<le> length (content r) \<and> ok r' \<and> content r' = drop k (content r) \<and> fin r' = fin r \<and>
       (case e of None \<Rightarrow> 0 < k | Some x \<Rightarrow> x = fin r \<and> k = length (content r) \<and> k < n)"

text \<open>All bits a bit reader will deliver: the saved ones and those of the underlying reader.\<close>

definition rbits :: "('r \<Rightarrow> byte list) \<Rightarrow> 'r bitReader \<Rightarrow> bool list" where
  "rbits content br = bits (rsavedBits br) (rsaved br) @ bytes_bits (content (reader br))"

text \<open>\<open>rok\<close>: the reader is usable, and \<open>savedBits\<close> stays far below what a byte can hold.\<close>

definition rok :: "('r \<Rightarrow> bool) \<Rightarrow> 'r bitReader \<Rightarrow> bool" where
  "rok ok br \<longleftrightarrow> ok (reader br) \<and> rsavedBits br < 64"

text \<open>
  \<open>consumes \<dots> m bs x\<close>: from any reader whose next bits are \<open>bs\<close>, the operation
  \<open>m\<close> returns \<open>x\<close> and leaves the reader right after them.
\<close>

definition consumes ::
  "('r \<Rightarrow> byte list) \<Rightarrow> ('r \<Rightarrow> goerr) \<Rightarrow> ('r \<Rightarrow> bool) \<Rightarrow> ('r bitReader, 'a) io \<Rightarrow> bool list \<Rightarrow> 'a \<Rightarrow> bool" where
  "consumes content fin ok m bs x \<longleftrightarrow> (\<forall>br rest. rok ok br \<and> rbits content br = bs @ rest \<longrightarrow>
     (\<exists>br'. m br = (Inr x, br') \<and> rok ok br' \<and> rbits content br' = rest \<and>
            fin (reader br') = fin (reader br)))"

lemma consumesI:
  "(\<And>br rest. rok ok br \<Longrightarrow> rbits content br = bs @ rest \<Longrightarrow>
     \<exists>br'. m br = (Inr x, br') \<and> rok ok br' \<and> rbits content br' = rest \<and>
            fin (reader br') = fin (reader br)) \<Longrightarrow> consumes content fin ok m bs x"
  by (simp add: consumes_def)

lemma consumesE:
  assumes "consumes content fin ok m bs x" "rok ok br" "rbits content br = bs @ rest"
  obtains br' where "m br = (Inr x, br')" "rok ok br'" "rbits content br' = rest"
    "fin (reader br') = fin (reader br)"
  using assms by (auto simp: consumes_def)

lemma consumes_ret: "consumes content fin ok (ret x) [] x"
  by (simp add: consumes_def)

lemma consumes_bnd:
  assumes "consumes content fin ok m bs x" and "consumes content fin ok (f x) cs y"
  shows "consumes content fin ok (bnd m f) (bs @ cs) y"
proof (rule consumesI)
  fix br rest assume "rok ok br" "rbits content br = (bs @ cs) @ rest"
  then obtain br1 where 1: "m br = (Inr x, br1)" "rok ok br1" "rbits content br1 = cs @ rest"
    "fin (reader br1) = fin (reader br)"
    using assms(1) by (metis append_assoc consumesE)
  from assms(2) 1(2,3) obtain br2 where "f x br1 = (Inr y, br2)" "rok ok br2"
    "rbits content br2 = rest" "fin (reader br2) = fin (reader br1)" by (rule consumesE)
  with 1 show "\<exists>br'. bnd m f br = (Inr y, br') \<and> rok ok br' \<and> rbits content br' = rest \<and>
      fin (reader br') = fin (reader br)"
    by simp
qed

context byte_source
begin

lemma readByteInternal_Cons:
  assumes "ok (reader br)" "content (reader br) = b # bs"
  obtains r' where "readByteInternal ops br = (Inr b, br\<lparr>reader := r'\<rparr>)"
    "ok r'" "content r' = bs" "fin r' = fin (reader br)"
proof (cases "srcReadByte ops")
  case (Some rb)
  from source_read_byte_Cons [OF Some assms] Some that show ?thesis
    by (auto simp: readByteInternal_def)
next
  case None
  from source_read [OF assms(1), of 1] assms(2) None that show ?thesis
    by (fastforce simp: readByteInternal_def le_Suc_eq split: option.splits)
qed

lemma readByteInternal_Nil:
  assumes "ok (reader br)" "content (reader br) = []"
  obtains r' where "readByteInternal ops br = (Inl (fin (reader br)), br\<lparr>reader := r'\<rparr>)"
    "ok r'" "content r' = []" "fin r' = fin (reader br)"
proof (cases "srcReadByte ops")
  case (Some rb)
  from source_read_byte_Nil [OF Some assms] Some that show ?thesis
    by (auto simp: readByteInternal_def)
next
  case None
  from source_read [OF assms(1), of 1] assms(2) None that show ?thesis
    by (fastforce simp: readByteInternal_def split: option.splits)
qed

lemma readNext_Cons:
  assumes "rok ok br" "content (reader br) = b # bs" "rsavedBits br \<le> 56"
  obtains br' where "readNext ops br = (Inr (), br')" "ok (reader br')"
    "rbits content br' = rbits content br" "fin (reader br') = fin (reader br)"
    "content (reader br') = bs" "rsavedBits br' = rsavedBits br + 8"
proof -
  from assms(1) have "ok (reader br)" by (simp add: rok_def)
  from this assms(2) obtain r' where r: "readByteInternal ops br = (Inr b, br\<lparr>reader := r'\<rparr>)"
    "ok r'" "content r' = bs" "fin r' = fin (reader br)" by (rule readByteInternal_Cons)
  let ?w = "push_bit 8 (rsaved br) OR ucast b"
  have "bits (rsavedBits br + 8) ?w = bits (rsavedBits br) (rsaved br) @ bits 8 b"
    using assms(3) by (simp add: bits_push_or take_bit_ucast bits_ucast)
  with r assms(2) show ?thesis
    by (intro that [of "br\<lparr>reader := r', rsaved := ?w, rsavedBits := rsavedBits br + 8\<rparr>"])
      (simp_all add: readNext_def rbits_def)
qed

lemma readNext_Nil:
  assumes "rok ok br" "content (reader br) = []"
  obtains br' where "readNext ops br = (Inl (fin (reader br)), br')" "rok ok br'"
    "rbits content br' = rbits content br" "fin (reader br') = fin (reader br)"
    "content (reader br') = []" "rsavedBits br' = rsavedBits br"
proof -
  from assms(1) have "ok (reader br)" by (simp add: rok_def)
  from this assms(2) obtain r' where r: "readByteInternal ops br = (Inl (fin (reader br)), br\<lparr>reader := r'\<rparr>)"
    "ok r'" "content r' = []" "fin r' = fin (reader br)" by (rule readByteInternal_Nil)
  with assms show ?thesis
    by (intro that [of "br\<lparr>reader := r'\<rparr>"]) (simp_all add: readNext_def rbits_def rok_def)
qed

lemma readWhole_spec:
  assumes "ok (reader br)" "rsavedBits br < 64 \<or> count \<le> rsavedBits br" "count \<le> 64"
  obtains r br' where "readWhole ops count br = (r, br')" "ok (reader br')"
    "rbits content br' = rbits content br" "fin (reader br') = fin (reader br)"
    "rsavedBits br \<le> rsavedBits br'"
    "case r of Inl e \<Rightarrow> e = fin (reader br) \<and> length (rbits content br) < count \<and> rsavedBits br' < 64
     | Inr _ \<Rightarrow> count < rsavedBits br' + 8 \<and>
         (rsavedBits br' = rsavedBits br \<or> rsavedBits br' \<le> count)"
  using assms
proof (induction "count - rsavedBits br" arbitrary: br thesis rule: less_induct)
  case less
  show ?case
  proof (cases "rsavedBits br + 8 \<le> count")
    case False
    with less.prems show ?thesis
      by (intro less.prems(1) [of "Inr ()" br]) (simp_all add: readWhole.simps)
  next
    case True
    with less.prems have ro: "rok ok br" by (auto simp: rok_def)
    show ?thesis
    proof (cases "content (reader br)")
      case Nil
      from ro Nil obtain br1 where 1: "readNext ops br = (Inl (fin (reader br)), br1)" "rok ok br1"
        "rbits content br1 = rbits content br" "fin (reader br1) = fin (reader br)"
        "content (reader br1) = []" "rsavedBits br1 = rsavedBits br" by (rule readNext_Nil)
      with True Nil show ?thesis
        by (intro less.prems(1) [of "Inl (fin (reader br))" br1])
          (simp_all add: readWhole.simps rok_def rbits_def)
    next
      case (Cons b bs)
      have "rsavedBits br \<le> 56" using True less.prems(4) by simp
      from ro Cons this obtain br1 where 1: "readNext ops br = (Inr (), br1)" "ok (reader br1)"
        "rbits content br1 = rbits content br" "fin (reader br1) = fin (reader br)"
        "content (reader br1) = bs" "rsavedBits br1 = rsavedBits br + 8" by (rule readNext_Cons)
      have "count - rsavedBits br1 < count - rsavedBits br" using 1 True by simp
      moreover have "rsavedBits br1 < 64 \<or> count \<le> rsavedBits br1" using less.prems(4) by auto
      ultimately obtain r br2 where 2: "readWhole ops count br1 = (r, br2)" "ok (reader br2)"
        "rbits content br2 = rbits content br1" "fin (reader br2) = fin (reader br1)"
        "rsavedBits br1 \<le> rsavedBits br2"
        "case r of Inl e \<Rightarrow> e = fin (reader br1) \<and> length (rbits content br1) < count \<and> rsavedBits br2 < 64
         | Inr _ \<Rightarrow> count < rsavedBits br2 + 8 \<and>
             (rsavedBits br2 = rsavedBits br1 \<or> rsavedBits br2 \<le> count)"
        using less.hyps [of br1] 1(2) less.prems(4) by blast
      have "readWhole ops count br = (r, br2)"
        using True 1 2 by (simp add: readWhole.simps [of ops count br])
      with 1 2 True show ?thesis
        by (intro less.prems(1) [of r br2]) (auto split: sum.splits)
    qed
  qed
qed

lemma join_value:
  fixes s :: u64 and b :: byte
  assumes "k + m \<le> 64" "m < 8"
  shows "push_bit m (s AND mask k) OR drop_bit (8 - m) (ucast b) =
    unbits (bits k s @ bits m (drop_bit (8 - m) b))"
proof -
  let ?d = "drop_bit (8 - m) (ucast b) :: u64"
  let ?v = "push_bit m (take_bit k s) OR ?d"
  have d: "bits m ?d = bits m (drop_bit (8 - m) b)" "take_bit m ?d = ?d"
  proof -
    show "bits m ?d = bits m (drop_bit (8 - m) b)"
      by (rule bits_eqI) (use assms(2) in \<open>auto simp: bit_drop_bit_eq bit_ucast_iff\<close>)
    have "i < m" if "bit b (8 - m + i)" for i
      using bit_imp_le_length [OF that] assms(2) by simp
    then show "take_bit m ?d = ?d"
      by (intro bit_word_eqI) (auto simp: bit_drop_bit_eq bit_ucast_iff bit_take_bit_iff)
  qed
  have "bits (k + m) ?v = bits k s @ bits m (drop_bit (8 - m) b)"
    using bits_push_or [of k m ?d "take_bit k s"] assms(1) d by (simp add: bits_take_bit)
  moreover have "take_bit (k + m) ?v = ?v"
    using d(2) by (auto simp: bit_eq_iff bit_take_bit_iff bit_or_iff bit_push_bit_iff)
  ultimately show ?thesis
    by (metis unbits_bits take_bit_eq_mask)
qed

lemma mask64: "drop_bit (64 - n) (NOT 0 :: u64) = mask (min n 64)"
  by (rule bit_word_eqI) (auto simp: bit_drop_bit_eq bit_not_iff bit_mask_iff)

lemma ReadBits_spec:
  assumes "rok ok br" "count \<le> 64"
  shows "if count \<le> length (rbits content br) then
      (\<exists>br'. ReadBits ops count br = (Inr (unbits (take count (rbits content br))), br') \<and>
         rok ok br' \<and> rbits content br' = drop count (rbits content br) \<and>
         fin (reader br') = fin (reader br))
    else
      (\<exists>br'. ReadBits ops count br = (Inl (fin (reader br)), br') \<and>
         rok ok br' \<and> rbits content br' = rbits content br \<and> fin (reader br') = fin (reader br))"
proof -
  have pre: "ok (reader br)" "rsavedBits br < 64 \<or> count \<le> rsavedBits br"
    using assms by (auto simp: rok_def)
  from pre assms(2) obtain r br1 where 1: "readWhole ops count br = (r, br1)" "ok (reader br1)"
    "rbits content br1 = rbits content br" "fin (reader br1) = fin (reader br)"
    "rsavedBits br \<le> rsavedBits br1"
    "case r of Inl e \<Rightarrow> e = fin (reader br) \<and> length (rbits content br) < count \<and> rsavedBits br1 < 64
     | Inr _ \<Rightarrow> count < rsavedBits br1 + 8 \<and>
         (rsavedBits br1 = rsavedBits br \<or> rsavedBits br1 \<le> count)"
    by (rule readWhole_spec)
  show ?thesis
  proof (cases r)
    case (Inl e)
    with 1 assms show ?thesis by (simp add: ReadBits_def rok_def)
  next
    case (Inr u)
    let ?k = "rsavedBits br1" and ?s = "rsaved br1"
    show ?thesis
    proof (cases "count \<le> ?k")
      case True
      have v: "drop_bit (?k - count) ?s AND mask count = unbits (take count (rbits content br))"
        using True 1(3) by (simp add: rbits_def [of content br1, unfolded 1(3)] take_bits take_bit_eq_mask)
      have "rbits content (br1\<lparr>rsavedBits := ?k - count\<rparr>) = drop count (rbits content br)"
        using True 1(3) by (simp add: rbits_def [of content br1, unfolded 1(3)] drop_bits)
          (simp add: rbits_def)
      moreover have "count \<le> length (rbits content br)"
        using True by (simp add: rbits_def [of content br1, unfolded 1(3)])
      moreover have "?k - count < 64"
        using 1(6) Inr assms by (auto simp: rok_def)
      ultimately show ?thesis
        using 1 Inr True assms v by (simp add: ReadBits_def mask64 rok_def)
    next
      case False
      then have k: "?k < count" and rem: "count - ?k < 8" using 1(6) Inr by auto
      have rb: "rbits content br = bits ?k ?s @ bytes_bits (content (reader br1))"
        using 1(3) by (simp add: rbits_def)
      show ?thesis
      proof (cases "content (reader br1)")
        case Nil
        from 1(2) Nil obtain r' where r: "readByteInternal ops br1 = (Inl (fin (reader br1)), br1\<lparr>reader := r'\<rparr>)"
          "ok r'" "content r' = []" "fin r' = fin (reader br1)" by (rule readByteInternal_Nil)
        with 1 Inr k rb Nil assms show ?thesis
          by (simp add: ReadBits_def Let_def rok_def) (simp add: rbits_def)
      next
        case (Cons b bs)
        from 1(2) Cons obtain r' where r: "readByteInternal ops br1 = (Inr b, br1\<lparr>reader := r'\<rparr>)"
          "ok r'" "content r' = bs" "fin r' = fin (reader br1)" by (rule readByteInternal_Cons)
        let ?m = "count - ?k"
        let ?v = "push_bit ?m (?s AND mask ?k) OR drop_bit (8 - ?m) (ucast b) :: u64"
        have tk: "take count (rbits content br) = bits ?k ?s @ bits ?m (drop_bit (8 - ?m) b)"
          using k rem rb Cons by (simp add: take_bits)
        have dr: "drop count (rbits content br) = bits (8 - ?m) b @ bytes_bits bs"
          using k rem rb Cons by (simp add: drop_bits)
        have "?v = unbits (take count (rbits content br))"
          unfolding tk using join_value [of ?k ?m ?s b] k rem assms(2) by simp
        moreover have "rbits content (br1\<lparr>reader := r', rsaved := ucast b, rsavedBits := 8 - ?m\<rparr>)
            = drop count (rbits content br)"
          using dr r(3) by (simp add: rbits_def bits_ucast)
        moreover have "count \<le> length (rbits content br)" using k rem rb Cons by simp
        ultimately show ?thesis
          using 1 Inr k r assms by (simp add: ReadBits_def Let_def mask64 rok_def min_absorb1)
      qed
    qed
  qed
qed

lemma ReadBits_consumes:
  assumes "length bs = count" "count \<le> 64"
  shows "consumes content fin ok (ReadBits ops count) bs (unbits bs)"
proof (rule consumesI)
  fix br rest assume "rok ok br" "rbits content br = bs @ rest"
  with ReadBits_spec [OF this(1) assms(2)] assms(1)
  show "\<exists>br'. ReadBits ops count br = (Inr (unbits bs), br') \<and> rok ok br' \<and>
      rbits content br' = rest \<and> fin (reader br') = fin (reader br)"
    by simp
qed

lemma ReadBits_value_consumes:
  assumes "count \<le> 64" "take_bit count v = v"
  shows "consumes content fin ok (ReadBits ops count) (bits count v) v"
  using ReadBits_consumes [of "bits count v" count] assms by simp

lemma ReadBit_spec:
  assumes "rok ok br"
  shows "case rbits content br of
      b # bs \<Rightarrow> (\<exists>br'. ReadBit ops br = (Inr (of_bool b), br') \<and> rok ok br' \<and>
         rbits content br' = bs \<and> fin (reader br') = fin (reader br))
    | [] \<Rightarrow> (\<exists>br'. ReadBit ops br = (Inl (fin (reader br)), br') \<and> rok ok br' \<and>
         rbits content br' = [] \<and> fin (reader br') = fin (reader br))"
proof -
  have bit: "rbits content br0 = bit (rsaved br0) (rsavedBits br0 - 1) #
        rbits content (br0\<lparr>rsavedBits := rsavedBits br0 - 1\<rparr>)" if "rsavedBits br0 > 0" for br0
    using that by (cases "rsavedBits br0") (simp_all add: rbits_def bits_Suc)
  have v: "ucast (drop_bit n w) AND 1 = (of_bool (bit w n) :: byte)" for n and w :: u64
    by (rule bit_word_eqI)
      (auto simp: bit_and_iff bit_1_iff bit_ucast_iff bit_drop_bit_eq, metis add.right_neutral gr0I)
  show ?thesis
  proof (cases "rsavedBits br > 0")
    case True
    with bit [OF True] assms show ?thesis by (auto simp: ReadBit_def v rok_def)
  next
    case False
    show ?thesis
    proof (cases "content (reader br)")
      case Nil
      from assms Nil obtain br1 where "readNext ops br = (Inl (fin (reader br)), br1)" "rok ok br1"
        "rbits content br1 = rbits content br" "fin (reader br1) = fin (reader br)"
        "content (reader br1) = []" "rsavedBits br1 = rsavedBits br" by (rule readNext_Nil)
      with False Nil show ?thesis by (simp add: ReadBit_def rbits_def)
    next
      case (Cons b bs)
      have "rsavedBits br \<le> 56" using False by simp
      from assms Cons this obtain br1 where 1: "readNext ops br = (Inr (), br1)" "ok (reader br1)"
        "rbits content br1 = rbits content br" "fin (reader br1) = fin (reader br)"
        "content (reader br1) = bs" "rsavedBits br1 = rsavedBits br + 8" by (rule readNext_Cons)
      with False bit [of br1] show ?thesis by (simp add: ReadBit_def v rok_def)
    qed
  qed
qed

lemma ReadBit_consumes: "consumes content fin ok (ReadBit ops) [b] (of_bool b)"
  by (rule consumesI) (use ReadBit_spec in fastforce)

lemma ReadBit_end:
  assumes "rok ok br" "rbits content br = []"
  obtains br' where "ReadBit ops br = (Inl (fin (reader br)), br')" "rok ok br'"
    "rbits content br' = []" "fin (reader br') = fin (reader br)"
  using ReadBit_spec [OF assms(1)] assms(2) by auto

lemma ReadByte_spec:
  assumes "rok ok br"
  shows "if 8 \<le> length (rbits content br) then
      (\<exists>br'. ReadByte ops br = (Inr (unbits (take 8 (rbits content br))), br') \<and>
         rok ok br' \<and> rbits content br' = drop 8 (rbits content br) \<and>
         fin (reader br') = fin (reader br))
    else
      (\<exists>br'. ReadByte ops br = (Inl (fin (reader br)), br') \<and>
         rok ok br' \<and> rbits content br' = rbits content br \<and> fin (reader br') = fin (reader br))"
proof (cases "rsavedBits br = 0")
  case True
  have ok: "ok (reader br)" using assms by (simp add: rok_def)
  show ?thesis
  proof (cases "content (reader br)")
    case Nil
    with ok obtain r' where "readByteInternal ops br = (Inl (fin (reader br)), br\<lparr>reader := r'\<rparr>)"
      "ok r'" "content r' = []" "fin r' = fin (reader br)" by (rule readByteInternal_Nil)
    with True Nil show ?thesis by (simp add: ReadByte_def rbits_def rok_def)
  next
    case (Cons b bs)
    with ok obtain r' where "readByteInternal ops br = (Inr b, br\<lparr>reader := r'\<rparr>)"
      "ok r'" "content r' = bs" "fin r' = fin (reader br)" by (rule readByteInternal_Cons)
    with True Cons show ?thesis
      by (simp add: ReadByte_def rbits_def rok_def take_bit_length_eq [where 'a = 8, simplified])
  qed
next
  case False
  have "ucast (unbits l :: u64) = (unbits l :: byte)" if "length l = 8" for l
  proof (rule bits_inj [where n = 8])
    show "bits 8 (ucast (unbits l :: u64) :: byte) = bits 8 (unbits l :: byte)"
      using that by (simp add: bits_ucast bits_unbits)
  qed (simp_all add: take_bit_length_eq [where 'a = 8, simplified])
  with False ReadBits_spec [OF assms, of 8] show ?thesis
    by (auto simp: ReadByte_def split: if_splits)
qed

lemma readEach_spec:
  assumes "rok ok br"
  obtains e br' k where "readEach ops n p br = ((p @ take k (bits_bytes (rbits content br)), e), br')"
    "k \<le> n" "k \<le> length (bits_bytes (rbits content br))" "rok ok br'"
    "rbits content br' = drop (8 * k) (rbits content br)" "fin (reader br') = fin (reader br)"
    "case e of None \<Rightarrow> k = n
      | Some x \<Rightarrow> x = fin (reader br) \<and> k = length (bits_bytes (rbits content br)) \<and> k < n"
  using assms
proof (induction n arbitrary: p br thesis)
  case 0
  show ?case by (rule "0.prems"(1) [of 0 None br]) (simp_all add: "0.prems"(2))
next
  case (Suc n)
  let ?r = "rbits content br"
  show ?case
  proof (cases "8 \<le> length ?r")
    case False
    with ReadByte_spec [OF Suc.prems(2)] obtain br1 where "ReadByte ops br = (Inl (fin (reader br)), br1)"
      "rok ok br1" "rbits content br1 = ?r" "fin (reader br1) = fin (reader br)" by auto
    with False show ?thesis
      by (intro Suc.prems(1) [of 0 "Some (fin (reader br))" br1]) simp_all
  next
    case True
    with ReadByte_spec [OF Suc.prems(2)] obtain br1 where 1:
      "ReadByte ops br = (Inr (unbits (take 8 ?r)), br1)" "rok ok br1"
      "rbits content br1 = drop 8 ?r" "fin (reader br1) = fin (reader br)" by auto
    have bb: "bits_bytes ?r = unbits (take 8 ?r) # bits_bytes (drop 8 ?r)"
      using True by (simp add: bits_bytes.simps [of ?r])
    obtain e br2 k where 2:
      "readEach ops n (p @ [unbits (take 8 ?r)]) br1 =
         (((p @ [unbits (take 8 ?r)]) @ take k (bits_bytes (rbits content br1)), e), br2)"
      "k \<le> n" "k \<le> length (bits_bytes (rbits content br1))" "rok ok br2"
      "rbits content br2 = drop (8 * k) (rbits content br1)" "fin (reader br2) = fin (reader br1)"
      "case e of None \<Rightarrow> k = n
        | Some x \<Rightarrow> x = fin (reader br1) \<and> k = length (bits_bytes (rbits content br1)) \<and> k < n"
      by (rule Suc.IH [OF _ 1(2)])
    have "readEach ops (Suc n) p br = ((p @ take (Suc k) (bits_bytes ?r), e), br2)"
      using 1(1,3) 2(1) bb by simp
    moreover have "rbits content br2 = drop (8 * Suc k) ?r"
      using 1(3) 2(5) by (simp add: add.commute)
    moreover have "case e of None \<Rightarrow> Suc k = Suc n
        | Some x \<Rightarrow> x = fin (reader br) \<and> Suc k = length (bits_bytes ?r) \<and> Suc k < Suc n"
      using 2(7) 1(3,4) bb by (cases e) simp_all
    ultimately show ?thesis
      using 1(3,4) 2(2,3,4,6) bb by (intro Suc.prems(1) [of "Suc k" e br2]) simp_all
  qed
qed

text \<open>
  A bit reader read byte by byte is again a source of bytes: the whole bytes of its bits,
  whatever its alignment. The bits short of a byte at the end stay where they are.
\<close>

lemma br_source:
  "byte_source (br_ops ops) (\<lambda>br. bits_bytes (rbits content br)) (\<lambda>br. fin (reader br))
     (\<lambda>br. rok ok br \<and> tail_bits (rbits content br) = left)"
proof
  fix rb br b bs
  assume rb: "srcReadByte (br_ops ops) = Some rb"
    and br: "rok ok br \<and> tail_bits (rbits content br) = left"
  then have eq: "rb = ReadByte ops" by (simp add: br_ops_def)
  note spec = ReadByte_spec [OF conjunct1 [OF br]]
  let ?r = "rbits content br"
  { assume c: "bits_bytes ?r = b # bs"
    then have 8: "8 \<le> length ?r" by (metis bits_bytes_short list.distinct(1) not_le)
    with c have "unbits (take 8 ?r) = b" "bits_bytes (drop 8 ?r) = bs"
      by (simp_all add: bits_bytes.simps [of ?r])
    moreover have "tail_bits (drop 8 ?r) = left" using tail_bits_drop [of 1 ?r] 8 br by simp
    ultimately show "\<exists>br'. rb br = (Inr b, br') \<and> (rok ok br' \<and> tail_bits (rbits content br') = left) \<and>
        bits_bytes (rbits content br') = bs \<and> fin (reader br') = fin (reader br)"
      using spec 8 eq by auto }
  { assume "bits_bytes ?r = []"
    then have "\<not> 8 \<le> length ?r" by (simp add: bits_bytes.simps [of ?r] split: if_splits)
    with spec eq br show "\<exists>br'. rb br = (Inl (fin (reader br)), br') \<and>
        (rok ok br' \<and> tail_bits (rbits content br') = left) \<and>
        bits_bytes (rbits content br') = [] \<and> fin (reader br') = fin (reader br)"
      by auto }
next
  fix br n assume "rok ok br \<and> tail_bits (rbits content br) = left" and n: "(0::nat) < n"
  then have br: "rok ok br" and left: "tail_bits (rbits content br) = left" by auto
  let ?c = "bits_bytes (rbits content br)"
  show "\<exists>k e br'. srcRead (br_ops ops) n br = ((take k ?c, e), br') \<and> k \<le> n \<and> k \<le> length ?c \<and>
      (rok ok br' \<and> tail_bits (rbits content br') = left) \<and>
      bits_bytes (rbits content br') = drop k ?c \<and> fin (reader br') = fin (reader br) \<and>
      (case e of None \<Rightarrow> 0 < k | Some x \<Rightarrow> x = fin (reader br) \<and> k = length ?c \<and> k < n)"
  proof (cases "rsavedBits br = 0")
    case True
    have ok: "ok (reader br)" using br by (simp add: rok_def)
    have c: "bits_bytes (rbits content br) = content (reader br)"
      using True by (simp add: rbits_def)
    from source_read [OF ok n] obtain k e r' where "srcRead ops n (reader br) = ((take k ?c, e), r')"
      "k \<le> n" "k \<le> length ?c" "ok r'" "content r' = drop k ?c" "fin r' = fin (reader br)"
      "case e of None \<Rightarrow> 0 < k | Some x \<Rightarrow> x = fin (reader br) \<and> k = length ?c \<and> k < n"
      unfolding c by blast
    with True show ?thesis
      by (intro exI [of _ k] exI [of _ e] exI [of _ "br\<lparr>reader := r'\<rparr>"])
        (use left in \<open>simp add: br_ops_def Read_def rbits_def rok_def tail_bits_def\<close>)
  next
    case False
    from br obtain e br' k where "readEach ops n [] br = (([] @ take k ?c, e), br')"
      "k \<le> n" "k \<le> length ?c" "rok ok br'" "rbits content br' = drop (8 * k) (rbits content br)"
      "fin (reader br') = fin (reader br)"
      "case e of None \<Rightarrow> k = n | Some x \<Rightarrow> x = fin (reader br) \<and> k = length ?c \<and> k < n"
      by (rule readEach_spec)
    moreover from this have "8 * k \<le> length (rbits content br)"
      by (simp add: length_bits_bytes)
    ultimately show ?thesis
      using False n left by (intro exI [of _ k] exI [of _ e] exI [of _ br'])
        (auto simp: br_ops_def Read_def bits_bytes_drop tail_bits_drop split: option.splits)
  qed
qed

end

end
