(* ===== verification/StdIO.thy ===== *)
theory StdIO
  imports BitIO
begin

text \<open>
  The parts of Go's standard library the codecs use around the bit readers and writers:
  \<open>bytes.Buffer\<close> and \<open>bytes.Reader\<close>, \<open>io.LimitedReader\<close>, \<open>io.ReadFull\<close> and
  \<open>io.Copy\<close> from an in-memory reader. They are the instances of the interfaces of
  \<open>BitIO\<close>.
\<close>

section \<open>Sinks\<close>

text \<open>\<open>bytes.Buffer\<close> as a writer: it is an \<open>io.ByteWriter\<close> and never fails.\<close>

definition buf_ops :: "byte list snk_ops" where
  "buf_ops = \<lparr>snkWriteByte = Some (\<lambda>w b. (None, w @ [b])),
              snkWrite = (\<lambda>w p. ((length p, None), w @ p))\<rparr>"

text \<open>
  A writer whose successive calls succeed or fail as a script says; it is an
  \<open>io.ByteWriter\<close> too. It stands for a stream with transient errors.
\<close>

fun script_write :: "byte list \<Rightarrow> byte list \<times> bool list \<Rightarrow> goerr option \<times> (byte list \<times> bool list)" where
  "script_write p (w, []) = (None, (w @ p, []))"
| "script_write p (w, True # s) = (None, (w @ p, s))"
| "script_write p (w, False # s) = (Some ErrShortWrite, (w, s))"

definition script_ops :: "(byte list \<times> bool list) snk_ops" where
  "script_ops = \<lparr>snkWriteByte = Some (\<lambda>w b. script_write [b] w),
     snkWrite = (\<lambda>w p. if p = [] then ((0, None), w) else
       (case script_write p w of (None, w') \<Rightarrow> ((length p, None), w')
                               | (Some e, w') \<Rightarrow> ((0, Some e), w')))\<rparr>"

section \<open>Sources\<close>

text \<open>
  A reader that delivers the bytes of a list and then an error, over and over: with the
  error \<open>EOF\<close> it is \<open>bytes.Reader\<close> or \<open>bytes.Buffer\<close>, with another one a stream that
  breaks.
\<close>

type_synonym source = "byte list \<times> goerr"

fun source_byte :: "(source, byte) io" where
  "source_byte ([], e) = (Inl e, ([], e))"
| "source_byte (b # bs, e) = (Inr b, (bs, e))"

definition source_read_n :: "nat \<Rightarrow> source \<Rightarrow> (byte list \<times> goerr option) \<times> source" where
  "source_read_n n s =
     (if fst s = [] then (([], Some (snd s)), s)
      else ((take n (fst s), None), (drop n (fst s), snd s)))"

definition source_ops :: "source src_ops" where
  "source_ops = \<lparr>srcReadByte = Some source_byte, srcRead = source_read_n\<rparr>"

section \<open>\<open>io.LimitedReader\<close>\<close>

record 'r limitedReader =
  limR :: 'r
  limN :: int

definition limRead :: "'r src_ops \<Rightarrow> nat \<Rightarrow> 'r limitedReader \<Rightarrow> (byte list \<times> goerr option) \<times> 'r limitedReader" where
  "limRead ops n l =
     (if limN l \<le> 0 then (([], Some EOF), l)
      else
        (case srcRead ops (if limN l < int n then nat (limN l) else n) (limR l) of ((p, e), r') \<Rightarrow>
           ((p, e), l\<lparr>limR := r', limN := limN l - int (length p)\<rparr>)))"

definition lim_ops :: "'r src_ops \<Rightarrow> 'r limitedReader src_ops" where
  "lim_ops ops = \<lparr>srcReadByte = None, srcRead = limRead ops\<rparr>"

definition lim_content :: "('r \<Rightarrow> byte list) \<Rightarrow> 'r limitedReader \<Rightarrow> byte list" where
  "lim_content content l = take (nat (limN l)) (content (limR l))"

definition lim_fin :: "('r \<Rightarrow> byte list) \<Rightarrow> ('r \<Rightarrow> goerr) \<Rightarrow> 'r limitedReader \<Rightarrow> goerr" where
  "lim_fin content fin l =
     (if nat (limN l) \<le> length (content (limR l)) then EOF else fin (limR l))"

section \<open>\<open>io.ReadFull\<close> and \<open>io.Copy\<close>\<close>

text \<open>
  \<open>io.ReadFull\<close> reads until the buffer is full or an error comes. A reader that returns
  no byte and no error would keep it spinning; the outcome is then \<open>Diverge\<close>.
\<close>

function readFullLoop :: "'r src_ops \<Rightarrow> nat \<Rightarrow> byte list \<Rightarrow> 'r \<Rightarrow> (byte list \<times> goerr option) \<times> 'r" where
  "readFullLoop ops n acc r =
     (if n = 0 then ((acc, None), r)
      else (case srcRead ops n r of ((p, e), r') \<Rightarrow>
        (case e of
           Some e \<Rightarrow> ((acc @ p, Some e), r')
         | None \<Rightarrow> if p = [] then ((acc, Some Diverge), r')
                   else readFullLoop ops (n - length p) (acc @ p) r')))"
  by pat_completeness auto
termination
  by (relation "measure (\<lambda>(ops, n, acc, r). n)") auto

declare readFullLoop.simps [simp del]

definition ReadFull :: "'r src_ops \<Rightarrow> nat \<Rightarrow> 'r \<Rightarrow> (byte list \<times> goerr option) \<times> 'r" where
  "ReadFull ops n r =
     (case readFullLoop ops n [] r of ((p, e), r') \<Rightarrow>
        ((p, if n \<le> length p then None
             else if p \<noteq> [] \<and> e = Some EOF then Some ErrUnexpectedEOF
             else e), r'))"

text \<open>
  \<open>io.Copy\<close> from a \<open>bytes.Reader\<close> or \<open>bytes.Buffer\<close>: their \<open>WriteTo\<close> hands
  everything to a single call of \<open>Write\<close>, the parameter \<open>wr\<close>.
\<close>

definition copyTo :: "(byte list \<Rightarrow> 'w \<Rightarrow> (nat \<times> goerr option) \<times> 'w) \<Rightarrow> byte list \<Rightarrow> 'w \<Rightarrow> (nat \<times> goerr option) \<times> 'w" where
  "copyTo wr bs w =
     (if bs = [] then ((0, None), w)
      else (case wr bs w of ((m, e), w') \<Rightarrow>
        if m > length bs then ((m, Some (Panic ''invalid Write count'')), w')
        else ((m, if e = None \<and> m \<noteq> length bs then Some ErrShortWrite else e), w')))"

section \<open>The instances satisfy the interfaces\<close>

interpretation buf: reliable_sink buf_ops "\<lambda>w. w"
  by unfold_locales (auto simp: buf_ops_def)

lemma script_write_out:
  "script_write p w = (e, w') \<Longrightarrow> fst w' = (if e = None then fst w @ p else fst w)"
  by (induction p w rule: script_write.induct) auto

interpretation script: byte_sink script_ops fst
  by unfold_locales
    (auto simp: script_ops_def dest: script_write_out split: if_splits prod.splits option.splits)

interpretation src: byte_source source_ops fst snd "\<lambda>_. True"
proof
  fix rb and r :: source and b bs
  assume "srcReadByte source_ops = Some rb"
  then have rb: "rb = source_byte" by (simp add: source_ops_def)
  { assume "fst r = b # bs"
    with rb show "\<exists>r'. rb r = (Inr b, r') \<and> True \<and> fst r' = bs \<and> snd r' = snd r"
      by (cases r) simp }
  { assume "fst r = []"
    with rb show "\<exists>r'. rb r = (Inl (snd r), r') \<and> True \<and> fst r' = [] \<and> snd r' = snd r"
      by (cases r) simp }
next
  fix r :: source and n :: nat
  assume "0 < n"
  then show "\<exists>k e r'. srcRead source_ops n r = ((take k (fst r), e), r') \<and> k \<le> n \<and>
      k \<le> length (fst r) \<and> True \<and> fst r' = drop k (fst r) \<and> snd r' = snd r \<and>
      (case e of None \<Rightarrow> 0 < k | Some x \<Rightarrow> x = snd r \<and> k = length (fst r) \<and> k < n)"
    by (cases "fst r = []"; cases "n \<le> length (fst r)")
      (auto simp: source_ops_def source_read_n_def
        intro: exI [of _ 0] exI [of _ n] exI [of _ "length (fst r)"])
qed

context byte_source
begin

text \<open>
  A limited reader over a source is a source of its first \<open>N\<close> bytes, ended by \<open>EOF\<close>;
  what lies beyond the limit stays in the underlying reader.
\<close>

lemma lim_source:
  "byte_source (lim_ops ops) (lim_content content) (lim_fin content fin)
     (\<lambda>l. ok (limR l) \<and> drop (nat (limN l)) (content (limR l)) = beyond \<and> fin (limR l) = F)"
proof
  fix l :: "'r limitedReader" and n :: nat
  assume "ok (limR l) \<and> drop (nat (limN l)) (content (limR l)) = beyond \<and> fin (limR l) = F"
    and n: "0 < n"
  then have ok: "ok (limR l)" and bey: "drop (nat (limN l)) (content (limR l)) = beyond"
    and F: "fin (limR l) = F" by auto
  let ?c = "lim_content content l"
  show "\<exists>k e l'. srcRead (lim_ops ops) n l = ((take k ?c, e), l') \<and> k \<le> n \<and> k \<le> length ?c \<and>
      (ok (limR l') \<and> drop (nat (limN l')) (content (limR l')) = beyond \<and> fin (limR l') = F) \<and>
      lim_content content l' = drop k ?c \<and> lim_fin content fin l' = lim_fin content fin l \<and>
      (case e of None \<Rightarrow> 0 < k | Some x \<Rightarrow> x = lim_fin content fin l \<and> k = length ?c \<and> k < n)"
  proof (cases "limN l \<le> 0")
    case True
    with n ok bey F show ?thesis
      by (intro exI [of _ 0] exI [of _ "Some EOF"] exI [of _ l])
        (simp add: lim_ops_def limRead_def lim_content_def lim_fin_def)
  next
    case False
    define m where "m = (if limN l < int n then nat (limN l) else n)"
    have m: "0 < m" "m \<le> n" "int m \<le> limN l" using False n by (auto simp: m_def)
    from source_read [OF ok m(1)] obtain k e r' where r:
      "srcRead ops m (limR l) = ((take k (content (limR l)), e), r')" "k \<le> m"
      "k \<le> length (content (limR l))" "ok r'" "content r' = drop k (content (limR l))"
      "fin r' = fin (limR l)"
      "case e of None \<Rightarrow> 0 < k | Some x \<Rightarrow> x = fin (limR l) \<and> k = length (content (limR l)) \<and> k < m"
      by blast
    let ?l = "l\<lparr>limR := r', limN := limN l - int k\<rparr>"
    have km: "k \<le> nat (limN l)" using r(2) m(3) by simp
    have "srcRead (lim_ops ops) n l = ((take k ?c, e), ?l)"
      using False r(1,3) km by (simp add: lim_ops_def limRead_def m_def [symmetric] lim_content_def min_absorb1)
    moreover have "lim_content content ?l = drop k ?c"
      using r(5) by (simp add: lim_content_def drop_take nat_minus_as_int)
    moreover have "lim_fin content fin ?l = lim_fin content fin l"
      using r(3,5,6) km by (auto simp: lim_fin_def)
    moreover have "case e of None \<Rightarrow> 0 < k | Some x \<Rightarrow> x = lim_fin content fin l \<and> k = length ?c \<and> k < n"
      using r(7) m by (auto simp: lim_fin_def lim_content_def split: option.splits)
    moreover have "k + nat (limN l - int k) = nat (limN l)" using km by simp
    then have "drop (nat (limN ?l)) (content (limR ?l)) = beyond"
      using r(5) bey by (simp add: add.commute)
    ultimately show ?thesis
      using r(2,3,4,6) F m km by (intro exI [of _ k] exI [of _ e] exI [of _ ?l]) (simp add: lim_content_def)
  qed
qed (simp_all add: lim_ops_def)

lemma readFullLoop_spec:
  assumes "ok r"
  shows "\<exists>r'. ok r' \<and> fin r' = fin r \<and> content r' = drop n (content r) \<and>
    readFullLoop ops n acc r =
      ((acc @ take n (content r), if n \<le> length (content r) then None else Some (fin r)), r')"
  using assms
proof (induction n arbitrary: acc r rule: less_induct)
  case (less n)
  show ?case
  proof (cases "n = 0")
    case True
    with less.prems show ?thesis by (simp add: readFullLoop.simps)
  next
    case False
    with source_read [OF less.prems, of n] obtain k e r1 where r:
      "srcRead ops n r = ((take k (content r), e), r1)" "k \<le> n" "k \<le> length (content r)"
      "ok r1" "content r1 = drop k (content r)" "fin r1 = fin r"
      "case e of None \<Rightarrow> 0 < k | Some x \<Rightarrow> x = fin r \<and> k = length (content r) \<and> k < n"
      by blast
    show ?thesis
    proof (cases e)
      case (Some x)
      with r False show ?thesis by (simp add: readFullLoop.simps [of ops n])
    next
      case None
      let ?acc = "acc @ take k (content r)"
      have "n - k < n" using None r(7) False by simp
      from less.IH [OF this r(4), of ?acc] obtain r2 where 2: "ok r2" "fin r2 = fin r1"
        "content r2 = drop (n - k) (content r1)" "readFullLoop ops (n - k) ?acc r1 =
          ((?acc @ take (n - k) (content r1),
            if n - k \<le> length (content r1) then None else Some (fin r1)), r2)"
        by blast
      have "take k (content r) @ take (n - k) (content r1) = take n (content r)"
        using r(2,5) by (metis le_add_diff_inverse take_add)
      moreover have "take k (content r) \<noteq> []" using None r(3,7) by auto
      ultimately have "readFullLoop ops n acc r =
          ((acc @ take n (content r), if n \<le> length (content r) then None else Some (fin r)), r2)"
        using None r 2(4) False by (auto simp: readFullLoop.simps [of ops n] min_absorb2)
      with 2 r show ?thesis by auto
    qed
  qed
qed

lemma ReadFull_spec:
  assumes "ok r"
  obtains r' where "ok r'" "fin r' = fin r" "content r' = drop n (content r)"
    "ReadFull ops n r =
      ((take n (content r),
        if n \<le> length (content r) then None
        else if content r \<noteq> [] \<and> fin r = EOF then Some ErrUnexpectedEOF else Some (fin r)), r')"
  using readFullLoop_spec [OF assms, of n "[]"] by (auto simp: ReadFull_def)

end

context reliable_sink
begin

lemma copyTo_spec:
  assumes "wsavedBits bw < 8"
  shows "\<exists>bw'. copyTo (Write ops) p bw = ((length p, None), bw') \<and>
     wsavedBits bw' < 8 \<and> wbits out bw' = wbits out bw @ bytes_bits p"
  using Write_spec [OF assms, of p] assms by (auto simp: copyTo_def)

end

text \<open>From a byte boundary, output that is a number of whole bytes appends just those bytes.\<close>

lemma aligned_output:
  assumes "wbits out bw' = wbits out bw @ bs" "wsavedBits bw' < 8" "wsavedBits bw = 0" "length bs mod 8 = 0"
  shows "wsavedBits bw' = 0 \<and> out (writer bw') = out (writer bw) @ bits_bytes bs \<and> bytes_bits (bits_bytes bs) = bs"
proof -
  have "8 * length (out (writer bw')) + wsavedBits bw' = 8 * length (out (writer bw)) + length bs"
    using arg_cong [OF assms(1), of length] assms(3) by (simp add: wbits_def)
  then have s0: "wsavedBits bw' = 0" using assms(2,4) by presburger
  with assms(1,3) have eq: "bytes_bits (out (writer bw')) = bytes_bits (out (writer bw)) @ bs"
    by (simp add: wbits_def)
  then have o: "out (writer bw') = out (writer bw) @ bits_bytes bs"
    by (metis bits_bytes_bytes_append bits_bytes_bytes_bits)
  with eq s0 show ?thesis by simp
qed

section \<open>Properties of the bit writer and reader\<close>



text \<open>What \<open>WriteBits\<close> writes \<open>ReadBits\<close> reads back, at any alignment of the writer and of the
  reader, for every width up to 64 bits; the reader is left right after the value.\<close>

theorem WriteBits_ReadBits:
  assumes "reliable_sink wops out" "byte_source rops content fin ok" "count \<le> 64" "take_bit count v = v"
    "wsavedBits bw < 8" "rok ok br" "rbits content br = bits count v @ rest"
  shows "\<exists>bw' br'. WriteBits wops v count bw = (Inr (), bw') \<and> wbits out bw' = wbits out bw @ bits count v \<and>
    ReadBits rops count br = (Inr v, br') \<and> rbits content br' = rest"
proof -
  from reliable_sink.WriteBits_produces [OF assms(1,3,4)] assms(5) obtain bw' where
    "WriteBits wops v count bw = (Inr (), bw')" "wbits out bw' = wbits out bw @ bits count v"
    by (rule producesE)
  moreover from byte_source.ReadBits_value_consumes [OF assms(2-4)] assms(6,7) obtain br' where
    "ReadBits rops count br = (Inr v, br')" "rbits content br' = rest" by (rule consumesE)
  ultimately show ?thesis by blast
qed

theorem WriteBits_ReadBits_witness:
  "\<exists>bw' br'. WriteBits buf_ops 5 8 (NewBitWriter []) = (Inr (), bw') \<and>
     wbits (\<lambda>w. w) bw' = bits 8 (5 :: u64) \<and>
     ReadBits source_ops 8 (NewBitReader ([5], EOF)) = (Inr 5, br') \<and> rbits fst br' = []"
  using WriteBits_ReadBits [OF buf.reliable_sink_axioms src.byte_source_axioms,
      of 8 5 "NewBitWriter []" "NewBitReader ([5], EOF)" "[]"]
  by (simp add: NewBitWriter_def NewBitReader_def wbits_def rbits_def rok_def take_bit_eq_mod
      bits_def upt_conv_Cons)

end
