(* ===== verification/HuffmanTable.thy ===== *)
theory HuffmanTable
  imports Prelude "HOL-Library.Sublist"
begin

text \<open>
  The Huffman code of HPACK and QPACK strings: \<open>src/hc/huffmantable.go\<close>, and the proof
  that no code word is a prefix of another one.
\<close>

section \<open>The table\<close>

text \<open>An item is the length of a code word in bits and its value.\<close>

type_synonym huffmanTableItem = "nat \<times> u32"

definition huffmanTable :: "huffmanTableItem list" where
  "huffmanTable =
     [(13, 0x1ff8), (23, 0x7fffd8), (28, 0xfffffe2), (28, 0xfffffe3), (28, 0xfffffe4),
      (28, 0xfffffe5), (28, 0xfffffe6), (28, 0xfffffe7), (28, 0xfffffe8), (24, 0xffffea),
      (30, 0x3ffffffc), (28, 0xfffffe9), (28, 0xfffffea), (30, 0x3ffffffd), (28, 0xfffffeb),
      (28, 0xfffffec), (28, 0xfffffed), (28, 0xfffffee), (28, 0xfffffef), (28, 0xffffff0),
      (28, 0xffffff1), (28, 0xffffff2), (30, 0x3ffffffe), (28, 0xffffff3), (28, 0xffffff4),
      (28, 0xffffff5), (28, 0xffffff6), (28, 0xffffff7), (28, 0xffffff8), (28, 0xffffff9),
      (28, 0xffffffa), (28, 0xffffffb), (6, 0x14), (10, 0x3f8), (10, 0x3f9), (12, 0xffa),
      (13, 0x1ff9), (6, 0x15), (8, 0xf8), (11, 0x7fa), (10, 0x3fa), (10, 0x3fb), (8, 0xf9),
      (11, 0x7fb), (8, 0xfa), (6, 0x16), (6, 0x17), (6, 0x18), (5, 0x0), (5, 0x1), (5, 0x2),
      (6, 0x19), (6, 0x1a), (6, 0x1b), (6, 0x1c), (6, 0x1d), (6, 0x1e), (6, 0x1f), (7, 0x5c),
      (8, 0xfb), (15, 0x7ffc), (6, 0x20), (12, 0xffb), (10, 0x3fc), (13, 0x1ffa), (6, 0x21),
      (7, 0x5d), (7, 0x5e), (7, 0x5f), (7, 0x60), (7, 0x61), (7, 0x62), (7, 0x63), (7, 0x64),
      (7, 0x65), (7, 0x66), (7, 0x67), (7, 0x68), (7, 0x69), (7, 0x6a), (7, 0x6b), (7, 0x6c),
      (7, 0x6d), (7, 0x6e), (7, 0x6f), (7, 0x70), (7, 0x71), (7, 0x72), (8, 0xfc), (7, 0x73),
      (8, 0xfd), (13, 0x1ffb), (19, 0x7fff0), (13, 0x1ffc), (14, 0x3ffc), (6, 0x22), (15, 0x7ffd),
      (5, 0x3), (6, 0x23), (5, 0x4), (6, 0x24), (5, 0x5), (6, 0x25), (6, 0x26), (6, 0x27),
      (5, 0x6), (7, 0x74), (7, 0x75), (6, 0x28), (6, 0x29), (6, 0x2a), (5, 0x7), (6, 0x2b),
      (7, 0x76), (6, 0x2c), (5, 0x8), (5, 0x9), (6, 0x2d), (7, 0x77), (7, 0x78), (7, 0x79),
      (7, 0x7a), (7, 0x7b), (15, 0x7ffe), (11, 0x7fc), (14, 0x3ffd), (13, 0x1ffd), (28, 0xffffffc),
      (20, 0xfffe6), (22, 0x3fffd2), (20, 0xfffe7), (20, 0xfffe8), (22, 0x3fffd3), (22, 0x3fffd4),
      (22, 0x3fffd5), (23, 0x7fffd9), (22, 0x3fffd6), (23, 0x7fffda), (23, 0x7fffdb),
      (23, 0x7fffdc), (23, 0x7fffdd), (23, 0x7fffde), (24, 0xffffeb), (23, 0x7fffdf),
      (24, 0xffffec), (24, 0xffffed), (22, 0x3fffd7), (23, 0x7fffe0), (24, 0xffffee),
      (23, 0x7fffe1), (23, 0x7fffe2), (23, 0x7fffe3), (23, 0x7fffe4), (21, 0x1fffdc),
      (22, 0x3fffd8), (23, 0x7fffe5), (22, 0x3fffd9), (23, 0x7fffe6), (23, 0x7fffe7),
      (24, 0xffffef), (22, 0x3fffda), (21, 0x1fffdd), (20, 0xfffe9), (22, 0x3fffdb),
      (22, 0x3fffdc), (23, 0x7fffe8), (23, 0x7fffe9), (21, 0x1fffde), (23, 0x7fffea),
      (22, 0x3fffdd), (22, 0x3fffde), (24, 0xfffff0), (21, 0x1fffdf), (22, 0x3fffdf),
      (23, 0x7fffeb), (23, 0x7fffec), (21, 0x1fffe0), (21, 0x1fffe1), (22, 0x3fffe0),
      (21, 0x1fffe2), (23, 0x7fffed), (22, 0x3fffe1), (23, 0x7fffee), (23, 0x7fffef),
      (20, 0xfffea), (22, 0x3fffe2), (22, 0x3fffe3), (22, 0x3fffe4), (23, 0x7ffff0),
      (22, 0x3fffe5), (22, 0x3fffe6), (23, 0x7ffff1), (26, 0x3ffffe0), (26, 0x3ffffe1),
      (20, 0xfffeb), (19, 0x7fff1), (22, 0x3fffe7), (23, 0x7ffff2), (22, 0x3fffe8),
      (25, 0x1ffffec), (26, 0x3ffffe2), (26, 0x3ffffe3), (26, 0x3ffffe4), (27, 0x7ffffde),
      (27, 0x7ffffdf), (26, 0x3ffffe5), (24, 0xfffff1), (25, 0x1ffffed), (19, 0x7fff2),
      (21, 0x1fffe3), (26, 0x3ffffe6), (27, 0x7ffffe0), (27, 0x7ffffe1), (26, 0x3ffffe7),
      (27, 0x7ffffe2), (24, 0xfffff2), (21, 0x1fffe4), (21, 0x1fffe5), (26, 0x3ffffe8),
      (26, 0x3ffffe9), (28, 0xffffffd), (27, 0x7ffffe3), (27, 0x7ffffe4), (27, 0x7ffffe5),
      (20, 0xfffec), (24, 0xfffff3), (20, 0xfffed), (21, 0x1fffe6), (22, 0x3fffe9), (21, 0x1fffe7),
      (21, 0x1fffe8), (23, 0x7ffff3), (22, 0x3fffea), (22, 0x3fffeb), (25, 0x1ffffee),
      (25, 0x1ffffef), (24, 0xfffff4), (24, 0xfffff5), (26, 0x3ffffea), (23, 0x7ffff4),
      (26, 0x3ffffeb), (27, 0x7ffffe6), (26, 0x3ffffec), (26, 0x3ffffed), (27, 0x7ffffe7),
      (27, 0x7ffffe8), (27, 0x7ffffe9), (27, 0x7ffffea), (27, 0x7ffffeb), (28, 0xffffffe),
      (27, 0x7ffffec), (27, 0x7ffffed), (27, 0x7ffffee), (27, 0x7ffffef), (27, 0x7fffff0),
      (26, 0x3ffffee)]"

section \<open>The code is a prefix code\<close>

text \<open>
  The code is canonical: the code words of one length are consecutive numbers, in the order
  of their symbols, and the code words of a shorter length come before those of a longer
  one. \<open>huffmanRanges\<close> lists the lengths with the first value and the value after the
  last; the table is checked against it in one pass.
\<close>

definition huffmanRanges :: "(nat \<times> nat \<times> nat) list" where
  "huffmanRanges =
     [(5, 0x0, 0xa), (6, 0x14, 0x2e), (7, 0x5c, 0x7c), (8, 0xf8, 0xfe), (10, 0x3f8, 0x3fd), (11,
      0x7fa, 0x7fd), (12, 0xffa, 0xffc), (13, 0x1ff8, 0x1ffe), (14, 0x3ffc, 0x3ffe), (15,
      0x7ffc, 0x7fff), (19, 0x7fff0, 0x7fff3), (20, 0xfffe6, 0xfffee), (21, 0x1fffdc, 0x1fffe9),
      (22, 0x3fffd2, 0x3fffec), (23, 0x7fffd8, 0x7ffff5), (24, 0xffffea, 0xfffff6), (25,
      0x1ffffec, 0x1fffff0), (26, 0x3ffffe0, 0x3ffffef), (27, 0x7ffffde, 0x7fffff1), (28,
      0xfffffe2, 0xfffffff), (30, 0x3ffffffc, 0x3fffffff)]"

fun bump :: "nat \<Rightarrow> nat \<Rightarrow> (nat \<times> nat) list \<Rightarrow> (nat \<times> nat) list option" where
  "bump l v [] = None"
| "bump l v ((k, n) # st) =
     (if k = l then (if v = n then Some ((k, n + 1) # st) else None)
      else map_option (Cons (k, n)) (bump l v st))"

fun canonical :: "(nat \<times> nat) list \<Rightarrow> (nat \<times> nat) list \<Rightarrow> (nat \<times> nat) list option" where
  "canonical st [] = Some st"
| "canonical st ((l, v) # es) =
     (case bump l v st of None \<Rightarrow> None | Some st' \<Rightarrow> canonical st' es)"

lemma huffmanTable_canonical:
  "canonical (map (\<lambda>(l, a, b). (l, a)) huffmanRanges) (map (\<lambda>(l, v). (l, unat v)) huffmanTable) =
     Some (map (\<lambda>(l, a, b). (l, b)) huffmanRanges)"
  by (simp add: huffmanTable_def huffmanRanges_def)

lemma huffmanRanges_ordered:
  "sorted_wrt (\<lambda>(l, a, b) (l', a', b'). l < l' \<and> b * 2 ^ (30 - l) \<le> a' * 2 ^ (30 - l')) huffmanRanges"
  by (simp add: huffmanRanges_def)

lemma huffmanTable_lengths:
  "list_all (\<lambda>(l, v). 5 \<le> l \<and> l \<le> 30 \<and> unat v < 2 ^ l) huffmanTable"
  by (simp add: huffmanTable_def)

lemma length_huffmanTable: "length huffmanTable = 256"
  by (simp add: huffmanTable_def)

lemma bump_spec: "bump l v st = Some st' \<Longrightarrow> map_of st l = Some v \<and> map_of st' = (map_of st)(l \<mapsto> v + 1)"
  by (induction l v st arbitrary: st' rule: bump.induct) (auto split: if_splits)

lemma canonical_mono:
  "canonical st es = Some st' \<Longrightarrow> map_of st l = Some a \<Longrightarrow> \<exists>b \<ge> a. map_of st' l = Some b"
proof (induction st es arbitrary: a rule: canonical.induct)
  case (2 st k v es)
  then obtain st1 where 1: "bump k v st = Some st1" "canonical st1 es = Some st'"
    by (auto split: option.splits)
  note b = bump_spec [OF 1(1)]
  show ?case
  proof (cases "k = l")
    case True
    with "2.IH" [OF 1(1,2), of "v + 1"] b "2.prems" show ?thesis by auto
  next
    case False
    with "2.IH" [OF 1(1,2), of a] b "2.prems" show ?thesis by simp
  qed
qed simp

lemma canonical_range:
  "canonical st es = Some st' \<Longrightarrow> (l, v) \<in> set es \<Longrightarrow>
     \<exists>a b. map_of st l = Some a \<and> map_of st' l = Some b \<and> a \<le> v \<and> v < b"
proof (induction st es rule: canonical.induct)
  case (2 st k w es)
  then obtain st1 where 1: "bump k w st = Some st1" "canonical st1 es = Some st'"
    by (auto split: option.splits)
  note b = bump_spec [OF 1(1)]
  show ?case
  proof (cases "(l, v) = (k, w)")
    case True
    with canonical_mono [OF 1(2), of k "w + 1"] b show ?thesis by auto
  next
    case False
    with "2.IH" [OF 1] b "2.prems" show ?thesis by (auto split: if_splits)
  qed
qed simp

lemma canonical_increasing:
  "canonical st es = Some st' \<Longrightarrow> sorted_wrt (\<lambda>x y. fst x = fst y \<longrightarrow> snd x < snd y) es"
proof (induction st es rule: canonical.induct)
  case (2 st k w es)
  then obtain st1 where 1: "bump k w st = Some st1" "canonical st1 es = Some st'"
    by (auto split: option.splits)
  have "w < v" if "(k, v) \<in> set es" for v
    using canonical_range [OF 1(2) that] bump_spec [OF 1(1)] by auto
  with "2.IH" [OF 1] show ?case by auto
qed simp

definition hcode :: "huffmanTableItem \<Rightarrow> bool list" where
  "hcode e = bits (fst e) (snd e)"

lemma length_hcode [simp]: "length (hcode e) = fst e"
  by (simp add: hcode_def)

text \<open>The interface to the decoder: what the code words must satisfy.\<close>

locale prefix_code =
  fixes tbl :: "huffmanTableItem list"
  assumes code_word: "e \<in> set tbl \<Longrightarrow> 0 < fst e \<and> fst e \<le> 32 \<and> take_bit (fst e) (snd e) = snd e"
    and prefix_free:
      "i < length tbl \<Longrightarrow> j < length tbl \<Longrightarrow> prefix (hcode (tbl ! i)) (hcode (tbl ! j)) \<Longrightarrow> i = j"

lemma huffmanTable_item:
  assumes "i < 256"
  shows "5 \<le> fst (huffmanTable ! i)" "fst (huffmanTable ! i) \<le> 30"
    "unat (snd (huffmanTable ! i)) < 2 ^ fst (huffmanTable ! i)"
  using huffmanTable_lengths assms by (auto simp: list_all_length length_huffmanTable case_prod_unfold)

lemma huffman_same_length:
  assumes "i < j" "j < 256" "fst (huffmanTable ! i) = fst (huffmanTable ! j)"
  shows "unat (snd (huffmanTable ! i)) < unat (snd (huffmanTable ! j))"
  using canonical_increasing [OF huffmanTable_canonical] assms
  by (simp add: sorted_wrt_map sorted_wrt_iff_nth_less length_huffmanTable case_prod_unfold)

lemma huffman_ranges:
  assumes "i < 256"
  obtains a b where "(fst (huffmanTable ! i), a, b) \<in> set huffmanRanges"
    "a \<le> unat (snd (huffmanTable ! i))" "unat (snd (huffmanTable ! i)) < b"
proof -
  let ?e = "huffmanTable ! i"
  have "(fst ?e, unat (snd ?e)) \<in> set (map (\<lambda>(l, v). (l, unat v)) huffmanTable)"
    using assms nth_mem [of i huffmanTable]
    by (force simp: length_huffmanTable case_prod_unfold image_iff)
  from canonical_range [OF huffmanTable_canonical this] obtain a b where
    ab: "map_of (map (\<lambda>(l, a, b). (l, a)) huffmanRanges) (fst ?e) = Some a"
      "map_of (map (\<lambda>(l, a, b). (l, b)) huffmanRanges) (fst ?e) = Some b"
      "a \<le> unat (snd ?e)" "unat (snd ?e) < b" by blast
  obtain b' where b': "(fst ?e, a, b') \<in> set huffmanRanges"
    using map_of_SomeD [OF ab(1)] by auto
  obtain a' where a': "(fst ?e, a', b) \<in> set huffmanRanges"
    using map_of_SomeD [OF ab(2)] by auto
  have "distinct (map fst huffmanRanges)" by (simp add: huffmanRanges_def)
  from eq_key_imp_eq_value [OF this a' b'] ab(3,4) a' that show ?thesis by auto
qed

lemma huffman_ordered:
  assumes "i < 256" "j < 256" "fst (huffmanTable ! i) < fst (huffmanTable ! j)"
  shows "(unat (snd (huffmanTable ! i)) + 1) * 2 ^ (30 - fst (huffmanTable ! i))
    \<le> unat (snd (huffmanTable ! j)) * 2 ^ (30 - fst (huffmanTable ! j))"
proof -
  obtain a b where ab: "(fst (huffmanTable ! i), a, b) \<in> set huffmanRanges"
    "unat (snd (huffmanTable ! i)) < b" using assms(1) by (rule huffman_ranges)
  obtain c d where cd: "(fst (huffmanTable ! j), c, d) \<in> set huffmanRanges"
    "c \<le> unat (snd (huffmanTable ! j))" using assms(2) by (rule huffman_ranges)
  obtain m n where mn: "m < length huffmanRanges" "huffmanRanges ! m = (fst (huffmanTable ! i), a, b)"
    "n < length huffmanRanges" "huffmanRanges ! n = (fst (huffmanTable ! j), c, d)"
    using ab(1) cd(1) by (auto simp: in_set_conv_nth)
  note ord = huffmanRanges_ordered [unfolded sorted_wrt_iff_nth_less, rule_format]
  have "m < n"
  proof (rule ccontr)
    assume "\<not> m < n"
    with ord [of n m] mn assms(3) show False by (cases "m = n") auto
  qed
  with ord [of m n] mn have "b * 2 ^ (30 - fst (huffmanTable ! i)) \<le> c * 2 ^ (30 - fst (huffmanTable ! j))"
    by simp
  moreover have "(unat (snd (huffmanTable ! i)) + 1) * 2 ^ (30 - fst (huffmanTable ! i))
      \<le> b * 2 ^ (30 - fst (huffmanTable ! i))"
    using ab(2) by (intro mult_le_mono1) simp
  moreover have "c * 2 ^ (30 - fst (huffmanTable ! j))
      \<le> unat (snd (huffmanTable ! j)) * 2 ^ (30 - fst (huffmanTable ! j))"
    using cd(2) by (intro mult_le_mono1)
  ultimately show ?thesis by linarith
qed

lemma prefix_bits_value:
  fixes v w :: u32
  assumes "prefix (bits l v) (bits k w)" "unat v < 2 ^ l"
  shows "l \<le> k \<and> unat v = (unat w div 2 ^ (k - l)) mod 2 ^ l"
proof
  show lk: "l \<le> k" using prefix_length_le [OF assms(1)] by simp
  from assms(1) have "bits l v = bits l (drop_bit (k - l) w)"
    by (metis length_bits lk prefix_def append_eq_conv_conj take_bits)
  then have "take_bit l v = take_bit l (drop_bit (k - l) w)"
    by (metis unbits_bits)
  with assms(2) have "v = take_bit l (drop_bit (k - l) w)"
    by (simp add: take_bit_eq_self_unat_iff [symmetric])
  then have "unat v = take_bit l (drop_bit (k - l) (unat w))"
    by (metis unsigned_take_bit_eq unat_drop_bit_eq)
  then show "unat v = (unat w div 2 ^ (k - l)) mod 2 ^ l"
    by (simp add: take_bit_eq_mod drop_bit_eq_div)
qed

lemma huffman_prefix_free:
  assumes "i < 256" "j < 256" "prefix (hcode (huffmanTable ! i)) (hcode (huffmanTable ! j))"
  shows "i = j"
proof -
  obtain l v k w where e: "huffmanTable ! i = (l, v)" "huffmanTable ! j = (k, w)"
    by (metis surj_pair)
  have b: "unat v < 2 ^ l" "unat w < 2 ^ k" "l \<le> 30" "k \<le> 30"
    using huffmanTable_item [OF assms(1)] huffmanTable_item [OF assms(2)] e by auto
  from assms(3) e have "prefix (bits l v) (bits k w)" by (simp add: hcode_def)
  note p = prefix_bits_value [OF this b(1)]
  show ?thesis
  proof (cases "l = k")
    case True
    with p b(2) have "unat v = unat w" by simp
    with huffman_same_length [of i j] huffman_same_length [of j i] assms(1,2) e True show ?thesis
      by (metis fst_conv less_irrefl linorder_neqE_nat snd_conv)
  next
    case False
    with p have lk: "l < k" by simp
    have "unat w div 2 ^ (k - l) < 2 ^ l"
      using b(2) lk by (simp add: less_mult_imp_div_less power_add [symmetric])
    with p have "unat v = unat w div 2 ^ (k - l)" by simp
    then have "unat w < (unat v + 1) * 2 ^ (k - l)"
      using dividend_less_div_times [of "2 ^ (k - l)" "unat w"] by simp
    then have "unat w * 2 ^ (30 - k) < (unat v + 1) * 2 ^ (k - l) * 2 ^ (30 - k)"
      by simp
    also have "(2 :: nat) ^ (k - l) * 2 ^ (30 - k) = 2 ^ (30 - l)"
      using lk b(4) by (simp add: power_add [symmetric])
    then have "(unat v + 1) * 2 ^ (k - l) * 2 ^ (30 - k) = (unat v + 1) * 2 ^ (30 - l)"
      by (simp only: mult.assoc)
    finally show ?thesis
      using huffman_ordered [OF assms(1,2)] e lk by simp
  qed
qed

interpretation hc: prefix_code huffmanTable
proof
  fix e assume "e \<in> set huffmanTable"
  then obtain i where "i < 256" "e = huffmanTable ! i"
    by (auto simp: in_set_conv_nth length_huffmanTable)
  with huffmanTable_item [of i] show "0 < fst e \<and> fst e \<le> 32 \<and> take_bit (fst e) (snd e) = snd e"
    by (auto simp: take_bit_eq_self_unat_iff)
qed (simp add: huffman_prefix_free length_huffmanTable)

end
