(* ===== verification/Huffman.thy ===== *)
theory Huffman
  imports StdIO HuffmanTable
begin

text \<open>
  Compression and decompression of strings: \<open>src/hc/huffman.go\<close>. The decoding tree
  built by \<open>makeLayer\<close> is shown to decode every code word of a prefix code, so that
  decompression inverts compression.
\<close>

section \<open>Compression\<close>

text \<open>
  A \<open>HuffmanCompressor\<close> is the bit writer it wraps (its other two fields are not used).
  \<open>Write\<close> returns the number of characters it took and an error.
\<close>

fun compressWrite :: "'w snk_ops \<Rightarrow> nat \<Rightarrow> byte list \<Rightarrow> 'w bitWriter \<Rightarrow> (nat \<times> goerr option) \<times> 'w bitWriter" where
  "compressWrite ops i [] bw = ((i, None), bw)"
| "compressWrite ops i (c # input) bw =
     (case huffmanTable ! unat c of (len, val) \<Rightarrow>
        (case WriteBits ops (ucast val) len bw of
           (Inl e, bw') \<Rightarrow> ((i, Some e), bw')
         | (Inr _, bw') \<Rightarrow> compressWrite ops (Suc i) input bw'))"

definition compressPad :: "'w snk_ops \<Rightarrow> ('w bitWriter, unit) io" where
  "compressPad ops = Pad ops 0xff"

section \<open>The decoding tree\<close>

datatype huffmanDecoderNode =
  HNode (next0: "huffmanDecoderNode option") (next1: "huffmanDecoderNode option")
        (leaf: bool) (val: byte)

definition hleaf :: "nat \<Rightarrow> huffmanDecoderNode" where
  "hleaf i = HNode None None True (word_of_nat i)"

text \<open>
  The scan over the table in \<open>makeLayer\<close>: it fills in the leaves of the layer and
  returns early once both children are leaves (the last component of the result).
\<close>

fun layerScan :: "(nat \<times> huffmanTableItem) list \<Rightarrow> u32 \<Rightarrow> nat \<Rightarrow>
    huffmanDecoderNode option \<times> huffmanDecoderNode option \<times> bool \<Rightarrow>
    huffmanDecoderNode option \<times> huffmanDecoderNode option \<times> bool \<times> bool" where
  "layerScan [] pfx prefixLen (n0, n1, found) = (n0, n1, found, False)"
| "layerScan ((i, (len, v)) # es) pfx prefixLen (n0, n1, found) =
     (if len < prefixLen + 1 then layerScan es pfx prefixLen (n0, n1, found)
      else if drop_bit (len - prefixLen) v \<noteq> pfx then layerScan es pfx prefixLen (n0, n1, found)
      else
        (let arity = drop_bit (len - prefixLen - 1) v AND 1 in
         if len = prefixLen + 1 then
           (if arity = 0 then
              (if n1 \<noteq> None then (Some (hleaf i), n1, True, True)
               else layerScan es pfx prefixLen (Some (hleaf i), n1, True))
            else
              (if n0 \<noteq> None then (n0, Some (hleaf i), True, True)
               else layerScan es pfx prefixLen (n0, Some (hleaf i), True)))
         else layerScan es pfx prefixLen (n0, n1, True)))"

lemma layerScan_found:
  "layerScan es pfx n (n0, n1, found) = (m0, m1, True, r) \<Longrightarrow> \<not> found \<Longrightarrow>
     \<exists>(i, (len, v)) \<in> set es. n < len"
  by (induction es pfx n "(n0, n1, found)" arbitrary: n0 n1 found rule: layerScan.induct)
    (auto simp: Let_def split: if_splits)

lemma le_foldr_max: "x \<in> set xs \<Longrightarrow> x \<le> foldr max xs (0 :: nat)"
  by (induction xs) auto

lemma layerScan_bound:
  assumes "layerScan (enumerate 0 tbl) pfx n (None, None, False) = (m0, m1, True, r)"
  shows "n < foldr max (map fst tbl) 0"
proof -
  from layerScan_found [OF assms] obtain i len v where "(i, (len, v)) \<in> set (enumerate 0 tbl)" "n < len"
    by auto
  then have "len \<in> set (map fst tbl)"
    by (auto simp: in_set_enumerate_eq image_iff) (metis fst_conv nth_mem)
  with \<open>n < len\<close> le_foldr_max [of len "map fst tbl"] show ?thesis by simp
qed

function makeLayer :: "huffmanTableItem list \<Rightarrow> u32 \<Rightarrow> nat \<Rightarrow> huffmanDecoderNode" where
  "makeLayer tbl pfx prefixLen =
     (case layerScan (enumerate 0 tbl) pfx prefixLen (None, None, False) of
        (n0, n1, found, returned) \<Rightarrow>
          if returned \<or> \<not> found then HNode n0 n1 False 0
          else HNode
            (if n0 = None then Some (makeLayer tbl (push_bit 1 pfx) (prefixLen + 1)) else n0)
            (if n1 = None then Some (makeLayer tbl (push_bit 1 pfx OR 1) (prefixLen + 1)) else n1)
            False 0)"
  by pat_completeness auto
termination
  by (relation "measure (\<lambda>(tbl, p, n). foldr max (map fst tbl) 0 - n)")
    (auto dest!: layerScan_bound [OF sym])

declare makeLayer.simps [simp del]

text \<open>The tree for the table, built once by \<open>initDecompressorTree\<close>.\<close>

definition decompressorTree :: huffmanDecoderNode where
  "decompressorTree = makeLayer huffmanTable 0 0"

section \<open>Decompression\<close>

record 'r huffmanDecompressor =
  hreader :: "'r bitReader"
  cursor :: "huffmanDecoderNode option"

definition NewHuffmanDecompressor :: "'r \<Rightarrow> 'r huffmanDecompressor" where
  "NewHuffmanDecompressor r = \<lparr>hreader = NewBitReader r, cursor = Some decompressorTree\<rparr>"

definition cursor_size :: "huffmanDecoderNode option \<Rightarrow> nat" where
  "cursor_size c = (case c of None \<Rightarrow> 0 | Some n \<Rightarrow> size n)"

lemma next_size: "next0 n = Some c \<Longrightarrow> size c < size n" "next1 n = Some c \<Longrightarrow> size c < size n"
  by (cases n; simp)+

text \<open>
  \<open>Read\<close> into a buffer of \<open>n\<close> bytes; \<open>p\<close> are the bytes decoded so far. Following a
  nil cursor, after an invalid code was reported, is a nil dereference.
\<close>

function decompressRead :: "'r src_ops \<Rightarrow> nat \<Rightarrow> byte list \<Rightarrow> 'r huffmanDecompressor \<Rightarrow>
    (byte list \<times> goerr option) \<times> 'r huffmanDecompressor" where
  "decompressRead ops n p d =
     (if length p < n then
        (case ReadBit ops (hreader d) of
           (Inl e, br) \<Rightarrow> ((p, Some e), d\<lparr>hreader := br\<rparr>)
         | (Inr b, br) \<Rightarrow>
             (case cursor d of
                None \<Rightarrow> ((p, Some (Panic ''nil dereference'')), d\<lparr>hreader := br\<rparr>)
              | Some c \<Rightarrow>
                  (case (if b = 0 then next0 c else next1 c) of
                     None \<Rightarrow> ((p, Some ErrInvalidHuffman), d\<lparr>hreader := br, cursor := None\<rparr>)
                   | Some c' \<Rightarrow>
                       if leaf c' then
                         decompressRead ops n (p @ [val c'])
                           (d\<lparr>hreader := br, cursor := Some decompressorTree\<rparr>)
                       else decompressRead ops n p (d\<lparr>hreader := br, cursor := Some c'\<rparr>))))
      else ((p, None), d))"
  by pat_completeness auto
termination
  by (relation "measures [\<lambda>(ops, n, p, d). n - length p, \<lambda>(ops, n, p, d). cursor_size (cursor d)]")
    (auto simp: cursor_size_def dest!: next_size split: if_splits)

declare decompressRead.simps [simp del]

definition huff_ops :: "'r src_ops \<Rightarrow> 'r huffmanDecompressor src_ops" where
  "huff_ops ops = \<lparr>srcReadByte = None, srcRead = (\<lambda>n. decompressRead ops n [])\<rparr>"

section \<open>The tree decodes a prefix code\<close>

definition next_of :: "bool \<Rightarrow> huffmanDecoderNode \<Rightarrow> huffmanDecoderNode option" where
  "next_of b n = (if b then next1 n else next0 n)"

text \<open>\<open>hmatch pre e\<close>: the code word of \<open>e\<close> continues the path \<open>pre\<close>.\<close>

definition hmatch :: "bool list \<Rightarrow> huffmanTableItem \<Rightarrow> bool" where
  "hmatch pre e \<longleftrightarrow> length pre < fst e \<and> take (length pre) (hcode e) = pre"

text \<open>What the scan has found after the items \<open>xs\<close> for the child \<open>b\<close>.\<close>

definition child_ok :: "bool list \<Rightarrow> (nat \<times> huffmanTableItem) list \<Rightarrow> bool \<Rightarrow> huffmanDecoderNode option \<Rightarrow> bool" where
  "child_ok pre xs b c \<longleftrightarrow>
     (case c of None \<Rightarrow> \<forall>(i, e) \<in> set xs. hcode e \<noteq> pre @ [b]
              | Some n \<Rightarrow> \<exists>(i, e) \<in> set xs. hcode e = pre @ [b] \<and> n = hleaf i)"

lemma unbits_snoc: "unbits (bs @ [b]) = (push_bit 1 (unbits bs) OR of_bool b :: 'a::len word)"
  by (cases b) (simp_all add: unbits_def or_one_eq mult.commute)

context prefix_code
begin

lemma item_matches:
  assumes "e \<in> set tbl" "length pre < fst e"
  shows "drop_bit (fst e - length pre) (snd e) = unbits pre \<longleftrightarrow> hmatch pre e"
proof -
  let ?n = "length pre" and ?x = "drop_bit (fst e - length pre) (snd e)"
  have take: "take ?n (hcode e) = bits ?n ?x"
    using assms(2) by (simp add: hcode_def take_bits)
  have "take_bit ?n ?x = ?x"
    using code_word [OF assms(1)] assms(2) by (simp add: take_bit_drop_bit)
  moreover have "bits ?n (unbits pre :: u32) = pre"
    using code_word [OF assms(1)] assms(2) by (simp add: bits_unbits)
  ultimately show ?thesis
    unfolding hmatch_def take using assms(2) by (metis unbits_bits)
qed

lemma item_arity:
  assumes "length pre < fst e"
  shows "drop_bit (fst e - length pre - 1) (snd e) AND 1 = of_bool (hcode e ! length pre)"
  using assms by (simp add: hcode_def nth_bits and_one_eq mod_2_eq_odd bit_iff_odd_drop_bit)

lemma hmatch_full:
  assumes "hmatch pre e" "fst e = length pre + 1"
  shows "hcode e = pre @ [hcode e ! length pre]"
  using assms id_take_nth_drop [of "length pre" "hcode e"] by (simp add: hmatch_def)

lemma child_ok_skip:
  "child_ok pre xs b c \<Longrightarrow> hcode e \<noteq> pre @ [b] \<Longrightarrow> child_ok pre (xs @ [(i, e)]) b c"
  by (auto simp: child_ok_def split: option.splits)

lemma child_ok_leaf: "hcode e = pre @ [b] \<Longrightarrow> child_ok pre (xs @ [(i, e)]) b (Some (hleaf i))"
  by (auto simp: child_ok_def)

lemma child_ok_more: "child_ok pre xs b (Some c) \<Longrightarrow> child_ok pre (xs @ ys) b (Some c)"
  by (auto simp: child_ok_def)

lemma layerScan_spec:
  assumes "snd ` set es \<subseteq> set tbl"
    and "child_ok pre xs False n0" "child_ok pre xs True n1"
    and "found \<longleftrightarrow> (\<exists>(i, e) \<in> set xs. hmatch pre e)"
    and "layerScan es (unbits pre) (length pre) (n0, n1, found) = (m0, m1, f, r)"
  shows "child_ok pre (xs @ es) False m0 \<and> child_ok pre (xs @ es) True m1 \<and>
    (f \<longleftrightarrow> (\<exists>(i, e) \<in> set (xs @ es). hmatch pre e)) \<and> (r \<longrightarrow> m0 \<noteq> None \<and> m1 \<noteq> None)"
  using assms
proof (induction es arbitrary: xs n0 n1 found)
  case Nil
  then show ?case by simp
next
  case (Cons ie es)
  obtain i len v where ie: "ie = (i, (len, v))" by (metis surj_pair)
  let ?e = "(len, v)"
  have e: "?e \<in> set tbl" using Cons.prems(1) ie by auto
  note step = Cons.IH [where xs = "xs @ [ie]", simplified]
  show ?case
  proof (cases "hmatch pre ?e")
    case False
    then have ne: "hcode ?e \<noteq> pre @ [b]" for b
      by (auto simp: hmatch_def) (metis append_eq_conv_conj length_append_singleton length_hcode fst_conv lessI)
    have "len < length pre + 1 \<or> drop_bit (len - length pre) v \<noteq> unbits pre"
      using False item_matches [OF e] by (auto simp: hmatch_def)
    with Cons.prems(5) ie have "layerScan es (unbits pre) (length pre) (n0, n1, found) = (m0, m1, f, r)"
      by (auto split: if_splits)
    with step [OF _ _ _ _ this] Cons.prems False ie ne show ?thesis
      by (auto simp: child_ok_skip)
  next
    case True
    then have len: "length pre < len" by (simp add: hmatch_def)
    have d: "drop_bit (len - length pre) v = unbits pre"
      using item_matches [OF e] len True by simp
    have ar: "drop_bit (len - length pre - 1) v AND 1 = of_bool (hcode ?e ! length pre)"
      using item_arity [of pre ?e] len by simp
    have fnd: "True \<longleftrightarrow> (\<exists>(i, e) \<in> set (xs @ [ie]). hmatch pre e)" using True ie by auto
    show ?thesis
    proof (cases "len = length pre + 1")
      case False
      then have ne: "hcode ?e \<noteq> pre @ [b]" for b
        by (metis Suc_eq_plus1 fst_conv length_append_singleton length_hcode)
      have "layerScan es (unbits pre) (length pre) (n0, n1, True) = (m0, m1, f, r)"
        using Cons.prems(5) ie len d False by (auto simp: Let_def split: if_splits)
      with step [of n0 n1 True] Cons.prems(1-3) fnd ie ne show ?thesis
        by (auto simp: child_ok_skip)
    next
      case full: True
      define x where "x = (hcode ?e ! length pre)"
      have code: "hcode ?e = pre @ [x]" using hmatch_full [OF True] full by (simp add: x_def)
      let ?n0 = "if x then n0 else Some (hleaf i)" and ?n1 = "if x then Some (hleaf i) else n1"
      have c0: "child_ok pre (xs @ [ie]) False ?n0" and c1: "child_ok pre (xs @ [ie]) True ?n1"
        using Cons.prems(2,3) code ie by (auto simp: child_ok_skip child_ok_leaf)
      have eq: "(if (if x then n0 else n1) \<noteq> None then (?n0, ?n1, True, True)
          else layerScan es (unbits pre) (length pre) (?n0, ?n1, True)) = (m0, m1, f, r)"
        using Cons.prems(5) ie len d full ar x_def by (auto simp: Let_def split: if_splits)
      show ?thesis
      proof (cases "(if x then n0 else n1) \<noteq> None")
        case True
        with eq have m: "m0 = ?n0" "m1 = ?n1" "f" "?n0 \<noteq> None" "?n1 \<noteq> None"
          by (auto split: if_splits)
        obtain c0' c1' where c: "m0 = Some c0'" "m1 = Some c1'"
          using m(1,2,4,5) by (metis option.exhaust)
        with c0 c1 m(1,2) have "child_ok pre (xs @ [ie]) False (Some c0')"
          "child_ok pre (xs @ [ie]) True (Some c1')" by metis+
        with c have "child_ok pre (xs @ ie # es) False m0" "child_ok pre (xs @ ie # es) True m1"
          using child_ok_more [of pre "xs @ [ie]" _ _ es] by auto
        with m fnd ie show ?thesis by auto
      next
        case False
        with eq have "layerScan es (unbits pre) (length pre) (?n0, ?n1, True) = (m0, m1, f, r)"
          by (auto split: if_splits)
        with step [of ?n0 ?n1 True] c0 c1 fnd Cons.prems(1) show ?thesis by auto
      qed
    qed
  qed
qed

lemma makeLayer_child:
  assumes i: "i < length tbl" and code: "hcode (tbl ! i) = pre @ b # rest"
  shows "next_of b (makeLayer tbl (unbits pre) (length pre)) =
    Some (if rest = [] then hleaf i else makeLayer tbl (unbits (pre @ [b])) (length (pre @ [b])))"
proof -
  let ?E = "enumerate 0 tbl"
  obtain m0 m1 f r where scan:
    "layerScan ?E (unbits pre) (length pre) (None, None, False) = (m0, m1, f, r)"
    by (metis surj_pair)
  have "snd ` set ?E \<subseteq> set tbl"
    by (auto simp: in_set_enumerate_eq) (metis nth_mem)
  from layerScan_spec [OF this _ _ _ scan, of "[]"]
  have s: "child_ok pre ?E False m0" "child_ok pre ?E True m1"
    "f \<longleftrightarrow> (\<exists>(i, e) \<in> set ?E. hmatch pre e)" "r \<longrightarrow> m0 \<noteq> None \<and> m1 \<noteq> None"
    by (auto simp: child_ok_def)
  define m where "m = (if b then m1 else m0)"
  have m: "child_ok pre ?E b m" using s(1,2) by (simp add: m_def)
  have mem: "(i, tbl ! i) \<in> set ?E" using i by (simp add: in_set_enumerate_eq)
  have "fst (tbl ! i) = length pre + Suc (length rest)"
    using arg_cong [OF code, of length] by simp
  then have "hmatch pre (tbl ! i)"
    by (simp add: hmatch_def code)
  with s(3) mem have f: f by auto
  have uniq: "j = i \<and> rest = []" if "m = Some n" "(j, e) \<in> set ?E" "hcode e = pre @ [b]" for n j e
  proof -
    have j: "j < length tbl" "e = tbl ! j" using that(2) by (auto simp: in_set_enumerate_eq)
    have "prefix (hcode (tbl ! j)) (hcode (tbl ! i))" using code that(3) j(2) by simp
    with prefix_free [OF j(1) i] that(3) j(2) code show ?thesis by auto
  qed
  show ?thesis
  proof (cases "rest = []")
    case True
    with m code mem obtain n where n: "m = Some n"
      by (cases m) (auto simp: child_ok_def)
    with m uniq [OF n] have "n = hleaf i" by (auto simp: child_ok_def)
    with n True scan f show ?thesis
      by (auto simp: makeLayer.simps [of tbl "unbits pre" "length pre"] m_def next_of_def split: if_splits)
  next
    case False
    with m uniq have n: "m = None" by (cases m) (auto simp: child_ok_def)
    with s(4) have "\<not> r" by (auto simp: m_def split: if_splits)
    with n False scan f show ?thesis
      by (auto simp: makeLayer.simps [of tbl "unbits pre" "length pre"] m_def next_of_def unbits_snoc
          split: if_splits)
  qed
qed

end

section \<open>Decompression inverts compression\<close>

lemma leaf_hleaf [simp]: "leaf (hleaf i)" "val (hleaf i) = word_of_nat i"
  by (simp_all add: hleaf_def)

lemma makeLayer_inner [simp]: "\<not> leaf (makeLayer tbl p n)"
  by (simp add: makeLayer.simps [of tbl p n] split: prod.splits)

definition huffmanNode :: "bool list \<Rightarrow> huffmanDecoderNode" where
  "huffmanNode pre = makeLayer huffmanTable (unbits pre) (length pre)"

lemma huffmanNode_Nil: "huffmanNode [] = decompressorTree"
  by (simp add: huffmanNode_def decompressorTree_def)

lemma huffmanNode_next:
  assumes "i < 256" "hcode (huffmanTable ! i) = pre @ b # rest"
  shows "next_of b (huffmanNode pre) = Some (if rest = [] then hleaf i else huffmanNode (pre @ [b]))"
  using hc.makeLayer_child [of i pre b rest] assms by (simp add: huffmanNode_def length_huffmanTable)

text \<open>The code of a string, before padding.\<close>

definition huffman_bits :: "byte list \<Rightarrow> bool list" where
  "huffman_bits bs = concat (map (\<lambda>c. hcode (huffmanTable ! unat c)) bs)"

lemma huffman_bits_simps [simp]:
  "huffman_bits [] = []" "huffman_bits (c # cs) = hcode (huffmanTable ! unat c) @ huffman_bits cs"
  by (simp_all add: huffman_bits_def)

lemma unat_byte_less [simp]: "unat (c :: byte) < 256"
  using unsigned_less [of c, where 'a = nat] by simp

lemma length_huffman_bits: "5 * length cs \<le> length (huffman_bits cs)"
proof (induction cs)
  case (Cons c cs)
  with huffmanTable_item(1) [of "unat c"] show ?case by simp
qed simp

context byte_source
begin

lemma decompress_step:
  assumes "rok ok (hreader d)" "rbits content (hreader d) = b # bs" "length p < n"
    "cursor d = Some c" "next_of b c = Some c'"
  obtains br where "rok ok br" "rbits content br = bs" "fin (reader br) = fin (reader (hreader d))"
    "decompressRead ops n p d =
       (if leaf c' then decompressRead ops n (p @ [val c'])
                          (d\<lparr>hreader := br, cursor := Some decompressorTree\<rparr>)
        else decompressRead ops n p (d\<lparr>hreader := br, cursor := Some c'\<rparr>))"
proof -
  from ReadBit_spec [OF assms(1)] assms(2) obtain br where
    "ReadBit ops (hreader d) = (Inr (of_bool b), br)" "rok ok br" "rbits content br = bs"
    "fin (reader br) = fin (reader (hreader d))" by auto
  with assms that show ?thesis
    by (simp add: decompressRead.simps [of ops n p d] next_of_def split: if_splits)
qed

lemma decompress_symbol:
  assumes "i < 256" "hcode (huffmanTable ! i) = pre @ suf" "suf \<noteq> []" "length p < n"
    "rok ok (hreader d)" "rbits content (hreader d) = suf @ rest" "cursor d = Some (huffmanNode pre)"
  obtains d' where "decompressRead ops n p d = decompressRead ops n (p @ [word_of_nat i]) d'"
    "rok ok (hreader d')" "rbits content (hreader d') = rest" "cursor d' = Some decompressorTree"
    "fin (reader (hreader d')) = fin (reader (hreader d))"
  using assms
proof (induction suf arbitrary: pre d thesis)
  case Nil
  then show ?case by simp
next
  case (Cons b suf)
  have nx: "next_of b (huffmanNode pre) = Some (if suf = [] then hleaf i else huffmanNode (pre @ [b]))"
    using huffmanNode_next Cons.prems(2,3) by blast
  have rb: "rbits content (hreader d) = b # suf @ rest" using Cons.prems(7) by simp
  obtain br where br: "rok ok br" "rbits content br = suf @ rest"
    "fin (reader br) = fin (reader (hreader d))"
    "decompressRead ops n p d =
       (if leaf (if suf = [] then hleaf i else huffmanNode (pre @ [b]))
        then decompressRead ops n (p @ [val (if suf = [] then hleaf i else huffmanNode (pre @ [b]))])
               (d\<lparr>hreader := br, cursor := Some decompressorTree\<rparr>)
        else decompressRead ops n p (d\<lparr>hreader := br,
               cursor := Some (if suf = [] then hleaf i else huffmanNode (pre @ [b]))\<rparr>))"
    by (rule decompress_step [OF Cons.prems(6) rb Cons.prems(5) Cons.prems(8) nx])
  show ?case
  proof (cases "suf = []")
    case True
    with br show ?thesis
      by (intro Cons.prems(1) [of "d\<lparr>hreader := br, cursor := Some decompressorTree\<rparr>"]) simp_all
  next
    case False
    let ?d = "d\<lparr>hreader := br, cursor := Some (huffmanNode (pre @ [b]))\<rparr>"
    have eq: "decompressRead ops n p d = decompressRead ops n p ?d"
      using br(4) False by (simp add: huffmanNode_def)
    show ?thesis
    proof (rule Cons.IH [of ?d _ "pre @ [b]"])
      fix d' assume "decompressRead ops n p ?d = decompressRead ops n (p @ [word_of_nat i]) d'"
        "rok ok (hreader d')" "rbits content (hreader d') = rest" "cursor d' = Some decompressorTree"
        "fin (reader (hreader d')) = fin (reader (hreader ?d))"
      with eq br(3) show thesis by (intro Cons.prems(1) [of d']) simp_all
    qed (use Cons.prems br False in simp_all)
  qed
qed

lemma decompress_partial:
  assumes "i < 256" "hcode (huffmanTable ! i) = pre @ suf @ b # bs" "length p < n"
    "rok ok (hreader d)" "rbits content (hreader d) = suf" "cursor d = Some (huffmanNode pre)"
  obtains d' where "decompressRead ops n p d = ((p, Some (fin (reader (hreader d)))), d')"
    "rok ok (hreader d')" "rbits content (hreader d') = []"
    "fin (reader (hreader d')) = fin (reader (hreader d))"
  using assms
proof (induction suf arbitrary: pre d thesis)
  case Nil
  from Nil.prems(5) Nil.prems(6) obtain br where "ReadBit ops (hreader d) = (Inl (fin (reader (hreader d))), br)"
    "rok ok br" "rbits content br = []" "fin (reader br) = fin (reader (hreader d))"
    by (rule ReadBit_end)
  with Nil.prems(4) show ?case
    by (intro Nil.prems(1) [of "d\<lparr>hreader := br\<rparr>"]) (simp_all add: decompressRead.simps [of ops n p d])
next
  case (Cons a suf)
  have nx: "next_of a (huffmanNode pre) = Some (huffmanNode (pre @ [a]))"
    using huffmanNode_next [of i pre a "suf @ b # bs"] Cons.prems(2,3) by simp
  obtain br where br: "rok ok br" "rbits content br = suf"
    "fin (reader br) = fin (reader (hreader d))"
    "decompressRead ops n p d =
       (if leaf (huffmanNode (pre @ [a]))
        then decompressRead ops n (p @ [val (huffmanNode (pre @ [a]))])
               (d\<lparr>hreader := br, cursor := Some decompressorTree\<rparr>)
        else decompressRead ops n p (d\<lparr>hreader := br, cursor := Some (huffmanNode (pre @ [a]))\<rparr>))"
    by (rule decompress_step [OF Cons.prems(5,6,4,7) nx])
  let ?d = "d\<lparr>hreader := br, cursor := Some (huffmanNode (pre @ [a]))\<rparr>"
  have eq: "decompressRead ops n p d = decompressRead ops n p ?d"
    using br(4) by (simp add: huffmanNode_def)
  show ?case
  proof (rule Cons.IH [of ?d _ "pre @ [a]"])
    fix d' assume "decompressRead ops n p ?d = ((p, Some (fin (reader (hreader ?d)))), d')"
      "rok ok (hreader d')" "rbits content (hreader d') = []"
      "fin (reader (hreader d')) = fin (reader (hreader ?d))"
    with eq br(3) show thesis by (intro Cons.prems(1) [of d']) simp_all
  qed (use Cons.prems br in simp_all)
qed

text \<open>
  Reading the code of a string, followed by padding that is the beginning of some longer
  code word, into a buffer that is large enough gives the string; the read ends with the
  error of the source.
\<close>

lemma decompress_string:
  assumes "i < 256" "hcode (huffmanTable ! i) = pad @ b # bs" "length p + length cs < n"
    "rok ok (hreader d)" "rbits content (hreader d) = huffman_bits cs @ pad"
    "cursor d = Some decompressorTree"
  obtains d' where "decompressRead ops n p d = ((p @ cs, Some (fin (reader (hreader d)))), d')"
    "rok ok (hreader d')" "rbits content (hreader d') = []"
    "fin (reader (hreader d')) = fin (reader (hreader d))"
  using assms
proof (induction cs arbitrary: p d thesis)
  case Nil
  show ?case
  proof (rule decompress_partial [of i "[]" pad b bs p n d])
    fix d' assume "decompressRead ops n p d = ((p, Some (fin (reader (hreader d)))), d')"
      "rok ok (hreader d')" "rbits content (hreader d') = []"
      "fin (reader (hreader d')) = fin (reader (hreader d))"
    then show thesis by (intro Nil.prems(1) [of d']) simp_all
  qed (use Nil.prems in \<open>simp_all add: huffmanNode_Nil\<close>)
next
  case (Cons c cs)
  have c: "hcode (huffmanTable ! unat c) = [] @ hcode (huffmanTable ! unat c)"
    "hcode (huffmanTable ! unat c) \<noteq> []"
    using huffmanTable_item(1) [of "unat c"]
    by (simp, metis length_hcode list.size(3) not_numeral_le_zero unat_byte_less)
  obtain d1 where d1: "decompressRead ops n p d = decompressRead ops n (p @ [c]) d1"
    "rok ok (hreader d1)" "rbits content (hreader d1) = huffman_bits cs @ pad"
    "cursor d1 = Some decompressorTree"
    "fin (reader (hreader d1)) = fin (reader (hreader d))"
    using decompress_symbol [OF _ c, of p n d "huffman_bits cs @ pad"] Cons.prems
    by (auto simp: huffmanNode_Nil)
  show ?case
  proof (rule Cons.IH [of "p @ [c]" d1])
    fix d' assume "decompressRead ops n (p @ [c]) d1 = (((p @ [c]) @ cs, Some (fin (reader (hreader d1)))), d')"
      "rok ok (hreader d')" "rbits content (hreader d') = []"
      "fin (reader (hreader d')) = fin (reader (hreader d1))"
    with d1 show thesis by (intro Cons.prems(1) [of d']) simp_all
  qed (use Cons.prems d1 in simp_all)
qed

end

context reliable_sink
begin

lemma compressWrite_spec:
  assumes "wsavedBits bw < 8"
  shows "\<exists>bw'. compressWrite ops i cs bw = ((i + length cs, None), bw') \<and>
     wsavedBits bw' < 8 \<and> wbits out bw' = wbits out bw @ huffman_bits cs"
  using assms
proof (induction cs arbitrary: i bw)
  case Nil
  then show ?case by simp
next
  case (Cons c cs)
  obtain len v where e: "huffmanTable ! unat c = (len, v)" by fastforce
  have b: "len \<le> 30" "unat v < 2 ^ len" using huffmanTable_item [of "unat c"] e by auto
  have "n < len" if "bit v n" for n
    using b(2) that by (metis bit_take_bit_iff take_bit_eq_self_unat_iff)
  then have "take_bit len (ucast v :: u64) = ucast v"
    by (intro bit_word_eqI) (auto simp: bit_take_bit_iff bit_ucast_iff)
  then have "produces out (WriteBits ops (ucast v) len) (hcode (huffmanTable ! unat c)) ()"
    using WriteBits_produces [of len "ucast v"] b e by (simp add: hcode_def bits_ucast)
  from this Cons.prems obtain bw1 where "WriteBits ops (ucast v) len bw = (Inr (), bw1)"
    "wsavedBits bw1 < 8" "wbits out bw1 = wbits out bw @ hcode (huffmanTable ! unat c)"
    by (rule producesE)
  with Cons.IH [of bw1 "Suc i"] e show ?case by simp
qed

end

end
