(* ===== verification/HcIO.thy ===== *)
theory HcIO
  imports Huffman
begin

text \<open>
  The integers and strings of HPACK and QPACK: \<open>src/hc/io.go\<close>. A \<open>Reader\<close> is the
  bit reader it embeds, a \<open>Writer\<close> the bit writer. Integers are \<open>uint64\<close> and kept at
  that width; the lemmas show that no value is ever wrapped around and that reading inverts
  writing.
\<close>

section \<open>Reading\<close>

text \<open>The loop over the continuation bytes, from shift \<open>s\<close>.\<close>

function readIntLoop :: "'r src_ops \<Rightarrow> nat \<Rightarrow> u64 \<Rightarrow> ('r bitReader, u64) io" where
  "readIntLoop ops s v br =
     (if s < 64 then
        (case ReadBits ops 8 br of
           (Inl e, br') \<Rightarrow> (Inl e, br')
         | (Inr b, br') \<Rightarrow>
             if s = 63 \<and> (b > 1 \<or> b = 1 \<and> drop_bit 63 v = 1) then (Inl ErrIntegerOverflow, br')
             else if b AND 0x80 = 0 then (Inr (v + push_bit s (b AND 0x7f)), br')
             else readIntLoop ops (s + 7) (v + push_bit s (b AND 0x7f)) br')
      else (Inr v, br))"
  by pat_completeness auto
termination
  by (relation "measure (\<lambda>(ops, s, v, br). 70 - s)") auto

declare readIntLoop.simps [simp del]

definition ReadInt :: "'r src_ops \<Rightarrow> nat \<Rightarrow> ('r bitReader, u64) io" where
  "ReadInt ops pfx =
     bnd (ReadBits ops pfx) (\<lambda>v.
       if v < push_bit pfx 1 - 1 then ret v else readIntLoop ops 0 v)"

definition ReadIndex :: "'r src_ops \<Rightarrow> nat \<Rightarrow> ('r bitReader, int) io" where
  "ReadIndex ops pfx =
     bnd (ReadInt ops pfx) (\<lambda>offset.
       if uint offset > intMax then throw ErrIntegerOverflow else ret (uint offset))"

text \<open>
  A panic, a call that spins and one that waits are not errors that Go code can ignore.
\<close>

fun abnormal :: "goerr \<Rightarrow> bool" where
  "abnormal (Panic _) = True"
| "abnormal Diverge = True"
| "abnormal Blocked = True"
| "abnormal _ = False"

definition ignoring :: "goerr \<Rightarrow> 'a \<Rightarrow> goerr + 'a" where
  "ignoring e x = (if abnormal e then Inl e else Inr x)"

text \<open>
  \<open>make([]byte, n)\<close> panics when \<open>n\<close> bytes exceed the address space of the runtime
  (2 to the 48th on 64-bit platforms).
\<close>

definition makeslice_ok :: "u64 \<Rightarrow> bool" where
  "makeslice_ok n \<longleftrightarrow> n \<le> 2 ^ 48"

definition readStringResult :: "byte list \<Rightarrow> goerr option \<Rightarrow> goerr + string" where
  "readStringResult buf e =
     (case e of
        None \<Rightarrow> Inr (bytes_string buf)
      | Some e \<Rightarrow> if e = ErrUnexpectedEOF then Inr (bytes_string buf) else Inl e)"

definition ReadString :: "'r src_ops \<Rightarrow> nat \<Rightarrow> ('r bitReader, string) io" where
  "ReadString ops pfx br =
     (case ReadBit ops br of
        (Inl e, br1) \<Rightarrow> (ignoring e '''', br1)
      | (Inr huffman, br1) \<Rightarrow>
          (case ReadInt ops pfx br1 of
             (Inl e, br2) \<Rightarrow> (ignoring e '''', br2)
           | (Inr len, br2) \<Rightarrow>
               (let valueReader = \<lparr>limR = br2, limN = sint len\<rparr>;
                    n = (if huffman \<noteq> 0 then len * 8 div 5 + 1 else len)
                in if \<not> makeslice_ok n then (Inl (Panic ''makeslice: len out of range''), br2)
                   else if huffman \<noteq> 0 then
                     (case ReadFull (huff_ops (lim_ops (br_ops ops))) (unat n)
                             (NewHuffmanDecompressor valueReader) of
                        ((buf, e), d) \<Rightarrow> (readStringResult buf e, limR (reader (hreader d))))
                   else
                     (case ReadFull (lim_ops (br_ops ops)) (unat n) valueReader of
                        ((buf, e), l) \<Rightarrow> (readStringResult buf e, limR l)))))"

section \<open>Writing\<close>

function writeIntLoop :: "'w snk_ops \<Rightarrow> u64 \<Rightarrow> ('w bitWriter, unit) io" where
  "writeIntLoop ops p bw =
     (let b = ucast (p AND 0x7f); p' = drop_bit 7 p in
      if p' > 0 then
        (case WriteByte ops (b OR 0x80) bw of
           (Inl e, bw') \<Rightarrow> (Inl e, bw')
         | (Inr _, bw') \<Rightarrow> writeIntLoop ops p' bw')
      else WriteByte ops b bw)"
  by pat_completeness auto
termination
proof (relation "measure (\<lambda>(ops, p, bw). unat p)")
  fix ops :: "'w snk_ops" and p p' :: u64 and bw bw' :: "'w bitWriter"
  assume "p' = drop_bit 7 p" "p' > 0"
  then show "((ops, p', bw'), ops, p, bw) \<in> measure (\<lambda>(ops, p, bw). unat p)"
    by (auto simp: drop_bit_eq_div unat_div word_less_nat_alt)
qed auto

declare writeIntLoop.simps [simp del]

definition WriteInt :: "'w snk_ops \<Rightarrow> u64 \<Rightarrow> nat \<Rightarrow> ('w bitWriter, unit) io" where
  "WriteInt ops p pfx =
     (if pfx > 8 \<or> pfx = 0 then throw (Panic ''invalid HPACK integer prefix'')
      else
        (let ones = push_bit pfx 1 - 1 in
         if p < ones then WriteBits ops p pfx
         else bnd (WriteBits ops ones pfx) (\<lambda>_. writeIntLoop ops (p - ones))))"

datatype HuffmanCodingChoice = HuffmanCodingAuto | HuffmanCodingAlways | HuffmanCodingNever

text \<open>The Huffman coding of a string into a fresh \<open>bytes.Buffer\<close>, padded to whole bytes.\<close>

definition compressString :: "string \<Rightarrow> goerr + byte list" where
  "compressString s =
     (case copyTo (compressWrite buf_ops 0) (string_bytes s) (NewBitWriter []) of
        ((n, Some e), bw) \<Rightarrow> Inl e
      | ((n, None), bw) \<Rightarrow>
          if n < length s then Inl ErrShortWrite
          else
            (case compressPad buf_ops bw of
               (Inl e, bw') \<Rightarrow> Inl e
             | (Inr _, bw') \<Rightarrow> Inr (writer bw')))"

definition writeStringBytes :: "'w snk_ops \<Rightarrow> byte \<Rightarrow> byte list \<Rightarrow> nat \<Rightarrow> ('w bitWriter, unit) io" where
  "writeStringBytes ops hbit p pfx =
     bnd (WriteBit ops hbit) (\<lambda>_.
     bnd (WriteInt ops (word_of_nat (length p)) pfx) (\<lambda>_ bw.
       (case copyTo (Write ops) p bw of
          ((n, Some e), bw') \<Rightarrow> (Inl e, bw')
        | ((n, None), bw') \<Rightarrow>
            (if n < length p then Inl ErrShortWrite else Inr (), bw'))))"

definition WriteStringRaw :: "'w snk_ops \<Rightarrow> string \<Rightarrow> nat \<Rightarrow> HuffmanCodingChoice \<Rightarrow> ('w bitWriter, unit) io" where
  "WriteStringRaw ops s pfx huffman =
     (if huffman \<noteq> HuffmanCodingNever then
        (case compressString s of
           Inl e \<Rightarrow> throw e
         | Inr buf \<Rightarrow>
             if huffman = HuffmanCodingAlways \<or> length buf < length s
             then writeStringBytes ops 1 buf pfx
             else writeStringBytes ops 0 (string_bytes s) pfx)
      else writeStringBytes ops 0 (string_bytes s) pfx)"

definition WriteString :: "'w snk_ops \<Rightarrow> string \<Rightarrow> nat \<Rightarrow> ('w bitWriter, unit) io" where
  "WriteString ops s pfx = WriteStringRaw ops s pfx HuffmanCodingAuto"

section \<open>Integers on the wire\<close>

text \<open>
  The representation that RFC 7541, section 5.1 gives an integer: a prefix of \<open>n\<close> bits,
  and groups of seven bits, least significant first, for what does not fit.
\<close>

fun varint :: "nat \<Rightarrow> byte list" where
  "varint q = (if q < 128 then [word_of_nat q]
     else word_of_nat (q mod 128 + 128) # varint (q div 128))"

declare varint.simps [simp del]

definition int_bits :: "nat \<Rightarrow> nat \<Rightarrow> bool list" where
  "int_bits n p =
     (if p < 2 ^ n - 1 then bits n p
      else bits n (2 ^ n - 1 :: nat) @ bytes_bits (varint (p - (2 ^ n - 1))))"

lemma unat_low7: "unat (b AND 0x7f :: 'a::len word) = unat b mod 128" if "7 \<le> LENGTH('a)"
proof -
  have m: "(0x7f :: 'a word) = mask 7" by (simp add: mask_eq_exp_minus_1)
  show ?thesis
    unfolding m take_bit_eq_mask [symmetric] unsigned_take_bit_eq by (simp add: take_bit_eq_mod)
qed

lemma high_bit_byte: "(ucast b AND 0x80 :: u64) = 0 \<longleftrightarrow> unat (b :: byte) < 128"
proof -
  have "(ucast b AND 0x80 :: u64) = 0 \<longleftrightarrow> \<not> bit b 7"
    using and_exp_eq_0_iff_not_bit [of "ucast b :: u64" 7] by (simp add: bit_ucast_iff)
  also have "\<dots> \<longleftrightarrow> drop_bit 7 b = 0"
  proof
    assume "\<not> bit b 7"
    show "drop_bit 7 b = 0"
    proof (rule bit_word_eqI)
      fix i assume i: "i < LENGTH(8)"
      have "bit b (7 + i) \<Longrightarrow> i = 0" using bit_imp_le_length [of b "7 + i"] by simp
      with \<open>\<not> bit b 7\<close> show "bit (drop_bit 7 b) i = bit 0 i"
        by (auto simp: bit_drop_bit_eq)
    qed
  next
    assume "drop_bit 7 b = 0"
    then have "bit (drop_bit 7 b) 0 = bit 0 0" by simp
    then show "\<not> bit b 7" by (simp add: bit_drop_bit_eq del: bit_0)
  qed
  also have "\<dots> \<longleftrightarrow> unat b div 128 = 0"
    by (simp add: drop_bit_eq_div word_unat_eq_iff unat_div)
  also have "\<dots> \<longleftrightarrow> unat b < 128" by (simp add: div_eq_0_iff)
  finally show ?thesis .
qed

lemma low7_ucast: "(ucast b AND 0x7f :: u64) = word_of_nat (unat (b :: byte) mod 128)"
proof -
  have "unat (ucast b :: u64) = unat b" by (simp add: unat_ucast_up)
  then show ?thesis
    using unat_low7 [of "ucast b :: u64"] by (simp add: word_unat_eq_iff unat_of_nat)
qed

context byte_source
begin

lemma ReadBits_byte_consumes:
  "consumes content fin ok (ReadBits ops 8) (bits 8 (b :: byte)) (ucast b)"
  using ReadBits_value_consumes [of 8 "ucast b"] by (simp add: bits_ucast take_bit_ucast)

text \<open>One turn of the loop on a byte \<open>b\<close>.\<close>

lemma readIntLoop_byte:
  fixes b :: byte
  assumes "s \<le> 63" "s = 63 \<longrightarrow> b < 2 \<and> (b = 1 \<longrightarrow> drop_bit 63 v = 0)"
  and "128 \<le> unat b \<Longrightarrow>
    consumes content fin ok (readIntLoop ops (s + 7) (v + word_of_nat (unat b mod 128 * 2 ^ s))) bs x"
  and "unat b < 128 \<Longrightarrow> bs = [] \<and> x = v + word_of_nat (unat b * 2 ^ s)"
  shows "consumes content fin ok (readIntLoop ops s v) (bits 8 b @ bs) x"
proof -
  have sum: "v + push_bit s (ucast b AND 0x7f) = v + word_of_nat (unat b mod 128 * 2 ^ s)"
    unfolding low7_ucast by (simp add: push_bit_eq_mult)
  have g: "\<not> (s = 63 \<and> ((ucast b :: u64) > 1 \<or> (ucast b :: u64) = 1 \<and> drop_bit 63 v = 1))"
  proof
    assume a: "s = 63 \<and> ((ucast b :: u64) > 1 \<or> (ucast b :: u64) = 1 \<and> drop_bit 63 v = 1)"
    have u: "unat (ucast b :: u64) = unat b" by (simp add: unat_ucast_up)
    have "unat b < 2" using a assms(2) by (simp add: word_less_nat_alt)
    then have "\<not> (ucast b :: u64) > 1" using u by (simp add: word_less_nat_alt)
    moreover have "b = 1" if "(ucast b :: u64) = 1" using that u by (simp add: word_unat_eq_iff)
    ultimately show False using a assms(2) by auto
  qed
  have eq: "readIntLoop ops s v = bnd (ReadBits ops 8) (\<lambda>b br'.
      if s = 63 \<and> (b > 1 \<or> b = 1 \<and> drop_bit 63 v = 1) then (Inl ErrIntegerOverflow, br')
      else if b AND 0x80 = 0 then (Inr (v + push_bit s (b AND 0x7f)), br')
      else readIntLoop ops (s + 7) (v + push_bit s (b AND 0x7f)) br')"
    using assms(1) by (intro ext) (simp add: readIntLoop.simps [of ops s v] bnd_def)
  have r: "consumes content fin ok (\<lambda>br'.
      if unat b < 128 then (Inr (v + word_of_nat (unat b mod 128 * 2 ^ s)), br')
      else readIntLoop ops (s + 7) (v + word_of_nat (unat b mod 128 * 2 ^ s)) br') bs x"
    using assms(3,4) consumes_ret [of content fin ok x]
    by (cases "unat b < 128") (simp_all add: ret_def [abs_def])
  show ?thesis
    unfolding eq
  proof (rule consumes_bnd [OF ReadBits_byte_consumes])
    show "consumes content fin ok (\<lambda>br'.
      if s = 63 \<and> ((ucast b :: u64) > 1 \<or> (ucast b :: u64) = 1 \<and> drop_bit 63 v = 1)
      then (Inl ErrIntegerOverflow, br')
      else if (ucast b AND 0x80 :: u64) = 0 then (Inr (v + push_bit s (ucast b AND 0x7f)), br')
      else readIntLoop ops (s + 7) (v + push_bit s (ucast b AND 0x7f)) br') bs x"
      unfolding if_not_P [OF g] high_bit_byte sum by (rule r)
  qed
qed

lemma readIntLoop_consumes:
  assumes "7 dvd s" "s \<le> 63" "unat v + q * 2 ^ s < 2 ^ 64"
  shows "consumes content fin ok (readIntLoop ops s v) (bytes_bits (varint q))
    (v + word_of_nat (q * 2 ^ s))"
  using assms
proof (induction q arbitrary: s v rule: varint.induct)
  case (1 q)
  show ?case
  proof (cases "q < 128")
    case True
    let ?b = "word_of_nat q :: byte"
    have u: "unat ?b = q" using True by (simp add: unat_of_nat)
    have top: "?b < 2 \<and> (?b = 1 \<longrightarrow> drop_bit 63 v = 0)" if "s = 63"
    proof
      have q: "q < 2" using "1.prems"(3) that by simp
      then show "?b < 2" using u by (simp add: word_less_nat_alt)
      show "?b = 1 \<longrightarrow> drop_bit 63 v = 0"
      proof
        assume "?b = 1"
        then have "unat v < 2 ^ 63" using "1.prems"(3) that u by simp
        then show "drop_bit 63 v = 0"
          by (simp add: drop_bit_eq_div word_unat_eq_iff unat_div)
      qed
    qed
    have "consumes content fin ok (readIntLoop ops s v) (bits 8 ?b @ []) (v + word_of_nat (q * 2 ^ s))"
      using "1.prems"(2) top u True by (intro readIntLoop_byte) auto
    with True show ?thesis by (simp add: varint.simps [of q])
  next
    case False
    let ?b = "word_of_nat (q mod 128 + 128) :: byte"
    have u: "unat ?b = q mod 128 + 128" by (simp add: unat_of_nat del: of_nat_add)
    have s: "s \<noteq> 63"
    proof
      assume "s = 63"
      then have "q * 2 ^ 63 < 2 * 2 ^ 63" using "1.prems"(3) by simp
      then show False using False by simp
    qed
    then have s7: "s + 7 \<le> 63" "7 dvd s + 7"
      using "1.prems"(1,2) by (auto elim!: dvdE)
    let ?v = "v + word_of_nat (q mod 128 * 2 ^ s)"
    have split: "q * 2 ^ s = q mod 128 * 2 ^ s + q div 128 * 2 ^ (s + 7)"
      by (simp add: power_add flip: distrib_right)
        (metis (no_types) div_mult_mod_eq add.commute mult.commute mult.left_commute distrib_left)
    have "unat ?v = unat v + q mod 128 * 2 ^ s"
      using "1.prems"(3) split by (intro unat_add_of_nat) simp
    then have "consumes content fin ok (readIntLoop ops (s + 7) ?v) (bytes_bits (varint (q div 128)))
        (?v + word_of_nat (q div 128 * 2 ^ (s + 7)))"
      using "1.prems"(3) split by (intro "1.IH" False s7) simp_all
    then have "consumes content fin ok (readIntLoop ops s v) (bits 8 ?b @ bytes_bits (varint (q div 128)))
        (v + word_of_nat (q * 2 ^ s))"
      using "1.prems"(2) s u split
      by (intro readIntLoop_byte) (simp_all add: mod_simps add.assoc)
    with False show ?thesis by (simp add: varint.simps [of q])
  qed
qed

lemma ReadInt_consumes:
  assumes "1 \<le> n" "n \<le> 8" "p < 2 ^ 64"
  shows "consumes content fin ok (ReadInt ops n) (int_bits n p) (word_of_nat p)"
proof -
  let ?ones = "2 ^ n - 1 :: nat"
  have two: "(2 :: nat) \<le> 2 ^ n" "(2 :: nat) ^ n \<le> 2 ^ 8"
    using assms by (simp_all add: self_le_power del: power_numeral)
  have ones: "unat (push_bit n 1 - 1 :: u64) = ?ones"
    using assms two by (simp add: unat_sub_if' unat_2p)
  have bits_nat: "bits n (word_of_nat k :: u64) = bits n k" if "k < 2 ^ n" for k
    using bits_unat [of n "word_of_nat k :: u64"] that assms(2) two by (simp add: unat_of_nat)
  have rd: "consumes content fin ok (ReadBits ops n) (bits n k) (word_of_nat k)" if "k < 2 ^ n" for k
    using ReadBits_value_consumes [of n "word_of_nat k"] bits_nat [OF that] that assms two
    by (simp add: take_bit_eq_self_unat_iff unat_of_nat)
  show ?thesis
  proof (cases "p < ?ones")
    case True
    then have lt: "(word_of_nat p :: u64) < push_bit n 1 - 1"
      using ones assms(3) by (simp add: word_less_nat_alt unat_of_nat)
    have "consumes content fin ok (ReadInt ops n) (bits n p @ []) (word_of_nat p)"
      unfolding ReadInt_def
      by (rule consumes_bnd [OF rd]) (use True lt in \<open>simp_all add: consumes_ret\<close>)
    with True show ?thesis by (simp add: int_bits_def)
  next
    case False
    have v: "(word_of_nat ?ones :: u64) = push_bit n 1 - 1"
      using two by (simp add: word_unat_eq_iff ones unat_of_nat)
    have "consumes content fin ok (ReadInt ops n)
        (bits n ?ones @ bytes_bits (varint (p - ?ones))) (word_of_nat p)"
      unfolding ReadInt_def
    proof (rule consumes_bnd [OF rd])
      have u: "unat (word_of_nat ?ones :: u64) = ?ones" unfolding v by (rule ones)
      have "consumes content fin ok (readIntLoop ops 0 (word_of_nat ?ones))
          (bytes_bits (varint (p - ?ones))) (word_of_nat ?ones + word_of_nat ((p - ?ones) * 2 ^ 0))"
        using False assms(3) u by (intro readIntLoop_consumes) simp_all
      moreover have "word_of_nat ?ones + word_of_nat ((p - ?ones) * 2 ^ 0) = (word_of_nat p :: u64)"
        using False by (simp flip: of_nat_add)
      ultimately show "consumes content fin ok
          (if word_of_nat ?ones < (push_bit n 1 - 1 :: u64) then ret (word_of_nat ?ones)
           else readIntLoop ops 0 (word_of_nat ?ones))
          (bytes_bits (varint (p - ?ones))) (word_of_nat p)"
        using v by simp
    qed simp
    with False show ?thesis by (simp add: int_bits_def)
  qed
qed

end

context reliable_sink
begin

lemma writeIntLoop_produces:
  "produces out (writeIntLoop ops p) (bytes_bits (varint (unat p))) ()"
proof (induction "unat p" arbitrary: p rule: less_induct)
  case less
  have d: "unat (drop_bit 7 p) = unat p div 128"
    by (simp add: drop_bit_eq_div unat_div)
  have low: "ucast (p AND 0x7f) = (word_of_nat (unat p mod 128) :: byte)"
    using unat_low7 [of p] by (simp add: unsigned_ucast_eq word_unat_eq_iff unat_of_nat take_bit_eq_mod)
  show ?case
  proof (cases "unat p < 128")
    case True
    then have "writeIntLoop ops p = WriteByte ops (word_of_nat (unat p))"
      using d low by (intro ext) (simp add: writeIntLoop.simps [of ops p] word_less_nat_alt)
    with True WriteByte_produces show ?thesis by (simp add: varint.simps [of "unat p"])
  next
    case False
    have hi: "word_of_nat (unat p mod 128) OR 0x80 = (word_of_nat (unat p mod 128 + 128) :: byte)"
    proof -
      let ?a = "word_of_nat (unat p mod 128) :: byte"
      have "take_bit 7 ?a = ?a" by (simp add: take_bit_eq_self_unat_iff unat_of_nat)
      then have "\<not> bit ?a 7" by (metis bit_take_bit_iff less_irrefl)
      then have "?a AND 0x80 = 0" using and_exp_eq_0_iff_not_bit [of ?a 7] by simp
      then show ?thesis by (simp add: disjunctive_add_eq_or [symmetric])
    qed
    have eq: "writeIntLoop ops p = bnd (WriteByte ops (word_of_nat (unat p mod 128 + 128)))
        (\<lambda>_. writeIntLoop ops (drop_bit 7 p))"
      using False d low hi
      by (intro ext) (simp add: writeIntLoop.simps [of ops p] word_less_nat_alt bnd_def div_greater_zero_iff)
    have "unat (drop_bit 7 p) < unat p" using False d by simp
    from less.hyps [OF this] have "produces out (writeIntLoop ops p)
        (bits 8 (word_of_nat (unat p mod 128 + 128) :: byte) @ bytes_bits (varint (unat p div 128))) ()"
      unfolding eq by (intro produces_bnd [OF WriteByte_produces]) (simp add: d)
    with False show ?thesis by (simp add: varint.simps [of "unat p"])
  qed
qed

lemma WriteInt_produces:
  assumes "1 \<le> n" "n \<le> 8"
  shows "produces out (WriteInt ops p n) (int_bits n (unat p)) ()"
proof -
  let ?ones = "push_bit n 1 - 1 :: u64"
  have two: "(2 :: nat) \<le> 2 ^ n" "(2 :: nat) ^ n \<le> 2 ^ 8"
    using assms by (simp_all add: self_le_power del: power_numeral)
  have ones: "unat ?ones = 2 ^ n - 1"
    using assms two by (simp add: unat_sub_if' unat_2p)
  have wr: "produces out (WriteBits ops v n) (bits n (unat v)) ()" if "unat v < 2 ^ n" for v :: u64
    using WriteBits_produces [of n v] that assms
    by (simp add: take_bit_eq_self_unat_iff bits_unat)
  show ?thesis
  proof (cases "p < ?ones")
    case True
    then have "unat p < 2 ^ n - 1" using ones by (simp add: word_less_nat_alt)
    with True wr [of p] assms show ?thesis by (simp add: WriteInt_def int_bits_def)
  next
    case False
    then have ge: "2 ^ n - 1 \<le> unat p" using ones by (simp add: word_less_nat_alt)
    have sub: "unat (p - ?ones) = unat p - (2 ^ n - 1)"
      using ge ones by (simp add: unat_sub_if')
    have "produces out (bnd (WriteBits ops ?ones n) (\<lambda>_. writeIntLoop ops (p - ?ones)))
        (bits n (unat ?ones) @ bytes_bits (varint (unat (p - ?ones)))) ()"
      by (rule produces_bnd [OF wr writeIntLoop_produces]) (use ones two in simp)
    with False ge assms sub ones show ?thesis by (simp add: WriteInt_def int_bits_def Let_def)
  qed
qed

end

section \<open>Integers are never wrapped around\<close>

text \<open>The number that an integer of prefix \<open>n\<close> stands for, computed without bounds.\<close>

fun vint :: "byte list \<Rightarrow> nat" where
  "vint [] = 0"
| "vint (b # bs) = unat b mod 128 + 128 * vint bs"

definition int_value :: "nat \<Rightarrow> bool list \<Rightarrow> nat" where
  "int_value n bs = unbits (take n bs) + vint (bits_bytes (drop n bs))"

context byte_source
begin

lemma ReadBits_Inr:
  assumes "rok ok br" "count \<le> 64" "ReadBits ops count br = (Inr v, br')"
  shows "rok ok br' \<and> fin (reader br') = fin (reader br) \<and> unat v < 2 ^ count \<and>
    rbits content br = bits count v @ rbits content br'"
proof -
  note spec = ReadBits_spec [OF assms(1,2)]
  with assms(3) have le: "count \<le> length (rbits content br)" by (auto split: if_splits)
  with spec assms(3) have v: "v = unbits (take count (rbits content br))"
    "rok ok br'" "rbits content br' = drop count (rbits content br)" "fin (reader br') = fin (reader br)"
    by auto
  have "bits count v = take count (rbits content br)"
    using v(1) le assms(2) by (simp add: bits_unbits)
  moreover have "take_bit count v = v"
    using v(1) le assms(2) by (simp add: take_bit_unbits)
  ultimately show ?thesis using v by (simp add: take_bit_eq_self_unat_iff)
qed

lemma readIntLoop_exact:
  assumes "readIntLoop ops s v br = (Inr w, br')" "rok ok br" "7 dvd s" "s \<le> 63" "unat v < 255 + 2 ^ s"
  shows "\<exists>bs. rok ok br' \<and> rbits content br = bytes_bits bs @ rbits content br' \<and>
    unat w = unat v + vint bs * 2 ^ s"
  using assms
proof (induction "70 - s" arbitrary: s v br rule: less_induct)
  case less
  obtain b br1 where rd: "ReadBits ops 8 br = (Inr b, br1)"
    using less.prems(1,4) by (auto simp: readIntLoop.simps [of ops s v br] split: prod.splits sum.splits)
  note b1 = ReadBits_Inr [OF less.prems(2) _ rd, simplified]
  define c :: byte where "c = ucast b"
  have uc: "unat c = unat b"
    using b1 by (simp add: c_def unsigned_ucast_eq take_bit_nat_eq_self_iff)
  then have bc: "b = ucast c" by (simp add: word_unat_eq_iff unat_ucast_up)
  have r1: "rbits content br = bits 8 c @ rbits content br1"
    using b1 by (simp add: bc bits_ucast)
  let ?v = "v + push_bit s (b AND 0x7f)"
  have vs: "?v = v + word_of_nat (unat c mod 128 * 2 ^ s)"
    unfolding bc low7_ucast by (simp add: push_bit_eq_mult)
  have ov: "\<not> (s = 63 \<and> (b > 1 \<or> b = 1 \<and> drop_bit 63 v = 1))"
    and nx: "if unat c < 128 then w = ?v \<and> br' = br1
      else readIntLoop ops (s + 7) ?v br1 = (Inr w, br')"
    using less.prems(1,4) rd high_bit_byte [of c]
    by (auto simp: readIntLoop.simps [of ops s v br] bc split: if_splits)
  have small: "unat v + unat c mod 128 * 2 ^ s < 255 + 2 ^ (s + 7) \<and>
      unat v + unat c mod 128 * 2 ^ s < 2 ^ 64"
  proof (cases "s = 63")
    case False
    have "unat c mod 128 \<le> 127" by (simp add: less_Suc_eq_le [symmetric])
    then have "unat c mod 128 * 2 ^ s \<le> 127 * 2 ^ s" by (rule mult_right_mono) simp
    then have "unat v + unat c mod 128 * 2 ^ s < 255 + 2 ^ s + 127 * 2 ^ s"
      using less.prems(5) by linarith
    also have "\<dots> = 255 + 2 ^ (s + 7)" by (simp add: power_add)
    finally have 1: "unat v + unat c mod 128 * 2 ^ s < 255 + 2 ^ (s + 7)" .
    have "s + 7 \<le> 63" using less.prems(3,4) False by (auto elim!: dvdE)
    then have "(2 :: nat) ^ (s + 7) \<le> 2 ^ 63" by (intro power_increasing) simp_all
    with 1 show ?thesis by simp
  next
    case True
    then have "unat c \<le> 1" using ov uc by (simp add: word_less_nat_alt)
    moreover have "unat v < 2 ^ 63" if "unat c = 1"
    proof -
      have "b = 1" using that uc by (simp add: word_unat_eq_iff)
      then have "drop_bit 63 v \<noteq> 1" using ov True by simp
      then have "unat v div 2 ^ 63 \<noteq> 1"
        by (simp add: word_unat_eq_iff drop_bit_eq_div unat_div)
      moreover have "unat v < 2 ^ 64" using unsigned_less [of v] by simp
      ultimately show ?thesis by (cases "unat v < 2 ^ 63") (simp_all add: div_nat_eqI)
    qed
    moreover have "unat v < 2 ^ 64" using unsigned_less [of v] by simp
    ultimately show ?thesis using True by (cases "unat c = 0") auto
  qed
  have uv: "unat ?v = unat v + unat c mod 128 * 2 ^ s"
    unfolding vs using small by (intro unat_add_of_nat) simp
  show ?case
  proof (cases "unat c < 128")
    case True
    with nx b1 r1 uv show ?thesis by (intro exI [of _ "[c]"]) simp
  next
    case False
    have "s \<noteq> 63" using False ov uc by (auto simp: word_less_nat_alt)
    with less.prems(3,4) have s7: "s + 7 \<le> 63" "7 dvd s + 7" by (auto elim!: dvdE)
    have "readIntLoop ops (s + 7) ?v br1 = (Inr w, br')" using nx False by simp
    moreover have "70 - (s + 7) < 70 - s" using s7 by simp
    ultimately have "\<exists>bs. rok ok br' \<and> rbits content br1 = bytes_bits bs @ rbits content br' \<and>
        unat w = unat ?v + vint bs * 2 ^ (s + 7)"
      using s7 b1 small uv by (intro less.hyps) simp_all
    then obtain bs where
      "rok ok br'" "rbits content br1 = bytes_bits bs @ rbits content br'"
      "unat w = unat ?v + vint bs * 2 ^ (s + 7)" by blast
    with r1 uv show ?thesis
      by (intro exI [of _ "c # bs"]) (simp add: power_add algebra_simps)
  qed
qed

text \<open>
  Whatever bytes come in, an integer that is returned is the number they stand for: there is
  no wrap-around, and nothing but the integer is consumed.
\<close>

lemma ReadInt_exact:
  assumes "ReadInt ops n br = (Inr v, br')" "rok ok br" "n \<le> 8"
  shows "\<exists>bs. rok ok br' \<and> rbits content br = bs @ rbits content br' \<and> unat v = int_value n bs"
proof -
  obtain v0 br0 where 0: "ReadBits ops n br = (Inr v0, br0)"
    and 1: "(if v0 < push_bit n 1 - 1 then ret v0 else readIntLoop ops 0 v0) br0 = (Inr v, br')"
    using assms(1) by (auto simp: ReadInt_def bnd_eq_Inr_iff)
  note b0 = ReadBits_Inr [OF assms(2) _ 0]
  have "unat v0 < 2 ^ n" using b0 assms(3) by simp
  moreover have "(2 :: nat) ^ n \<le> 2 ^ 8" using assms(3) by (intro power_increasing) simp_all
  ultimately have le: "unat v0 \<le> 255" and v0: "unbits (bits n v0) = unat v0"
    using bits_unat [of n v0] assms(3) unbits_bits [of n "unat v0"] by (simp_all add: take_bit_nat_eq_self)
  show ?thesis
  proof (cases "v0 < push_bit n 1 - 1")
    case True
    with 1 b0 assms(3) v0 show ?thesis
      by (intro exI [of _ "bits n v0"]) (auto simp: int_value_def)
  next
    case False
    from le False 1 b0 assms(3) readIntLoop_exact [of 0 v0 br0 v br'] obtain bs where
      "rok ok br'" "rbits content br0 = bytes_bits bs @ rbits content br'"
      "unat v = unat v0 + vint bs" by auto
    with b0 assms(3) show ?thesis
      by (intro exI [of _ "bits n v0 @ bytes_bits bs"]) (simp add: int_value_def v0)
  qed
qed

end

section \<open>Strings on the wire\<close>

text \<open>The Huffman code of a string, padded with ones to whole bytes.\<close>

definition huffman_padded :: "byte list \<Rightarrow> bool list" where
  "huffman_padded cs =
     huffman_bits cs @ replicate ((8 - length (huffman_bits cs) mod 8) mod 8) True"

definition huffman_bytes :: "byte list \<Rightarrow> byte list" where
  "huffman_bytes cs = bits_bytes (huffman_padded cs)"

definition string_huffman :: "HuffmanCodingChoice \<Rightarrow> string \<Rightarrow> bool" where
  "string_huffman c s \<longleftrightarrow> c \<noteq> HuffmanCodingNever \<and>
     (c = HuffmanCodingAlways \<or> length (huffman_bytes (string_bytes s)) < length s)"

definition string_bits :: "HuffmanCodingChoice \<Rightarrow> nat \<Rightarrow> string \<Rightarrow> bool list" where
  "string_bits c n s =
     (let p = (if string_huffman c s then huffman_bytes (string_bytes s) else string_bytes s)
      in string_huffman c s # int_bits n (length p) @ bytes_bits p)"

lemma pad_to_8: "8 dvd l + (8 - l mod 8) mod 8" for l :: nat
proof -
  obtain q r where l: "l = 8 * q + r" "r < 8"
    by (metis mod_less_divisor mult_div_mod_eq zero_less_numeral)
  then have "l + (8 - l mod 8) mod 8 = (if r = 0 then 8 * q else 8 * (q + 1))" by simp
  then show ?thesis by simp
qed

lemma length_int_bits: "length (int_bits n p) mod 8 = n mod 8"
  by (simp add: int_bits_def)

lemma length_string_bits: "length (string_bits c n s) mod 8 = Suc n mod 8"
proof -
  define k where "k = length (if string_huffman c s then huffman_bytes (string_bytes s) else string_bytes s)"
  have "length (string_bits c n s) = Suc (length (int_bits n k)) + 8 * k"
    by (simp add: string_bits_def Let_def k_def)
  also have "(\<dots>) mod 8 = Suc (length (int_bits n k)) mod 8" by (rule mod_mult_self2)
  also have "\<dots> = Suc (length (int_bits n k) mod 8) mod 8" by (rule mod_Suc_eq [symmetric])
  also have "\<dots> = Suc n mod 8" by (simp only: length_int_bits mod_Suc_eq)
  finally show ?thesis .
qed

lemma length_huffman_padded: "8 dvd length (huffman_padded cs)"
  by (simp add: huffman_padded_def pad_to_8)

lemma bytes_bits_huffman_bytes: "bytes_bits (huffman_bytes cs) = huffman_padded cs"
  using bytes_and_tail_bits [of "huffman_padded cs"] length_huffman_padded [of cs]
  by (auto simp: huffman_bytes_def tail_bits_def elim!: dvdE)

lemma length_huffman_bytes: "8 * length (huffman_bytes cs) = length (huffman_padded cs)"
  by (metis bytes_bits_huffman_bytes length_bytes_bits)

lemma length_huffman_bits_le: "length (huffman_bits cs) \<le> 30 * length cs"
proof (induction cs)
  case (Cons c cs)
  with huffmanTable_item [of "unat c"] show ?case by simp
qed simp

lemma length_huffman_bytes_bounds:
  "5 * length cs \<le> 8 * length (huffman_bytes cs)" "length (huffman_bytes cs) \<le> 4 * length cs"
proof -
  show "5 * length cs \<le> 8 * length (huffman_bytes cs)"
    using length_huffman_bits [of cs] by (simp add: length_huffman_bytes huffman_padded_def)
  have "8 * length (huffman_bytes cs) \<le> 30 * length cs + 7"
    using length_huffman_bits_le [of cs]
    by (simp add: length_huffman_bytes huffman_padded_def)
  then show "length (huffman_bytes cs) \<le> 4 * length cs" by arith
qed

text \<open>Padding is shorter than a byte and begins the code word of symbol 10, which is all ones.\<close>

lemma padding_is_partial_code:
  assumes "k < 8"
  shows "\<exists>b bs. hcode (huffmanTable ! 10) = replicate k True @ b # bs"
proof -
  let ?w = "0x3ffffffc :: u32"
  have "hcode (huffmanTable ! 10) = bits (8 + 22) ?w" by (simp add: huffmanTable_def hcode_def)
  moreover have "bits 8 (drop_bit 22 ?w) = replicate 8 True"
    by (simp add: bits_def upt_conv_Cons) (simp add: eval_nat_numeral)
  ultimately have h: "hcode (huffmanTable ! 10) = replicate 8 True @ bits 22 ?w"
    unfolding bits_append by simp
  have "replicate 8 True = replicate k True @ True # replicate (7 - k) True"
    using assms replicate_add [of k "8 - k" True] by (simp add: Suc_diff_le flip: replicate_Suc)
  with h show ?thesis by auto
qed

lemma compressString_spec: "compressString s = Inr (huffman_bytes (string_bytes s))"
proof -
  let ?cs = "string_bytes s"
  obtain bw where bw: "compressWrite buf_ops 0 ?cs (NewBitWriter []) = ((length s, None), bw)"
    "wsavedBits bw < 8" "wbits (\<lambda>w. w) bw = huffman_bits ?cs"
    using buf.compressWrite_spec [of "NewBitWriter []" 0 ?cs] by (auto simp: NewBitWriter_def wbits_def)
  have cp: "copyTo (compressWrite buf_ops 0) ?cs (NewBitWriter []) = ((length s, None), bw)"
    using bw(1) by (auto simp: copyTo_def)
  let ?k = "wsavedBits bw"
  have k: "?k = length (huffman_bits ?cs) mod 8"
    using arg_cong [OF bw(3), of length] bw(2) by (simp add: wbits_def) presburger
  obtain bw' where p: "compressPad buf_ops bw = (Inr (), bw')" "wsavedBits bw' = 0"
    "wbits (\<lambda>w. w) bw' = huffman_bits ?cs @ (if ?k = 0 then [] else bits (8 - ?k) (drop_bit ?k (0xff :: byte)))"
    using buf.Pad_spec [OF bw(2), of "0xff"] bw(3) by (auto simp: compressPad_def)
  have "bits (8 - ?k) (drop_bit ?k (0xff :: byte)) = replicate (8 - ?k) True"
  proof (rule nth_equalityI)
    fix i assume "i < length (bits (8 - ?k) (drop_bit ?k (0xff :: byte)))"
    then show "bits (8 - ?k) (drop_bit ?k (0xff :: byte)) ! i = replicate (8 - ?k) True ! i"
      using bit_mask_iff [where 'a = "8 word", of 8]
      by (simp add: nth_bits bit_drop_bit_eq mask_eq_exp_minus_1)
  qed simp
  with p(2,3) k have "bytes_bits (writer bw') = huffman_padded ?cs"
    by (auto simp: wbits_def huffman_padded_def)
  then have "writer bw' = huffman_bytes ?cs" by (metis huffman_bytes_def bits_bytes_bytes_bits)
  with cp p(1) show ?thesis by (simp add: compressString_def)
qed

context reliable_sink
begin

lemma writeStringBytes_produces:
  assumes "1 \<le> n" "n \<le> 8" "hbit = 0 \<or> hbit = 1" "length p < 2 ^ 64"
  shows "produces out (writeStringBytes ops hbit p n) ((hbit = 1) # int_bits n (length p) @ bytes_bits p) ()"
proof -
  let ?copy = "\<lambda>bw. case copyTo (Write ops) p bw of
          ((n, Some e), bw') \<Rightarrow> (Inl e, bw')
        | ((n, None), bw') \<Rightarrow> (if n < length p then Inl ErrShortWrite else Inr (), bw')"
  have c: "produces out ?copy (bytes_bits p) ()"
  proof (rule producesI)
    fix bw :: "'a bitWriter" assume "wsavedBits bw < 8"
    from copyTo_spec [OF this, of p] show "\<exists>bw'. ?copy bw = (Inr (), bw') \<and> wsavedBits bw' < 8 \<and>
        wbits out bw' = wbits out bw @ bytes_bits p"
      by auto
  qed
  have i: "produces out (WriteInt ops (word_of_nat (length p)) n) (int_bits n (length p)) ()"
    using WriteInt_produces [OF assms(1,2), of "word_of_nat (length p)"] assms(4) by (simp add: unat_of_nat)
  have "produces out (writeStringBytes ops hbit p n) ([hbit = 1] @ int_bits n (length p) @ bytes_bits p) ()"
    unfolding writeStringBytes_def
    by (intro produces_bnd [OF WriteBit_produces [OF assms(3)]] produces_bnd [OF i] c)
  then show ?thesis by simp
qed

lemma WriteStringRaw_produces:
  assumes "1 \<le> n" "n \<le> 8" "length s < 2 ^ 62"
  shows "produces out (WriteStringRaw ops s n c) (string_bits c n s) ()"
proof -
  let ?p = "huffman_bytes (string_bytes s)"
  have l: "length ?p < 2 ^ 64" "length s < 2 ^ 64"
    using length_huffman_bytes_bounds(2) [of "string_bytes s"] assms(3) by simp_all
  have "WriteStringRaw ops s n c =
      (if string_huffman c s then writeStringBytes ops 1 ?p n
       else writeStringBytes ops 0 (string_bytes s) n)"
    by (auto simp: WriteStringRaw_def compressString_spec string_huffman_def)
  with writeStringBytes_produces [OF assms(1,2), of 1 ?p] l
    writeStringBytes_produces [OF assms(1,2), of 0 "string_bytes s"]
  show ?thesis by (auto simp: string_bits_def Let_def)
qed

end

context byte_source
begin

text \<open>
  The reader of a string value: the first \<open>N\<close> bytes of the bits ahead. When they are all
  read the bit reader stands right after them.
\<close>

abbreviation (input) whole_bytes :: "'r bitReader \<Rightarrow> byte list" where
  "whole_bytes br \<equiv> bits_bytes (rbits content br)"

abbreviation (input) value_ok :: "bool list \<Rightarrow> goerr \<Rightarrow> 'r bitReader limitedReader \<Rightarrow> bool" where
  "value_ok rest F l \<equiv> (rok ok (limR l) \<and> tail_bits (rbits content (limR l)) = tail_bits rest) \<and>
     drop (nat (limN l)) (whole_bytes (limR l)) = bits_bytes rest \<and> fin (reader (limR l)) = F"

lemmas value_source = byte_source.lim_source [OF br_source]

lemma value_ok_start:
  assumes "rok ok br" "rbits content br = bytes_bits p @ rest" "fin (reader br) = F"
  shows "value_ok rest F \<lparr>limR = br, limN = int (length p)\<rparr>"
    and "lim_content whole_bytes \<lparr>limR = br, limN = int (length p)\<rparr> = p"
    and "lim_fin whole_bytes (\<lambda>br. fin (reader br)) \<lparr>limR = br, limN = int (length p)\<rparr> = EOF"
proof -
  have wb: "whole_bytes br = p @ bits_bytes rest"
    using assms(2) by (simp add: bits_bytes_bytes_append)
  have "tail_bits (bytes_bits p @ rest) = tail_bits rest"
    using tail_bits_drop [of "length p" "bytes_bits p @ rest"] by simp
  then show "value_ok rest F \<lparr>limR = br, limN = int (length p)\<rparr>"
    using assms wb by simp
  show "lim_content whole_bytes \<lparr>limR = br, limN = int (length p)\<rparr> = p"
    using wb by (simp add: lim_content_def)
  show "lim_fin whole_bytes (\<lambda>br. fin (reader br)) \<lparr>limR = br, limN = int (length p)\<rparr> = EOF"
    using wb by (simp add: lim_fin_def)
qed

lemma value_ok_end:
  assumes "value_ok rest F l" "lim_content whole_bytes l = []"
  shows "rok ok (limR l) \<and> rbits content (limR l) = rest \<and> fin (reader (limR l)) = F"
proof -
  have "take (nat (limN l)) (whole_bytes (limR l)) = []"
    using assms(2) by (simp only: lim_content_def)
  with append_take_drop_id [of "nat (limN l)" "whole_bytes (limR l)"] assms(1)
  have "whole_bytes (limR l) = bits_bytes rest" by simp
  then have "rbits content (limR l) = rest"
    using assms(1) by (metis bytes_and_tail_bits)
  with assms(1) show ?thesis by simp
qed

lemma readRaw:
  assumes "rok ok br" "rbits content br = bytes_bits p @ rest"
  shows "\<exists>l. ReadFull (lim_ops (br_ops ops)) (length p) \<lparr>limR = br, limN = int (length p)\<rparr>
       = ((p, None), l) \<and> rok ok (limR l) \<and> rbits content (limR l) = rest \<and>
       fin (reader (limR l)) = fin (reader br)"
proof -
  note st = value_ok_start [OF assms refl]
  from byte_source.ReadFull_spec [OF value_source st(1), of "length p"] obtain l where l:
    "value_ok rest (fin (reader br)) l" "lim_content whole_bytes l = []"
    "ReadFull (lim_ops (br_ops ops)) (length p) \<lparr>limR = br, limN = int (length p)\<rparr> = ((p, None), l)"
    unfolding st(2,3) by auto
  with value_ok_end [OF l(1,2)] show ?thesis by blast
qed

lemma readHuffman:
  assumes "rok ok br" "rbits content br = bytes_bits (huffman_bytes cs) @ rest" "length cs < n"
  shows "\<exists>d. ReadFull (huff_ops (lim_ops (br_ops ops))) n
        (NewHuffmanDecompressor \<lparr>limR = br, limN = int (length (huffman_bytes cs))\<rparr>)
       = ((cs, Some (if cs = [] then EOF else ErrUnexpectedEOF)), d) \<and>
       rok ok (limR (reader (hreader d))) \<and> rbits content (limR (reader (hreader d))) = rest \<and>
       fin (reader (limR (reader (hreader d)))) = fin (reader br)"
proof -
  let ?l = "\<lparr>limR = br, limN = int (length (huffman_bytes cs))\<rparr>"
  note st = value_ok_start [OF assms(1,2) refl]
  define pad where "pad = replicate ((8 - length (huffman_bits cs) mod 8) mod 8) True"
  obtain b bs where code: "hcode (huffmanTable ! 10) = pad @ b # bs"
    using padding_is_partial_code [of "(8 - length (huffman_bits cs) mod 8) mod 8"] by (auto simp: pad_def)
  have 10: "(10 :: nat) < 256" by simp
  have d0: "rok (value_ok rest (fin (reader br))) (hreader (NewHuffmanDecompressor ?l))"
    "rbits (lim_content whole_bytes) (hreader (NewHuffmanDecompressor ?l)) = huffman_bits cs @ pad"
    "cursor (NewHuffmanDecompressor ?l) = Some decompressorTree"
    using st(1,2) bytes_bits_huffman_bytes [of cs]
    by (simp_all add: NewHuffmanDecompressor_def NewBitReader_def rok_def rbits_def huffman_padded_def pad_def)
  have ln: "length ([] :: byte list) + length cs < n" using assms(3) by simp
  obtain d where d: "decompressRead (lim_ops (br_ops ops)) n [] (NewHuffmanDecompressor ?l)
      = ((cs, Some EOF), d)"
    "rok (value_ok rest (fin (reader br))) (hreader d)"
    "rbits (lim_content whole_bytes) (hreader d) = []"
    by (rule byte_source.decompress_string [OF value_source 10 code ln d0])
      (use st(3) in \<open>simp add: NewHuffmanDecompressor_def NewBitReader_def\<close>)
  have "value_ok rest (fin (reader br)) (reader (hreader d))"
    "lim_content whole_bytes (reader (hreader d)) = []"
    using d(2,3) by (simp_all add: rok_def rbits_def)
  from value_ok_end [OF this] d(1) assms(3) show ?thesis
    by (auto simp: ReadFull_def readFullLoop.simps [of _ n] huff_ops_def)
qed

text \<open>Reading a string inverts writing it, whatever the choice of coding and the alignment.\<close>

lemma ReadString_consumes:
  assumes n: "1 \<le> n" "n \<le> 8" and s: "length s < 2 ^ 44" "c = HuffmanCodingAlways \<longrightarrow> s \<noteq> []"
  shows "consumes content fin ok (ReadString ops n) (string_bits c n s) s"
proof (rule consumesI)
  fix br rest assume br: "rok ok br" "rbits content br = string_bits c n s @ rest"
  define h where "h = string_huffman c s"
  define p where "p = (if h then huffman_bytes (string_bytes s) else string_bytes s)"
  have pl: "length p < 2 ^ 46"
    using length_huffman_bytes_bounds(2) [of "string_bytes s"] s(1) by (simp add: p_def)
  have len: "unat (word_of_nat (length p) :: u64) = length p" "sint (word_of_nat (length p) :: u64) = int (length p)"
    using pl by (simp_all add: unat_of_nat sint_small)
  from br have rb: "rbits content br = [h] @ int_bits n (length p) @ bytes_bits p @ rest"
    by (simp add: string_bits_def Let_def h_def p_def)
  from ReadBit_consumes br(1) rb obtain br1 where 1: "ReadBit ops br = (Inr (of_bool h), br1)" "rok ok br1"
    "rbits content br1 = int_bits n (length p) @ bytes_bits p @ rest" "fin (reader br1) = fin (reader br)"
    by (rule consumesE)
  have "length p < 2 ^ 64" using pl by simp
  from ReadInt_consumes [OF n this] 1(2,3) obtain br2 where 2:
    "ReadInt ops n br1 = (Inr (word_of_nat (length p)), br2)" "rok ok br2"
    "rbits content br2 = bytes_bits p @ rest" "fin (reader br2) = fin (reader br1)"
    by (rule consumesE)
  show "\<exists>br'. ReadString ops n br = (Inr s, br') \<and> rok ok br' \<and> rbits content br' = rest \<and>
      fin (reader br') = fin (reader br)"
  proof (cases h)
    case False
    then have p: "p = string_bytes s" by (simp add: p_def)
    have "makeslice_ok (word_of_nat (length p))"
      using pl len by (simp add: makeslice_ok_def word_le_nat_alt)
    with readRaw [OF 2(2,3)] 1 2 len p False show ?thesis
      by (auto simp: ReadString_def readStringResult_def)
  next
    case True
    then have p: "p = huffman_bytes (string_bytes s)" by (simp add: p_def)
    define m :: u64 where "m = word_of_nat (length p) * 8 div 5 + 1"
    have "unat (word_of_nat (length p) * 8 :: u64) = length p * 8"
      using len pl by (simp add: unat_word_ariths)
    then have m: "unat m = length p * 8 div 5 + 1"
      using pl by (simp add: m_def unat_word_ariths unat_div)
    have "makeslice_ok m" using m pl by (simp add: makeslice_ok_def word_le_nat_alt)
    moreover have "length (string_bytes s) < unat m"
      using length_huffman_bytes_bounds(1) [of "string_bytes s"] p m by simp
    moreover have "string_bytes s \<noteq> []"
    proof
      assume e: "string_bytes s = []"
      then have "s = []" by (metis length_0_conv length_string_bytes)
      with s(2) True show False by (auto simp: h_def string_huffman_def)
    qed
    ultimately show ?thesis
      using readHuffman [OF 2(2) 2(3) [unfolded p], of "unat m"] 1 2 len True
      by (auto simp: ReadString_def readStringResult_def p m_def)
  qed
qed

end

context byte_source
begin

lemma ReadIndex_consumes:
  assumes "1 \<le> n" "n \<le> 8" "p < 2 ^ 63"
  shows "consumes content fin ok (ReadIndex ops n) (int_bits n p) (int p)"
proof -
  have u: "uint (word_of_nat p :: u64) = int p" using assms(3) by (simp add: uint_nat unat_of_nat)
  have "consumes content fin ok (ReadIndex ops n) (int_bits n p @ []) (int p)"
    unfolding ReadIndex_def
    by (rule consumes_bnd [OF ReadInt_consumes])
      (use assms u in \<open>simp_all add: intMax_def consumes_ret\<close>)
  then show ?thesis by simp
qed

end

section \<open>Properties of integers and strings\<close>

text \<open>C8: Integers survive the trip: every 64-bit value written with a prefix of 1 to 8 bits is read
  back as it was, at any alignment, and the reader is left right after it.\<close>

theorem int_roundtrip:
  assumes "reliable_sink wops out" "byte_source rops content fin ok" "1 \<le> n" "n \<le> 8" "wsavedBits bw < 8"
  shows "\<exists>bw' bs. WriteInt wops p n bw = (Inr (), bw') \<and> wbits out bw' = wbits out bw @ bs \<and>
    (\<forall>br rest. rok ok br \<and> rbits content br = bs @ rest \<longrightarrow>
      (\<exists>br'. ReadInt rops n br = (Inr p, br') \<and> rok ok br' \<and> rbits content br' = rest))"
proof -
  from reliable_sink.WriteInt_produces [OF assms(1,3,4)] assms(5) obtain bw' where w:
    "WriteInt wops p n bw = (Inr (), bw')" "wbits out bw' = wbits out bw @ int_bits n (unat p)"
    by (rule producesE)
  have "consumes content fin ok (ReadInt rops n) (int_bits n (unat p)) p"
    using byte_source.ReadInt_consumes [OF assms(2-4), of "unat p"] unsigned_less [of p] by simp
  with w show ?thesis unfolding consumes_def by blast
qed

theorem int_roundtrip_witness:
  "\<exists>bw' bs. WriteInt buf_ops 0xffffffffffffffff 5 (NewBitWriter []) = (Inr (), bw') \<and>
     wbits (\<lambda>w. w) bw' = bs \<and>
     (\<forall>br rest. rok (\<lambda>_. True) br \<and> rbits fst br = bs @ rest \<longrightarrow>
       (\<exists>br'. ReadInt source_ops 5 br = (Inr 0xffffffffffffffff, br') \<and> rok (\<lambda>_. True) br' \<and>
         rbits fst br' = rest))"
  using int_roundtrip [OF buf.reliable_sink_axioms src.byte_source_axioms,
      of 5 "NewBitWriter []" "0xffffffffffffffff"]
  by (simp add: NewBitWriter_def wbits_def)

text \<open>C9: \<open>ReadInt\<close> never wraps around: whatever bytes the peer sends, a value that is returned is
  the number that the bits just consumed stand for, computed without any bound.\<close>

theorem ReadInt_never_wraps:
  assumes "byte_source ops content fin ok" "n \<le> 8" "rok ok br" "ReadInt ops n br = (Inr v, br')"
  shows "\<exists>bs. rbits content br = bs @ rbits content br' \<and> unat v = int_value n bs"
  using byte_source.ReadInt_exact [OF assms(1,4,3,2)] by blast

theorem ReadInt_never_wraps_witness:
  "\<exists>bs br'. ReadInt source_ops 8 (NewBitReader ([0xff, 0x02], EOF)) = (Inr 257, br') \<and>
     rbits fst (NewBitReader ([0xff, 0x02], EOF)) = bs @ rbits fst br' \<and> 257 = int_value 8 bs"
proof -
  let ?br = "NewBitReader ([0xff, 0x02], EOF)"
  obtain v br' where r: "ReadInt source_ops 8 ?br = (v, br')" by fastforce
  then have v: "v = Inr 257"
    by (simp add: ReadInt_def bnd_def ReadBits_def readWhole.simps readNext_def readByteInternal_def
        source_ops_def NewBitReader_def readIntLoop.simps mask_eq_exp_minus_1)
  have "rok (\<lambda>_. True) ?br" by (simp add: rok_def NewBitReader_def)
  from ReadInt_never_wraps [OF src.byte_source_axioms _ this r [unfolded v]] r v show ?thesis by auto
qed

text \<open>C7: Strings survive the trip: a string written with any Huffman preference is read back as it was,
  at any alignment. The strings are those shorter than 2 to the 44th bytes, and not the empty one when
  Huffman coding is forced.\<close>

theorem string_roundtrip:
  assumes "reliable_sink wops out" "byte_source rops content fin ok" "1 \<le> n" "n \<le> 8"
    "length s < 2 ^ 44" "c = HuffmanCodingAlways \<longrightarrow> s \<noteq> []" "wsavedBits bw < 8"
  shows "\<exists>bw' bs. WriteStringRaw wops s n c bw = (Inr (), bw') \<and> wbits out bw' = wbits out bw @ bs \<and>
    (\<forall>br rest. rok ok br \<and> rbits content br = bs @ rest \<longrightarrow>
      (\<exists>br'. ReadString rops n br = (Inr s, br') \<and> rok ok br' \<and> rbits content br' = rest))"
proof -
  have "length s < 2 ^ 62" using assms(5) by simp
  from reliable_sink.WriteStringRaw_produces [OF assms(1,3,4) this] assms(7) obtain bw' where w:
    "WriteStringRaw wops s n c bw = (Inr (), bw')" "wbits out bw' = wbits out bw @ string_bits c n s"
    by (rule producesE)
  with byte_source.ReadString_consumes [OF assms(2-6)] show ?thesis
    unfolding consumes_def by blast
qed

theorem string_roundtrip_witness:
  "\<exists>bw' bs. WriteStringRaw buf_ops ''www.example.com'' 7 HuffmanCodingAlways (NewBitWriter []) = (Inr (), bw') \<and>
     wbits (\<lambda>w. w) bw' = bs \<and>
     (\<forall>br rest. rok (\<lambda>_. True) br \<and> rbits fst br = bs @ rest \<longrightarrow>
       (\<exists>br'. ReadString source_ops 7 br = (Inr ''www.example.com'', br') \<and> rok (\<lambda>_. True) br' \<and>
         rbits fst br' = rest))"
  using string_roundtrip [OF buf.reliable_sink_axioms src.byte_source_axioms,
      of 7 "''www.example.com''" HuffmanCodingAlways "NewBitWriter []"]
  by (simp add: NewBitWriter_def wbits_def)

text \<open>The exception in the previous property is real: an empty string for which Huffman coding is forced is
  written as a Huffman string of length zero, and reading that reports \<open>EOF\<close> instead of
  the empty string.\<close>

theorem empty_huffman_string:
  assumes "byte_source ops content fin ok" "1 \<le> n" "n \<le> 8" "rok ok br"
    "rbits content br = string_bits HuffmanCodingAlways n [] @ rest"
  shows "\<exists>br'. ReadString ops n br = (Inl EOF, br') \<and> rbits content br' = rest"
proof -
  have hb: "huffman_bytes [] = []" by (simp add: huffman_bytes_def huffman_padded_def)
  have rb: "rbits content br = [True] @ int_bits n 0 @ bytes_bits (huffman_bytes []) @ rest"
    using assms(5) by (simp add: string_bits_def string_huffman_def string_bytes_def hb)
  from byte_source.ReadBit_consumes [OF assms(1)] assms(4) rb obtain br1 where 1:
    "ReadBit ops br = (Inr (of_bool True), br1)" "rok ok br1"
    "rbits content br1 = int_bits n 0 @ bytes_bits (huffman_bytes []) @ rest" by (rule consumesE)
  have "(0 :: nat) < 2 ^ 64" by simp
  from byte_source.ReadInt_consumes [OF assms(1-3) this] 1(2,3) obtain br2 where 2:
    "ReadInt ops n br1 = (Inr (word_of_nat 0), br2)" "rok ok br2"
    "rbits content br2 = bytes_bits (huffman_bytes []) @ rest" by (rule consumesE)
  from byte_source.readHuffman [OF assms(1) 2(2,3), of 1] obtain d where
    "ReadFull (huff_ops (lim_ops (br_ops ops))) 1 (NewHuffmanDecompressor \<lparr>limR = br2, limN = 0\<rparr>)
       = (([], Some EOF), d)" "rbits content (limR (reader (hreader d))) = rest"
    by (auto simp: hb)
  with 1 2 show ?thesis
    by (simp add: ReadString_def readStringResult_def makeslice_ok_def)
qed

theorem empty_huffman_string_witness:
  "\<exists>br'. ReadString source_ops 7 (NewBitReader ([0x80], EOF)) = (Inl EOF, br') \<and> rbits fst br' = []"
proof (rule empty_huffman_string [OF src.byte_source_axioms])
  show "rbits fst (NewBitReader ([0x80], EOF)) = string_bits HuffmanCodingAlways 7 [] @ []"
    by (simp add: rbits_def NewBitReader_def string_bits_def string_huffman_def string_bytes_def
        huffman_bytes_def huffman_padded_def int_bits_def bits_def upt_conv_Cons)
qed (simp_all add: rok_def NewBitReader_def)

end
