(* ===== verification/Codec.thy ===== *)
theory Codec
  imports HcIO
begin

text \<open>
  What encoders and decoders share: header fields, the order of pseudo-header fields and the
  indexing preferences of \<open>src/hc/codec.go\<close>; and the threading of a codec's own state
  beside a bit reader or writer, with the laws by which the codecs' proofs are composed.
\<close>

section \<open>Header fields\<close>

record HeaderField =
  Name :: string
  Value :: string
  Sensitive :: bool

definition header_size :: "HeaderField \<Rightarrow> u64" where
  "header_size hf = 32 + word_of_nat (length (Name hf) + length (Value hf))"

text \<open>\<open>h.Name[0]\<close> is an index out of range for a field with an empty name.\<close>

fun validateLoop :: "bool \<Rightarrow> HeaderField list \<Rightarrow> goerr option" where
  "validateLoop pseudo [] = None"
| "validateLoop pseudo (h # hs) =
     (case Name h of
        [] \<Rightarrow> Some (Panic ''index out of range'')
      | c # _ \<Rightarrow>
          if c = CHR '':'' then
            (if \<not> pseudo then Some ErrPseudoHeaderOrdering else validateLoop pseudo hs)
          else validateLoop False hs)"

definition ValidatePseudoHeaders :: "HeaderField list \<Rightarrow> goerr option" where
  "ValidatePseudoHeaders headers = validateLoop True headers"

text \<open>
  The specification: a list of fields is well-formed when every name is non-empty and the
  pseudo-header fields form a prefix of it.
\<close>

definition is_pseudo :: "HeaderField \<Rightarrow> bool" where
  "is_pseudo h \<longleftrightarrow> (\<exists>n. Name h = CHR '':'' # n)"

definition pseudo_first :: "HeaderField list \<Rightarrow> bool" where
  "pseudo_first hs \<longleftrightarrow> (\<forall>h \<in> set (dropWhile is_pseudo hs). \<not> is_pseudo h)"

lemma is_pseudo_Cons: "Name h = c # n \<Longrightarrow> is_pseudo h \<longleftrightarrow> c = CHR '':''"
  by (auto simp: is_pseudo_def)

lemma validateLoop_False:
  "(\<forall>h \<in> set hs. Name h \<noteq> []) \<Longrightarrow>
   validateLoop False hs = (if \<forall>h \<in> set hs. \<not> is_pseudo h then None else Some ErrPseudoHeaderOrdering)"
  by (induction hs) (auto simp: is_pseudo_Cons split: list.splits)

lemma validateLoop_True:
  "(\<forall>h \<in> set hs. Name h \<noteq> []) \<Longrightarrow>
   validateLoop True hs = (if pseudo_first hs then None else Some ErrPseudoHeaderOrdering)"
proof (induction hs)
  case (Cons h hs)
  then show ?case
    by (auto simp: pseudo_first_def validateLoop_False is_pseudo_Cons split: list.splits)
qed (simp add: pseudo_first_def)

section \<open>Preferences of an encoder\<close>

text \<open>The table of \<open>encoderCommon\<close> is a component of its own; a nil map is an empty one.\<close>

record encoderCommon =
  HuffmanPreference :: HuffmanCodingChoice
  indexPrefs :: "string \<rightharpoonup> bool"

definition dontIndex :: "string list" where
  "dontIndex = ['':path'', ''content-length'', ''content-range'', ''date'', ''expires'', ''etag'',
     ''if-modified-since'', ''if-range'', ''if-unmodified-since'', ''last-modified'', ''link'',
     ''range'', ''referer'', ''refresh'']"

definition shouldIndex :: "'a encoderCommon_scheme \<Rightarrow> u64 \<Rightarrow> HeaderField \<Rightarrow> bool" where
  "shouldIndex encoder capacity h =
     (if word_of_nat (length (Name h) + length (Value h) + 32) > capacity then False
      else (case indexPrefs encoder (Name h) of
              Some pref \<Rightarrow> pref
            | None \<Rightarrow> if List.member dontIndex (Name h) then False else True))"

definition SetIndexPreference :: "string \<Rightarrow> bool \<Rightarrow> 'a encoderCommon_scheme \<Rightarrow> 'a encoderCommon_scheme" where
  "SetIndexPreference name pref encoder =
     encoder\<lparr>indexPrefs := (indexPrefs encoder)(name \<mapsto> pref)\<rparr>"

definition ClearIndexPreference :: "string \<Rightarrow> 'a encoderCommon_scheme \<Rightarrow> 'a encoderCommon_scheme" where
  "ClearIndexPreference name encoder =
     encoder\<lparr>indexPrefs := (indexPrefs encoder)(name := None)\<rparr>"

section \<open>A codec's state beside its reader or writer\<close>

definition onIO :: "('r, 'a) io \<Rightarrow> ('t \<times> 'r, 'a) io" where
  "onIO m s = (case m (snd s) of (x, r) \<Rightarrow> (x, (fst s, r)))"

definition getT :: "('t \<times> 'r, 't) io" where
  "getT s = (Inr (fst s), s)"

definition modifyT :: "('t \<Rightarrow> 't) \<Rightarrow> ('t \<times> 'r, unit) io" where
  "modifyT f s = (Inr (), (f (fst s), snd s))"

lemma getT_apply [simp]: "getT (t, r) = (Inr t, (t, r))"
  by (simp add: getT_def)

lemma modifyT_apply [simp]: "modifyT f (t, r) = (Inr (), (f t, r))"
  by (simp add: modifyT_def)

lemma onIO_apply [simp]: "m r = (x, r') \<Longrightarrow> onIO m (t, r) = (x, (t, r'))"
  by (simp add: onIO_def)

text \<open>
  \<open>tproduces out m t bs x t'\<close>: from codec state \<open>t\<close> the operation appends the bits
  \<open>bs\<close>, returns \<open>x\<close> and leaves state \<open>t'\<close>. \<open>tconsumes\<close> is the counterpart on the
  reading side.
\<close>

definition tproduces ::
  "('w \<Rightarrow> byte list) \<Rightarrow> ('t \<times> 'w bitWriter, 'a) io \<Rightarrow> 't \<Rightarrow> bool list \<Rightarrow> 'a \<Rightarrow> 't \<Rightarrow> bool" where
  "tproduces out m t bs x t' \<longleftrightarrow> (\<forall>bw. wsavedBits bw < 8 \<longrightarrow>
     (\<exists>bw'. m (t, bw) = (Inr x, (t', bw')) \<and> wsavedBits bw' < 8 \<and> wbits out bw' = wbits out bw @ bs))"

definition tconsumes ::
  "('r \<Rightarrow> byte list) \<Rightarrow> ('r \<Rightarrow> goerr) \<Rightarrow> ('r \<Rightarrow> bool) \<Rightarrow> ('t \<times> 'r bitReader, 'a) io \<Rightarrow>
     't \<Rightarrow> bool list \<Rightarrow> 'a \<Rightarrow> 't \<Rightarrow> bool" where
  "tconsumes content fin ok m t bs x t' \<longleftrightarrow> (\<forall>br rest. rok ok br \<and> rbits content br = bs @ rest \<longrightarrow>
     (\<exists>br'. m (t, br) = (Inr x, (t', br')) \<and> rok ok br' \<and> rbits content br' = rest \<and>
            fin (reader br') = fin (reader br)))"

lemma tproduces_ret: "tproduces out (ret x) t [] x t"
  by (simp add: tproduces_def)

lemma tproduces_onIO: "produces out m bs x \<Longrightarrow> tproduces out (onIO m) t bs x t"
  by (fastforce simp: tproduces_def produces_def)

lemma tproduces_modifyT: "tproduces out (modifyT f) t [] () (f t)"
  by (simp add: tproduces_def)

lemma tproduces_getT: "tproduces out (f t) t bs x t' \<Longrightarrow> tproduces out (bnd getT f) t bs x t'"
  by (simp add: tproduces_def)

lemma tproduces_bnd:
  assumes "tproduces out m t bs x t1" and "tproduces out (f x) t1 cs y t2"
  shows "tproduces out (bnd m f) t (bs @ cs) y t2"
  unfolding tproduces_def
proof (intro allI impI)
  fix bw :: "'a bitWriter" assume "wsavedBits bw < 8"
  with assms(1) obtain bw1 where 1: "m (t, bw) = (Inr x, (t1, bw1))" "wsavedBits bw1 < 8"
    "wbits out bw1 = wbits out bw @ bs" by (auto simp: tproduces_def)
  with assms(2) show "\<exists>bw'. bnd m f (t, bw) = (Inr y, (t2, bw')) \<and> wsavedBits bw' < 8 \<and>
      wbits out bw' = wbits out bw @ bs @ cs"
    by (fastforce simp: tproduces_def)
qed

lemma tproducesE:
  assumes "tproduces out m t bs x t'" "wsavedBits bw < 8"
  obtains bw' where "m (t, bw) = (Inr x, (t', bw'))" "wsavedBits bw' < 8"
    "wbits out bw' = wbits out bw @ bs"
  using assms by (auto simp: tproduces_def)

lemma tconsumes_ret: "tconsumes content fin ok (ret x) t [] x t"
  by (simp add: tconsumes_def)

lemma tconsumes_onIO: "consumes content fin ok m bs x \<Longrightarrow> tconsumes content fin ok (onIO m) t bs x t"
  by (fastforce simp: tconsumes_def consumes_def)

lemma tconsumes_modifyT: "tconsumes content fin ok (modifyT f) t [] () (f t)"
  by (simp add: tconsumes_def)

lemma tconsumes_getT:
  "tconsumes content fin ok (f t) t bs x t' \<Longrightarrow> tconsumes content fin ok (bnd getT f) t bs x t'"
  by (simp add: tconsumes_def)

lemma tconsumes_bnd:
  assumes "tconsumes content fin ok m t bs x t1" and "tconsumes content fin ok (f x) t1 cs y t2"
  shows "tconsumes content fin ok (bnd m f) t (bs @ cs) y t2"
  unfolding tconsumes_def
proof (intro allI impI)
  fix br :: "'a bitReader" and rest
  assume "rok ok br \<and> rbits content br = (bs @ cs) @ rest"
  with assms(1) obtain br1 where 1: "m (t, br) = (Inr x, (t1, br1))" "rok ok br1"
    "rbits content br1 = cs @ rest" "fin (reader br1) = fin (reader br)" by (fastforce simp: tconsumes_def)
  with assms(2) show "\<exists>br'. bnd m f (t, br) = (Inr y, (t2, br')) \<and> rok ok br' \<and>
      rbits content br' = rest \<and> fin (reader br') = fin (reader br)"
    by (fastforce simp: tconsumes_def)
qed

lemma tconsumesE:
  assumes "tconsumes content fin ok m t bs x t'" "rok ok br" "rbits content br = bs @ rest"
  obtains br' where "m (t, br) = (Inr x, (t', br'))" "rok ok br'" "rbits content br' = rest"
    "fin (reader br') = fin (reader br)"
  using assms by (fastforce simp: tconsumes_def)

end
