(* ===== verification/Table.thy ===== *)
theory Table
  imports StaticTable
begin

text \<open>
  The dynamic table that HPACK and QPACK share: \<open>src/hc/table.go\<close>. Capacities are Go's
  \<open>uint\<close> and stay 64-bit words; the insert count \<open>base\<close> only ever counts up by one and
  is an integer. The table is shown to refine the abstract table of RFC 7541, section 4: a list
  of fields, newest first, cut to what fits.
\<close>

section \<open>Entries\<close>

record BasicDynamicEntry =
  eN :: string
  eV :: string
  eB :: int

definition setBase :: "int \<Rightarrow> BasicDynamicEntry \<Rightarrow> BasicDynamicEntry" where
  "setBase b e = e\<lparr>eB := b\<rparr>"

definition entryIndex :: "BasicDynamicEntry \<Rightarrow> int \<Rightarrow> int" where
  "entryIndex e b = b - eB e"

definition entrySize :: "BasicDynamicEntry \<Rightarrow> u64" where
  "entrySize e = 32 + word_of_nat (length (eN e) + length (eV e))"

text \<open>The interface \<open>Entry\<close>: its dynamic type tells static entries from dynamic ones.\<close>

datatype Entry = StaticE staticTableEntry | DynamicE BasicDynamicEntry

fun entryName :: "Entry \<Rightarrow> string" where
  "entryName (StaticE e) = sname e"
| "entryName (DynamicE e) = eN e"

fun entryValue :: "Entry \<Rightarrow> string" where
  "entryValue (StaticE e) = svalue e"
| "entryValue (DynamicE e) = eV e"

fun entryBase :: "Entry \<Rightarrow> int" where
  "entryBase (StaticE e) = sindex e"
| "entryBase (DynamicE e) = eB e"

section \<open>The table\<close>

record tableCommon =
  dynamic :: "BasicDynamicEntry list"
  capacity :: u64
  used :: u64
  base :: int

definition emptyTable :: tableCommon where
  "emptyTable = \<lparr>dynamic = [], capacity = 0, used = 0, base = 0\<rparr>"

text \<open>
  \<open>evictionCheck\<close> may change the state of whoever asks for the eviction: it is a function on
  that state.
\<close>

type_synonym 's evictionCheck = "'s \<Rightarrow> BasicDynamicEntry \<Rightarrow> bool \<times> 's"

definition GetDynamic :: "tableCommon \<Rightarrow> int \<Rightarrow> int \<Rightarrow> BasicDynamicEntry option" where
  "GetDynamic t i b =
     (let delta = s64 (base t - b) in
      if delta < 0 then None
      else
        (let dynIndex = s64 (i + delta) in
         if dynIndex \<ge> int (length (dynamic t)) \<or> dynIndex < 0 then None
         else Some (dynamic t ! nat dynIndex)))"

primrec evictLoop :: "'s evictionCheck option \<Rightarrow> u64 \<Rightarrow> BasicDynamicEntry list \<Rightarrow> nat \<Rightarrow> u64 \<Rightarrow> 's \<Rightarrow>
    (nat \<times> u64) option \<times> 's" where
  "evictLoop evict reduced dyn 0 u s = (Some (0, u), s)"
| "evictLoop evict reduced dyn (Suc l) u s =
     (if u > reduced then
        (case (case evict of None \<Rightarrow> (True, s) | Some canEvict \<Rightarrow> canEvict s (dyn ! l)) of
           (False, s') \<Rightarrow> (None, s')
         | (True, s') \<Rightarrow> evictLoop evict reduced dyn l (u - entrySize (dyn ! l)) s')
      else (Some (Suc l, u), s))"

definition evictTo :: "u64 \<Rightarrow> 's evictionCheck option \<Rightarrow> tableCommon \<Rightarrow> 's \<Rightarrow> bool \<times> tableCommon \<times> 's" where
  "evictTo reduced evict t s =
     (case evictLoop evict reduced (dynamic t) (length (dynamic t)) (used t) s of
        (None, s') \<Rightarrow> (False, t, s')
      | (Some (l, u), s') \<Rightarrow> (True, t\<lparr>dynamic := take l (dynamic t), used := u\<rparr>, s'))"

definition SetCapacity :: "u64 \<Rightarrow> tableCommon \<Rightarrow> tableCommon" where
  "SetCapacity c t = (case evictTo c None t () of (_, t', _) \<Rightarrow> t'\<lparr>capacity := c\<rparr>)"

text \<open>The entry, with its base set, is part of the result when it was inserted.\<close>

definition insert_entry :: "BasicDynamicEntry \<Rightarrow> 's evictionCheck option \<Rightarrow> tableCommon \<Rightarrow> 's \<Rightarrow>
    BasicDynamicEntry option \<times> tableCommon \<times> 's" where
  "insert_entry e evict t s =
     (if entrySize e > capacity t then
        (case evictTo 0 evict t s of
           (True, t', s') \<Rightarrow> (None, t'\<lparr>dynamic := [], used := 0\<rparr>, s')
         | (False, t', s') \<Rightarrow> (None, t', s'))
      else
        (case evictTo (capacity t - entrySize e) evict t s of
           (False, t', s') \<Rightarrow> (None, t', s')
         | (True, t', s') \<Rightarrow>
             (let b = base t' + 1; e' = setBase b e in
              (Some e', t'\<lparr>base := b, dynamic := e' # dynamic t', used := used t' + entrySize e\<rparr>, s'))))"

text \<open>
  The body of the two loops of \<open>lookupImpl\<close>: \<open>Inl\<close> is the early return with a match on name
  and value, \<open>Inr\<close> the best match on the name alone.
\<close>

fun scanEntries :: "string \<Rightarrow> string \<Rightarrow> Entry list \<Rightarrow> Entry option \<Rightarrow> Entry + Entry option" where
  "scanEntries n v [] nameMatch = Inr nameMatch"
| "scanEntries n v (e # es) nameMatch =
     (if entryName e = n then
        (if entryValue e = v then Inl e
         else scanEntries n v es (if nameMatch = None then Some e else nameMatch))
      else scanEntries n v es nameMatch)"

text \<open>The slice \<open>dynamic[min:max]\<close>; all callers keep \<open>min \<le> max \<le> len(dynamic)\<close>.\<close>

definition lookupImpl :: "tableCommon \<Rightarrow> staticTableEntry list \<Rightarrow> string \<Rightarrow> string \<Rightarrow> nat \<Rightarrow> nat \<Rightarrow>
    Entry option \<times> Entry option" where
  "lookupImpl t staticTable n v dynamicMin dynamicMax =
     (case scanEntries n v (map StaticE staticTable) None of
        Inl e \<Rightarrow> (Some e, Some e)
      | Inr nm \<Rightarrow>
          (case scanEntries n v (map DynamicE (drop dynamicMin (take dynamicMax (dynamic t)))) nm of
             Inl e \<Rightarrow> (Some e, Some e)
           | Inr nm' \<Rightarrow> (None, nm')))"

section \<open>The invariant\<close>

definition esize :: "BasicDynamicEntry \<Rightarrow> nat" where
  "esize e = 32 + length (eN e) + length (eV e)"

definition total_size :: "BasicDynamicEntry list \<Rightarrow> nat" where
  "total_size es = sum_list (map esize es)"

text \<open>
  The accounting is exact and within the capacity, and the entries carry consecutive bases,
  newest first, ending at the insert count.
\<close>

definition table_ok :: "tableCommon \<Rightarrow> bool" where
  "table_ok t \<longleftrightarrow> unat (used t) = total_size (dynamic t) \<and> used t \<le> capacity t \<and>
     int (length (dynamic t)) \<le> base t \<and>
     (\<forall>k < length (dynamic t). eB (dynamic t ! k) = base t - int k)"

lemma total_size_simps [simp]:
  "total_size [] = 0" "total_size (e # es) = esize e + total_size es" "total_size (es @ fs) = total_size es + total_size fs"
  by (simp_all add: total_size_def)

lemma total_take_le: "total_size (take l es) \<le> total_size es"
  by (metis append_take_drop_id le_add1 total_size_simps(3))

lemma length_le_total: "32 * length es \<le> total_size es"
  by (induction es) (auto simp: esize_def)

lemma unat_entrySize: "esize e < 2 ^ 64 \<Longrightarrow> unat (entrySize e) = esize e"
proof -
  assume "esize e < 2 ^ 64"
  moreover have "entrySize e = word_of_nat (esize e)" by (simp add: entrySize_def esize_def)
  ultimately show ?thesis by (simp add: unat_of_nat)
qed

lemma unat_u64: "unat (u :: u64) < 2 ^ 64"
  using unsigned_less [of u] by simp

lemma take_Suc_total: "l < length es \<Longrightarrow> total_size (take (Suc l) es) = total_size (take l es) + esize (es ! l)"
  by (simp add: take_Suc_conv_app_nth)

lemma table_ok_empty [simp]: "table_ok emptyTable"
  by (simp add: table_ok_def emptyTable_def)

section \<open>Eviction\<close>

text \<open>The abstract table keeps the longest prefix that fits.\<close>

fun fit :: "nat \<Rightarrow> BasicDynamicEntry list \<Rightarrow> BasicDynamicEntry list" where
  "fit c [] = []"
| "fit c (e # es) = (if esize e \<le> c then e # fit (c - esize e) es else [])"

lemma fit_take:
  "total_size (take l es) \<le> c \<Longrightarrow> l = length es \<or> l < length es \<and> c < total_size (take (Suc l) es) \<Longrightarrow>
   fit c es = take l es"
proof (induction c es arbitrary: l rule: fit.induct)
  case (2 c e es)
  show ?case
  proof (cases l)
    case 0
    with 2 show ?thesis by simp
  next
    case (Suc k)
    with "2.prems" have "total_size (take k es) \<le> c - esize e"
      "k = length es \<or> k < length es \<and> c - esize e < total_size (take (Suc k) es)" "esize e \<le> c"
      by auto
    with "2.IH" [of k] Suc show ?thesis by simp
  qed
qed auto

lemma fit_all: "total_size es \<le> c \<Longrightarrow> fit c es = es"
  using fit_take [of "length es" es c] by simp

lemma fit_0 [simp]: "fit 0 es = []"
  by (cases es) (auto simp: esize_def)

lemma evictLoop_spec:
  assumes "evictLoop evict reduced dyn l u s = (r, s')" "l \<le> length dyn" "unat u = total_size (take l dyn)"
  shows "case r of None \<Rightarrow> evict \<noteq> None
    | Some (l', u') \<Rightarrow> l' \<le> l \<and> unat u' = total_size (take l' dyn) \<and> u' \<le> reduced \<and>
        (l' < l \<longrightarrow> unat reduced < total_size (take (Suc l') dyn))"
  using assms
proof (induction l arbitrary: u s)
  case 0
  then show ?case by (auto simp: word_le_nat_alt)
next
  case (Suc l)
  show ?case
  proof (cases "u > reduced")
    case False
    with Suc.prems show ?thesis by auto
  next
    case True
    obtain b s1 where c: "(case evict of None \<Rightarrow> (True, s) | Some canEvict \<Rightarrow> canEvict s (dyn ! l)) = (b, s1)"
      by fastforce
    have tot: "unat u = total_size (take l dyn) + esize (dyn ! l)"
      using Suc.prems(2,3) by (simp add: take_Suc_total)
    have "esize (dyn ! l) < 2 ^ 64" using tot unat_u64 [of u] by simp
    then have "unat (u - entrySize (dyn ! l)) = total_size (take l dyn)"
      using tot by (simp add: unat_entrySize unat_sub_if')
    with Suc.IH [of "u - entrySize (dyn ! l)" s1] Suc.prems True c tot show ?thesis
      by (cases b; cases evict)
        (auto simp: word_less_nat_alt take_Suc_total less_Suc_eq le_Suc_eq split: option.splits)
  qed
qed

lemma evictTo_spec:
  assumes "evictTo reduced evict t s = (ok, t', s')" "table_ok t"
  shows "t' = (if ok then t\<lparr>dynamic := fit (unat reduced) (dynamic t), used := used t'\<rparr> else t) \<and>
    (ok \<longrightarrow> unat (used t') = total_size (dynamic t') \<and> used t' \<le> reduced) \<and> (\<not> ok \<longrightarrow> evict \<noteq> None)"
proof -
  obtain r s1 where l: "evictLoop evict reduced (dynamic t) (length (dynamic t)) (used t) s = (r, s1)"
    by fastforce
  have u: "unat (used t) = total_size (take (length (dynamic t)) (dynamic t))"
    using assms(2) by (simp add: table_ok_def)
  note spec = evictLoop_spec [OF l order_refl u]
  show ?thesis
  proof (cases r)
    case None
    with assms(1) l spec show ?thesis by (auto simp: evictTo_def)
  next
    case (Some lu)
    obtain l' u' where lu: "lu = (l', u')" by fastforce
    with spec Some have s: "l' \<le> length (dynamic t)" "unat u' = total_size (take l' (dynamic t))"
      "u' \<le> reduced" "l' < length (dynamic t) \<longrightarrow> unat reduced < total_size (take (Suc l') (dynamic t))"
      by auto
    have "fit (unat reduced) (dynamic t) = take l' (dynamic t)"
      using s by (intro fit_take) (auto simp: word_le_nat_alt)
    with assms(1) l Some lu s show ?thesis by (auto simp: evictTo_def)
  qed
qed

lemma evictTo_nil: "fst (evictTo reduced None t s)"
proof -
  have "fst (evictLoop None reduced dyn l u s) \<noteq> None" for dyn l u
    by (induction l arbitrary: u) auto
  from this [of "dynamic t" "length (dynamic t)" "used t"] show ?thesis
    by (auto simp: evictTo_def split: prod.splits option.splits)
qed

lemma fit_is_take: "\<exists>l. fit c es = take l es"
proof (induction c es rule: fit.induct)
  case (2 c e es)
  show ?case
  proof (cases "esize e \<le> c")
    case True
    with 2 obtain l where "fit (c - esize e) es = take l es" by auto
    with True show ?thesis by (intro exI [of _ "Suc l"]) simp
  next
    case False
    then show ?thesis by (intro exI [of _ 0]) simp
  qed
qed simp

lemma table_ok_evicted:
  assumes "table_ok t" "unat u = total_size (fit c (dynamic t))" "u \<le> k"
  shows "table_ok (t\<lparr>dynamic := fit c (dynamic t), used := u, capacity := k\<rparr>)"
proof -
  obtain l where "fit c (dynamic t) = take l (dynamic t)" using fit_is_take by blast
  with assms show ?thesis by (auto simp: table_ok_def)
qed

lemma unat_used_eqI: "unat u = unat v \<Longrightarrow> u = v" for u v :: u64
  by (simp add: word_unat_eq_iff)

text \<open>The operations of the table in terms of the abstract one.\<close>

lemma SetCapacity_spec:
  assumes "table_ok t"
  shows "table_ok (SetCapacity c t)" "capacity (SetCapacity c t) = c"
    "dynamic (SetCapacity c t) = fit (unat c) (dynamic t)" "base (SetCapacity c t) = base t"
proof -
  obtain ok t' s' where e: "evictTo c None t () = (ok, t', s')" by (metis surj_pair)
  have ok: "ok" using evictTo_nil [of c t "()"] e by simp
  note sp = evictTo_spec [OF e assms]
  with ok have t': "t' = t\<lparr>dynamic := fit (unat c) (dynamic t), used := used t'\<rparr>" by simp
  have eq: "SetCapacity c t = t\<lparr>dynamic := fit (unat c) (dynamic t), used := used t', capacity := c\<rparr>"
    unfolding SetCapacity_def e by (subst t') simp
  have "unat (used t') = total_size (fit (unat c) (dynamic t))" "used t' \<le> c"
    using sp ok by (metis tableCommon.select_convs(1) t' tableCommon.simps(1) tableCommon.surjective
        tableCommon.update_convs(1) tableCommon.update_convs(3), blast)
  with assms show "table_ok (SetCapacity c t)" unfolding eq by (rule table_ok_evicted)
  show "capacity (SetCapacity c t) = c" "dynamic (SetCapacity c t) = fit (unat c) (dynamic t)"
    "base (SetCapacity c t) = base t" unfolding eq by simp_all
qed

lemma insert_entry_spec:
  assumes "table_ok t" "esize e < 2 ^ 64" "insert_entry e evict t s = (r, t', s')"
  shows "table_ok t' \<and> capacity t' = capacity t \<and>
    (case r of
       None \<Rightarrow> base t' = base t \<and> (dynamic t' = dynamic t \<and> evict \<noteq> None \<or>
          unat (capacity t) < esize e \<and> dynamic t' = [])
     | Some e' \<Rightarrow> esize e \<le> unat (capacity t) \<and> e' = e\<lparr>eB := base t + 1\<rparr> \<and> base t' = base t + 1 \<and>
          dynamic t' = e' # fit (unat (capacity t) - esize e) (dynamic t))"
proof (cases "entrySize e > capacity t")
  case True
  then have big: "unat (capacity t) < esize e" by (simp add: word_less_nat_alt unat_entrySize [OF assms(2)])
  obtain ok t1 s1 where e: "evictTo 0 evict t s = (ok, t1, s1)" by (metis surj_pair)
  note sp = evictTo_spec [OF e assms(1)]
  have "table_ok (t\<lparr>dynamic := [], used := 0\<rparr>)" using assms(1) by (simp add: table_ok_def)
  with True big assms(1,3) e sp show ?thesis
    by (cases ok) (auto simp: insert_entry_def)
next
  case False
  then have le: "esize e \<le> unat (capacity t)" by (simp add: word_less_nat_alt unat_entrySize [OF assms(2)] not_less)
  let ?c = "capacity t - entrySize e"
  have c: "unat ?c = unat (capacity t) - esize e" using le by (simp add: unat_sub_if' unat_entrySize [OF assms(2)])
  obtain ok t1 s1 where e: "evictTo ?c evict t s = (ok, t1, s1)" by (metis surj_pair)
  note sp = evictTo_spec [OF e assms(1)]
  show ?thesis
  proof (cases ok)
    case False
    with \<open>\<not> entrySize e > capacity t\<close> e sp assms show ?thesis by (auto simp: insert_entry_def)
  next
    case True
    let ?d = "fit (unat (capacity t) - esize e) (dynamic t)"
    from sp True c have t1: "t1 = t\<lparr>dynamic := ?d, used := used t1\<rparr>" by simp
    then have d1: "dynamic t1 = ?d" "capacity t1 = capacity t" "base t1 = base t"
      by (metis tableCommon.ext_inject tableCommon.surjective tableCommon.update_convs(1,3))+
    have u1: "unat (used t1) = total_size ?d" "unat (used t1) \<le> unat ?c"
      using sp True d1 by (simp_all add: word_le_nat_alt)
    let ?e = "e\<lparr>eB := base t + 1\<rparr>"
    have es: "esize ?e = esize e" by (simp add: esize_def)
    have un: "unat (used t1 + entrySize e) = total_size (?e # ?d)"
      using u1 c le unat_u64 [of "capacity t"] unat_entrySize [OF assms(2)]
      by (simp add: unat_word_ariths es)
    obtain l where l: "?d = take l (dynamic t)" using fit_is_take by blast
    have eq: "r = Some ?e" "t' = t1\<lparr>base := base t + 1, dynamic := ?e # ?d, used := used t1 + entrySize e\<rparr>"
      using \<open>\<not> entrySize e > capacity t\<close> e True assms(3) d1
      by (auto simp: insert_entry_def setBase_def Let_def)
    have "table_ok t'"
      unfolding eq table_ok_def
      using assms(1) un u1 c le d1 l
      by (auto simp: table_ok_def word_le_nat_alt es nth_Cons split: nat.splits)
    with eq le d1 show ?thesis by simp
  qed
qed

section \<open>Retrieval\<close>

lemma table_ok_length: "table_ok t \<Longrightarrow> int (length (dynamic t)) \<le> intMax"
proof -
  assume "table_ok t"
  then have "32 * length (dynamic t) \<le> unat (used t)"
    using length_le_total [of "dynamic t"] by (simp add: table_ok_def)
  with unat_u64 [of "used t"] show ?thesis by (simp add: intMax_def)
qed

text \<open>
  Whatever index and base the peer sends, wrap-around never makes an out-of-range request look
  like a valid one.
\<close>

lemma GetDynamic_spec:
  assumes "table_ok t" "base t \<le> intMax" "- (2 ^ 63) \<le> i" "i \<le> intMax" "- (2 ^ 63) \<le> b" "b \<le> intMax"
    "0 \<le> i \<or> 0 \<le> b"
  shows "GetDynamic t i b =
    (if b \<le> base t \<and> 0 \<le> i + (base t - b) \<and> i + (base t - b) < int (length (dynamic t))
     then Some (dynamic t ! nat (i + (base t - b))) else None)"
proof -
  have b0: "0 \<le> base t" using assms(1) by (auto simp: table_ok_def)
  note len = table_ok_length [OF assms(1)]
  show ?thesis
  proof (cases "base t - b \<le> intMax")
    case False
    have "s64 (base t - b) < 0"
      using False assms b0 by (subst s64_above) (simp_all add: intMax_def)
    moreover have "0 \<le> i" using False assms(2,7) by auto
    ultimately show ?thesis using False len by (auto simp: GetDynamic_def Let_def)
  next
    case True
    then have d: "s64 (base t - b) = base t - b"
      using b0 assms by (intro s64_id) (simp_all add: intMax_def)
    show ?thesis
    proof (cases "i + (base t - b) \<le> intMax")
      case True
      show ?thesis
      proof (cases "base t - b < 0")
        case False
        have "s64 (i + (base t - b)) = i + (base t - b)"
          using True False assms by (intro s64_id) simp_all
        with d False show ?thesis by (auto simp: GetDynamic_def Let_def)
      qed (simp add: GetDynamic_def d)
    next
      case False
      then have "s64 (i + (base t - b)) < 0"
        using \<open>base t - b \<le> intMax\<close> assms by (subst s64_above) (simp_all add: intMax_def)
      with d False len show ?thesis by (auto simp: GetDynamic_def Let_def)
    qed
  qed
qed

lemma GetDynamic_self:
  assumes "table_ok t" "- (2 ^ 63) \<le> i" "i \<le> intMax"
  shows "GetDynamic t i (base t) =
    (if 0 \<le> i \<and> i < int (length (dynamic t)) then Some (dynamic t ! nat i) else None)"
  using assms(2,3) by (auto simp: GetDynamic_def Let_def s64_id intMax_def)

text \<open>The entry with index \<open>i\<close> relative to base \<open>b\<close> is the one inserted as number \<open>b - i\<close>.\<close>

lemma GetDynamic_base:
  assumes "table_ok t" "base t \<le> intMax" "- (2 ^ 63) \<le> i" "i \<le> intMax" "- (2 ^ 63) \<le> b" "b \<le> intMax"
    "0 \<le> i \<or> 0 \<le> b" "GetDynamic t i b = Some e"
  shows "e \<in> set (dynamic t) \<and> eB e = b - i"
  using assms(1,8) GetDynamic_spec [OF assms(1-7)] by (auto simp: table_ok_def split: if_splits)

lemma table_ok_entry:
  assumes "table_ok t" "e \<in> set (dynamic t)"
  shows "0 \<le> base t - eB e" "base t - eB e < int (length (dynamic t))"
    "dynamic t ! nat (base t - eB e) = e" "0 < eB e"
proof -
  from assms(2) obtain k where k: "k < length (dynamic t)" "dynamic t ! k = e"
    by (auto simp: in_set_conv_nth)
  with assms(1) have "eB e = base t - int k" "int (length (dynamic t)) \<le> base t"
    by (auto simp: table_ok_def)
  with k show "0 \<le> base t - eB e" "base t - eB e < int (length (dynamic t))"
    "dynamic t ! nat (base t - eB e) = e" "0 < eB e" by auto
qed

text \<open>A lookup finds only what matches, and finds it whenever something does.\<close>

lemma scanEntries_spec:
  "case scanEntries n v es nm of
     Inl e \<Rightarrow> e \<in> set es \<and> entryName e = n \<and> entryValue e = v
   | Inr nm' \<Rightarrow> (\<forall>e \<in> set es. \<not> (entryName e = n \<and> entryValue e = v)) \<and>
       nm' = (if nm \<noteq> None then nm else find (\<lambda>e. entryName e = n) es)"
proof (induction es arbitrary: nm)
  case (Cons e es)
  from Cons [of nm] Cons [of "Some e"] show ?case
    by (cases "entryName e = n"; cases "entryValue e = v"; cases "nm = None") (auto split: sum.splits)
qed simp

lemma lookupImpl_spec:
  fixes t :: tableCommon
  defines "es \<equiv> \<lambda>st lo hi. map StaticE st @ map DynamicE (drop lo (take hi (dynamic t)))"
  assumes "lookupImpl t st n v lo hi = (m, nm)"
  shows "case m of
      Some e \<Rightarrow> e \<in> set (es st lo hi) \<and> entryName e = n \<and> entryValue e = v \<and> nm = Some e
    | None \<Rightarrow> (\<forall>e \<in> set (es st lo hi). \<not> (entryName e = n \<and> entryValue e = v)) \<and>
        nm = find (\<lambda>e. entryName e = n) (es st lo hi)"
proof -
  let ?d = "map DynamicE (drop lo (take hi (dynamic t)))"
  have find_app: "find P (xs @ ys) = (case find P xs of None \<Rightarrow> find P ys | Some x \<Rightarrow> Some x)"
    for P :: "Entry \<Rightarrow> bool" and xs ys
    by (induction xs) auto
  note s1 = scanEntries_spec [where n = n and v = v and es = "map StaticE st" and nm = None]
  show ?thesis
  proof (cases "scanEntries n v (map StaticE st) None")
    case (Inl e)
    with s1 assms(2) show ?thesis by (auto simp: lookupImpl_def es_def)
  next
    case (Inr nm1)
    with s1 scanEntries_spec [where n = n and v = v and es = ?d and nm = nm1] assms(2) show ?thesis
      unfolding es_def lookupImpl_def
      by (cases "scanEntries n v ?d nm1") (auto simp: find_app split: option.splits)
  qed
qed

lemma find_SomeD: "find P xs = Some x \<Longrightarrow> x \<in> set xs \<and> P x"
  by (induction xs) (auto split: if_splits)

section \<open>Properties of the dynamic table\<close>

text \<open>C10: Inserting refines the abstract table of RFC 7541: with no eviction check the new entry is put in
  front of the longest prefix of the old entries that still fits the capacity, an entry larger than
  the capacity empties the table, the 64-bit accounting stays exact and the entries keep
  consecutive bases.\<close>

theorem insert_refines:
  assumes "table_ok t" "esize e < 2 ^ 64"
  shows "\<exists>r t'. insert_entry e None t () = (r, t', ()) \<and> table_ok t' \<and> capacity t' = capacity t \<and>
    (if esize e \<le> unat (capacity t)
     then r = Some (e\<lparr>eB := base t + 1\<rparr>) \<and> base t' = base t + 1 \<and>
       dynamic t' = e\<lparr>eB := base t + 1\<rparr> # fit (unat (capacity t) - esize e) (dynamic t)
     else r = None \<and> base t' = base t \<and> dynamic t' = [])"
proof -
  obtain r t' u where i: "insert_entry e None t () = (r, t', u)" by (metis surj_pair)
  note sp = insert_entry_spec [OF assms i]
  have "r \<noteq> None" if "esize e \<le> unat (capacity t)" using sp that by (cases r) auto
  with sp i show ?thesis by (cases r) auto
qed

theorem insert_refines_witness:
  "\<exists>r t'. insert_entry \<lparr>eN = ''a'', eV = ''b'', eB = 0\<rparr> None (emptyTable\<lparr>capacity := 40\<rparr>) () = (r, t', ()) \<and>
     table_ok t' \<and> dynamic t' = [\<lparr>eN = ''a'', eV = ''b'', eB = 1\<rparr>]"
proof -
  let ?t = "emptyTable\<lparr>capacity := 40\<rparr>" and ?e = "\<lparr>eN = ''a'', eV = ''b'', eB = 0\<rparr>"
  have "table_ok ?t" "esize ?e < 2 ^ 64" "esize ?e \<le> unat (capacity ?t)" "dynamic ?t = []" "base ?t = 0"
    by (simp_all add: emptyTable_def table_ok_def esize_def)
  with insert_refines [of ?t ?e] show ?thesis by auto
qed

text \<open>Changing the capacity keeps the longest prefix of entries that fits the new one, newest first, with
  exact accounting and without renumbering.\<close>

theorem SetCapacity_refines:
  assumes "table_ok t"
  shows "table_ok (SetCapacity c t) \<and> capacity (SetCapacity c t) = c \<and>
    dynamic (SetCapacity c t) = fit (unat c) (dynamic t) \<and> base (SetCapacity c t) = base t"
  by (simp add: SetCapacity_spec [OF assms])

theorem SetCapacity_refines_witness:
  "dynamic (SetCapacity 40 \<lparr>dynamic = [\<lparr>eN = ''a'', eV = ''b'', eB = 2\<rparr>, \<lparr>eN = ''c'', eV = ''d'', eB = 1\<rparr>],
     capacity = 100, used = 68, base = 2\<rparr>) = [\<lparr>eN = ''a'', eV = ''b'', eB = 2\<rparr>]"
proof -
  let ?t = "\<lparr>dynamic = [\<lparr>eN = ''a'', eV = ''b'', eB = 2\<rparr>, \<lparr>eN = ''c'', eV = ''d'', eB = 1\<rparr>],
     capacity = 100, used = 68, base = 2\<rparr>"
  have "table_ok ?t" by (auto simp: table_ok_def esize_def less_Suc_eq)
  from SetCapacity_refines [OF this, of 40] show ?thesis by (simp add: esize_def)
qed

text \<open>C11: For every index and base that fit in a 64-bit \<open>int\<close>, whatever the peer sent: \<open>GetDynamic\<close>
  returns the entry whose insert number is \<open>b - i\<close> when the table holds it and nothing otherwise, if
  the base \<open>b\<close> lies in the past of the table, that is, not after its last insert and no further
  back than an \<open>int\<close> can count; for every other base it returns nothing. No overflow of the index
  arithmetic selects a wrong entry, but an entry that is there is refused when the base is
  beyond the last insert.\<close>

theorem GetDynamic_exact:
  assumes "table_ok t" "base t \<le> intMax" "- (2 ^ 63) \<le> i" "i \<le> intMax" "- (2 ^ 63) \<le> b" "b \<le> intMax"
  shows "GetDynamic t i b =
    (if b \<le> base t \<and> base t - b \<le> intMax then find (\<lambda>e. eB e = b - i) (dynamic t) else None)"
proof (cases "b \<le> base t \<and> base t - b \<le> intMax")
  case False
  have b0: "0 \<le> base t" using assms(1) by (auto simp: table_ok_def)
  have "s64 (base t - b) < 0"
  proof (cases "b \<le> base t")
    case True
    with False assms show ?thesis by (subst s64_above) (simp_all add: intMax_def)
  qed (use assms b0 in \<open>simp add: s64_id intMax_def\<close>)
  with False show ?thesis by (auto simp: GetDynamic_def Let_def)
next
  case True
  let ?k = "i + (base t - b)"
  have B: "eB (dynamic t ! k) = base t - int k" if "k < length (dynamic t)" for k
    using assms(1) that by (simp add: table_ok_def)
  have d: "s64 (base t - b) = base t - b" using True by (intro s64_id) (simp_all add: intMax_def)
  have get: "GetDynamic t i b = (if 0 \<le> ?k \<and> ?k < int (length (dynamic t)) then Some (dynamic t ! nat ?k) else None)"
  proof (cases "?k \<le> intMax")
    case True
    then have "s64 ?k = ?k" using assms(3) \<open>b \<le> base t \<and> _\<close> by (intro s64_id) simp_all
    with d \<open>b \<le> base t \<and> _\<close> show ?thesis by (auto simp: GetDynamic_def Let_def)
  next
    case False
    then have "s64 ?k < 0" using assms \<open>b \<le> base t \<and> _\<close> by (subst s64_above) (simp_all add: intMax_def)
    with d False table_ok_length [OF assms(1)] show ?thesis by (auto simp: GetDynamic_def Let_def)
  qed
  show ?thesis
  proof (cases "0 \<le> ?k \<and> ?k < int (length (dynamic t))")
    case k: True
    then have "nat ?k < length (dynamic t)" "eB (dynamic t ! nat ?k) = b - i"
      using B [of "nat ?k"] by auto
    moreover have "eB (dynamic t ! j) \<noteq> b - i" if "j < nat ?k" for j
      using B [of j] that k by (auto simp: zless_nat_eq_int_zless)
    ultimately have "find (\<lambda>e. eB e = b - i) (dynamic t) = Some (dynamic t ! nat ?k)"
      by (auto simp: find_Some_iff)
    with True k get show ?thesis by simp
  next
    case k: False
    then have "find (\<lambda>e. eB e = b - i) (dynamic t) = None"
      using B by (auto simp: find_None_iff in_set_conv_nth)
    with True k get show ?thesis by simp
  qed
qed

theorem GetDynamic_exact_witness:
  "let t = \<lparr>dynamic = [\<lparr>eN = ''a'', eV = ''b'', eB = 2\<rparr>, \<lparr>eN = ''c'', eV = ''d'', eB = 1\<rparr>],
     capacity = 100, used = 68, base = 2\<rparr>
   in GetDynamic t 1 2 = Some \<lparr>eN = ''c'', eV = ''d'', eB = 1\<rparr> \<and> GetDynamic t intMax 2 = None \<and> GetDynamic t 1 3 = None"
proof -
  let ?t = "\<lparr>dynamic = [\<lparr>eN = ''a'', eV = ''b'', eB = 2\<rparr>, \<lparr>eN = ''c'', eV = ''d'', eB = 1\<rparr>],
     capacity = 100, used = 68, base = 2\<rparr>"
  have t: "table_ok ?t" by (auto simp: table_ok_def esize_def less_Suc_eq)
  show ?thesis
    using GetDynamic_exact [OF t, of 1 2] GetDynamic_exact [OF t, of intMax 2] GetDynamic_exact [OF t, of 1 3]
    by (simp add: intMax_def Let_def)
qed

text \<open>C12: A lookup is sound and complete over the static table followed by the slice of the dynamic table: it
  returns a full match exactly when there is one, and otherwise the first entry with that name.\<close>

theorem lookup_sound_complete:
  assumes "lookupImpl t st n v lo hi = (m, nm)"
  shows "(m = None \<longleftrightarrow> \<not> (\<exists>e \<in> set (map StaticE st @ map DynamicE (drop lo (take hi (dynamic t)))).
        entryName e = n \<and> entryValue e = v)) \<and>
    (\<forall>e. m = Some e \<longrightarrow> e \<in> set (map StaticE st @ map DynamicE (drop lo (take hi (dynamic t)))) \<and>
        entryName e = n \<and> entryValue e = v \<and> nm = Some e) \<and>
    (m = None \<longrightarrow> nm = find (\<lambda>e. entryName e = n) (map StaticE st @ map DynamicE (drop lo (take hi (dynamic t)))))"
  using lookupImpl_spec [OF assms] by (cases m) auto

theorem lookup_sound_complete_witness:
  "fst (lookupImpl \<lparr>dynamic = [\<lparr>eN = ''a'', eV = ''b'', eB = 1\<rparr>], capacity = 100, used = 34, base = 1\<rparr>
     [] ''a'' ''b'' 0 1) \<noteq> None"
proof -
  let ?t = "\<lparr>dynamic = [\<lparr>eN = ''a'', eV = ''b'', eB = 1\<rparr>], capacity = 100, used = 34, base = 1\<rparr>"
  obtain m nm where l: "lookupImpl ?t [] ''a'' ''b'' 0 1 = (m, nm)" by fastforce
  from lookup_sound_complete [OF l] l show ?thesis by simp
qed

end
