(* ===== verification/Hpack.thy ===== *)
theory Hpack
  imports Codec Table
begin

text \<open>
  HPACK: \<open>src/hc/hpack.go\<close>. A decoder is its table, an encoder its table, its preferences
  and the two capacities by which it tracks changes; each operation threads that state beside
  the bit reader or writer it uses.
\<close>

section \<open>The table\<close>

definition hpackEntryIndex :: "BasicDynamicEntry \<Rightarrow> int \<Rightarrow> int" where
  "hpackEntryIndex e b =
     (if b < eB e then 0 else int (length hpackStaticTable) + 1 + b - eB e)"

text \<open>\<open>Insert\<close> returns the new entry also when it did not fit.\<close>

definition HpackInsert :: "string \<Rightarrow> string \<Rightarrow> tableCommon \<Rightarrow> BasicDynamicEntry \<times> tableCommon" where
  "HpackInsert n v t =
     (let entry = \<lparr>eN = n, eV = v, eB = 0\<rparr> in
      case insert_entry entry None t () of
        (Some e, t', _) \<Rightarrow> (e, t')
      | (None, t', _) \<Rightarrow> (entry, t'))"

definition HpackGetStatic :: "int \<Rightarrow> Entry option" where
  "HpackGetStatic i =
     (if i \<le> 0 \<or> i > int (length hpackStaticTable) then None
      else Some (StaticE (hpackStaticTable ! nat (i - 1))))"

definition HpackGet :: "tableCommon \<Rightarrow> int \<Rightarrow> Entry option" where
  "HpackGet t i =
     (if i \<le> 0 then None
      else (case HpackGetStatic i of
              Some e \<Rightarrow> Some e
            | None \<Rightarrow> map_option DynamicE
                (GetDynamic t (i - int (length hpackStaticTable) - 1) (base t))))"

definition HpackLookup :: "tableCommon \<Rightarrow> string \<Rightarrow> string \<Rightarrow> Entry option \<times> Entry option" where
  "HpackLookup t n v = lookupImpl t hpackStaticTable n v 0 (length (dynamic t))"

fun HpackIndex :: "tableCommon \<Rightarrow> Entry \<Rightarrow> int" where
  "HpackIndex t (DynamicE e) = int (length hpackStaticTable) + 1 + base t - eB e"
| "HpackIndex t (StaticE e) = sindex e"

section \<open>The decoder\<close>

type_synonym 'r hpack_dec = "tableCommon \<times> 'r bitReader"

definition readIndexed :: "'r src_ops \<Rightarrow> ('r hpack_dec, HeaderField) io" where
  "readIndexed ops =
     bnd (onIO (ReadIndex ops 7)) (\<lambda>index.
     bnd getT (\<lambda>t.
       case HpackGet t index of
         None \<Rightarrow> throw ErrIndexError
       | Some e \<Rightarrow> ret \<lparr>Name = entryName e, Value = entryValue e, Sensitive = False\<rparr>))"

definition readNameValue :: "'r src_ops \<Rightarrow> nat \<Rightarrow> ('r hpack_dec, string \<times> string) io" where
  "readNameValue ops pfx =
     bnd (onIO (ReadIndex ops pfx)) (\<lambda>index.
     bnd (if index = 0 then onIO (ReadString ops 7)
          else bnd getT (\<lambda>t.
            case HpackGet t index of
              None \<Rightarrow> throw ErrIndexError
            | Some e \<Rightarrow> ret (entryName e))) (\<lambda>name.
     bnd (onIO (ReadString ops 7)) (\<lambda>value.
       ret (name, value))))"

definition readIncremental :: "'r src_ops \<Rightarrow> ('r hpack_dec, HeaderField) io" where
  "readIncremental ops =
     bnd (readNameValue ops 6) (\<lambda>(name, value).
     bnd (modifyT (\<lambda>t. snd (HpackInsert name value t))) (\<lambda>_.
       ret \<lparr>Name = name, Value = value, Sensitive = False\<rparr>))"

definition readCapacity :: "'r src_ops \<Rightarrow> ('r hpack_dec, unit) io" where
  "readCapacity ops =
     bnd (onIO (ReadInt ops 5)) (\<lambda>c. modifyT (SetCapacity c))"

definition readLiteral :: "'r src_ops \<Rightarrow> ('r hpack_dec, HeaderField) io" where
  "readLiteral ops =
     bnd (onIO (ReadBit ops)) (\<lambda>ni.
     bnd (readNameValue ops 4) (\<lambda>(name, value).
       ret \<lparr>Name = name, Value = value, Sensitive = ni = 1\<rparr>))"

text \<open>
  One turn of the loop of \<open>ReadHeaderBlock\<close>: \<open>None\<close> leaves the loop at the end of the
  input, \<open>Some None\<close> is a turn without a header field.
\<close>

definition readBlockTurn :: "'r src_ops \<Rightarrow> ('r hpack_dec, HeaderField option option) io" where
  "readBlockTurn ops s =
     (case onIO (ReadBit ops) s of
        (Inl e, s') \<Rightarrow> if e = EOF then (Inr None, s') else (Inl e, s')
      | (Inr b, s') \<Rightarrow>
          (if b = 1 then bnd (readIndexed ops) (\<lambda>h. ret (Some (Some h)))
           else
             bnd (onIO (ReadBit ops)) (\<lambda>b.
               if b = 1 then bnd (readIncremental ops) (\<lambda>h. ret (Some (Some h)))
               else
                 bnd (onIO (ReadBit ops)) (\<lambda>b.
                   if b = 1 then bnd (readCapacity ops) (\<lambda>_. ret (Some None))
                   else bnd (readLiteral ops) (\<lambda>h. ret (Some (Some h)))))) s')"

text \<open>The loop; \<open>None\<close> would be a loop that never ends.\<close>

partial_function (option) readBlockLoop ::
  "'r src_ops \<Rightarrow> HeaderField list \<Rightarrow> 'r hpack_dec \<Rightarrow>
     ((goerr + HeaderField list) \<times> 'r hpack_dec) option" where
  "readBlockLoop ops headers s =
     (case readBlockTurn ops s of
        (Inl e, s') \<Rightarrow> Some (Inl e, s')
      | (Inr None, s') \<Rightarrow> Some (Inr headers, s')
      | (Inr (Some None), s') \<Rightarrow> readBlockLoop ops headers s'
      | (Inr (Some (Some h)), s') \<Rightarrow> readBlockLoop ops (headers @ [h]) s')"

declare readBlockLoop.simps [code]

definition ReadHeaderBlock :: "'r src_ops \<Rightarrow> tableCommon \<Rightarrow> 'r \<Rightarrow>
    ((goerr + HeaderField list) \<times> tableCommon \<times> 'r) option" where
  "ReadHeaderBlock ops t r =
     map_option (\<lambda>(x, (t', br)).
       ((case x of
           Inl e \<Rightarrow> Inl e
         | Inr headers \<Rightarrow>
             (case validateLoop True headers of
                Some e \<Rightarrow> Inl e
              | None \<Rightarrow> Inr headers)), t', reader br))
       (readBlockLoop ops [] (t, NewBitReader r))"

section \<open>The encoder\<close>

record HpackEncoder = encoderCommon +
  htable :: tableCommon
  minCapacity :: u64
  nextCapacity :: u64

type_synonym 'w hpack_enc = "HpackEncoder \<times> 'w bitWriter"

definition HpackSetCapacity :: "u64 \<Rightarrow> HpackEncoder \<Rightarrow> HpackEncoder" where
  "HpackSetCapacity c encoder =
     (if c < minCapacity encoder then encoder\<lparr>minCapacity := c\<rparr> else encoder)\<lparr>nextCapacity := c\<rparr>"

definition NewHpackEncoder :: "u64 \<Rightarrow> HpackEncoder" where
  "NewHpackEncoder c =
     HpackSetCapacity c \<lparr>HuffmanPreference = HuffmanCodingAuto, indexPrefs = Map.empty,
       htable = emptyTable, minCapacity = 0, nextCapacity = 0\<rparr>"

definition writeCapacity :: "'w snk_ops \<Rightarrow> u64 \<Rightarrow> ('w bitWriter, unit) io" where
  "writeCapacity ops c = bnd (WriteBits ops 1 3) (\<lambda>_. WriteInt ops c 5)"

definition writeCapacityChange :: "'w snk_ops \<Rightarrow> ('w hpack_enc, unit) io" where
  "writeCapacityChange ops =
     bnd getT (\<lambda>encoder.
     bnd (if minCapacity encoder < capacity (htable encoder) then
            bnd (onIO (writeCapacity ops (minCapacity encoder))) (\<lambda>_.
              modifyT (\<lambda>encoder. encoder\<lparr>htable := SetCapacity (minCapacity encoder) (htable encoder)\<rparr>))
          else ret ()) (\<lambda>_.
     bnd getT (\<lambda>encoder.
       if nextCapacity encoder > capacity (htable encoder) then
         bnd (onIO (writeCapacity ops (nextCapacity encoder))) (\<lambda>_.
           modifyT (\<lambda>encoder. encoder\<lparr>htable := SetCapacity (nextCapacity encoder) (htable encoder),
                                       minCapacity := nextCapacity encoder\<rparr>))
       else ret ())))"

definition writeIndexed :: "'w snk_ops \<Rightarrow> Entry \<Rightarrow> ('w hpack_enc, unit) io" where
  "writeIndexed ops entry =
     bnd getT (\<lambda>encoder.
       onIO (bnd (WriteBit ops 1) (\<lambda>_.
         WriteInt ops (word_of_int (HpackIndex (htable encoder) entry)) 7)))"

definition writeNameValue :: "'w snk_ops \<Rightarrow> HeaderField \<Rightarrow> Entry option \<Rightarrow> nat \<Rightarrow> ('w hpack_enc, unit) io" where
  "writeNameValue ops h nameEntry pfx =
     bnd getT (\<lambda>encoder. onIO (
       bnd (WriteInt ops (case nameEntry of
              None \<Rightarrow> 0 | Some e \<Rightarrow> word_of_int (HpackIndex (htable encoder) e)) pfx) (\<lambda>_.
       bnd (if nameEntry = None then WriteStringRaw ops (Name h) 7 (HuffmanPreference encoder)
            else ret ()) (\<lambda>_.
         WriteStringRaw ops (Value h) 7 (HuffmanPreference encoder)))))"

definition writeIncremental :: "'w snk_ops \<Rightarrow> HeaderField \<Rightarrow> Entry option \<Rightarrow> ('w hpack_enc, unit) io" where
  "writeIncremental ops h nameEntry =
     bnd (onIO (WriteBits ops 1 2)) (\<lambda>_.
     bnd (writeNameValue ops h nameEntry 6) (\<lambda>_.
       modifyT (\<lambda>encoder. encoder\<lparr>htable := snd (HpackInsert (Name h) (Value h) (htable encoder))\<rparr>)))"

definition writeLiteral :: "'w snk_ops \<Rightarrow> HeaderField \<Rightarrow> Entry option \<Rightarrow> ('w hpack_enc, unit) io" where
  "writeLiteral ops h nameEntry =
     bnd (onIO (WriteBits ops (if Sensitive h then 1 else 0) 4)) (\<lambda>_.
       writeNameValue ops h nameEntry 4)"

definition writeField :: "'w snk_ops \<Rightarrow> HeaderField \<Rightarrow> ('w hpack_enc, unit) io" where
  "writeField ops h =
     (if Sensitive h then writeLiteral ops h None
      else
        bnd getT (\<lambda>encoder.
          case HpackLookup (htable encoder) (Name h) (Value h) of
            (Some m, nm) \<Rightarrow> writeIndexed ops m
          | (None, nm) \<Rightarrow>
              if shouldIndex encoder (capacity (htable encoder)) h then writeIncremental ops h nm
              else writeLiteral ops h nm))"

fun writeFields :: "'w snk_ops \<Rightarrow> bool \<Rightarrow> HeaderField list \<Rightarrow> ('w hpack_enc, unit) io" where
  "writeFields ops pseudo [] = ret ()"
| "writeFields ops pseudo (h # headers) =
     (case Name h of
        [] \<Rightarrow> throw (Panic ''index out of range'')
      | c # _ \<Rightarrow>
          if c = CHR '':'' then
            (if \<not> pseudo then throw ErrPseudoHeaderOrdering
             else bnd (writeField ops h) (\<lambda>_. writeFields ops pseudo headers))
          else bnd (writeField ops h) (\<lambda>_. writeFields ops False headers))"

definition WriteHeaderBlock :: "'w snk_ops \<Rightarrow> HeaderField list \<Rightarrow> HpackEncoder \<Rightarrow> 'w \<Rightarrow>
    (goerr + unit) \<times> HpackEncoder \<times> 'w" where
  "WriteHeaderBlock ops headers encoder w =
     (case bnd (writeCapacityChange ops) (\<lambda>_. writeFields ops True headers) (encoder, NewBitWriter w) of
        (x, (encoder', bw)) \<Rightarrow> (x, encoder', writer bw))"

section \<open>Indices and entries\<close>

text \<open>What a lookup or a table can yield.\<close>

definition hpack_entries :: "tableCommon \<Rightarrow> Entry set" where
  "hpack_entries t = StaticE ` set hpackStaticTable \<union> DynamicE ` set (dynamic t)"

lemma HpackGet_Index:
  assumes "table_ok t" "e \<in> hpack_entries t"
  shows "0 < HpackIndex t e \<and> HpackIndex t e < 2 ^ 63 \<and> HpackGet t (HpackIndex t e) = Some e"
proof (cases e)
  case (StaticE s)
  with assms(2) obtain i where i: "i < 61" "s = hpackStaticTable ! i"
    by (auto simp: hpack_entries_def in_set_conv_nth)
  with StaticE sindex_hpack [of i] show ?thesis
    by (simp add: HpackGet_def HpackGetStatic_def)
next
  case (DynamicE d)
  with assms(2) have d: "d \<in> set (dynamic t)" by (auto simp: hpack_entries_def)
  note en = table_ok_entry [OF assms(1) d]
  have len: "32 * length (dynamic t) < 2 ^ 64"
    using assms(1) length_le_total [of "dynamic t"] unat_u64 [of "used t"] by (simp add: table_ok_def)
  have "GetDynamic t (base t - eB d) (base t) = Some d"
    using en len by (subst GetDynamic_self [OF assms(1)]) (simp_all add: intMax_def)
  with DynamicE en len show ?thesis by (simp add: HpackGet_def HpackGetStatic_def)
qed

lemma HpackLookup_spec:
  assumes "HpackLookup t n v = (m, nm)"
  shows "case m of
      Some e \<Rightarrow> e \<in> hpack_entries t \<and> entryName e = n \<and> entryValue e = v
    | None \<Rightarrow> \<forall>e. nm = Some e \<longrightarrow> e \<in> hpack_entries t \<and> entryName e = n"
  using lookupImpl_spec [OF assms [unfolded HpackLookup_def]]
  by (auto simp: hpack_entries_def split: option.splits dest!: find_SomeD)

lemma HpackInsert_ok:
  assumes "table_ok t" "32 + length n + length v < 2 ^ 64"
  shows "table_ok (snd (HpackInsert n v t))" "capacity (snd (HpackInsert n v t)) = capacity t"
proof -
  let ?e = "\<lparr>eN = n, eV = v, eB = 0\<rparr>"
  obtain r t' u where i: "insert_entry ?e None t () = (r, t', u)" by (metis surj_pair)
  have "esize ?e < 2 ^ 64" using assms(2) by (simp add: esize_def)
  from insert_entry_spec [OF assms(1) this i]
  show "table_ok (snd (HpackInsert n v t))" "capacity (snd (HpackInsert n v t)) = capacity t"
    by (auto simp: HpackInsert_def i Let_def split: option.splits)
qed

section \<open>The code of a header field\<close>

text \<open>
  The bits of each representation, and the table that encoder and decoder both have after it.
\<close>

definition name_value_bits :: "HuffmanCodingChoice \<Rightarrow> nat \<Rightarrow> nat \<Rightarrow> string \<Rightarrow> string \<Rightarrow> bool list" where
  "name_value_bits c n i name value =
     int_bits n i @ (if i = 0 then string_bits c 7 name else []) @ string_bits c 7 value"

definition name_index :: "tableCommon \<Rightarrow> Entry option \<Rightarrow> nat" where
  "name_index t nm = (case nm of None \<Rightarrow> 0 | Some e \<Rightarrow> nat (HpackIndex t e))"

definition hpack_code :: "HpackEncoder \<Rightarrow> HeaderField \<Rightarrow> bool list \<times> tableCommon" where
  "hpack_code encoder h =
     (let c = HuffmanPreference encoder; t = htable encoder in
      if Sensitive h then ([False, False, False, True] @ name_value_bits c 4 0 (Name h) (Value h), t)
      else (case HpackLookup t (Name h) (Value h) of
              (Some e, _) \<Rightarrow> ([True] @ int_bits 7 (nat (HpackIndex t e)), t)
            | (None, nm) \<Rightarrow>
                if shouldIndex encoder (capacity t) h
                then ([False, True] @ name_value_bits c 6 (name_index t nm) (Name h) (Value h),
                      snd (HpackInsert (Name h) (Value h) t))
                else ([False, False, False, False] @
                        name_value_bits c 4 (name_index t nm) (Name h) (Value h), t)))"

text \<open>Fields that survive the trip; an empty string does not when Huffman coding is forced.\<close>

definition field_ok :: "HuffmanCodingChoice \<Rightarrow> HeaderField \<Rightarrow> bool" where
  "field_ok c h \<longleftrightarrow> Name h \<noteq> [] \<and> length (Name h) < 2 ^ 44 \<and> length (Value h) < 2 ^ 44 \<and>
     (c = HuffmanCodingAlways \<longrightarrow> Value h \<noteq> [])"

lemma hpack_code_ok:
  assumes "table_ok (htable encoder)" "field_ok c h"
  shows "table_ok (snd (hpack_code encoder h))"
  using assms HpackInsert_ok [of "htable encoder" "Name h" "Value h"]
  by (auto simp: hpack_code_def Let_def field_ok_def split: prod.splits option.splits)

context reliable_sink
begin

lemma writeNameValue_produces:
  assumes "table_ok (htable encoder)" "1 \<le> n" "n \<le> 8" "field_ok (HuffmanPreference encoder) h"
    "\<forall>e. nm = Some e \<longrightarrow> e \<in> hpack_entries (htable encoder)"
  shows "tproduces out (writeNameValue ops h nm n) encoder
    (name_value_bits (HuffmanPreference encoder) n (name_index (htable encoder) nm) (Name h) (Value h))
    () encoder"
proof -
  let ?t = "htable encoder" and ?c = "HuffmanPreference encoder"
  let ?i = "(case nm of None \<Rightarrow> 0 | Some e \<Rightarrow> word_of_int (HpackIndex ?t e)) :: u64"
  have nz: "name_index ?t nm = 0 \<longleftrightarrow> nm = None" and "unat ?i = name_index ?t nm"
    using HpackGet_Index [OF assms(1)] assms(5)
    by (cases nm; force simp: name_index_def unat_of_int)+
  then have i: "produces out (WriteInt ops ?i n) (int_bits n (name_index ?t nm)) ()"
    using WriteInt_produces [OF assms(2,3), of ?i] by simp
  have s: "produces out (WriteStringRaw ops s 7 ?c) (string_bits ?c 7 s) ()" if "length s < 2 ^ 44" for s
    using that by (intro WriteStringRaw_produces) simp_all
  have nm: "produces out (if nm = None then WriteStringRaw ops (Name h) 7 ?c else ret ())
      (if name_index ?t nm = 0 then string_bits ?c 7 (Name h) else []) ()"
    using s nz assms(4) by (simp add: field_ok_def produces_ret)
  have v: "produces out (WriteStringRaw ops (Value h) 7 ?c) (string_bits ?c 7 (Value h)) ()"
    using s assms(4) by (simp add: field_ok_def)
  show ?thesis
    unfolding writeNameValue_def name_value_bits_def
    by (intro tproduces_getT tproduces_onIO produces_bnd [OF i] produces_bnd [OF nm] v)
qed

lemma writeField_produces:
  assumes "table_ok (htable encoder)" "field_ok (HuffmanPreference encoder) h"
  shows "tproduces out (writeField ops h) encoder (fst (hpack_code encoder h)) ()
    (encoder\<lparr>htable := snd (hpack_code encoder h)\<rparr>)"
proof -
  let ?t = "htable encoder" and ?c = "HuffmanPreference encoder"
  note nv = writeNameValue_produces [OF assms(1) _ _ assms(2)]
  have lit: "tproduces out (writeLiteral ops h nm) encoder ([False, False, False, Sensitive h] @
      name_value_bits ?c 4 (name_index ?t nm) (Name h) (Value h)) () encoder"
    if "\<forall>e. nm = Some e \<longrightarrow> e \<in> hpack_entries ?t" for nm
  proof -
    have p: "produces out (WriteBits ops (if Sensitive h then 1 else 0) 4) [False, False, False, Sensitive h] ()"
      using WriteBits_produces [of 4 "if Sensitive h then 1 else 0"]
      by (cases "Sensitive h") (simp_all add: bits_def upt_conv_Cons take_bit_eq_mod)
    show ?thesis unfolding writeLiteral_def
      using that by (intro tproduces_bnd [OF tproduces_onIO [OF p]] nv) simp_all
  qed
  have inc: "tproduces out (writeIncremental ops h nm) encoder ([False, True] @
      name_value_bits ?c 6 (name_index ?t nm) (Name h) (Value h)) ()
      (encoder\<lparr>htable := snd (HpackInsert (Name h) (Value h) ?t)\<rparr>)"
    if "\<forall>e. nm = Some e \<longrightarrow> e \<in> hpack_entries ?t" for nm
  proof -
    have p: "produces out (WriteBits ops 1 2) [False, True] ()"
      using WriteBits_produces [of 2 1] by (simp add: bits_def upt_conv_Cons take_bit_eq_mod)
    have "tproduces out (writeIncremental ops h nm) encoder ([False, True] @
        name_value_bits ?c 6 (name_index ?t nm) (Name h) (Value h) @ []) ()
        (encoder\<lparr>htable := snd (HpackInsert (Name h) (Value h) ?t)\<rparr>)"
      unfolding writeIncremental_def
      using that by (intro tproduces_bnd [OF tproduces_onIO [OF p]] tproduces_bnd [OF nv] tproduces_modifyT) simp_all
    then show ?thesis by simp
  qed
  have idx: "tproduces out (writeIndexed ops e) encoder ([True] @ int_bits 7 (nat (HpackIndex ?t e))) () encoder"
    if "e \<in> hpack_entries ?t" for e
  proof -
    have u: "unat (word_of_int (HpackIndex ?t e) :: u64) = nat (HpackIndex ?t e)"
      using HpackGet_Index [OF assms(1) that] by (simp add: unat_of_int)
    have "produces out (WriteBit ops 1) [True] ()" using WriteBit_produces [of 1] by simp
    moreover have "produces out (WriteInt ops (word_of_int (HpackIndex ?t e)) 7)
        (int_bits 7 (nat (HpackIndex ?t e))) ()"
      using WriteInt_produces [of 7 "word_of_int (HpackIndex ?t e)"] u by simp
    ultimately show ?thesis
      unfolding writeIndexed_def by (intro tproduces_getT tproduces_onIO produces_bnd)
  qed
  show ?thesis
  proof (cases "Sensitive h")
    case True
    with lit [of None] show ?thesis by (simp add: writeField_def hpack_code_def name_index_def)
  next
    case False
    obtain m nm where l: "HpackLookup ?t (Name h) (Value h) = (m, nm)" by fastforce
    note sp = HpackLookup_spec [OF l]
    show ?thesis
    proof (cases m)
      case (Some e)
      with False l sp idx [of e] show ?thesis
        by (auto simp: writeField_def hpack_code_def Let_def intro!: tproduces_getT)
    next
      case None
      with False l sp inc [of nm] lit [of nm] show ?thesis
        by (auto simp: writeField_def hpack_code_def Let_def intro!: tproduces_getT)
    qed
  qed
qed

end

context byte_source
begin

lemma readName_consumes:
  assumes "table_ok t" "field_ok c h" "1 \<le> n" "n \<le> 8"
    "\<forall>e. nm = Some e \<longrightarrow> e \<in> hpack_entries t \<and> entryName e = Name h"
  shows "tconsumes content fin ok (readNameValue ops n) t
    (name_value_bits c n (name_index t nm) (Name h) (Value h)) (Name h, Value h) t"
proof -
  let ?i = "name_index t nm"
  have str: "consumes content fin ok (ReadString ops 7) (string_bits c 7 (Name h)) (Name h)"
    "consumes content fin ok (ReadString ops 7) (string_bits c 7 (Value h)) (Value h)"
    using assms(2) by (auto simp: field_ok_def intro!: ReadString_consumes)
  have i: "?i < 2 ^ 63"
    using HpackGet_Index [OF assms(1)] assms(5) by (cases nm; force simp: name_index_def)
  let ?rest = "\<lambda>name. bnd (onIO (ReadString ops 7)) (\<lambda>value. ret (name, value))"
  let ?name = "\<lambda>index. if index = 0 then onIO (ReadString ops 7)
          else bnd getT (\<lambda>t. case HpackGet t index of None \<Rightarrow> throw ErrIndexError | Some e \<Rightarrow> ret (entryName e))"
  have nm: "tconsumes content fin ok (?name (int ?i)) t
      (if ?i = 0 then string_bits c 7 (Name h) else []) (Name h) t"
  proof (cases nm)
    case None
    with tconsumes_onIO [OF str(1)] show ?thesis by (simp add: name_index_def)
  next
    case (Some e)
    with HpackGet_Index [OF assms(1), of e] assms(5) show ?thesis
      by (auto simp: name_index_def tconsumes_ret intro!: tconsumes_getT)
  qed
  have v: "tconsumes content fin ok (?rest (Name h)) t (string_bits c 7 (Value h) @ []) (Name h, Value h) t"
    by (intro tconsumes_bnd [OF tconsumes_onIO [OF str(2)]] tconsumes_ret)
  have "tconsumes content fin ok (readNameValue ops n) t
      (int_bits n ?i @ (if ?i = 0 then string_bits c 7 (Name h) else []) @ string_bits c 7 (Value h) @ [])
      (Name h, Value h) t"
    unfolding readNameValue_def
    by (intro tconsumes_bnd [OF tconsumes_onIO [OF ReadIndex_consumes]] tconsumes_bnd [OF nm] v assms i)
  then show ?thesis by (simp add: name_value_bits_def)
qed

text \<open>The bits at the start of a turn select the representation.\<close>

lemma readBlockTurn_consumes:
  "tconsumes content fin ok (readIndexed ops) t bs h t' \<Longrightarrow>
     tconsumes content fin ok (readBlockTurn ops) t ([True] @ bs) (Some (Some h)) t'"
  "tconsumes content fin ok (readIncremental ops) t bs h t' \<Longrightarrow>
     tconsumes content fin ok (readBlockTurn ops) t ([False, True] @ bs) (Some (Some h)) t'"
  "tconsumes content fin ok (readCapacity ops) t bs () t' \<Longrightarrow>
     tconsumes content fin ok (readBlockTurn ops) t ([False, False, True] @ bs) (Some None) t'"
  "tconsumes content fin ok (readLiteral ops) t bs h t' \<Longrightarrow>
     tconsumes content fin ok (readBlockTurn ops) t ([False, False, False] @ bs) (Some (Some h)) t'"
proof -
  let ?c = "bnd (readCapacity ops) (\<lambda>_. ret (Some None))"
  let ?l = "bnd (readLiteral ops) (\<lambda>h. ret (Some (Some h)))"
  let ?f3 = "\<lambda>b :: byte. if b = 1 then ?c else ?l"
  let ?i = "bnd (readIncremental ops) (\<lambda>h. ret (Some (Some h)))"
  let ?f2 = "\<lambda>b :: byte. if b = 1 then ?i else bnd (onIO (ReadBit ops)) ?f3"
  let ?x = "bnd (readIndexed ops) (\<lambda>h. ret (Some (Some h)))"
  let ?f1 = "\<lambda>b :: byte. if b = 1 then ?x else bnd (onIO (ReadBit ops)) ?f2"
  have turn: "tconsumes content fin ok (readBlockTurn ops) t ([b] @ bs) x t'"
    if "tconsumes content fin ok (?f1 (of_bool b)) t bs x t'" for b bs x t'
    unfolding tconsumes_def
  proof (intro allI impI)
    fix br rest assume br: "rok ok br \<and> rbits content br = ([b] @ bs) @ rest"
    with ReadBit_spec [of br] obtain br1 where 1: "ReadBit ops br = (Inr (of_bool b), br1)" "rok ok br1"
      "rbits content br1 = bs @ rest" "fin (reader br1) = fin (reader br)" by auto
    from that 1(2,3) obtain br2 where "?f1 (of_bool b) (t, br1) = (Inr x, (t', br2))" "rok ok br2"
      "rbits content br2 = rest" "fin (reader br2) = fin (reader br1)" by (rule tconsumesE)
    with 1 show "\<exists>br'. readBlockTurn ops (t, br) = (Inr x, (t', br')) \<and> rok ok br' \<and>
        rbits content br' = rest \<and> fin (reader br') = fin (reader br)"
      by (simp add: readBlockTurn_def)
  qed
  have more: "tconsumes content fin ok (bnd (onIO (ReadBit ops)) f) t ([b] @ bs) x t'"
    if "tconsumes content fin ok (f (of_bool b)) t bs x t'" for b bs t' x and f :: "byte \<Rightarrow> ('r hpack_dec, 'z) io"
    by (rule tconsumes_bnd [OF tconsumes_onIO [OF ReadBit_consumes]]) (rule that)
  have fin: "tconsumes content fin ok (bnd m (\<lambda>h. ret (f h))) t bs (f h) t'"
    if "tconsumes content fin ok m t bs h t'" for m f h t' bs
    by (rule tconsumes_bnd [OF that, where cs = "[]", unfolded append_Nil2]) (rule tconsumes_ret)
  { assume "tconsumes content fin ok (readIndexed ops) t bs h t'"
    from fin [OF this, of "\<lambda>h. Some (Some h)"]
    show "tconsumes content fin ok (readBlockTurn ops) t ([True] @ bs) (Some (Some h)) t'"
      by (intro turn) simp }
  { assume "tconsumes content fin ok (readIncremental ops) t bs h t'"
    from fin [OF this, of "\<lambda>h. Some (Some h)"]
    have "tconsumes content fin ok (?f1 (of_bool False)) t ([True] @ bs) (Some (Some h)) t'"
      using more [of ?f2 True bs "Some (Some h)" t'] by simp
    from turn [OF this] show "tconsumes content fin ok (readBlockTurn ops) t ([False, True] @ bs) (Some (Some h)) t'"
      by simp }
  have third: "tconsumes content fin ok (readBlockTurn ops) t ([False, False, b] @ bs) x t'"
    if "tconsumes content fin ok (?f3 (of_bool b)) t bs x t'" for b bs x t'
  proof -
    have "tconsumes content fin ok (?f1 (of_bool False)) t ([False] @ [b] @ bs) x t'"
      using more [of ?f2 False "[b] @ bs" x t'] more [of ?f3 b bs x t'] that by simp
    from turn [OF this] show ?thesis by simp
  qed
  { assume "tconsumes content fin ok (readCapacity ops) t bs () t'"
    from fin [OF this, of "\<lambda>_. Some None"]
    show "tconsumes content fin ok (readBlockTurn ops) t ([False, False, True] @ bs) (Some None) t'"
      by (intro third) simp }
  { assume "tconsumes content fin ok (readLiteral ops) t bs h t'"
    from fin [OF this, of "\<lambda>h. Some (Some h)"]
    show "tconsumes content fin ok (readBlockTurn ops) t ([False, False, False] @ bs) (Some (Some h)) t'"
      by (intro third) simp }
qed

lemma readField_consumes:
  assumes "table_ok (htable encoder)" "field_ok (HuffmanPreference encoder) h"
  shows "tconsumes content fin ok (readBlockTurn ops) (htable encoder) (fst (hpack_code encoder h))
    (Some (Some h)) (snd (hpack_code encoder h))"
proof -
  let ?t = "htable encoder" and ?c = "HuffmanPreference encoder"
  have eta: "\<lparr>Name = Name h, Value = Value h, Sensitive = b\<rparr> = h" if "b = Sensitive h" for b
    using that by (cases h) simp
  note nv = readName_consumes [OF assms]
  have lit: "tconsumes content fin ok (readBlockTurn ops) ?t ([False, False, False, s] @
      name_value_bits ?c 4 (name_index ?t nm) (Name h) (Value h)) (Some (Some h)) ?t"
    if "\<forall>e. nm = Some e \<longrightarrow> e \<in> hpack_entries ?t \<and> entryName e = Name h" "s = Sensitive h" for nm s
  proof -
    have n4: "tconsumes content fin ok (readNameValue ops 4) ?t
        (name_value_bits ?c 4 (name_index ?t nm) (Name h) (Value h)) (Name h, Value h) ?t"
      using that(1) by (intro nv) simp_all
    have "tconsumes content fin ok (readLiteral ops) ?t
        ([s] @ name_value_bits ?c 4 (name_index ?t nm) (Name h) (Value h) @ []) h ?t"
      unfolding readLiteral_def
      by (intro tconsumes_bnd [OF tconsumes_onIO [OF ReadBit_consumes]] tconsumes_bnd [OF n4])
        (use that(2) tconsumes_ret [of content fin ok h ?t] in \<open>simp add: eta\<close>)
    from readBlockTurn_consumes(4) [OF this] show ?thesis by simp
  qed
  have inc: "tconsumes content fin ok (readBlockTurn ops) ?t ([False, True] @
      name_value_bits ?c 6 (name_index ?t nm) (Name h) (Value h)) (Some (Some h))
      (snd (HpackInsert (Name h) (Value h) ?t))"
    if "\<forall>e. nm = Some e \<longrightarrow> e \<in> hpack_entries ?t \<and> entryName e = Name h" "\<not> Sensitive h" for nm
  proof -
    have n6: "tconsumes content fin ok (readNameValue ops 6) ?t
        (name_value_bits ?c 6 (name_index ?t nm) (Name h) (Value h)) (Name h, Value h) ?t"
      using that(1) by (intro nv) simp_all
    have "tconsumes content fin ok (readIncremental ops) ?t
        (name_value_bits ?c 6 (name_index ?t nm) (Name h) (Value h) @ [] @ []) h
        (snd (HpackInsert (Name h) (Value h) ?t))"
      unfolding readIncremental_def
    proof (intro tconsumes_bnd [OF n6])
      show "tconsumes content fin ok (case (Name h, Value h) of (name, value) \<Rightarrow>
          bnd (modifyT (\<lambda>t. snd (HpackInsert name value t)))
            (\<lambda>_. ret \<lparr>Name = name, Value = value, Sensitive = False\<rparr>)) ?t ([] @ []) h
          (snd (HpackInsert (Name h) (Value h) ?t))"
        using that(2) by (simp add: tconsumes_def eta)
    qed
    from readBlockTurn_consumes(2) [OF this] show ?thesis by simp
  qed
  have idx: "tconsumes content fin ok (readBlockTurn ops) ?t ([True] @ int_bits 7 (nat (HpackIndex ?t e)))
      (Some (Some h)) ?t"
    if "e \<in> hpack_entries ?t" "entryName e = Name h" "entryValue e = Value h" "\<not> Sensitive h" for e
  proof -
    note g = HpackGet_Index [OF assms(1) that(1)]
    have "tconsumes content fin ok (readIndexed ops) ?t (int_bits 7 (nat (HpackIndex ?t e)) @ []) h ?t"
      unfolding readIndexed_def
      by (intro tconsumes_bnd [OF tconsumes_onIO [OF ReadIndex_consumes]] tconsumes_getT)
        (use g that tconsumes_ret [of content fin ok h ?t] in \<open>auto simp: eta\<close>)
    from readBlockTurn_consumes(1) [OF this] show ?thesis by simp
  qed
  show ?thesis
  proof (cases "Sensitive h")
    case True
    with lit [of None True] show ?thesis by (simp add: hpack_code_def name_index_def)
  next
    case False
    obtain m nm where l: "HpackLookup ?t (Name h) (Value h) = (m, nm)" by fastforce
    note sp = HpackLookup_spec [OF l]
    show ?thesis
    proof (cases m)
      case (Some e)
      with False l sp idx [of e] show ?thesis by (simp add: hpack_code_def Let_def)
    next
      case None
      with False l sp inc [of nm] lit [of nm False] show ?thesis by (simp add: hpack_code_def Let_def)
    qed
  qed
qed

lemma readCapacity_consumes:
  "tconsumes content fin ok (readBlockTurn ops) t ([False, False, True] @ int_bits 5 (unat c))
     (Some None) (SetCapacity c t)"
proof -
  have "tconsumes content fin ok (onIO (ReadInt ops 5)) t (int_bits 5 (unat c)) c t"
    using tconsumes_onIO [OF ReadInt_consumes, of 5 "unat c"] unat_u64 [of c] by simp
  from tconsumes_bnd [OF this tconsumes_modifyT, of SetCapacity]
  have "tconsumes content fin ok (readCapacity ops) t (int_bits 5 (unat c)) () (SetCapacity c t)"
    by (simp add: readCapacity_def)
  from readBlockTurn_consumes(3) [OF this] show ?thesis .
qed

end

section \<open>Header blocks\<close>

fun fields_bits :: "HpackEncoder \<Rightarrow> HeaderField list \<Rightarrow> bool list" where
  "fields_bits encoder [] = []"
| "fields_bits encoder (h # hs) =
     fst (hpack_code encoder h) @ fields_bits (encoder\<lparr>htable := snd (hpack_code encoder h)\<rparr>) hs"

fun fields_table :: "HpackEncoder \<Rightarrow> HeaderField list \<Rightarrow> tableCommon" where
  "fields_table encoder [] = htable encoder"
| "fields_table encoder (h # hs) =
     fields_table (encoder\<lparr>htable := snd (hpack_code encoder h)\<rparr>) hs"

text \<open>The capacities that a change puts on the wire, and the encoder after it.\<close>

definition capacity_updates :: "HpackEncoder \<Rightarrow> u64 list" where
  "capacity_updates encoder =
     (let low = minCapacity encoder < capacity (htable encoder);
          c = (if low then minCapacity encoder else capacity (htable encoder))
      in (if low then [minCapacity encoder] else []) @
         (if nextCapacity encoder > c then [nextCapacity encoder] else []))"

definition updates_bits :: "u64 list \<Rightarrow> bool list" where
  "updates_bits cs = concat (map (\<lambda>c. [False, False, True] @ int_bits 5 (unat c)) cs)"

definition capacity_changed :: "HpackEncoder \<Rightarrow> HpackEncoder" where
  "capacity_changed encoder =
     encoder\<lparr>htable := fold SetCapacity (capacity_updates encoder) (htable encoder),
             minCapacity := (if nextCapacity encoder > min (minCapacity encoder) (capacity (htable encoder))
                             then nextCapacity encoder else minCapacity encoder)\<rparr>"

lemma capacity_SetCapacity [simp]: "capacity (SetCapacity c t) = c"
  by (simp add: SetCapacity_def split: prod.splits)

text \<open>
  The encoder's bookkeeping: \<open>minCapacity\<close> is the smallest capacity set since the last
  header block.
\<close>

definition encoder_ok :: "HpackEncoder \<Rightarrow> bool" where
  "encoder_ok encoder \<longleftrightarrow> table_ok (htable encoder) \<and> minCapacity encoder \<le> nextCapacity encoder \<and>
     minCapacity encoder \<le> capacity (htable encoder)"

lemma encoder_ok_SetCapacity: "encoder_ok encoder \<Longrightarrow> encoder_ok (HpackSetCapacity c encoder)"
  by (auto simp: encoder_ok_def HpackSetCapacity_def)

lemma encoder_ok_New: "encoder_ok (NewHpackEncoder c)"
  unfolding NewHpackEncoder_def
  by (rule encoder_ok_SetCapacity) (simp add: encoder_ok_def emptyTable_def table_ok_def)

lemma fold_SetCapacity_ok: "table_ok t \<Longrightarrow> table_ok (fold SetCapacity cs t)"
  by (induction cs arbitrary: t) (simp_all add: SetCapacity_spec(1))

lemma encoder_ok_changed:
  assumes "encoder_ok encoder"
  shows "encoder_ok (capacity_changed encoder)"
    "capacity (htable (capacity_changed encoder)) = nextCapacity encoder"
    "minCapacity (capacity_changed encoder) = nextCapacity encoder"
    "nextCapacity (capacity_changed encoder) = nextCapacity encoder"
proof -
  have c: "capacity (htable (capacity_changed encoder)) = nextCapacity encoder"
    and m: "minCapacity (capacity_changed encoder) = nextCapacity encoder"
    using assms by (auto simp: encoder_ok_def capacity_changed_def capacity_updates_def Let_def min_def)
  then show "capacity (htable (capacity_changed encoder)) = nextCapacity encoder"
    "minCapacity (capacity_changed encoder) = nextCapacity encoder" by simp_all
  show "nextCapacity (capacity_changed encoder) = nextCapacity encoder"
    by (simp add: capacity_changed_def)
  have "table_ok (htable (capacity_changed encoder))"
    using assms by (simp add: encoder_ok_def capacity_changed_def fold_SetCapacity_ok)
  with c m show "encoder_ok (capacity_changed encoder)"
    by (simp add: encoder_ok_def) (simp add: capacity_changed_def)
qed

lemma length_name_value_bits: "length (name_value_bits c n i s v) mod 8 = n mod 8"
proof -
  have m: "(x + y + z) mod 8 = n mod 8" if "x mod 8 = n mod 8" "y mod 8 = 0" "z mod 8 = 0" for x y z :: nat
    using that by presburger
  have y: "length (if i = 0 then string_bits c 7 s else []) mod 8 = 0"
    by (simp add: length_string_bits)
  show ?thesis
    unfolding name_value_bits_def length_append add.assoc [symmetric]
    by (rule m [OF length_int_bits y]) (simp add: length_string_bits)
qed

lemma length_hpack_code: "8 dvd length (fst (hpack_code encoder h))"
proof -
  have nv: "(k + length (name_value_bits c n i s v)) mod 8 = 0" if "(k + n) mod 8 = 0" for k c n i s v
    using that length_name_value_bits [of c n i s v] by (metis mod_add_right_eq)
  have "(1 + length (int_bits 7 i)) mod 8 = 0" for i
    using length_int_bits [of 7 i] by presburger
  then show ?thesis
    using nv [of 4 4] nv [of 2 6]
    by (auto simp: hpack_code_def Let_def dvd_eq_mod_eq_0 split: prod.splits option.splits)
qed

lemma length_fields_bits: "8 dvd length (fields_bits encoder hs)"
  by (induction hs arbitrary: encoder) (simp_all add: length_hpack_code)

lemma length_updates_bits: "8 dvd length (updates_bits cs)"
proof (induction cs)
  case (Cons c cs)
  have "8 dvd 3 + length (int_bits 5 (unat c))" using length_int_bits [of 5 "unat c"] by presburger
  with Cons show ?case by (simp add: updates_bits_def) (metis add_Suc dvd_add numeral_3_eq_3 plus_nat.simps)
qed (simp add: updates_bits_def)

context reliable_sink
begin

lemma writeCapacity_produces:
  "produces out (writeCapacity ops c) ([False, False, True] @ int_bits 5 (unat c)) ()"
proof -
  have "produces out (WriteBits ops 1 3) [False, False, True] ()"
    using WriteBits_produces [of 3 1] by (simp add: bits_def upt_conv_Cons take_bit_eq_mod)
  then show ?thesis
    unfolding writeCapacity_def by (intro produces_bnd WriteInt_produces) simp_all
qed

lemma writeCapacityChange_produces:
  "tproduces out (writeCapacityChange ops) encoder (updates_bits (capacity_updates encoder)) ()
     (capacity_changed encoder)"
proof -
  let ?low = "minCapacity encoder < capacity (htable encoder)"
  let ?e1 = "if ?low then encoder\<lparr>htable := SetCapacity (minCapacity encoder) (htable encoder)\<rparr> else encoder"
  let ?u = "\<lambda>c. [False, False, True] @ int_bits 5 (unat c)"
  have one: "tproduces out (bnd (onIO (writeCapacity ops c)) (\<lambda>_. modifyT f)) e (?u c) () (f e)"
    for c f and e :: HpackEncoder
    using tproduces_bnd [OF tproduces_onIO [OF writeCapacity_produces] tproduces_modifyT] by simp
  have 1: "tproduces out (if ?low then bnd (onIO (writeCapacity ops (minCapacity encoder))) (\<lambda>_.
        modifyT (\<lambda>encoder. encoder\<lparr>htable := SetCapacity (minCapacity encoder) (htable encoder)\<rparr>))
      else ret ()) encoder (if ?low then ?u (minCapacity encoder) else []) () ?e1"
    using one [of "minCapacity encoder" "\<lambda>encoder. encoder\<lparr>htable := SetCapacity (minCapacity encoder) (htable encoder)\<rparr>" encoder]
    by (simp add: tproduces_ret)
  let ?up = "nextCapacity ?e1 > capacity (htable ?e1)"
  let ?e2 = "if ?up then ?e1\<lparr>htable := SetCapacity (nextCapacity ?e1) (htable ?e1), minCapacity := nextCapacity ?e1\<rparr> else ?e1"
  have 2: "tproduces out (if ?up then bnd (onIO (writeCapacity ops (nextCapacity ?e1))) (\<lambda>_.
        modifyT (\<lambda>encoder. encoder\<lparr>htable := SetCapacity (nextCapacity encoder) (htable encoder),
                                    minCapacity := nextCapacity encoder\<rparr>))
      else ret ()) ?e1 (if ?up then ?u (nextCapacity ?e1) else []) () ?e2"
    using one [of "nextCapacity ?e1" "\<lambda>encoder. encoder\<lparr>htable := SetCapacity (nextCapacity encoder) (htable encoder), minCapacity := nextCapacity encoder\<rparr>" ?e1]
    by (simp add: tproduces_ret)
  have bits: "(if ?low then ?u (minCapacity encoder) else []) @ (if ?up then ?u (nextCapacity ?e1) else [])
      = updates_bits (capacity_updates encoder)"
    by (simp add: updates_bits_def capacity_updates_def Let_def)
  have e2: "?e2 = capacity_changed encoder"
    by (auto simp: capacity_changed_def capacity_updates_def Let_def min_def)
  have "tproduces out (writeCapacityChange ops) encoder
      ((if ?low then ?u (minCapacity encoder) else []) @ (if ?up then ?u (nextCapacity ?e1) else [])) () ?e2"
    unfolding writeCapacityChange_def
    by (intro tproduces_getT tproduces_bnd [OF 1] 2)
  then show ?thesis unfolding bits e2 .
qed

lemma writeFields_produces:
  assumes "table_ok (htable encoder)" "\<forall>h \<in> set hs. field_ok (HuffmanPreference encoder) h"
    "validateLoop pseudo hs = None"
  shows "tproduces out (writeFields ops pseudo hs) encoder (fields_bits encoder hs) ()
    (encoder\<lparr>htable := fields_table encoder hs\<rparr>)"
  using assms
proof (induction hs arbitrary: encoder pseudo)
  case Nil
  then show ?case by (simp add: tproduces_def)
next
  case (Cons h hs)
  let ?e = "encoder\<lparr>htable := snd (hpack_code encoder h)\<rparr>"
  have fok: "field_ok (HuffmanPreference encoder) h" using Cons.prems(2) by simp
  obtain p where p: "validateLoop p hs = None"
    "writeFields ops pseudo (h # hs) = bnd (writeField ops h) (\<lambda>_. writeFields ops p hs)"
    using Cons.prems(3) by (auto split: list.splits if_splits)
  have "tproduces out (writeFields ops p hs) ?e (fields_bits ?e hs) () (?e\<lparr>htable := fields_table ?e hs\<rparr>)"
    using Cons.prems p hpack_code_ok [OF Cons.prems(1) fok] by (intro Cons.IH) simp_all
  with tproduces_bnd [OF writeField_produces [OF Cons.prems(1) fok]] show ?case
    unfolding p by fastforce
qed

end

context byte_source
begin

lemma readBlockTurn_end:
  assumes "rok ok br" "rbits content br = []" "fin (reader br) = EOF"
  obtains br' where "readBlockTurn ops (t, br) = (Inr None, (t, br'))"
proof -
  from assms(1,2) obtain br' where "ReadBit ops br = (Inl (fin (reader br)), br')" by (rule ReadBit_end)
  with assms(3) have "readBlockTurn ops (t, br) = (Inr None, (t, br'))"
    by (simp add: readBlockTurn_def)
  then show thesis by (rule that)
qed

lemma readBlockLoop_fields:
  assumes "table_ok (htable encoder)" "\<forall>h \<in> set hs. field_ok (HuffmanPreference encoder) h"
    "rok ok br" "rbits content br = fields_bits encoder hs" "fin (reader br) = EOF"
  shows "\<exists>br'. readBlockLoop ops acc (htable encoder, br) =
    Some (Inr (acc @ hs), (fields_table encoder hs, br'))"
  using assms
proof (induction hs arbitrary: encoder acc br)
  case Nil
  from Nil.prems(3-5) obtain br' where "readBlockTurn ops (htable encoder, br) = (Inr None, (htable encoder, br'))"
    by (auto elim: readBlockTurn_end)
  then show ?case by (simp add: readBlockLoop.simps)
next
  case (Cons h hs)
  let ?e = "encoder\<lparr>htable := snd (hpack_code encoder h)\<rparr>"
  have fok: "field_ok (HuffmanPreference encoder) h" using Cons.prems(2) by simp
  have rb: "rbits content br = fst (hpack_code encoder h) @ fields_bits ?e hs"
    using Cons.prems(4) by simp
  from readField_consumes [OF Cons.prems(1) fok] Cons.prems(3) rb obtain br1 where 1:
    "readBlockTurn ops (htable encoder, br) = (Inr (Some (Some h)), (snd (hpack_code encoder h), br1))"
    "rok ok br1" "rbits content br1 = fields_bits ?e hs" "fin (reader br1) = fin (reader br)"
    by (rule tconsumesE)
  have "\<exists>br'. readBlockLoop ops (acc @ [h]) (htable ?e, br1) =
      Some (Inr ((acc @ [h]) @ hs), (fields_table ?e hs, br'))"
    using Cons.prems 1 hpack_code_ok [OF Cons.prems(1) fok] by (intro Cons.IH) simp_all
  with 1(1) show ?case by (simp add: readBlockLoop.simps [of ops acc])
qed

lemma readBlockLoop_updates:
  assumes "rok ok br" "rbits content br = updates_bits cs @ rest"
  shows "\<exists>br'. rok ok br' \<and> rbits content br' = rest \<and> fin (reader br') = fin (reader br) \<and>
    readBlockLoop ops acc (t, br) = readBlockLoop ops acc (fold SetCapacity cs t, br')"
  using assms
proof (induction cs arbitrary: t br)
  case Nil
  then show ?case by (auto simp: updates_bits_def)
next
  case (Cons c cs)
  have "rbits content br = ([False, False, True] @ int_bits 5 (unat c)) @ updates_bits cs @ rest"
    using Cons.prems(2) by (simp add: updates_bits_def)
  with readCapacity_consumes Cons.prems(1) obtain br1 where 1:
    "readBlockTurn ops (t, br) = (Inr (Some None), (SetCapacity c t, br1))" "rok ok br1"
    "rbits content br1 = updates_bits cs @ rest" "fin (reader br1) = fin (reader br)"
    by (rule tconsumesE)
  from Cons.IH [OF 1(2,3), of "SetCapacity c t"] 1(1,4) show ?case
    by (simp add: readBlockLoop.simps [of ops acc "(t, br)"])
qed

end

lemma fields_table_ok:
  assumes "table_ok (htable encoder)" "\<forall>h \<in> set hs. field_ok (HuffmanPreference encoder) h"
  shows "table_ok (fields_table encoder hs) \<and> capacity (fields_table encoder hs) = capacity (htable encoder)"
  using assms
proof (induction hs arbitrary: encoder)
  case (Cons h hs)
  let ?e = "encoder\<lparr>htable := snd (hpack_code encoder h)\<rparr>"
  have fok: "field_ok (HuffmanPreference encoder) h" using Cons.prems(2) by simp
  have "capacity (htable ?e) = capacity (htable encoder)"
    using HpackInsert_ok [OF Cons.prems(1), of "Name h" "Value h"] fok
    by (auto simp: hpack_code_def Let_def field_ok_def split: prod.splits option.splits)
  with Cons.IH [of ?e] Cons.prems hpack_code_ok [OF Cons.prems(1) fok] show ?case by simp
qed simp

definition block_bits :: "HpackEncoder \<Rightarrow> HeaderField list \<Rightarrow> bool list" where
  "block_bits encoder hs =
     updates_bits (capacity_updates encoder) @ fields_bits (capacity_changed encoder) hs"

definition block_encoder :: "HpackEncoder \<Rightarrow> HeaderField list \<Rightarrow> HpackEncoder" where
  "block_encoder encoder hs =
     (capacity_changed encoder)\<lparr>htable := fields_table (capacity_changed encoder) hs\<rparr>"

text \<open>The fields that a header block can carry.\<close>

definition block_ok :: "HpackEncoder \<Rightarrow> HeaderField list \<Rightarrow> bool" where
  "block_ok encoder hs \<longleftrightarrow> (\<forall>h \<in> set hs. field_ok (HuffmanPreference encoder) h) \<and> pseudo_first hs"

lemma block_ok_valid: "block_ok encoder hs \<Longrightarrow> validateLoop True hs = None"
  using validateLoop_True [of hs] by (auto simp: block_ok_def field_ok_def)

lemma block_encoder_ok:
  assumes "encoder_ok encoder" "block_ok encoder hs"
  shows "encoder_ok (block_encoder encoder hs)"
    "capacity (htable (block_encoder encoder hs)) = nextCapacity encoder"
proof -
  let ?e = "capacity_changed encoder"
  note ch = encoder_ok_changed [OF assms(1)]
  have pref: "HuffmanPreference ?e = HuffmanPreference encoder" by (simp add: capacity_changed_def)
  have "table_ok (fields_table ?e hs) \<and> capacity (fields_table ?e hs) = capacity (htable ?e)"
    using ch(1) assms(2) pref by (intro fields_table_ok) (auto simp: encoder_ok_def block_ok_def)
  with ch show "encoder_ok (block_encoder encoder hs)"
    "capacity (htable (block_encoder encoder hs)) = nextCapacity encoder"
    by (auto simp: block_encoder_def encoder_ok_def)
qed

context reliable_sink
begin

lemma WriteHeaderBlock_spec:
  assumes "encoder_ok encoder" "block_ok encoder hs"
  shows "\<exists>w' bs. WriteHeaderBlock ops hs encoder w = (Inr (), block_encoder encoder hs, w') \<and>
    out w' = out w @ bs \<and> bytes_bits bs = block_bits encoder hs"
proof -
  let ?e = "capacity_changed encoder"
  have pref: "HuffmanPreference ?e = HuffmanPreference encoder" by (simp add: capacity_changed_def)
  have "tproduces out (writeFields ops True hs) ?e (fields_bits ?e hs) () (block_encoder encoder hs)"
    unfolding block_encoder_def
    using encoder_ok_changed(1) [OF assms(1)] assms(2) pref
    by (intro writeFields_produces) (auto simp: encoder_ok_def block_ok_def intro: block_ok_valid [OF assms(2)])
  then have "tproduces out (bnd (writeCapacityChange ops) (\<lambda>_. writeFields ops True hs)) encoder
      (block_bits encoder hs) () (block_encoder encoder hs)"
    unfolding block_bits_def by (rule tproduces_bnd [OF writeCapacityChange_produces])
  from tproducesE [OF this, of "NewBitWriter w"] obtain bw where bw:
    "bnd (writeCapacityChange ops) (\<lambda>_. writeFields ops True hs) (encoder, NewBitWriter w) =
       (Inr (), (block_encoder encoder hs, bw))" "wsavedBits bw < 8"
    "wbits out bw = wbits out (NewBitWriter w) @ block_bits encoder hs"
    by (auto simp: NewBitWriter_def)
  have "8 dvd length (block_bits encoder hs)"
    by (simp add: block_bits_def length_updates_bits length_fields_bits)
  then obtain k where k: "length (block_bits encoder hs) = 8 * k" by (rule dvdE)
  have len: "8 * length (out (writer bw)) + wsavedBits bw = 8 * length (out w) + 8 * k"
    using arg_cong [OF bw(3), of length] k by (simp add: wbits_def NewBitWriter_def)
  then have s0: "wsavedBits bw = 0" using bw(2) by presburger
  with bw(3) have eq: "bytes_bits (out (writer bw)) = bytes_bits (out w) @ block_bits encoder hs"
    by (simp add: wbits_def NewBitWriter_def)
  then have "out (writer bw) = out w @ bits_bytes (block_bits encoder hs)"
    by (metis bits_bytes_bytes_append bits_bytes_bytes_bits)
  with eq bw(1) show ?thesis by (auto simp: WriteHeaderBlock_def)
qed

end

context byte_source
begin

lemma ReadHeaderBlock_spec:
  assumes "encoder_ok encoder" "block_ok encoder hs"
    "ok r" "bytes_bits (content r) = block_bits encoder hs" "fin r = EOF"
  shows "\<exists>r'. ReadHeaderBlock ops (htable encoder) r = Some (Inr hs, htable (block_encoder encoder hs), r')"
proof -
  let ?e = "capacity_changed encoder"
  have "rok ok (NewBitReader r)"
    "rbits content (NewBitReader r) = updates_bits (capacity_updates encoder) @ fields_bits ?e hs"
    using assms(3,4) by (simp_all add: rok_def NewBitReader_def rbits_def block_bits_def)
  from readBlockLoop_updates [OF this, of "[]" "htable encoder"] obtain br1 where 1: "rok ok br1"
    "rbits content br1 = fields_bits ?e hs" "fin (reader br1) = EOF"
    "readBlockLoop ops [] (htable encoder, NewBitReader r) = readBlockLoop ops [] (htable ?e, br1)"
    using assms(5) by (auto simp: NewBitReader_def capacity_changed_def)
  have "table_ok (htable ?e)" "\<forall>h \<in> set hs. field_ok (HuffmanPreference ?e) h"
    using encoder_ok_changed(1) [OF assms(1)] assms(2)
    by (auto simp: encoder_ok_def block_ok_def capacity_changed_def)
  from readBlockLoop_fields [OF this 1(1-3), of "[]"] obtain br2 where
    "readBlockLoop ops [] (htable ?e, br1) = Some (Inr hs, (fields_table ?e hs, br2))" by auto
  with 1(4) block_ok_valid [OF assms(2)] show ?thesis
    by (simp add: ReadHeaderBlock_def block_encoder_def)
qed

end

section \<open>Properties of HPACK\<close>

text \<open>C2: A header block survives the trip: an encoder and a decoder that have the same table agree on it. The
  fields come out as they went in, in order and with the sensitive mark, over any writer and
  reader, whatever capacity changes are pending, and the two tables are the same again
  afterwards, ready for the next block.\<close>

theorem hpack_roundtrip:
  assumes "reliable_sink wops out" "byte_source rops content fin ok" "encoder_ok encoder" "block_ok encoder hs"
  shows "\<exists>encoder' w' bs. WriteHeaderBlock wops hs encoder w = (Inr (), encoder', w') \<and>
    out w' = out w @ bs \<and> encoder_ok encoder' \<and>
    (\<forall>r. ok r \<and> content r = bs \<and> fin r = EOF \<longrightarrow>
      (\<exists>r'. ReadHeaderBlock rops (htable encoder) r = Some (Inr hs, htable encoder', r')))"
proof -
  obtain w' bs where w: "WriteHeaderBlock wops hs encoder w = (Inr (), block_encoder encoder hs, w')"
    "out w' = out w @ bs" "bytes_bits bs = block_bits encoder hs"
    using reliable_sink.WriteHeaderBlock_spec [OF assms(1,3,4), of w] by blast
  with byte_source.ReadHeaderBlock_spec [OF assms(2-4)] block_encoder_ok [OF assms(3,4)]
  show ?thesis by blast
qed

theorem hpack_roundtrip_witness:
  "\<exists>encoder' bs r'. WriteHeaderBlock buf_ops
       [\<lparr>Name = '':method'', Value = ''GET'', Sensitive = False\<rparr>,
        \<lparr>Name = ''x-a'', Value = ''1'', Sensitive = False\<rparr>] (NewHpackEncoder 4096) [] = (Inr (), encoder', bs) \<and>
     ReadHeaderBlock source_ops emptyTable (bs, EOF) = Some (Inr
       [\<lparr>Name = '':method'', Value = ''GET'', Sensitive = False\<rparr>,
        \<lparr>Name = ''x-a'', Value = ''1'', Sensitive = False\<rparr>], htable encoder', r')"
proof -
  let ?hs = "[\<lparr>Name = '':method'', Value = ''GET'', Sensitive = False\<rparr>,
        \<lparr>Name = ''x-a'', Value = ''1'', Sensitive = False\<rparr>]"
  have "block_ok (NewHpackEncoder 4096) ?hs"
    by (simp add: block_ok_def field_ok_def pseudo_first_def is_pseudo_def)
  from hpack_roundtrip [OF buf.reliable_sink_axioms src.byte_source_axioms encoder_ok_New this, of "[]"]
  obtain encoder' bs where
    "WriteHeaderBlock buf_ops ?hs (NewHpackEncoder 4096) [] = (Inr (), encoder', bs)"
    "\<forall>r. fst r = bs \<and> snd r = EOF \<longrightarrow>
      (\<exists>r'. ReadHeaderBlock source_ops (htable (NewHpackEncoder 4096)) r = Some (Inr ?hs, htable encoder', r'))"
    by auto
  moreover have "htable (NewHpackEncoder 4096) = emptyTable"
    by (simp add: NewHpackEncoder_def HpackSetCapacity_def)
  ultimately show ?thesis by auto
qed

lemma fields_bits_capacities:
  "fields_bits (e\<lparr>minCapacity := a, nextCapacity := b\<rparr>) hs = fields_bits e hs"
proof (induction hs arbitrary: e)
  case (Cons h hs)
  have "shouldIndex (e\<lparr>minCapacity := a, nextCapacity := b\<rparr>) c h = shouldIndex e c h" for c by (simp add: shouldIndex_def)
  then have "hpack_code (e\<lparr>minCapacity := a, nextCapacity := b\<rparr>) h = hpack_code e h"
    by (simp add: hpack_code_def Let_def split: prod.split)
  moreover have "e\<lparr>minCapacity := a, nextCapacity := b, htable := t\<rparr> = e\<lparr>htable := t, minCapacity := a, nextCapacity := b\<rparr>" for t
    by (rule HpackEncoder.equality) simp_all
  ultimately show ?case by (simp only: fields_bits.simps Cons)
qed simp

text \<open>C13: Capacity changes follow RFC 7541, section 4.2. After any sequence of calls to \<open>SetCapacity\<close>
  between two header blocks, the next block, whatever its fields, starts with an update to the smallest of
  the capacities, if that is below the one in force, then one to the last, if that is larger. After
  these come the fields and nothing else, coded against the table that the decoder has after the
  same changes. The table ends with the last capacity that was set.\<close>

theorem capacity_changes_signalled:
  assumes "reliable_sink ops out" "encoder_ok encoder" "minCapacity encoder = capacity (htable encoder)"
    "cs \<noteq> []" "block_ok encoder hs"
  defines "low \<equiv> fold min cs (capacity (htable encoder))"
  defines "ups \<equiv> (if low < capacity (htable encoder) then [low] else []) @ (if low < last cs then [last cs] else [])"
  shows "\<exists>encoder' w' bs. WriteHeaderBlock ops hs (fold HpackSetCapacity cs encoder) w = (Inr (), encoder', w') \<and>
    out w' = out w @ bs \<and> capacity (htable encoder') = last cs \<and>
    bytes_bits bs = updates_bits ups @ fields_bits (encoder\<lparr>htable := fold SetCapacity ups (htable encoder)\<rparr>) hs"
proof -
  have set: "HpackSetCapacity c e = e\<lparr>minCapacity := min c (minCapacity e), nextCapacity := c\<rparr>" for c e
    by (simp add: HpackSetCapacity_def min_def)
  have fold: "fold HpackSetCapacity cs e =
      e\<lparr>minCapacity := fold min cs (minCapacity e), nextCapacity := (if cs = [] then nextCapacity e else last cs)\<rparr>" for e
    by (induction cs arbitrary: e) (simp_all add: set)
  let ?e = "fold HpackSetCapacity cs encoder"
  have eq: "?e = encoder\<lparr>minCapacity := low, nextCapacity := last cs\<rparr>"
    using assms(3,4) fold [of encoder] by (simp add: low_def)
  have ok: "encoder_ok ?e"
    using assms(2) by (induction cs arbitrary: encoder) (simp_all add: encoder_ok_SetCapacity)
  have bok: "block_ok ?e hs" using assms(5) by (simp add: block_ok_def eq)
  have le: "low \<le> capacity (htable encoder)" using ok eq by (simp add: encoder_ok_def)
  have ups: "capacity_updates ?e = ups" using le by (simp add: capacity_updates_def eq Let_def ups_def)
  then have "capacity_changed ?e = (encoder\<lparr>htable := fold SetCapacity ups (htable encoder)\<rparr>)
      \<lparr>minCapacity := minCapacity (capacity_changed ?e), nextCapacity := last cs\<rparr>"
    by (simp add: capacity_changed_def eq)
  from arg_cong [OF this, of "\<lambda>e. fields_bits e hs"]
  have "block_bits ?e hs = updates_bits ups @ fields_bits (encoder\<lparr>htable := fold SetCapacity ups (htable encoder)\<rparr>) hs"
    by (simp add: block_bits_def ups fields_bits_capacities)
  moreover have "nextCapacity ?e = last cs" by (simp add: eq)
  ultimately show ?thesis
    using reliable_sink.WriteHeaderBlock_spec [OF assms(1) ok bok, of w] block_encoder_ok(2) [OF ok bok]
    by fastforce
qed

theorem capacity_changes_signalled_witness:
  "\<exists>encoder' bs. WriteHeaderBlock buf_ops [\<lparr>Name = '':method'', Value = ''GET'', Sensitive = False\<rparr>]
       (fold HpackSetCapacity [0, 100] (NewHpackEncoder 0)) [] = (Inr (), encoder', bs) \<and>
     capacity (htable encoder') = 100 \<and>
     bytes_bits bs = updates_bits [100] @ [True, False, False, False, False, False, True, False]"
proof -
  let ?h = "\<lparr>Name = '':method'', Value = ''GET'', Sensitive = False\<rparr>"
  have ok: "block_ok (NewHpackEncoder 0) [?h]"
    by (simp add: block_ok_def field_ok_def pseudo_first_def is_pseudo_def NewHpackEncoder_def HpackSetCapacity_def)
  have f: "fields_bits ((NewHpackEncoder 0)\<lparr>htable := SetCapacity 100 (htable (NewHpackEncoder 0))\<rparr>) [?h] =
      [True, False, False, False, False, False, True, False]" by code_simp
  have "minCapacity (NewHpackEncoder 0) = 0" "capacity (htable (NewHpackEncoder 0)) = 0"
    by (simp_all add: NewHpackEncoder_def HpackSetCapacity_def emptyTable_def)
  with capacity_changes_signalled [OF buf.reliable_sink_axioms encoder_ok_New [of 0] _ _ ok, of "[0, 100]" "[]"] f
  show ?thesis by simp
qed

text \<open>A field list with a pseudo-header field after a regular one is refused by both ends with
  \<open>ErrPseudoHeaderOrdering\<close>, and only such a list is, provided that no name is empty.\<close>

theorem pseudo_header_order:
  assumes "\<forall>h \<in> set hs. Name h \<noteq> []"
  shows "ValidatePseudoHeaders hs = (if pseudo_first hs then None else Some ErrPseudoHeaderOrdering)"
  unfolding ValidatePseudoHeaders_def by (rule validateLoop_True [OF assms])

theorem pseudo_header_order_witness:
  "ValidatePseudoHeaders [\<lparr>Name = ''a'', Value = '''', Sensitive = False\<rparr>,
     \<lparr>Name = '':path'', Value = ''/'', Sensitive = False\<rparr>] = Some ErrPseudoHeaderOrdering"
  using pseudo_header_order [of "[\<lparr>Name = ''a'', Value = '''', Sensitive = False\<rparr>,
     \<lparr>Name = '':path'', Value = ''/'', Sensitive = False\<rparr>]"]
  by (simp add: pseudo_first_def is_pseudo_def)

end
