(* ===== verification/QpackTable.thy ===== *)
theory QpackTable
  imports Codec Table "HOL-Library.AList"
begin

text \<open>
  The tables of QPACK and the tracking of references to their entries:
  \<open>src/hc/qpacktable.go\<close>. Each operation under a lock is one atomic function. The entries of
  the encoder's table are objects with a mutable \<open>usageCount\<close>; an entry is identified by its
  base, and the counters and the header block records, which are shared through pointers, live
  in an explicit store.
\<close>

section \<open>Operations common to both tables\<close>

definition QpackLookup :: "tableCommon \<Rightarrow> string \<Rightarrow> string \<Rightarrow> Entry option \<times> Entry option" where
  "QpackLookup t n v = lookupImpl t qpackStaticTable n v 0 (length (dynamic t))"

fun QpackIndex :: "tableCommon \<Rightarrow> Entry \<Rightarrow> int" where
  "QpackIndex t (DynamicE e) = base t - eB e"
| "QpackIndex t (StaticE e) = sindex e"

definition QpackGetStatic :: "int \<Rightarrow> Entry option" where
  "QpackGetStatic i =
     (if i < 0 \<or> i \<ge> int (length qpackStaticTable) then None
      else Some (StaticE (qpackStaticTable ! nat i)))"

section \<open>The decoder's table\<close>

definition NewQpackDecoderTable :: "u64 \<Rightarrow> tableCommon" where
  "NewQpackDecoderTable c = emptyTable\<lparr>capacity := c\<rparr>"

definition QpackDecoderInsert :: "string \<Rightarrow> string \<Rightarrow> tableCommon \<Rightarrow> BasicDynamicEntry option \<times> tableCommon" where
  "QpackDecoderInsert n v t =
     (case insert_entry \<lparr>eN = n, eV = v, eB = 0\<rparr> None t () of (r, t', _) \<Rightarrow> (r, t'))"

text \<open>\<open>WaitForEntry\<close> returns once the base has reached \<open>b\<close>; until then the caller is blocked.\<close>

definition WaitForEntry :: "int \<Rightarrow> tableCommon \<Rightarrow> goerr option" where
  "WaitForEntry b t = (if base t < b then Some Blocked else None)"

section \<open>Tracking of references\<close>

record qpackHeaderBlockUsage =
  entries :: "int list"
  hmax :: int

text \<open>
  The store: usage counters of entries, header block records by address, and the next free
  address.
\<close>

record usageStore =
  usageCount :: "int \<Rightarrow> u64"
  blocks :: "nat \<Rightarrow> qpackHeaderBlockUsage"
  nextBlock :: nat

definition inUse :: "usageStore \<Rightarrow> BasicDynamicEntry \<Rightarrow> bool" where
  "inUse st e \<longleftrightarrow> usageCount st (eB e) > 0"

definition newBlock :: "usageStore \<Rightarrow> nat \<times> usageStore" where
  "newBlock st = (nextBlock st,
     st\<lparr>blocks := (blocks st)(nextBlock st := \<lparr>entries = [], hmax = 0\<rparr>), nextBlock := Suc (nextBlock st)\<rparr>)"

definition blockAdd :: "nat \<Rightarrow> BasicDynamicEntry \<Rightarrow> usageStore \<Rightarrow> usageStore" where
  "blockAdd a qe st =
     (let hbu = blocks st a;
          hbu' = hbu\<lparr>entries := entries hbu @ [eB qe], hmax := (if eB qe > hmax hbu then eB qe else hmax hbu)\<rparr>
      in st\<lparr>blocks := (blocks st)(a := hbu'),
            usageCount := (usageCount st)(eB qe := usageCount st (eB qe) + 1)\<rparr>)"

definition blockAck :: "nat \<Rightarrow> usageStore \<Rightarrow> usageStore" where
  "blockAck a st =
     st\<lparr>usageCount := fold (\<lambda>b c. c(b := c b - 1)) (entries (blocks st a)) (usageCount st),
        blocks := (blocks st)(a := (blocks st a)\<lparr>entries := []\<rparr>)\<rparr>"

text \<open>A \<open>qpackStreamUsage\<close> is a list of addresses of header block records.\<close>

type_synonym qpackStreamUsage = "nat list"

definition streamAdd :: "nat \<Rightarrow> qpackStreamUsage \<Rightarrow> qpackStreamUsage" where
  "streamAdd a su = su @ [a]"

fun streamAck :: "qpackStreamUsage \<Rightarrow> usageStore \<Rightarrow> int \<times> qpackStreamUsage \<times> usageStore" where
  "streamAck [] st = (0, [], st)"
| "streamAck (z # su) st = (hmax (blocks st z), su, blockAck z st)"

fun streamCancel :: "qpackStreamUsage \<Rightarrow> int \<Rightarrow> usageStore \<Rightarrow> int \<times> usageStore" where
  "streamCancel [] m st = (m, st)"
| "streamCancel (z # su) m st =
     streamCancel su (if hmax (blocks st z) > m then hmax (blocks st z) else m) (blockAck z st)"

fun streamMaxLoop :: "usageStore \<Rightarrow> int \<Rightarrow> qpackStreamUsage \<Rightarrow> int" where
  "streamMaxLoop st m [] = m"
| "streamMaxLoop st m (z # su) = streamMaxLoop st (if hmax (blocks st z) > m then hmax (blocks st z) else m) su"

definition streamMax :: "usageStore \<Rightarrow> qpackStreamUsage \<Rightarrow> int" where
  "streamMax st su = streamMaxLoop st 0 su"

text \<open>
  A \<open>qpackUsageTracker\<close> is a Go map from stream identifiers. Its iteration order never matters
  here.
\<close>

type_synonym qpackUsageTracker = "(u64 \<times> qpackStreamUsage) list"

definition trackerGet :: "u64 \<Rightarrow> qpackUsageTracker \<Rightarrow> qpackStreamUsage \<times> qpackUsageTracker" where
  "trackerGet i ut =
     (case map_of ut i of Some su \<Rightarrow> (su, ut) | None \<Rightarrow> ([], AList.update i [] ut))"

definition trackerAck :: "u64 \<Rightarrow> qpackUsageTracker \<Rightarrow> usageStore \<Rightarrow> (int \<times> int) \<times> qpackUsageTracker \<times> usageStore" where
  "trackerAck i ut st =
     (case map_of ut i of
        None \<Rightarrow> ((0, 0), ut, st)
      | Some su \<Rightarrow>
          (case streamAck su st of (oldLargest, su', st') \<Rightarrow>
             ((oldLargest, streamMax st' su'),
              if su' = [] then AList.delete i ut else AList.update i su' ut, st')))"

definition trackerCancel :: "u64 \<Rightarrow> qpackUsageTracker \<Rightarrow> usageStore \<Rightarrow> int \<times> qpackUsageTracker \<times> usageStore" where
  "trackerCancel i ut st =
     (case map_of ut i of
        None \<Rightarrow> (-1, ut, st)
      | Some su \<Rightarrow> (case streamCancel su 0 st of (largest, st') \<Rightarrow> (largest, AList.delete i ut, st')))"

definition countBlockedStreams :: "usageStore \<Rightarrow> qpackUsageTracker \<Rightarrow> int \<Rightarrow> int" where
  "countBlockedStreams st ut largestAcknowledged =
     int (length (filter (\<lambda>(i, su). streamMax st su > largestAcknowledged) ut))"

section \<open>The encoder's table\<close>

record QpackEncoderTable =
  qcommon :: tableCommon
  referenceableLimit :: u64
  referenceable :: int
  referenceableSize :: u64

text \<open>The loop of \<open>added\<close>; an index below zero is out of range.\<close>

function addedLoop :: "u64 \<Rightarrow> BasicDynamicEntry list \<Rightarrow> int \<Rightarrow> u64 \<Rightarrow> goerr + int \<times> u64" where
  "addedLoop limit dyn i updatedSize =
     (if updatedSize > limit then
        (if i - 1 < 0 \<or> i - 1 \<ge> int (length dyn) then Inl (Panic ''index out of range'')
         else addedLoop limit dyn (i - 1) (updatedSize - entrySize (dyn ! nat (i - 1))))
      else Inr (i, updatedSize))"
  by pat_completeness auto
termination
  by (relation "measure (\<lambda>(limit, dyn, i, u). nat i)") auto

declare addedLoop.simps [simp del]

definition added :: "BasicDynamicEntry \<Rightarrow> QpackEncoderTable \<Rightarrow> goerr + QpackEncoderTable" where
  "added qe qt =
     (case addedLoop (referenceableLimit qt) (dynamic (qcommon qt)) (referenceable qt + 1)
             (referenceableSize qt + entrySize qe) of
        Inl e \<Rightarrow> Inl e
      | Inr (i, u) \<Rightarrow> Inr (qt\<lparr>referenceable := i, referenceableSize := u\<rparr>))"

definition removed :: "BasicDynamicEntry \<Rightarrow> QpackEncoderTable \<Rightarrow> QpackEncoderTable" where
  "removed qe qt =
     (if referenceable qt > entryIndex qe (base (qcommon qt)) then
        qt\<lparr>referenceable := referenceable qt - 1, referenceableSize := referenceableSize qt - entrySize qe\<rparr>
      else qt)"

text \<open>
  The eviction check that wraps the one of the caller, over the table whose count of
  referenceable entries it adjusts.
\<close>

definition evictWrapper :: "(BasicDynamicEntry \<Rightarrow> bool) \<Rightarrow> usageStore \<Rightarrow> QpackEncoderTable evictionCheck" where
  "evictWrapper wrapped st qt e =
     (if \<not> wrapped e then (False, qt)
      else if inUse st e then (False, qt)
      else (True, removed e qt))"

definition QpackEncoderInsert :: "string \<Rightarrow> string \<Rightarrow> (BasicDynamicEntry \<Rightarrow> bool) \<Rightarrow> usageStore \<Rightarrow>
    QpackEncoderTable \<Rightarrow> (goerr + BasicDynamicEntry option) \<times> QpackEncoderTable" where
  "QpackEncoderInsert n v evict st qt =
     (case insert_entry \<lparr>eN = n, eV = v, eB = 0\<rparr> (Some (evictWrapper evict st)) (qcommon qt) qt of
        (r, t', qt') \<Rightarrow>
          (let qt'' = qt'\<lparr>qcommon := t'\<rparr> in
           case r of
             None \<Rightarrow> (Inr None, qt'')
           | Some e \<Rightarrow> (case added e qt'' of
                          Inl x \<Rightarrow> (Inl x, qt'')
                        | Inr qt3 \<Rightarrow> (Inr (Some e), qt3))))"

definition LookupReferenceable :: "QpackEncoderTable \<Rightarrow> string \<Rightarrow> string \<Rightarrow> int \<Rightarrow> Entry option \<times> Entry option" where
  "LookupReferenceable qt n v maxBase =
     (let b = base (qcommon qt);
          start = (if maxBase < b then b - maxBase else 0);
          stop = referenceable qt
      in if stop \<le> start then lookupImpl (qcommon qt) qpackStaticTable n v 0 0
         else lookupImpl (qcommon qt) qpackStaticTable n v (nat start) (nat stop))"

definition LookupBlocked :: "QpackEncoderTable \<Rightarrow> string \<Rightarrow> string \<Rightarrow> int \<Rightarrow> bool" where
  "LookupBlocked qt n v maxBase =
     (let b = base (qcommon qt) in
      if maxBase \<ge> b then False
      else
        (let e = b - maxBase;
             stop = (if e > referenceable qt then referenceable qt else e)
         in list_ex (\<lambda>entry. eN entry = n \<and> eV entry = v) (take (nat stop) (dynamic (qcommon qt)))))"

fun lookupExtraLoop :: "string \<Rightarrow> string \<Rightarrow> BasicDynamicEntry list \<Rightarrow> BasicDynamicEntry option \<Rightarrow>
    BasicDynamicEntry option \<times> BasicDynamicEntry option" where
  "lookupExtraLoop n v [] nameMatch = (None, nameMatch)"
| "lookupExtraLoop n v (e # es) nameMatch =
     (if eN e = n then
        (if eV e = v then (Some e, Some e)
         else lookupExtraLoop n v es (if nameMatch \<noteq> None then Some e else nameMatch))
      else lookupExtraLoop n v es nameMatch)"

definition LookupExtra :: "QpackEncoderTable \<Rightarrow> string \<Rightarrow> string \<Rightarrow>
    BasicDynamicEntry option \<times> BasicDynamicEntry option" where
  "LookupExtra qt n v = lookupExtraLoop n v (drop (nat (referenceable qt)) (dynamic (qcommon qt))) None"

text \<open>The loop of \<open>SetReferenceableLimit\<close>: the remaining space is never reduced.\<close>

fun referenceableLoop :: "u64 \<Rightarrow> BasicDynamicEntry list \<Rightarrow> int \<times> u64 \<Rightarrow> int \<times> u64" where
  "referenceableLoop remainingSpace [] (r, sz) = (r, sz)"
| "referenceableLoop remainingSpace (e # es) (r, sz) =
     (if entrySize e < remainingSpace then referenceableLoop remainingSpace es (r + 1, sz + entrySize e)
      else (r, sz))"

definition SetReferenceableLimit :: "u64 \<Rightarrow> QpackEncoderTable \<Rightarrow> QpackEncoderTable" where
  "SetReferenceableLimit limit qt =
     (let l = (if limit > capacity (qcommon qt) then capacity (qcommon qt) else limit) in
      case referenceableLoop l (dynamic (qcommon qt)) (0, 0) of
        (r, sz) \<Rightarrow> qt\<lparr>referenceableLimit := l, referenceable := r, referenceableSize := sz\<rparr>)"

definition QpackTableSetCapacity :: "u64 \<Rightarrow> QpackEncoderTable \<Rightarrow> goerr + QpackEncoderTable" where
  "QpackTableSetCapacity c qt =
     (if base (qcommon qt) > 0 then
        Inl (Panic ''Cannot change encoder table size after inserting anything'')
      else
        (let qt' = qt\<lparr>qcommon := (qcommon qt)\<lparr>capacity := c\<rparr>\<rparr> in
         Inr (if referenceableLimit qt' > c then SetReferenceableLimit (referenceableLimit qt') qt' else qt')))"

definition NewQpackEncoderTable :: "u64 \<Rightarrow> u64 \<Rightarrow> goerr + QpackEncoderTable" where
  "NewQpackEncoderTable c limit =
     (case QpackTableSetCapacity c
             \<lparr>qcommon = emptyTable, referenceableLimit = 0, referenceable = 0, referenceableSize = 0\<rparr> of
        Inl e \<Rightarrow> Inl e
      | Inr qt \<Rightarrow> Inr (SetReferenceableLimit limit qt))"

section \<open>The invariant of the encoder's table\<close>

text \<open>
  The referenceable entries are the newest ones, their number is within the table and their
  size is accounted exactly.
\<close>

definition qtable_ok :: "QpackEncoderTable \<Rightarrow> bool" where
  "qtable_ok qt \<longleftrightarrow> table_ok (qcommon qt) \<and> referenceableLimit qt \<le> capacity (qcommon qt) \<and>
     0 \<le> referenceable qt \<and> referenceable qt \<le> int (length (dynamic (qcommon qt))) \<and>
     unat (referenceableSize qt) = total_size (take (nat (referenceable qt)) (dynamic (qcommon qt)))"

lemma evictLoop_state:
  assumes "evictLoop (Some f) reduced dyn l u s = (r, s')" "P l s"
    and yes: "\<And>k s. k < l \<Longrightarrow> P (Suc k) s \<Longrightarrow> fst (f s (dyn ! k)) \<Longrightarrow> P k (snd (f s (dyn ! k)))"
    and no: "\<And>k s. k < l \<Longrightarrow> P (Suc k) s \<Longrightarrow> \<not> fst (f s (dyn ! k)) \<Longrightarrow> P (Suc k) (snd (f s (dyn ! k)))"
  shows "case r of None \<Rightarrow> \<exists>k \<le> l. P k s' | Some (l', u') \<Rightarrow> l' \<le> l \<and> P l' s'"
  using assms
proof (induction l arbitrary: u s)
  case 0
  then show ?case by auto
next
  case (Suc l)
  show ?case
  proof (cases "u > reduced")
    case False
    with Suc.prems(1,2) show ?thesis by auto
  next
    case True
    obtain b s1 where f: "f s (dyn ! l) = (b, s1)" by fastforce
    show ?thesis
    proof (cases b)
      case False
      with Suc.prems(1) True f Suc.prems(4) [of l s] Suc.prems(2) show ?thesis by auto
    next
      case True': True
      have "evictLoop (Some f) reduced dyn l (u - entrySize (dyn ! l)) s1 = (r, s')"
        using Suc.prems(1) True f True' by simp
      moreover have "P l s1" using Suc.prems(3) [of l s] Suc.prems(2) f True' by simp
      ultimately have "case r of None \<Rightarrow> \<exists>k \<le> l. P k s' | Some (l', u') \<Rightarrow> l' \<le> l \<and> P l' s'"
        by (rule Suc.IH) (use Suc.prems(3,4) in simp_all)
      then show ?thesis by (auto split: option.splits intro: le_SucI)
    qed
  qed
qed

text \<open>What the eviction check leaves behind when \<open>k\<close> entries are left.\<close>

definition evicting :: "(BasicDynamicEntry \<Rightarrow> bool) \<Rightarrow> usageStore \<Rightarrow> QpackEncoderTable \<Rightarrow> nat \<Rightarrow> QpackEncoderTable \<Rightarrow> bool" where
  "evicting evict st qt k qt' \<longleftrightarrow> qcommon qt' = qcommon qt \<and> referenceableLimit qt' = referenceableLimit qt \<and>
     0 \<le> referenceable qt' \<and> referenceable qt' \<le> int k \<and> referenceable qt' \<le> referenceable qt \<and>
     unat (referenceableSize qt') = total_size (take (nat (referenceable qt')) (dynamic (qcommon qt))) \<and>
     (\<forall>j. k \<le> j \<and> j < length (dynamic (qcommon qt)) \<longrightarrow>
        evict (dynamic (qcommon qt) ! j) \<and> \<not> inUse st (dynamic (qcommon qt) ! j))"

lemma evicting_step:
  assumes "qtable_ok qt" "k < length (dynamic (qcommon qt))" "evicting evict st qt (Suc k) s"
  shows "fst (evictWrapper evict st s (dynamic (qcommon qt) ! k)) \<Longrightarrow>
      evicting evict st qt k (snd (evictWrapper evict st s (dynamic (qcommon qt) ! k)))"
    and "\<not> fst (evictWrapper evict st s (dynamic (qcommon qt) ! k)) \<Longrightarrow>
      evicting evict st qt (Suc k) (snd (evictWrapper evict st s (dynamic (qcommon qt) ! k)))"
proof -
  let ?d = "dynamic (qcommon qt)"
  let ?e = "?d ! k"
  show "evicting evict st qt (Suc k) (snd (evictWrapper evict st s ?e))"
    if "\<not> fst (evictWrapper evict st s ?e)"
    using that assms(3) by (auto simp: evictWrapper_def split: if_splits)
  assume "fst (evictWrapper evict st s ?e)"
  then have w: "evict ?e" "\<not> inUse st ?e" "evictWrapper evict st s ?e = (True, removed ?e s)"
    by (auto simp: evictWrapper_def split: if_splits)
  have idx: "entryIndex ?e (base (qcommon s)) = int k"
    using assms by (simp add: qtable_ok_def table_ok_def entryIndex_def evicting_def)
  have rest: "\<forall>j. k \<le> j \<and> j < length ?d \<longrightarrow> evict (?d ! j) \<and> \<not> inUse st (?d ! j)"
  proof (intro allI impI)
    fix j assume "k \<le> j \<and> j < length ?d"
    then show "evict (?d ! j) \<and> \<not> inUse st (?d ! j)"
      using assms(3) w(1,2) by (cases "j = k") (auto simp: evicting_def)
  qed
  show "evicting evict st qt k (snd (evictWrapper evict st s ?e))"
  proof (cases "referenceable s > int k")
    case False
    with assms(3) w(3) idx rest show ?thesis by (auto simp: evicting_def removed_def)
  next
    case True
    then have r: "referenceable s = int (Suc k)" using assms(3) by (simp add: evicting_def)
    have tot: "unat (referenceableSize s) = total_size (take k ?d) + esize ?e"
      using assms(2,3) r by (auto simp: evicting_def nat_add_distrib take_Suc_total)
    have "esize ?e < 2 ^ 64" using tot unat_u64 [of "referenceableSize s"] by simp
    then have "unat (referenceableSize s - entrySize ?e) = total_size (take k ?d)"
      using tot by (simp add: unat_entrySize unat_sub_if')
    with assms(3) w(3) idx r rest show ?thesis by (auto simp: evicting_def removed_def)
  qed
qed

lemma evictTo_wrapper:
  assumes "qtable_ok qt" "evictTo reduced (Some (evictWrapper evict st)) (qcommon qt) qt = (b, t', qt')"
  shows "if b then evicting evict st qt (length (dynamic t')) qt' \<and>
      dynamic t' = take (length (dynamic t')) (dynamic (qcommon qt))
    else t' = qcommon qt \<and> qtable_ok qt' \<and> qcommon qt' = qcommon qt \<and>
      referenceableLimit qt' = referenceableLimit qt \<and> referenceable qt' \<le> referenceable qt"
proof -
  let ?d = "dynamic (qcommon qt)"
  obtain r s' where l: "evictLoop (Some (evictWrapper evict st)) reduced ?d (length ?d) (used (qcommon qt)) qt = (r, s')"
    by fastforce
  have "evicting evict st qt (length ?d) qt"
    using assms(1) by (auto simp: evicting_def qtable_ok_def)
  from evictLoop_state [OF l, of "evicting evict st qt", OF this] evicting_step [OF assms(1)]
  have c: "case r of None \<Rightarrow> \<exists>k \<le> length ?d. evicting evict st qt k s'
      | Some (l', u') \<Rightarrow> l' \<le> length ?d \<and> evicting evict st qt l' s'"
    by blast
  show ?thesis
  proof (cases r)
    case None
    with c obtain k where "k \<le> length ?d" "evicting evict st qt k s'" by auto
    with None l assms show ?thesis by (auto simp: evictTo_def evicting_def qtable_ok_def)
  next
    case (Some p)
    with c l assms(2) show ?thesis by (cases p) (auto simp: evictTo_def min_absorb2)
  qed
qed

lemma addedLoop_spec:
  assumes "0 \<le> i" "i \<le> int (length dyn)" "unat u = total_size (take (nat i) dyn)"
  shows "\<exists>i' u'. addedLoop limit dyn i u = Inr (i', u') \<and> 0 \<le> i' \<and> i' \<le> i \<and>
    unat u' = total_size (take (nat i') dyn) \<and> u' \<le> limit"
  using assms
proof (induction "nat i" arbitrary: i u)
  case 0
  then show ?case by (auto simp: addedLoop.simps word_less_nat_alt word_le_nat_alt)
next
  case (Suc n)
  then have i: "i = int (Suc n)" "n < length dyn" by auto
  show ?case
  proof (cases "u > limit")
    case False
    with Suc.prems show ?thesis by (auto simp: addedLoop.simps [of limit dyn i u] not_less)
  next
    case True
    have tot: "unat u = total_size (take n dyn) + esize (dyn ! n)"
      using Suc.prems(3) Suc.hyps(2) i by (metis nat_int take_Suc_total)
    have "esize (dyn ! n) < 2 ^ 64" using tot unat_u64 [of u] by simp
    then have u: "unat (u - entrySize (dyn ! n)) = total_size (take n dyn)"
      using tot by (simp add: unat_entrySize unat_sub_if')
    from Suc.hyps(1) [of "int n" "u - entrySize (dyn ! n)"] u i
    obtain i' u' where "addedLoop limit dyn (int n) (u - entrySize (dyn ! n)) = Inr (i', u')"
      "0 \<le> i'" "i' \<le> int n" "unat u' = total_size (take (nat i') dyn)" "u' \<le> limit" by auto
    moreover from True i have "addedLoop limit dyn i u = addedLoop limit dyn (int n) (u - entrySize (dyn ! n))"
      by (subst addedLoop.simps) simp
    ultimately show ?thesis using i by auto
  qed
qed

lemma QpackEncoderInsert_spec:
  assumes "qtable_ok qt" "32 + length n + length v < 2 ^ 64"
    "QpackEncoderInsert n v evict st qt = (x, qt')"
  shows "\<exists>r. x = Inr r \<and> qtable_ok qt' \<and> capacity (qcommon qt') = capacity (qcommon qt) \<and>
    referenceableLimit qt' = referenceableLimit qt \<and>
    (\<forall>e \<in> set (dynamic (qcommon qt)). e \<notin> set (dynamic (qcommon qt')) \<longrightarrow> evict e \<and> \<not> inUse st e) \<and>
    (case r of
       None \<Rightarrow> base (qcommon qt') = base (qcommon qt) \<and> (dynamic (qcommon qt') = dynamic (qcommon qt) \<or>
          unat (capacity (qcommon qt)) < 32 + length n + length v \<and> dynamic (qcommon qt') = [])
     | Some e \<Rightarrow> 32 + length n + length v \<le> unat (capacity (qcommon qt)) \<and>
          e = \<lparr>eN = n, eV = v, eB = base (qcommon qt) + 1\<rparr> \<and> base (qcommon qt') = base (qcommon qt) + 1 \<and>
          dynamic (qcommon qt') = e #
            fit (unat (capacity (qcommon qt)) - (32 + length n + length v)) (dynamic (qcommon qt)))"
proof -
  let ?e = "\<lparr>eN = n, eV = v, eB = 0\<rparr>" and ?t = "qcommon qt"
  let ?ev = "Some (evictWrapper evict st)"
  obtain r t' s' where i: "insert_entry ?e ?ev ?t qt = (r, t', s')" by (metis surj_pair)
  have es: "esize ?e = 32 + length n + length v" by (simp add: esize_def)
  have tok: "table_ok ?t" using assms(1) by (simp add: qtable_ok_def)
  note sp = insert_entry_spec [OF tok _ i, unfolded es, OF assms(2)]
  show ?thesis
  proof (cases r)
    case None
    then have q': "x = Inr None" "qt' = s'\<lparr>qcommon := t'\<rparr>"
      using assms(3) i by (auto simp: QpackEncoderInsert_def Let_def)
    show ?thesis
    proof (cases "entrySize ?e > capacity ?t")
      case True
      obtain b t1 where ev: "evictTo 0 ?ev ?t qt = (b, t1, s')"
        and t': "t' = (if b then t1\<lparr>dynamic := [], used := 0\<rparr> else t1)"
        using i True by (auto simp: insert_entry_def split: prod.splits bool.splits)
      have "dynamic t1 = []" if b using evictTo_spec [OF ev tok] that by (metis fit_0 tableCommon.select_convs(1) tableCommon.simps(1) tableCommon.surjective tableCommon.update_convs(1) tableCommon.update_convs(3) unsigned_0)
      with evictTo_wrapper [OF assms(1) ev] sp None q' t' assms(1) show ?thesis
        by (cases b) (auto simp: qtable_ok_def evicting_def in_set_conv_nth)
    next
      case False
      then have "evictTo (capacity ?t - entrySize ?e) ?ev ?t qt = (False, t', s')"
        using i None by (auto simp: insert_entry_def Let_def split: prod.splits bool.splits)
      from evictTo_wrapper [OF assms(1) this] sp None q' show ?thesis by (auto simp: qtable_ok_def)
    qed
  next
    case (Some e)
    then have "\<not> entrySize ?e > capacity ?t"
      using i by (auto simp: insert_entry_def split: prod.splits bool.splits if_splits)
    then obtain t1 where ev: "evictTo (capacity ?t - entrySize ?e) ?ev ?t qt = (True, t1, s')"
      and t': "dynamic t' = e # dynamic t1"
      using i Some by (auto simp: insert_entry_def Let_def split: prod.splits bool.splits)
    from evictTo_wrapper [OF assms(1) ev] have w: "evicting evict st qt (length (dynamic t1)) s'"
      "dynamic t1 = take (length (dynamic t1)) (dynamic ?t)" by auto
    have out: "evict a \<and> \<not> inUse st a" if "a \<in> set (dynamic ?t)" "a \<notin> set (dynamic t')" for a
    proof -
      from that(1) obtain j where j: "j < length (dynamic ?t)" "dynamic ?t ! j = a" by (auto simp: in_set_conv_nth)
      have "length (dynamic t1) \<le> j"
      proof (rule ccontr)
        assume "\<not> length (dynamic t1) \<le> j"
        then have "dynamic t1 ! j = a" "j < length (dynamic t1)" using w(2) j by (metis nth_take not_le)+
        with that(2) t' show False by (metis nth_mem list.set_intros(2))
      qed
      with j w(1) show ?thesis by (auto simp: evicting_def)
    qed
    let ?q = "s'\<lparr>qcommon := t'\<rparr>"
    have size: "unat (referenceableSize s' + entrySize e) = total_size (take (nat (referenceable s' + 1)) (dynamic t'))"
    proof -
      have "take (nat (referenceable s')) (dynamic ?t) = take (nat (referenceable s')) (dynamic t1)"
        using w by (metis (no_types, lifting) evicting_def min.absorb1 nat_le_iff take_take)
      then have "unat (referenceableSize s') = total_size (take (nat (referenceable s')) (dynamic t1))"
        using w(1) by (simp add: evicting_def)
      moreover have "esize e + total_size (take (nat (referenceable s')) (dynamic t1)) < 2 ^ 64"
        using sp Some t' total_take_le [of "nat (referenceable s')" "dynamic t1"] unat_u64 [of "used t'"]
        by (simp add: table_ok_def)
      moreover have "0 \<le> referenceable s'" using w(1) by (simp add: evicting_def)
      ultimately show ?thesis
        using t' by (simp add: unat_word_ariths unat_entrySize nat_add_distrib)
    qed
    have "0 \<le> referenceable s' + 1" "referenceable s' + 1 \<le> int (length (dynamic t'))"
      using w(1) t' by (simp_all add: evicting_def)
    from addedLoop_spec [OF this size, of "referenceableLimit s'"] obtain i' u' where a:
      "addedLoop (referenceableLimit s') (dynamic t') (referenceable s' + 1) (referenceableSize s' + entrySize e) = Inr (i', u')"
      "0 \<le> i'" "i' \<le> referenceable s' + 1" "unat u' = total_size (take (nat i') (dynamic t'))" by auto
    then have q': "x = Inr (Some e)" "qt' = ?q\<lparr>referenceable := i', referenceableSize := u'\<rparr>"
      using assms(3) i Some by (auto simp: QpackEncoderInsert_def Let_def added_def)
    have "referenceableLimit s' = referenceableLimit qt" "referenceable s' \<le> int (length (dynamic t1))"
      using w(1) by (simp_all add: evicting_def)
    with q' a sp Some t' assms(1) out show ?thesis by (auto simp: qtable_ok_def)
  qed
qed

lemma referenceableLoop_spec:
  assumes "referenceableLoop l es (int (length ds), sz) = (r, sz')" "unat sz = total_size ds"
    "total_size (ds @ es) < 2 ^ 64"
  shows "int (length ds) \<le> r \<and> r \<le> int (length (ds @ es)) \<and> unat sz' = total_size (take (nat r) (ds @ es))"
  using assms
proof (induction es arbitrary: ds sz)
  case Nil
  then show ?case by auto
next
  case (Cons e es)
  show ?case
  proof (cases "entrySize e < l")
    case False
    with Cons.prems show ?thesis by auto
  next
    case True
    have "unat (sz + entrySize e) = total_size (ds @ [e])"
      using Cons.prems(2,3) by (simp add: unat_word_ariths unat_entrySize)
    with Cons.IH [of "ds @ [e]" "sz + entrySize e"] Cons.prems True show ?thesis
      by (simp add: add.commute)
  qed
qed

lemma qtable_ok_SetReferenceableLimit:
  assumes "table_ok (qcommon qt)"
  shows "qtable_ok (SetReferenceableLimit limit qt)" "qcommon (SetReferenceableLimit limit qt) = qcommon qt"
proof -
  let ?l = "if limit > capacity (qcommon qt) then capacity (qcommon qt) else limit"
  obtain r sz where l: "referenceableLoop ?l (dynamic (qcommon qt)) (0, 0) = (r, sz)" by fastforce
  then have l': "referenceableLoop ?l (dynamic (qcommon qt)) (int (length ([] :: BasicDynamicEntry list)), 0) = (r, sz)"
    by simp
  have "total_size ([] @ dynamic (qcommon qt)) < 2 ^ 64"
    using assms unat_u64 [of "used (qcommon qt)"] by (simp add: table_ok_def)
  from referenceableLoop_spec [OF l' _ this] l assms
  show "qtable_ok (SetReferenceableLimit limit qt)" "qcommon (SetReferenceableLimit limit qt) = qcommon qt"
    by (auto simp: SetReferenceableLimit_def qtable_ok_def Let_def)
qed

lemma qtable_ok_SetCapacity:
  assumes "qtable_ok qt" "QpackTableSetCapacity c qt = Inr qt'"
  shows "qtable_ok qt'" "capacity (qcommon qt') = c" "dynamic (qcommon qt') = []" "base (qcommon qt') = 0"
proof -
  have "\<not> base (qcommon qt) > 0" "int (length (dynamic (qcommon qt))) \<le> base (qcommon qt)"
    using assms by (auto simp: QpackTableSetCapacity_def qtable_ok_def table_ok_def split: if_splits)
  then have b: "base (qcommon qt) = 0" and "length (dynamic (qcommon qt)) = 0" by linarith+
  then have d: "dynamic (qcommon qt) = []" by simp
  have "table_ok ((qcommon qt)\<lparr>capacity := c\<rparr>)" "used (qcommon qt) = 0"
    using assms(1) b d by (auto simp: qtable_ok_def table_ok_def word_unat_eq_iff word_le_nat_alt)
  with assms b d qtable_ok_SetReferenceableLimit [of "qt\<lparr>qcommon := (qcommon qt)\<lparr>capacity := c\<rparr>\<rparr>" "referenceableLimit qt"]
  show "qtable_ok qt'" "capacity (qcommon qt') = c" "dynamic (qcommon qt') = []" "base (qcommon qt') = 0"
    by (auto simp: QpackTableSetCapacity_def Let_def qtable_ok_def split: if_splits)
qed

lemma qtable_ok_New: "\<exists>qt. NewQpackEncoderTable c limit = Inr qt \<and> qtable_ok qt \<and>
    capacity (qcommon qt) = c \<and> dynamic (qcommon qt) = [] \<and> base (qcommon qt) = 0"
proof -
  let ?q = "\<lparr>qcommon = emptyTable, referenceableLimit = 0, referenceable = 0, referenceableSize = 0\<rparr>"
  have "qtable_ok ?q" by (simp add: qtable_ok_def)
  moreover obtain qt where q: "QpackTableSetCapacity c ?q = Inr qt"
    by (simp add: QpackTableSetCapacity_def emptyTable_def Let_def)
  ultimately have "qtable_ok qt" "capacity (qcommon qt) = c" "dynamic (qcommon qt) = []" "base (qcommon qt) = 0"
    using qtable_ok_SetCapacity by blast+
  with q show ?thesis
    using qtable_ok_SetReferenceableLimit [of qt limit] by (simp add: NewQpackEncoderTable_def qtable_ok_def)
qed

section \<open>What the lookups of the encoder find\<close>

definition qpack_entries :: "tableCommon \<Rightarrow> Entry set" where
  "qpack_entries t = StaticE ` set qpackStaticTable \<union> DynamicE ` set (dynamic t)"

lemma LookupReferenceable_spec:
  assumes "LookupReferenceable qt n v maxBase = (m, nm)"
  shows "(\<forall>e. m = Some e \<longrightarrow> e \<in> qpack_entries (qcommon qt) \<and> entryName e = n \<and> entryValue e = v) \<and>
    (\<forall>e. nm = Some e \<longrightarrow> e \<in> qpack_entries (qcommon qt) \<and> entryName e = n)"
proof -
  from assms obtain lo hi where "lookupImpl (qcommon qt) qpackStaticTable n v lo hi = (m, nm)"
    by (auto simp: LookupReferenceable_def Let_def split: if_splits)
  from lookupImpl_spec [OF this] show ?thesis
    by (cases m) (auto simp: qpack_entries_def dest!: find_SomeD in_set_dropD in_set_takeD)
qed

lemma lookupExtraLoop_None:
  "lookupExtraLoop n v es None =
     (find (\<lambda>e. eN e = n \<and> eV e = v) es, find (\<lambda>e. eN e = n \<and> eV e = v) es)"
  by (induction es) auto

lemma LookupExtra_spec:
  assumes "LookupExtra qt n v = (d, nm)"
  shows "nm = d" "d = Some e \<Longrightarrow> e \<in> set (dynamic (qcommon qt)) \<and> eN e = n \<and> eV e = v"
  using assms
  by (auto simp: LookupExtra_def lookupExtraLoop_None dest!: find_SomeD in_set_dropD)

end
