(* ===== verification/QpackEncoder.thy ===== *)
theory QpackEncoder
  imports QpackTable
begin

text \<open>
  The QPACK encoder: \<open>src/hc/qpackencoder.go\<close>. Writing a header block has two steps, each
  under the encoder's lock: \<open>writeTableChanges\<close> looks the fields up, inserts new entries and
  writes the instructions to the updates stream; \<open>writeHeaderBlock\<close> writes the block itself
  and counts the references. The state of one call, \<open>qpackWriterState\<close>, is threaded beside
  that of the encoder.
\<close>

section \<open>The state of one call\<close>

record qpackWriterState =
  headers :: "HeaderField list"
  matches :: "Entry option list"
  nameMatches :: "Entry option list"
  largestBase :: int
  smallestBase :: int
  wasBlocked :: bool
  maxBase :: int
  uses :: nat

text \<open>
  \<open>strings.ToLower\<close>: bytewise on ASCII strings; what it does to other strings is Unicode's
  case table, the parameter \<open>uni\<close>.
\<close>

definition asciiLower :: "char \<Rightarrow> char" where
  "asciiLower c =
     (if of_char CHR ''A'' \<le> (of_char c :: nat) \<and> (of_char c :: nat) \<le> of_char CHR ''Z''
      then char_of (of_char c + 32 :: nat) else c)"

definition ToLower :: "(string \<Rightarrow> string) \<Rightarrow> string \<Rightarrow> string" where
  "ToLower uni s = (if list_all (\<lambda>c. (of_char c :: nat) < 128) s then map asciiLower s else uni s)"

definition initHeaders :: "(string \<Rightarrow> string) \<Rightarrow> HeaderField list \<Rightarrow> qpackWriterState" where
  "initHeaders uni hs =
     \<lparr>headers = map (\<lambda>h. \<lparr>Name = ToLower uni (Name h), Value = Value h, Sensitive = Sensitive h\<rparr>) hs,
      matches = replicate (length hs) None, nameMatches = replicate (length hs) None,
      largestBase = 0, smallestBase = intMax, wasBlocked = False, maxBase = 0, uses = 0\<rparr>"

definition setupUsage :: "int \<Rightarrow> int \<Rightarrow> bool \<Rightarrow> nat \<Rightarrow> qpackWriterState \<Rightarrow> qpackWriterState" where
  "setupUsage streamUsageMax highest blockingAllowed block st =
     (let st' = st\<lparr>maxBase := intMax\<rparr>;
          st'' = (if streamUsageMax > highest then st'\<lparr>wasBlocked := True\<rparr>
                  else if \<not> blockingAllowed then st'\<lparr>maxBase := highest\<rparr> else st')
      in st''\<lparr>uses := block\<rparr>)"

fun dynBase :: "Entry \<Rightarrow> int" where
  "dynBase (DynamicE e) = eB e"
| "dynBase (StaticE e) = 0"

fun updateBase :: "Entry \<Rightarrow> bool \<Rightarrow> qpackWriterState \<Rightarrow> qpackWriterState" where
  "updateBase (StaticE e) full st = st"
| "updateBase (DynamicE e) full st =
     (let st' = (if eB e > largestBase st then st\<lparr>largestBase := eB e\<rparr> else st)
      in if full \<and> eB e < smallestBase st' then st'\<lparr>smallestBase := eB e\<rparr> else st')"

definition recordMatch :: "nat \<Rightarrow> Entry option \<Rightarrow> Entry option \<Rightarrow> qpackWriterState \<Rightarrow> qpackWriterState" where
  "recordMatch i full name st =
     (case full of
        Some e \<Rightarrow>
          if dynBase e \<le> maxBase st then updateBase e True (st\<lparr>matches := (matches st)[i := Some e]\<rparr>)
          else (case name of
                  Some e' \<Rightarrow> if dynBase e' \<le> maxBase st
                    then updateBase e' False (st\<lparr>nameMatches := (nameMatches st)[i := Some e']\<rparr>) else st
                | None \<Rightarrow> st)
      | None \<Rightarrow>
          (case name of
             Some e' \<Rightarrow> if dynBase e' \<le> maxBase st
               then updateBase e' False (st\<lparr>nameMatches := (nameMatches st)[i := Some e']\<rparr>) else st
           | None \<Rightarrow> st))"

definition isNewlyBlocked :: "int \<Rightarrow> qpackWriterState \<Rightarrow> bool" where
  "isNewlyBlocked highest st = (if wasBlocked st then False else largestBase st > highest)"

definition CanEvict :: "qpackWriterState \<Rightarrow> BasicDynamicEntry \<Rightarrow> bool" where
  "CanEvict st e \<longleftrightarrow> eB e < smallestBase st"

definition addUse :: "nat \<Rightarrow> qpackWriterState \<Rightarrow> usageStore \<Rightarrow> usageStore" where
  "addUse i st s =
     (case (case matches st ! i of Some e \<Rightarrow> Some e | None \<Rightarrow> nameMatches st ! i) of
        Some (DynamicE qe) \<Rightarrow> blockAdd (uses st) qe s
      | Some (StaticE _) \<Rightarrow> s
      | None \<Rightarrow> s)"

section \<open>The encoder\<close>

record QpackEncoder = encoderCommon +
  qtable :: QpackEncoderTable
  usage :: qpackUsageTracker
  store :: usageStore
  maxBlockedStreams :: int
  highestAcknowledged :: int
  unacknowledgedSize :: u64
  blockedStreams :: int

abbreviation qbase :: "QpackEncoder \<Rightarrow> int" where
  "qbase enc \<equiv> base (qcommon (qtable enc))"

abbreviation qcapacity :: "QpackEncoder \<Rightarrow> u64" where
  "qcapacity enc \<equiv> capacity (qcommon (qtable enc))"

definition emptyStore :: usageStore where
  "emptyStore = \<lparr>usageCount = (\<lambda>_. 0), blocks = (\<lambda>_. \<lparr>entries = [], hmax = 0\<rparr>), nextBlock = 0\<rparr>"

definition NewQpackEncoder :: "u64 \<Rightarrow> u64 \<Rightarrow> goerr + QpackEncoder" where
  "NewQpackEncoder c limit =
     (case NewQpackEncoderTable c limit of
        Inl e \<Rightarrow> Inl e
      | Inr qt \<Rightarrow> Inr \<lparr>HuffmanPreference = HuffmanCodingAuto, indexPrefs = Map.empty, qtable = qt,
          usage = [], store = emptyStore, maxBlockedStreams = 0, highestAcknowledged = 0,
          unacknowledgedSize = 0, blockedStreams = 0\<rparr>)"

type_synonym 'w qpack_enc = "(QpackEncoder \<times> qpackWriterState) \<times> 'w bitWriter"

definition encoderInsert :: "string \<Rightarrow> string \<Rightarrow> ('w qpack_enc, BasicDynamicEntry option) io" where
  "encoderInsert n v s =
     (case s of ((enc, st), w) \<Rightarrow>
        if entrySize \<lparr>eN = n, eV = v, eB = 0\<rparr> + unacknowledgedSize enc > referenceableLimit (qtable enc)
        then (Inr None, s)
        else
          (case QpackEncoderInsert n v (CanEvict st) (store enc) (qtable enc) of
             (Inl e, qt) \<Rightarrow> (Inl e, ((enc\<lparr>qtable := qt\<rparr>, st), w))
           | (Inr None, qt) \<Rightarrow> (Inr None, ((enc\<lparr>qtable := qt\<rparr>, st), w))
           | (Inr (Some e), qt) \<Rightarrow>
               (Inr (Some e),
                ((enc\<lparr>qtable := qt, unacknowledgedSize := unacknowledgedSize enc + entrySize e\<rparr>, st), w))))"

definition record_match :: "nat \<Rightarrow> Entry option \<Rightarrow> Entry option \<Rightarrow> ('w qpack_enc, unit) io" where
  "record_match i full name = modifyT (\<lambda>(enc, st). (enc, recordMatch i full name st))"

definition writeDuplicate :: "'w snk_ops \<Rightarrow> BasicDynamicEntry \<Rightarrow> nat \<Rightarrow> ('w qpack_enc, unit) io" where
  "writeDuplicate ops entry i =
     bnd (encoderInsert (eN entry) (eV entry)) (\<lambda>inserted.
       case inserted of
         None \<Rightarrow> ret ()
       | Some e \<Rightarrow>
           bnd (onIO (WriteBits ops 0 3)) (\<lambda>_.
           bnd getT (\<lambda>(enc, st).
           bnd (onIO (WriteInt ops (word_of_int (QpackIndex (qcommon (qtable enc)) (DynamicE entry) - 1)) 5)) (\<lambda>_.
             record_match i (Some (DynamicE e)) None))))"

definition writeInsert :: "'w snk_ops \<Rightarrow> nat \<Rightarrow> Entry option \<Rightarrow> ('w qpack_enc, unit) io" where
  "writeInsert ops i nameMatch =
     bnd getT (\<lambda>(_, st0).
     (let h = headers st0 ! i in
      bnd (encoderInsert (Name h) (Value h)) (\<lambda>inserted.
        case inserted of
          None \<Rightarrow> ret ()
        | Some e \<Rightarrow>
            bnd getT (\<lambda>(enc, st).
            bnd (case nameMatch of
                   None \<Rightarrow> onIO (bnd (WriteBits ops 1 2) (\<lambda>_. WriteStringRaw ops (Name h) 5 (HuffmanPreference enc)))
                 | Some (DynamicE d) \<Rightarrow> onIO (bnd (WriteBits ops 2 2) (\<lambda>_.
                     WriteInt ops (word_of_int (QpackIndex (qcommon (qtable enc)) (DynamicE d) - 1)) 6))
                 | Some (StaticE s) \<Rightarrow> onIO (bnd (WriteBits ops 3 2) (\<lambda>_.
                     WriteInt ops (word_of_int (QpackIndex (qcommon (qtable enc)) (StaticE s))) 6))) (\<lambda>_.
            bnd (onIO (WriteStringRaw ops (Value h) 7 (HuffmanPreference enc))) (\<lambda>_.
              record_match i (Some (DynamicE e)) None))))))"

text \<open>The body of the loop in \<open>writeTableChanges\<close> for the field number \<open>i\<close>.\<close>

definition tableChange :: "'w snk_ops \<Rightarrow> nat \<Rightarrow> ('w qpack_enc, unit) io" where
  "tableChange ops i =
     bnd getT (\<lambda>(enc, st).
     (let h = headers st ! i in
      if Sensitive h then ret ()
      else
        (case LookupReferenceable (qtable enc) (Name h) (Value h) (maxBase st) of (full, nameMatch) \<Rightarrow>
           if full \<noteq> None then record_match i full nameMatch
           else if LookupBlocked (qtable enc) (Name h) (Value h) (maxBase st) then ret ()
           else
             (case LookupExtra (qtable enc) (Name h) (Value h) of (duplicate, insertNameMatch) \<Rightarrow>
                case duplicate of
                  Some d \<Rightarrow>
                    if eB d \<le> highestAcknowledged enc then writeDuplicate ops d i else ret ()
                | None \<Rightarrow>
                    bnd (if nameMatch \<noteq> None then record_match i None nameMatch else ret ()) (\<lambda>_.
                      if shouldIndex enc (qcapacity enc) h \<and> header_size h \<le> qcapacity enc
                      then writeInsert ops i
                        (if nameMatch \<noteq> None then nameMatch else map_option DynamicE insertNameMatch)
                      else ret ())))))"

fun tableChanges :: "'w snk_ops \<Rightarrow> nat list \<Rightarrow> ('w qpack_enc, unit) io" where
  "tableChanges ops [] = ret ()"
| "tableChanges ops (i # is) = bnd (tableChange ops i) (\<lambda>_. tableChanges ops is)"

definition setupCall :: "u64 \<Rightarrow> QpackEncoder \<times> qpackWriterState \<Rightarrow> QpackEncoder \<times> qpackWriterState" where
  "setupCall i es =
     (case es of (enc, st) \<Rightarrow>
        (case trackerGet i (usage enc) of (su, ut) \<Rightarrow>
        (case newBlock (store enc) of (block, store') \<Rightarrow>
           (enc\<lparr>usage := ut, store := store'\<rparr>,
            setupUsage (streamMax (store enc) su) (highestAcknowledged enc)
              (blockedStreams enc < maxBlockedStreams enc) block st))))"

definition finishCall :: "u64 \<Rightarrow> QpackEncoder \<times> qpackWriterState \<Rightarrow> QpackEncoder \<times> qpackWriterState" where
  "finishCall i es =
     (case es of (enc, st) \<Rightarrow>
        (let enc' = (if isNewlyBlocked (highestAcknowledged enc) st
                     then enc\<lparr>blockedStreams := blockedStreams enc + 1\<rparr> else enc)
         in (if largestBase st > 0
             then enc'\<lparr>usage := AList.update i
                    (streamAdd (uses st) (fst (trackerGet i (usage enc')))) (usage enc')\<rparr>
             else enc', st)))"

definition writeTableChanges :: "'w snk_ops \<Rightarrow> u64 \<Rightarrow> ('w qpack_enc, unit) io" where
  "writeTableChanges ops i =
     bnd (modifyT (setupCall i)) (\<lambda>_.
     bnd getT (\<lambda>(_, st).
     bnd (tableChanges ops [0..<length (headers st)]) (\<lambda>_.
       modifyT (finishCall i))))"

section \<open>Writing the header block\<close>

definition qwriteIndexed :: "'w snk_ops \<Rightarrow> nat \<Rightarrow> ('w qpack_enc, unit) io" where
  "qwriteIndexed ops i =
     bnd getT (\<lambda>(enc, st).
     bnd (onIO (case matches st ! i of
            Some (DynamicE e) \<Rightarrow>
              (let index = entryIndex e (largestBase st) in
               if index < 0
               then bnd (WriteBits ops 1 4) (\<lambda>_. WriteInt ops (word_of_int (-1 - index)) 4)
               else bnd (WriteBits ops 2 2) (\<lambda>_. WriteInt ops (word_of_int index) 6))
          | Some (StaticE e) \<Rightarrow>
              bnd (WriteBits ops 3 2) (\<lambda>_.
                WriteInt ops (word_of_int (QpackIndex (qcommon (qtable enc)) (StaticE e))) 6)
          | None \<Rightarrow> throw (Panic ''nil dereference''))) (\<lambda>_.
       modifyT (\<lambda>(enc, st). (enc\<lparr>store := addUse i st (store enc)\<rparr>, st))))"

fun writeLiteralNameReference :: "'w snk_ops \<Rightarrow> QpackEncoder \<Rightarrow> qpackWriterState \<Rightarrow> u64 \<Rightarrow> Entry \<Rightarrow>
    ('w bitWriter, unit) io" where
  "writeLiteralNameReference ops enc st sensitive (DynamicE e) =
     (let index = entryIndex e (largestBase st) in
      if index < 0
      then bnd (WriteBits ops sensitive 5) (\<lambda>_. WriteInt ops (word_of_int (-1 - index)) 3)
      else bnd (WriteBits ops (4 OR push_bit 1 sensitive) 4) (\<lambda>_. WriteInt ops (word_of_int index) 4))"
| "writeLiteralNameReference ops enc st sensitive (StaticE e) =
     bnd (WriteBits ops (5 OR push_bit 1 sensitive) 4) (\<lambda>_.
       WriteInt ops (word_of_int (QpackIndex (qcommon (qtable enc)) (StaticE e))) 4)"

definition qwriteLiteral :: "'w snk_ops \<Rightarrow> nat \<Rightarrow> ('w qpack_enc, unit) io" where
  "qwriteLiteral ops i =
     bnd getT (\<lambda>(enc, st).
     (let h = headers st ! i;
          sensitive = (if Sensitive h then 1 else 0)
      in
      bnd (onIO (case nameMatches st ! i of
             Some nameMatch \<Rightarrow> writeLiteralNameReference ops enc st sensitive nameMatch
           | None \<Rightarrow> bnd (WriteBits ops (2 OR sensitive) 4) (\<lambda>_.
               WriteStringRaw ops (Name h) 3 (HuffmanPreference enc)))) (\<lambda>_.
      bnd (onIO (WriteStringRaw ops (Value h) 7 (HuffmanPreference enc))) (\<lambda>_.
        modifyT (\<lambda>(enc, st). (enc\<lparr>store := addUse i st (store enc)\<rparr>, st))))))"

text \<open>A modulus of zero is a run-time panic.\<close>

definition encodeLargestReference :: "u64 \<Rightarrow> int \<Rightarrow> goerr + u64" where
  "encodeLargestReference c largest =
     (if largest = 0 then Inr 0
      else
        (let largestReference = word_of_int largest;
             maxEntries = c div 32
         in if 2 * maxEntries = 0 then Inl (Panic ''integer divide by zero'')
            else Inr (largestReference mod (2 * maxEntries) + 1)))"

definition qwriteField :: "'w snk_ops \<Rightarrow> nat \<Rightarrow> ('w qpack_enc, unit) io" where
  "qwriteField ops i =
     bnd getT (\<lambda>(enc, st).
       if matches st ! i \<noteq> None then qwriteIndexed ops i else qwriteLiteral ops i)"

fun qwriteFields :: "'w snk_ops \<Rightarrow> nat list \<Rightarrow> ('w qpack_enc, unit) io" where
  "qwriteFields ops [] = ret ()"
| "qwriteFields ops (i # is) = bnd (qwriteField ops i) (\<lambda>_. qwriteFields ops is)"

definition writeHeaderBlock :: "'w snk_ops \<Rightarrow> ('w qpack_enc, unit) io" where
  "writeHeaderBlock ops =
     bnd getT (\<lambda>(enc, st).
       case encodeLargestReference (qcapacity enc) (largestBase st) of
         Inl e \<Rightarrow> throw e
       | Inr lr \<Rightarrow>
           bnd (onIO (WriteInt ops lr 8)) (\<lambda>_.
           bnd (onIO (WriteInt ops 0 8)) (\<lambda>_.
             qwriteFields ops [0..<length (headers st)])))"

text \<open>
  \<open>WriteHeaderBlock\<close> writes to two streams: instructions to the updates stream, whose bit
  writer lives in the encoder, and the block to a fresh writer on the header stream.
\<close>

definition QpackWriteHeaderBlock :: "'u snk_ops \<Rightarrow> 'w snk_ops \<Rightarrow> (string \<Rightarrow> string) \<Rightarrow> u64 \<Rightarrow> HeaderField list \<Rightarrow>
    QpackEncoder \<Rightarrow> 'u bitWriter \<Rightarrow> 'w \<Rightarrow> (goerr + unit) \<times> QpackEncoder \<times> 'u bitWriter \<times> 'w" where
  "QpackWriteHeaderBlock uops wops uni i hs enc uw w =
     (case writeTableChanges uops i ((enc, initHeaders uni hs), uw) of
        (Inl e, ((enc', st), uw')) \<Rightarrow> (Inl e, enc', uw', w)
      | (Inr _, ((enc', st), uw')) \<Rightarrow>
          (case writeHeaderBlock wops ((enc', st), NewBitWriter w) of
             (x, ((enc'', _), bw)) \<Rightarrow> (x, enc'', uw', writer bw)))"

section \<open>Acknowledgments\<close>

text \<open>
  The loop that gives back the space of acknowledged entries. An entry that is no longer in the
  table would be a nil dereference.
\<close>

function ackLoop :: "tableCommon \<Rightarrow> int \<Rightarrow> int \<Rightarrow> int \<Rightarrow> u64 \<Rightarrow> goerr + u64" where
  "ackLoop t highest i increment sz =
     (if i < increment then
        (case GetDynamic t i highest of
           None \<Rightarrow> Inl (Panic ''nil dereference'')
         | Some entry \<Rightarrow> ackLoop t highest (i + 1) increment (sz - entrySize entry))
      else Inr sz)"
  by pat_completeness auto
termination
  by (relation "measure (\<lambda>(t, h, i, n, s). nat (n - i))") auto

declare ackLoop.simps [simp del]

definition updateHighestAcknowledged :: "int \<Rightarrow> (QpackEncoder, unit) io" where
  "updateHighestAcknowledged increment enc =
     (if increment \<le> 0 then (Inl (Panic ''can not unacknowledge entries''), enc)
      else if s64 (increment + highestAcknowledged enc) > qbase enc then
        (Inl (Panic ''can not acknowledge more than we have sent''), enc)
      else
        (let enc' = enc\<lparr>highestAcknowledged := s64 (highestAcknowledged enc + increment)\<rparr> in
         case ackLoop (qcommon (qtable enc')) (highestAcknowledged enc') 0 increment (unacknowledgedSize enc') of
           Inl e \<Rightarrow> (Inl e, enc')
         | Inr sz \<Rightarrow> (Inr (), enc'\<lparr>unacknowledgedSize := sz\<rparr>)))"

definition AcknowledgeInsert :: "int \<Rightarrow> (QpackEncoder, unit) io" where
  "AcknowledgeInsert increment enc =
     (if increment \<le> 0 then (Inl ErrIndexError, enc)
      else
        (let b = s64 (highestAcknowledged enc + increment) in
         if b > qbase enc then (Inl ErrIndexError, enc)
         else updateHighestAcknowledged increment
                (enc\<lparr>blockedStreams := countBlockedStreams (store enc) (usage enc) b\<rparr>)))"

definition AcknowledgeHeader :: "u64 \<Rightarrow> (QpackEncoder, unit) io" where
  "AcknowledgeHeader i enc =
     (case trackerAck i (usage enc) (store enc) of ((removedLargest, newLargest), ut, s) \<Rightarrow>
        (let enc' = enc\<lparr>usage := ut, store := s\<rparr> in
         if removedLargest = 0 then (Inl ErrIndexError, enc')
         else if removedLargest > highestAcknowledged enc' \<and> newLargest \<le> highestAcknowledged enc' then
           updateHighestAcknowledged (removedLargest - highestAcknowledged enc')
             (enc'\<lparr>blockedStreams := blockedStreams enc' - 1\<rparr>)
         else (Inr (), enc')))"

definition AcknowledgeReset :: "u64 \<Rightarrow> (QpackEncoder, unit) io" where
  "AcknowledgeReset i enc =
     (case trackerCancel i (usage enc) (store enc) of (largest, ut, s) \<Rightarrow>
        (let enc' = enc\<lparr>usage := ut, store := s\<rparr> in
         if largest < 0 then (Inl ErrIndexError, enc')
         else (Inr (), if largest > highestAcknowledged enc'
                       then enc'\<lparr>blockedStreams := blockedStreams enc' - 1\<rparr> else enc')))"

text \<open>
  One turn of \<open>ServiceAcknowledgments\<close>. The errors of the three handlers are assigned to a
  variable that shadows the one tested after the \<open>switch\<close>, so they are dropped; only a panic
  ends the loop.
\<close>

definition dropError :: "('s, unit) io \<Rightarrow> ('s, unit) io" where
  "dropError m s = (case m s of (Inl e, s') \<Rightarrow> (ignoring e (), s') | r \<Rightarrow> r)"

definition onT :: "('t, 'a) io \<Rightarrow> ('t \<times> 'r, 'a) io" where
  "onT m s = (case m (fst s) of (x, t) \<Rightarrow> (x, (t, snd s)))"

definition serviceAck :: "'r src_ops \<Rightarrow> (QpackEncoder \<times> 'r bitReader, unit) io" where
  "serviceAck ops =
     bnd (onIO (ReadBit ops)) (\<lambda>b.
       if b = 1 then
         bnd (onIO (ReadInt ops 7)) (\<lambda>v. dropError (onT (AcknowledgeHeader v)))
       else
         bnd (onIO (ReadBit ops)) (\<lambda>b.
         bnd (onIO (ReadInt ops 6)) (\<lambda>v.
           if b = 0 then dropError (onT (AcknowledgeInsert (sint v)))
           else dropError (onT (AcknowledgeReset v)))))"

partial_function (option) ServiceAcknowledgments ::
  "'r src_ops \<Rightarrow> QpackEncoder \<times> 'r bitReader \<Rightarrow> (goerr \<times> QpackEncoder \<times> 'r bitReader) option" where
  "ServiceAcknowledgments ops s =
     (case serviceAck ops s of
        (Inl e, s') \<Rightarrow> Some (e, s')
      | (Inr _, s') \<Rightarrow> ServiceAcknowledgments ops s')"

declare ServiceAcknowledgments.simps [code]

section \<open>Configuration\<close>

definition QpackSetCapacity :: "u64 \<Rightarrow> (QpackEncoder, unit) io" where
  "QpackSetCapacity c enc =
     (case QpackTableSetCapacity c (qtable enc) of
        Inl e \<Rightarrow> (Inl e, enc)
      | Inr qt \<Rightarrow> (Inr (), enc\<lparr>qtable := qt\<rparr>))"

definition QpackSetReferenceableLimit :: "u64 \<Rightarrow> QpackEncoder \<Rightarrow> QpackEncoder" where
  "QpackSetReferenceableLimit limit enc = enc\<lparr>qtable := SetReferenceableLimit limit (qtable enc)\<rparr>"

definition SetMaxBlockedStreams :: "int \<Rightarrow> (QpackEncoder, unit) io" where
  "SetMaxBlockedStreams m enc =
     (if m < blockedStreams enc
      then (Inl (Panic ''can not reduce the max blocked streams below the actual blocked streams''), enc)
      else (Inr (), enc\<lparr>maxBlockedStreams := m\<rparr>))"

section \<open>Entries that are not acknowledged stay in the table\<close>

text \<open>
  \<open>acked_ok\<close>: the entries newer than the highest acknowledged one are all in the table, and
  their size is what the encoder has accounted as unacknowledged.
\<close>

definition unacked :: "QpackEncoder \<Rightarrow> nat" where
  "unacked enc = nat (qbase enc - highestAcknowledged enc)"

definition acked_ok :: "QpackEncoder \<Rightarrow> bool" where
  "acked_ok enc \<longleftrightarrow> qtable_ok (qtable enc) \<and> unat (qcapacity enc) < 2 ^ 62 \<and>
     0 \<le> highestAcknowledged enc \<and> highestAcknowledged enc \<le> qbase enc \<and>
     unacked enc \<le> length (dynamic (qcommon (qtable enc))) \<and>
     unat (unacknowledgedSize enc) = total_size (take (unacked enc) (dynamic (qcommon (qtable enc))))"

lemma fit_keeps:
  "total_size (take k es) \<le> c \<Longrightarrow> k \<le> length es \<Longrightarrow> k \<le> length (fit c es) \<and> take k (fit c es) = take k es"
proof (induction c es arbitrary: k rule: fit.induct)
  case (2 c e es)
  show ?case
  proof (cases k)
    case (Suc j)
    with 2 show ?thesis by auto
  qed simp
qed simp

text \<open>Only the table and the unacknowledged size differ.\<close>

definition same_rest :: "QpackEncoder \<Rightarrow> QpackEncoder \<Rightarrow> bool" where
  "same_rest enc enc' \<longleftrightarrow> HuffmanPreference enc' = HuffmanPreference enc \<and> indexPrefs enc' = indexPrefs enc \<and>
     usage enc' = usage enc \<and> store enc' = store enc \<and> maxBlockedStreams enc' = maxBlockedStreams enc \<and>
     highestAcknowledged enc' = highestAcknowledged enc \<and> blockedStreams enc' = blockedStreams enc"

lemma encoderInsert_spec:
  assumes "acked_ok enc" "32 + length n + length v < 2 ^ 62"
    "encoderInsert n v ((enc, st), w) = (x, ((enc', st'), w'))"
  shows "w' = w \<and> st' = st \<and> acked_ok enc' \<and> qcapacity enc' = qcapacity enc \<and>
    highestAcknowledged enc' = highestAcknowledged enc \<and>
    same_rest enc enc' \<and>
    (\<forall>e \<in> set (dynamic (qcommon (qtable enc))). e \<notin> set (dynamic (qcommon (qtable enc'))) \<longrightarrow>
       CanEvict st e \<and> \<not> inUse (store enc) e) \<and>
    (case x of
       Inl _ \<Rightarrow> False
     | Inr None \<Rightarrow> qcommon (qtable enc') = qcommon (qtable enc)
     | Inr (Some e) \<Rightarrow> e = \<lparr>eN = n, eV = v, eB = qbase enc + 1\<rparr> \<and> qbase enc' = qbase enc + 1 \<and>
         32 + length n + length v \<le> unat (qcapacity enc) \<and>
         dynamic (qcommon (qtable enc')) = e #
           fit (unat (qcapacity enc) - (32 + length n + length v)) (dynamic (qcommon (qtable enc))))"
proof -
  let ?e = "\<lparr>eN = n, eV = v, eB = 0\<rparr>" and ?d = "dynamic (qcommon (qtable enc))"
  let ?sz = "32 + length n + length v"
  have es: "esize ?e = ?sz" by (simp add: esize_def)
  then have us: "unat (entrySize ?e) = ?sz" using assms(2) by (subst unat_entrySize) simp_all
  have qok: "qtable_ok (qtable enc)" using assms(1) by (simp add: acked_ok_def)
  show ?thesis
  proof (cases "entrySize ?e + unacknowledgedSize enc > referenceableLimit (qtable enc)")
    case True
    with assms show ?thesis by (auto simp: encoderInsert_def same_rest_def)
  next
    case False
    have "unat (unacknowledgedSize enc) \<le> total_size ?d"
      using assms(1) total_take_le by (simp add: acked_ok_def)
    also have "\<dots> < 2 ^ 62"
      using assms(1) by (auto simp: acked_ok_def qtable_ok_def table_ok_def word_le_nat_alt)
    finally have "unat (entrySize ?e + unacknowledgedSize enc) = ?sz + unat (unacknowledgedSize enc)"
      using us assms(2) by (simp add: unat_word_ariths)
    then have room: "?sz + unat (unacknowledgedSize enc) \<le> unat (qcapacity enc)"
      using False qok by (simp add: qtable_ok_def word_less_nat_alt word_le_nat_alt not_less)
    obtain y qt where q: "QpackEncoderInsert n v (CanEvict st) (store enc) (qtable enc) = (y, qt)" by fastforce
    have "?sz < 2 ^ 64" using assms(2) by simp
    from QpackEncoderInsert_spec [OF qok this q] obtain r where r: "y = Inr r" "qtable_ok qt"
      "capacity (qcommon qt) = qcapacity enc" "referenceableLimit qt = referenceableLimit (qtable enc)"
      "\<forall>e \<in> set ?d. e \<notin> set (dynamic (qcommon qt)) \<longrightarrow> CanEvict st e \<and> \<not> inUse (store enc) e"
      "case r of
       None \<Rightarrow> base (qcommon qt) = qbase enc \<and> (dynamic (qcommon qt) = ?d \<or>
          unat (qcapacity enc) < ?sz \<and> dynamic (qcommon qt) = [])
     | Some e \<Rightarrow> ?sz \<le> unat (qcapacity enc) \<and> e = \<lparr>eN = n, eV = v, eB = qbase enc + 1\<rparr> \<and>
          base (qcommon qt) = qbase enc + 1 \<and>
          dynamic (qcommon qt) = e # fit (unat (qcapacity enc) - ?sz) ?d"
      by blast
    show ?thesis
    proof (cases r)
      case None
      then have same: "dynamic (qcommon qt) = ?d" "base (qcommon qt) = qbase enc" using r(6) room by auto
      have "used (qcommon qt) = used (qcommon (qtable enc))"
        using r(2) qok same by (simp add: qtable_ok_def table_ok_def word_unat_eq_iff)
      with same r(3) have "qcommon qt = qcommon (qtable enc)" by (intro tableCommon.equality) simp_all
      with None False q r assms(1,3) show ?thesis
        by (auto simp: encoderInsert_def acked_ok_def unacked_def same_rest_def)
    next
      case (Some e)
      let ?c = "unat (qcapacity enc) - ?sz"
      have "total_size (take (unacked enc) ?d) \<le> ?c" "unacked enc \<le> length ?d"
        using room assms(1) by (simp_all add: acked_ok_def)
      then have keep: "unacked enc \<le> length (fit ?c ?d)" "take (unacked enc) (fit ?c ?d) = take (unacked enc) ?d"
        using fit_keeps by blast+
      have dyn: "dynamic (qcommon qt) = e # fit ?c ?d" and e: "e = \<lparr>eN = n, eV = v, eB = qbase enc + 1\<rparr>"
        "base (qcommon qt) = qbase enc + 1"
        using r(6) Some by auto
      have enc': "enc' = enc\<lparr>qtable := qt, unacknowledgedSize := unacknowledgedSize enc + entrySize e\<rparr>"
        "w' = w" "st' = st" "x = Inr (Some e)"
        using assms(3) q r(1) Some False by (auto simp: encoderInsert_def)
      have "entrySize e = entrySize ?e" using e by (simp add: entrySize_def)
      then have "unat (unacknowledgedSize enc + entrySize e) = ?sz + total_size (take (unacked enc) ?d)"
        using us room assms(1) unat_u64 [of "qcapacity enc"] by (simp add: unat_word_ariths acked_ok_def)
      moreover have "unacked enc' = Suc (unacked enc)"
      proof -
        have "highestAcknowledged enc \<le> qbase enc" using assms(1) by (simp add: acked_ok_def)
        then have "nat (qbase enc + 1 - highestAcknowledged enc) = Suc (nat (qbase enc - highestAcknowledged enc))"
          by linarith
        then show ?thesis using enc'(1) e(2) by (simp add: unacked_def)
      qed
      moreover have "esize e = ?sz" using e by (simp add: esize_def)
      ultimately have "acked_ok enc'"
        using enc' r(2,3) dyn e keep assms(1) by (simp add: acked_ok_def)
      with enc' r Some dyn e show ?thesis by (auto simp: same_rest_def)
    qed
  qed
qed

lemma ackLoop_spec:
  assumes "table_ok t" "base t \<le> intMax" "0 \<le> highest" "highest \<le> base t" "0 \<le> i" "i \<le> increment"
    "increment \<le> intMax" "m = nat (base t - highest)" "m + nat increment \<le> length (dynamic t)"
    "unat sz = total_size (take m (dynamic t)) +
       total_size (drop (m + nat i) (take (m + nat increment) (dynamic t)))"
  shows "\<exists>sz'. ackLoop t highest i increment sz = Inr sz' \<and> unat sz' = total_size (take m (dynamic t))"
  using assms
proof (induction "nat (increment - i)" arbitrary: i sz)
  case 0
  then show ?case by (simp add: ackLoop.simps)
next
  case (Suc n)
  let ?d = "dynamic t"
  have lt: "i < increment" using Suc.hyps(2) by simp
  have pos: "i + (base t - highest) = int (m + nat i)" using Suc.prems by simp
  have k: "m + nat i < m + nat increment" "m + nat i < length ?d" using lt Suc.prems by linarith+
  have hi: "highest \<le> intMax" "- (2 ^ 63) \<le> highest" "- (2 ^ 63) \<le> i" "i \<le> intMax"
    using Suc.prems lt by (simp_all add: intMax_def)
  have get: "GetDynamic t i highest = Some (?d ! (m + nat i))"
  proof -
    have "0 \<le> i + (base t - highest)" "i + (base t - highest) < int (length ?d)"
      "nat (i + (base t - highest)) = m + nat i"
      unfolding pos using k(2) by linarith+
    with GetDynamic_spec [OF Suc.prems(1,2) hi(3,4,2,1)] Suc.prems(3,4,5) show ?thesis by simp
  qed
  have "drop (m + nat i) (take (m + nat increment) ?d) =
      ?d ! (m + nat i) # drop (m + nat (i + 1)) (take (m + nat increment) ?d)"
    using k Suc.prems(5) by (simp add: Cons_nth_drop_Suc [symmetric] nat_add_distrib)
  then have tot: "unat sz = esize (?d ! (m + nat i)) + total_size (take m ?d) +
      total_size (drop (m + nat (i + 1)) (take (m + nat increment) ?d))"
    using Suc.prems(10) by simp
  have "esize (?d ! (m + nat i)) < 2 ^ 64" using tot unat_u64 [of sz] by simp
  then have "unat (sz - entrySize (?d ! (m + nat i))) = total_size (take m ?d) +
      total_size (drop (m + nat (i + 1)) (take (m + nat increment) ?d))"
    using tot by (simp add: unat_entrySize unat_sub_if')
  moreover have "n = nat (increment - (i + 1))" "0 \<le> i + 1" "i + 1 \<le> increment"
    using Suc.hyps(2) Suc.prems(5) lt by linarith+
  ultimately have "\<exists>sz'. ackLoop t highest (i + 1) increment (sz - entrySize (?d ! (m + nat i))) = Inr sz' \<and>
      unat sz' = total_size (take m ?d)"
    using Suc.hyps(1) [OF _ Suc.prems(1-4) _ _ Suc.prems(7-9)] by blast
  with get lt show ?case by (simp add: ackLoop.simps [of t highest i])
qed

lemma updateHighestAcknowledged_spec:
  assumes "acked_ok enc" "qbase enc \<le> intMax" "0 < increment" "highestAcknowledged enc + increment \<le> qbase enc"
  shows "\<exists>sz. updateHighestAcknowledged increment enc =
      (Inr (), enc\<lparr>highestAcknowledged := highestAcknowledged enc + increment, unacknowledgedSize := sz\<rparr>) \<and>
    acked_ok (enc\<lparr>highestAcknowledged := highestAcknowledged enc + increment, unacknowledgedSize := sz\<rparr>)"
proof -
  let ?t = "qcommon (qtable enc)" and ?h = "highestAcknowledged enc + increment"
  let ?m = "nat (base ?t - ?h)"
  have ok: "table_ok ?t" "0 \<le> highestAcknowledged enc" "highestAcknowledged enc \<le> base ?t"
    "unacked enc \<le> length (dynamic ?t)"
    "unat (unacknowledgedSize enc) = total_size (take (unacked enc) (dynamic ?t))"
    using assms(1) by (auto simp: acked_ok_def qtable_ok_def)
  have s: "s64 (highestAcknowledged enc + increment) = ?h" "s64 (increment + highestAcknowledged enc) = ?h"
    using assms ok by (simp_all add: s64_id add.commute)
  have un: "unacked enc = ?m + nat increment"
    using assms(3,4) by (simp add: unacked_def)
  have "drop (?m + nat 0) (take (?m + nat increment) (dynamic ?t)) = take (nat increment) (drop ?m (dynamic ?t))"
    by (simp add: drop_take)
  then have "unat (unacknowledgedSize enc) = total_size (take ?m (dynamic ?t)) +
      total_size (drop (?m + nat 0) (take (?m + nat increment) (dynamic ?t)))"
    using ok(5) un by (simp only: take_add total_size_simps)
  then obtain sz where sz: "ackLoop ?t ?h 0 increment (unacknowledgedSize enc) = Inr sz"
    "unat sz = total_size (take ?m (dynamic ?t))"
    using ackLoop_spec [OF ok(1) assms(2), of ?h 0 increment ?m "unacknowledgedSize enc"] assms ok un by auto
  then have "updateHighestAcknowledged increment enc =
      (Inr (), enc\<lparr>highestAcknowledged := ?h, unacknowledgedSize := sz\<rparr>)"
    using assms s by (simp add: updateHighestAcknowledged_def Let_def)
  moreover have "acked_ok (enc\<lparr>highestAcknowledged := ?h, unacknowledgedSize := sz\<rparr>)"
    using assms ok un sz(2) by (simp add: acked_ok_def unacked_def)
  ultimately show ?thesis by blast
qed

section \<open>The usage counters count references\<close>

text \<open>How often the header blocks that are not acknowledged refer to the entry with base \<open>b\<close>.\<close>

definition refcount :: "usageStore \<Rightarrow> int \<Rightarrow> nat" where
  "refcount s b = (\<Sum>a < nextBlock s. count_list (entries (blocks s a)) b)"

definition store_ok :: "usageStore \<Rightarrow> bool" where
  "store_ok s \<longleftrightarrow> (\<forall>b. usageCount s b = word_of_nat (refcount s b))"

lemma refcount_update:
  assumes "a < nextBlock s"
  shows "refcount (s\<lparr>blocks := (blocks s)(a := u)\<rparr>) b + count_list (entries (blocks s a)) b =
    refcount s b + count_list (entries u) b"
proof -
  let ?f = "\<lambda>x. count_list (entries (blocks s x)) b"
  let ?g = "\<lambda>x. count_list (entries (((blocks s)(a := u)) x)) b"
  have "sum ?g ({..<nextBlock s} - {a}) = sum ?f ({..<nextBlock s} - {a})"
    by (rule sum.cong) auto
  moreover have "sum ?f {..<nextBlock s} = ?f a + sum ?f ({..<nextBlock s} - {a})"
    "sum ?g {..<nextBlock s} = ?g a + sum ?g ({..<nextBlock s} - {a})"
    using assms by (simp_all add: sum.remove)
  ultimately show ?thesis by (simp add: refcount_def)
qed

lemma fold_decrement:
  "fold (\<lambda>b c. c(b := c b - 1)) bs c x = c x - (word_of_nat (count_list bs x) :: u64)"
  by (induction bs arbitrary: c) auto

lemma store_ok_newBlock: "store_ok s \<Longrightarrow> store_ok (snd (newBlock s))"
  by (simp add: store_ok_def newBlock_def refcount_def)

lemma store_ok_blockAdd:
  assumes "store_ok s" "a < nextBlock s"
  shows "store_ok (blockAdd a e s)"
  unfolding store_ok_def
proof
  fix b
  let ?u = "(blocks s a)\<lparr>entries := entries (blocks s a) @ [eB e],
    hmax := if eB e > hmax (blocks s a) then eB e else hmax (blocks s a)\<rparr>"
  have "refcount (blockAdd a e s) b = refcount (s\<lparr>blocks := (blocks s)(a := ?u)\<rparr>) b"
    by (simp add: blockAdd_def Let_def refcount_def)
  moreover have "refcount (s\<lparr>blocks := (blocks s)(a := ?u)\<rparr>) b = refcount s b + (if eB e = b then 1 else 0)"
    using refcount_update [OF assms(2), of ?u b] by simp
  ultimately show "usageCount (blockAdd a e s) b = word_of_nat (refcount (blockAdd a e s) b)"
    using assms(1) by (auto simp: store_ok_def blockAdd_def Let_def)
qed

lemma store_ok_blockAck:
  assumes "store_ok s" "a < nextBlock s"
  shows "store_ok (blockAck a s)"
  unfolding store_ok_def
proof
  fix b
  let ?u = "(blocks s a)\<lparr>entries := []\<rparr>"
  have r: "refcount (blockAck a s) b = refcount (s\<lparr>blocks := (blocks s)(a := ?u)\<rparr>) b"
    by (simp add: blockAck_def refcount_def)
  have "refcount s b = refcount (blockAck a s) b + count_list (entries (blocks s a)) b"
    using refcount_update [OF assms(2), of ?u b] r by simp
  then show "usageCount (blockAck a s) b = word_of_nat (refcount (blockAck a s) b)"
    using assms(1) by (simp add: store_ok_def blockAck_def fold_decrement)
qed

lemma blockAck_simps [simp]:
  "nextBlock (blockAck a s) = nextBlock s" "hmax (blocks (blockAck a s) x) = hmax (blocks s x)"
  by (simp_all add: blockAck_def)

text \<open>The records on file are allocated, and no reference is beyond the insert count \<open>b\<close>.\<close>

definition usage_ok :: "int \<Rightarrow> usageStore \<Rightarrow> qpackUsageTracker \<Rightarrow> bool" where
  "usage_ok b s ut \<longleftrightarrow> distinct (map fst ut) \<and>
     (\<forall>(i, su) \<in> set ut. \<forall>a \<in> set su. a < nextBlock s \<and> 0 \<le> hmax (blocks s a) \<and> hmax (blocks s a) \<le> b)"

lemma usage_ok_lookup:
  "usage_ok b s ut \<Longrightarrow> map_of ut i = Some su \<Longrightarrow> a \<in> set su \<Longrightarrow>
     a < nextBlock s \<and> 0 \<le> hmax (blocks s a) \<and> hmax (blocks s a) \<le> b"
  by (auto simp: usage_ok_def dest!: map_of_SomeD)

lemma set_AList_update: "set (AList.update k v al) \<subseteq> insert (k, v) (set al)"
  by (induction al) auto

lemma usage_ok_update:
  assumes "usage_ok b s ut" "\<forall>a \<in> set su. a < nextBlock s \<and> 0 \<le> hmax (blocks s a) \<and> hmax (blocks s a) \<le> b"
  shows "usage_ok b s (AList.update i su ut)"
  using assms set_AList_update [of i su ut] by (fastforce simp: usage_ok_def distinct_update)

lemma usage_ok_delete: "usage_ok b s ut \<Longrightarrow> usage_ok b s (AList.delete i ut)"
  by (auto simp: usage_ok_def AList.delete_eq distinct_map_filter)

lemma usage_ok_mono: "usage_ok b s ut \<Longrightarrow> b \<le> b' \<Longrightarrow> usage_ok b' s ut"
  by (fastforce simp: usage_ok_def)

lemma usage_ok_blockAck: "usage_ok b (blockAck a s) ut = usage_ok b s ut"
  by (simp add: usage_ok_def)

lemma streamCancel_spec:
  assumes "streamCancel su m s = (m', s')" "store_ok s" "\<forall>a \<in> set su. a < nextBlock s \<and> hmax (blocks s a) \<le> b"
    "m \<le> b"
  shows "store_ok s' \<and> nextBlock s' = nextBlock s \<and> (\<forall>a. hmax (blocks s' a) = hmax (blocks s a)) \<and>
    m \<le> m' \<and> m' \<le> b"
  using assms
proof (induction su m s rule: streamCancel.induct)
  case (2 z su m s)
  let ?m = "if hmax (blocks s z) > m then hmax (blocks s z) else m"
  have "store_ok s' \<and> nextBlock s' = nextBlock (blockAck z s) \<and>
      (\<forall>a. hmax (blocks s' a) = hmax (blocks (blockAck z s) a)) \<and> ?m \<le> m' \<and> m' \<le> b"
    using 2 by (intro "2.IH") (auto simp: store_ok_blockAck)
  then show ?case by (auto split: if_splits)
qed simp

text \<open>The invariant of the encoder.\<close>

definition qenc_ok :: "QpackEncoder \<Rightarrow> bool" where
  "qenc_ok enc \<longleftrightarrow> acked_ok enc \<and> store_ok (store enc) \<and> usage_ok (qbase enc) (store enc) (usage enc)"

lemma qenc_ok_New: "unat c < 2 ^ 62 \<Longrightarrow> \<exists>enc. NewQpackEncoder c limit = Inr enc \<and> qenc_ok enc"
proof -
  assume c: "unat c < 2 ^ 62"
  obtain qt where "NewQpackEncoderTable c limit = Inr qt" "qtable_ok qt"
    "capacity (qcommon qt) = c" "dynamic (qcommon qt) = []" "base (qcommon qt) = 0"
    using qtable_ok_New by blast
  with c show ?thesis
    by (simp add: NewQpackEncoder_def qenc_ok_def acked_ok_def unacked_def store_ok_def emptyStore_def
        refcount_def usage_ok_def)
qed

lemma AcknowledgeHeader_spec:
  assumes "qenc_ok enc" "qbase enc \<le> intMax" "AcknowledgeHeader i enc = (x, enc')"
  shows "qenc_ok enc' \<and> qtable enc' = qtable enc \<and> (x = Inr () \<or> x = Inl ErrIndexError)"
proof -
  obtain r n ut s where a: "trackerAck i (usage enc) (store enc) = ((r, n), ut, s)"
    by (metis surj_pair)
  let ?e = "enc\<lparr>usage := ut, store := s\<rparr>"
  have ok: "acked_ok enc" "store_ok (store enc)" "usage_ok (qbase enc) (store enc) (usage enc)"
    using assms(1) by (auto simp: qenc_ok_def)
  have tr: "store_ok s \<and> usage_ok (qbase enc) s ut \<and> 0 \<le> r \<and> r \<le> qbase enc"
  proof (cases "map_of (usage enc) i")
    case None
    with a ok show ?thesis by (auto simp: trackerAck_def acked_ok_def)
  next
    case (Some su)
    note lk = usage_ok_lookup [OF ok(3) Some]
    show ?thesis
    proof (cases su)
      case Nil
      with a ok Some show ?thesis by (auto simp: trackerAck_def acked_ok_def usage_ok_delete)
    next
      case (Cons z su')
      have "usage_ok (qbase enc) (blockAck z (store enc)) (if su' = [] then AList.delete i (usage enc) else AList.update i su' (usage enc))"
        unfolding usage_ok_blockAck using ok(3) lk Cons by (auto intro: usage_ok_delete usage_ok_update)
      with a Some Cons lk ok(2) show ?thesis by (auto simp: trackerAck_def store_ok_blockAck)
    qed
  qed
  have e: "acked_ok ?e" "qenc_ok ?e" using ok tr by (auto simp: acked_ok_def unacked_def qenc_ok_def)
  show ?thesis
  proof (cases "r > highestAcknowledged enc \<and> n \<le> highestAcknowledged enc")
    case True
    let ?b = "?e\<lparr>blockedStreams := blockedStreams ?e - 1\<rparr>"
    have "acked_ok ?b" using e(1) by (simp add: acked_ok_def unacked_def)
    from updateHighestAcknowledged_spec [OF this, of "r - highestAcknowledged enc"] True assms(2) tr
    obtain sz where u: "updateHighestAcknowledged (r - highestAcknowledged enc) ?b =
        (Inr (), ?b\<lparr>highestAcknowledged := r, unacknowledgedSize := sz\<rparr>)"
      "acked_ok (?b\<lparr>highestAcknowledged := r, unacknowledgedSize := sz\<rparr>)"
      by auto
    have "r \<noteq> 0" using True ok(1) by (auto simp: acked_ok_def)
    with True u tr a assms(3) show ?thesis
      by (auto simp: AcknowledgeHeader_def Let_def qenc_ok_def)
  next
    case False
    with a assms(3) e(2) show ?thesis
      by (auto simp: AcknowledgeHeader_def Let_def split: if_splits)
  qed
qed

lemma AcknowledgeReset_spec:
  assumes "qenc_ok enc" "AcknowledgeReset i enc = (x, enc')"
  shows "qenc_ok enc' \<and> qtable enc' = qtable enc \<and> (x = Inr () \<or> x = Inl ErrIndexError)"
proof -
  obtain l ut s where a: "trackerCancel i (usage enc) (store enc) = (l, ut, s)" by (metis surj_pair)
  have ok: "acked_ok enc" "store_ok (store enc)" "usage_ok (qbase enc) (store enc) (usage enc)"
    using assms(1) by (auto simp: qenc_ok_def)
  have tr: "store_ok s \<and> usage_ok (qbase enc) s ut"
  proof (cases "map_of (usage enc) i")
    case None
    with a ok show ?thesis by (auto simp: trackerCancel_def)
  next
    case (Some su)
    obtain m s1 where c: "streamCancel su 0 (store enc) = (m, s1)" by fastforce
    have "\<forall>a \<in> set su. a < nextBlock (store enc) \<and> hmax (blocks (store enc) a) \<le> qbase enc" "0 \<le> qbase enc"
      using usage_ok_lookup [OF ok(3) Some] ok(1) by (auto simp: acked_ok_def)
    from streamCancel_spec [OF c ok(2) this]
    have "store_ok s1 \<and> usage_ok (qbase enc) s1 (AList.delete i (usage enc))"
      using usage_ok_delete [OF ok(3), of i] by (simp add: usage_ok_def)
    with a Some c show ?thesis by (auto simp: trackerCancel_def)
  qed
  with a ok assms(2) show ?thesis
    by (auto simp: AcknowledgeReset_def Let_def qenc_ok_def acked_ok_def unacked_def split: if_splits)
qed

lemma AcknowledgeInsert_spec:
  assumes "qenc_ok enc" "qbase enc \<le> intMax" "highestAcknowledged enc + increment \<le> intMax"
    "AcknowledgeInsert increment enc = (x, enc')"
  shows "qenc_ok enc' \<and> qtable enc' = qtable enc \<and>
    x = (if 0 < increment \<and> highestAcknowledged enc + increment \<le> qbase enc then Inr () else Inl ErrIndexError)"
proof (cases "0 < increment \<and> highestAcknowledged enc + increment \<le> qbase enc")
  case False
  moreover have "s64 (highestAcknowledged enc + increment) = highestAcknowledged enc + increment" if "0 < increment"
    using that assms by (intro s64_id) (auto simp: qenc_ok_def acked_ok_def)
  ultimately show ?thesis
    using assms(1,4) by (auto simp: AcknowledgeInsert_def Let_def split: if_splits)
next
  case True
  let ?b = "enc\<lparr>blockedStreams := countBlockedStreams (store enc) (usage enc) (highestAcknowledged enc + increment)\<rparr>"
  have s: "s64 (highestAcknowledged enc + increment) = highestAcknowledged enc + increment"
    using True assms by (intro s64_id) (auto simp: qenc_ok_def acked_ok_def)
  have "acked_ok ?b" using assms(1) by (simp add: qenc_ok_def acked_ok_def unacked_def)
  from updateHighestAcknowledged_spec [OF this, of increment] True assms(2) obtain sz where
    "updateHighestAcknowledged increment ?b =
      (Inr (), ?b\<lparr>highestAcknowledged := highestAcknowledged enc + increment, unacknowledgedSize := sz\<rparr>)"
    "acked_ok (?b\<lparr>highestAcknowledged := highestAcknowledged enc + increment, unacknowledgedSize := sz\<rparr>)"
    by auto
  with True s assms(1,4) show ?thesis by (auto simp: AcknowledgeInsert_def Let_def qenc_ok_def)
qed

end
