(* ===== verification/QpackWire.thy ===== *)
theory QpackWire
  imports QpackTable
begin

text \<open>
  The instructions of QPACK as a specification that encoder and decoder share: a step relation
  that says what bits stand for which change of the dynamic table, and one that says what bits
  stand for which header field. The encoder is shown to emit only such bits, the decoder to
  accept them with that meaning.
\<close>

section \<open>Updates of the table\<close>

definition string_ok :: "HuffmanCodingChoice \<Rightarrow> string \<Rightarrow> bool" where
  "string_ok c s \<longleftrightarrow> length s < 2 ^ 44 \<and> (c = HuffmanCodingAlways \<longrightarrow> s \<noteq> [])"

definition fits :: "string \<Rightarrow> string \<Rightarrow> tableCommon \<Rightarrow> bool" where
  "fits n v t \<longleftrightarrow> 32 + length n + length v \<le> unat (capacity t)"

text \<open>The table after an insert that fits.\<close>

definition inserted :: "string \<Rightarrow> string \<Rightarrow> tableCommon \<Rightarrow> tableCommon" where
  "inserted n v t = snd (QpackDecoderInsert n v t)"

lemma QpackDecoderInsert_fits:
  assumes "table_ok t" "fits n v t"
  shows "QpackDecoderInsert n v t = (Some \<lparr>eN = n, eV = v, eB = base t + 1\<rparr>, inserted n v t)"
    "table_ok (inserted n v t)" "capacity (inserted n v t) = capacity t" "base (inserted n v t) = base t + 1"
    "dynamic (inserted n v t) = \<lparr>eN = n, eV = v, eB = base t + 1\<rparr> #
       fit (unat (capacity t) - (32 + length n + length v)) (dynamic t)"
proof -
  let ?e = "\<lparr>eN = n, eV = v, eB = 0\<rparr>"
  obtain r t' u where i: "insert_entry ?e None t () = (r, t', u)" by (metis surj_pair)
  have es: "esize ?e = 32 + length n + length v" by (simp add: esize_def)
  then have "esize ?e < 2 ^ 64" using assms(2) unat_u64 [of "capacity t"] by (simp add: fits_def)
  note sp = insert_entry_spec [OF assms(1) this i, unfolded es]
  then have "r = Some \<lparr>eN = n, eV = v, eB = base t + 1\<rparr>" using assms(2) by (cases r) (auto simp: fits_def)
  with sp i show "QpackDecoderInsert n v t = (Some \<lparr>eN = n, eV = v, eB = base t + 1\<rparr>, inserted n v t)"
    "table_ok (inserted n v t)" "capacity (inserted n v t) = capacity t" "base (inserted n v t) = base t + 1"
    "dynamic (inserted n v t) = \<lparr>eN = n, eV = v, eB = base t + 1\<rparr> #
       fit (unat (capacity t) - (32 + length n + length v)) (dynamic t)"
    by (auto simp: inserted_def QpackDecoderInsert_def)
qed

lemma table_eqI:
  assumes "table_ok t" "table_ok t'" "dynamic t = dynamic t'" "capacity t = capacity t'" "base t = base t'"
  shows "t = t'"
proof -
  have "used t = used t'" using assms by (simp add: table_ok_def word_unat_eq_iff)
  with assms show ?thesis by simp
qed

inductive update_step :: "HuffmanCodingChoice \<Rightarrow> tableCommon \<Rightarrow> bool list \<Rightarrow> tableCommon \<Rightarrow> bool"
  for c :: HuffmanCodingChoice where
  duplicate: "e \<in> set (dynamic t) \<Longrightarrow> fits (eN e) (eV e) t \<Longrightarrow>
    update_step c t ([False, False, False] @ int_bits 5 (nat (base t - eB e))) (inserted (eN e) (eV e) t)"
| insert_dynamic_name: "e \<in> set (dynamic t) \<Longrightarrow> string_ok c v \<Longrightarrow> fits (eN e) v t \<Longrightarrow>
    update_step c t ([True, False] @ int_bits 6 (nat (base t - eB e)) @ string_bits c 7 v) (inserted (eN e) v t)"
| insert_static_name: "i < 99 \<Longrightarrow> string_ok c v \<Longrightarrow> fits (sname (qpackStaticTable ! i)) v t \<Longrightarrow>
    update_step c t ([True, True] @ int_bits 6 i @ string_bits c 7 v) (inserted (sname (qpackStaticTable ! i)) v t)"
| insert_literal: "string_ok c n \<Longrightarrow> string_ok c v \<Longrightarrow> fits n v t \<Longrightarrow>
    update_step c t ([False, True] @ string_bits c 5 n @ string_bits c 7 v) (inserted n v t)"
| set_capacity: "update_step c t ([False, False, True] @ int_bits 5 (unat k)) (SetCapacity k t)"

inductive updates :: "HuffmanCodingChoice \<Rightarrow> tableCommon \<Rightarrow> bool list \<Rightarrow> tableCommon \<Rightarrow> bool"
  for c :: HuffmanCodingChoice where
  updates_refl: "updates c t [] t"
| updates_step: "updates c t bs t1 \<Longrightarrow> update_step c t1 cs t2 \<Longrightarrow> updates c t (bs @ cs) t2"

lemma update_step_ok: "update_step c t bs t' \<Longrightarrow> table_ok t \<Longrightarrow> table_ok t'"
  by (induction rule: update_step.induct) (simp_all add: QpackDecoderInsert_fits SetCapacity_spec)

lemma updates_ok: "updates c t bs t' \<Longrightarrow> table_ok t \<Longrightarrow> table_ok t'"
  by (induction rule: updates.induct) (auto intro: update_step_ok)

lemma update_step_base:
  "update_step c t bs t' \<Longrightarrow> table_ok t \<Longrightarrow> base t' = base t \<or> base t' = base t + 1"
  by (induction rule: update_step.induct) (simp_all add: QpackDecoderInsert_fits SetCapacity_spec)

lemma updates_base: "updates c t bs t' \<Longrightarrow> table_ok t \<Longrightarrow> base t \<le> base t'"
  by (induction rule: updates.induct) (auto dest: updates_ok update_step_base)

lemma aligned:
  "a mod 8 = 3 \<Longrightarrow> b mod 8 = 5 \<Longrightarrow> (a + b) mod 8 = 0"
  "a mod 8 = 2 \<Longrightarrow> b mod 8 = 6 \<Longrightarrow> (a + b) mod 8 = 0"
  "a mod 8 = 4 \<Longrightarrow> b mod 8 = 4 \<Longrightarrow> (a + b) mod 8 = 0"
  "a mod 8 = 0 \<Longrightarrow> b mod 8 = 0 \<Longrightarrow> (a + b) mod 8 = 0" for a b :: nat
  by presburger+

lemma length_int_bits_const:
  "length (int_bits 4 i) mod 8 = 4" "length (int_bits 5 i) mod 8 = 5" "length (int_bits 6 i) mod 8 = 6"
  by (simp_all add: length_int_bits)

lemma length_string_bits_const:
  "length (string_bits c 7 s) mod 8 = 0" "length (string_bits c 5 s) mod 8 = 6" "length (string_bits c 3 s) mod 8 = 4"
  by (simp_all add: length_string_bits)

lemmas wire_lengths = length_int_bits_const length_string_bits_const

lemma length_update_step: "update_step c t bs t' \<Longrightarrow> length bs mod 8 = 0"
proof (induction rule: update_step.induct)
  case (insert_dynamic_name e t v)
  then show ?case
    using aligned(4) [OF aligned(2) [of 2, OF _ wire_lengths(3)] wire_lengths(4)] by (simp add: add.assoc)
next
  case (insert_static_name i v t)
  then show ?case
    using aligned(4) [OF aligned(2) [of 2, OF _ wire_lengths(3)] wire_lengths(4)] by (simp add: add.assoc)
next
  case (insert_literal n v t)
  then show ?case
    using aligned(4) [OF aligned(2) [of 2, OF _ wire_lengths(5)] wire_lengths(4)] by (simp add: add.assoc)
qed (use aligned(1) [of 3, OF _ wire_lengths(2)] in simp_all)

lemma length_updates: "updates c t bs t' \<Longrightarrow> length bs mod 8 = 0"
  by (induction rule: updates.induct) (simp_all add: aligned(4) length_update_step)

lemma updates_trans: "updates c t1 cs t2 \<Longrightarrow> updates c t bs t1 \<Longrightarrow> updates c t (bs @ cs) t2"
  by (induction rule: updates.induct) (auto simp: append_assoc [symmetric] simp del: append_assoc intro: updates.intros)

section \<open>Header fields\<close>

inductive field_line :: "HuffmanCodingChoice \<Rightarrow> tableCommon \<Rightarrow> int \<Rightarrow> bool list \<Rightarrow> HeaderField \<Rightarrow> bool"
  for c :: HuffmanCodingChoice and t :: tableCommon and b :: int where
  indexed_static: "i < 99 \<Longrightarrow> field_line c t b ([True, True] @ int_bits 6 i)
    \<lparr>Name = sname (qpackStaticTable ! i), Value = svalue (qpackStaticTable ! i), Sensitive = False\<rparr>"
| indexed_dynamic: "e \<in> set (dynamic t) \<Longrightarrow> eB e \<le> b \<Longrightarrow>
    field_line c t b ([True, False] @ int_bits 6 (nat (b - eB e))) \<lparr>Name = eN e, Value = eV e, Sensitive = False\<rparr>"
| indexed_post_base: "e \<in> set (dynamic t) \<Longrightarrow> b < eB e \<Longrightarrow>
    field_line c t b ([False, False, False, True] @ int_bits 4 (nat (eB e - b - 1)))
      \<lparr>Name = eN e, Value = eV e, Sensitive = False\<rparr>"
| literal_static_name: "i < 99 \<Longrightarrow> string_ok c v \<Longrightarrow>
    field_line c t b ([False, True, s, True] @ int_bits 4 i @ string_bits c 7 v)
      \<lparr>Name = sname (qpackStaticTable ! i), Value = v, Sensitive = s\<rparr>"
| literal_dynamic_name: "e \<in> set (dynamic t) \<Longrightarrow> eB e \<le> b \<Longrightarrow> string_ok c v \<Longrightarrow>
    field_line c t b ([False, True, s, False] @ int_bits 4 (nat (b - eB e)) @ string_bits c 7 v)
      \<lparr>Name = eN e, Value = v, Sensitive = s\<rparr>"
| literal_name: "string_ok c n \<Longrightarrow> string_ok c v \<Longrightarrow>
    field_line c t b ([False, False, True, s] @ string_bits c 3 n @ string_bits c 7 v)
      \<lparr>Name = n, Value = v, Sensitive = s\<rparr>"

inductive field_lines :: "HuffmanCodingChoice \<Rightarrow> tableCommon \<Rightarrow> int \<Rightarrow> bool list \<Rightarrow> HeaderField list \<Rightarrow> bool"
  for c :: HuffmanCodingChoice and t :: tableCommon and b :: int where
  lines_Nil: "field_lines c t b [] []"
| lines_Cons: "field_line c t b bs h \<Longrightarrow> field_lines c t b cs hs \<Longrightarrow> field_lines c t b (bs @ cs) (h # hs)"

lemma length_field_line: "field_line c t b bs h \<Longrightarrow> length bs mod 8 = 0"
proof (induction rule: field_line.induct)
  case (literal_static_name i v s)
  then show ?case
    using aligned(4) [OF aligned(3) [of 4, OF _ wire_lengths(1)] wire_lengths(4)] by (simp add: add.assoc)
next
  case (literal_dynamic_name e v s)
  then show ?case
    using aligned(4) [OF aligned(3) [of 4, OF _ wire_lengths(1)] wire_lengths(4)] by (simp add: add.assoc)
next
  case (literal_name n v s)
  then show ?case
    using aligned(4) [OF aligned(3) [of 4, OF _ wire_lengths(6)] wire_lengths(4)] by (simp add: add.assoc)
qed (use aligned(2) [of 2, OF _ wire_lengths(3)] aligned(3) [of 4, OF _ wire_lengths(1)] in simp_all)

lemma length_field_lines: "field_lines c t b bs hs \<Longrightarrow> length bs mod 8 = 0"
  by (induction rule: field_lines.induct) (simp_all add: aligned(4) length_field_line)

end
