(* ===== verification/QpackEmit.thy ===== *)
theory QpackEmit
  imports QpackEncoder QpackWire
begin

text \<open>
  What the QPACK encoder puts on the wire: the updates stream carries only instructions of
  \<open>update_step\<close>, each one the change the encoder has made to its own table, and the header block
  carries one \<open>field_line\<close> for every field.
\<close>

section \<open>The matches of one call\<close>

definition entry_ref :: "qpackWriterState \<Rightarrow> nat \<Rightarrow> Entry option" where
  "entry_ref st i = (if matches st ! i \<noteq> None then matches st ! i else nameMatches st ! i)"

definition full_ok :: "tableCommon \<Rightarrow> qpackWriterState \<Rightarrow> HeaderField \<Rightarrow> Entry \<Rightarrow> bool" where
  "full_ok t st h e \<longleftrightarrow> e \<in> qpack_entries t \<and> entryName e = Name h \<and> entryValue e = Value h \<and> \<not> Sensitive h \<and>
     (\<forall>d. e = DynamicE d \<longrightarrow> smallestBase st \<le> eB d \<and> eB d \<le> largestBase st)"

definition name_ok :: "qpackWriterState \<Rightarrow> HeaderField \<Rightarrow> Entry \<Rightarrow> bool" where
  "name_ok st h e \<longleftrightarrow> entryName e = Name h \<and>
     (case e of StaticE s \<Rightarrow> s \<in> set qpackStaticTable | DynamicE d \<Rightarrow> 0 < eB d \<and> eB d \<le> largestBase st)"

text \<open>
  Full matches are in the table and protected from eviction; the largest base is that of an
  entry the block refers to.
\<close>

definition call_ok :: "tableCommon \<Rightarrow> qpackWriterState \<Rightarrow> bool" where
  "call_ok t st \<longleftrightarrow> length (matches st) = length (headers st) \<and> length (nameMatches st) = length (headers st) \<and>
     (\<forall>i < length (headers st). \<forall>e. matches st ! i = Some e \<longrightarrow> full_ok t st (headers st ! i) e) \<and>
     (\<forall>i < length (headers st). \<forall>e. nameMatches st ! i = Some e \<longrightarrow> name_ok st (headers st ! i) e) \<and>
     0 \<le> largestBase st \<and> largestBase st \<le> base t \<and>
     (largestBase st = 0 \<or>
       (\<exists>i < length (headers st). \<exists>d. entry_ref st i = Some (DynamicE d) \<and> eB d = largestBase st))"

lemma updateBase_simps [simp]:
  "headers (updateBase e b st) = headers st" "matches (updateBase e b st) = matches st"
  "nameMatches (updateBase e b st) = nameMatches st" "maxBase (updateBase e b st) = maxBase st"
  "uses (updateBase e b st) = uses st" "wasBlocked (updateBase e b st) = wasBlocked st"
  by (cases e; simp add: Let_def)+

lemma entry_ref_updateBase [simp]: "entry_ref (updateBase e b st) i = entry_ref st i"
  by (simp add: entry_ref_def)

lemma updateBase_bases:
  "largestBase (updateBase e b st) = (case e of DynamicE d \<Rightarrow> max (largestBase st) (eB d) | StaticE _ \<Rightarrow> largestBase st)"
  "smallestBase (updateBase e b st) =
     (case e of DynamicE d \<Rightarrow> if b then min (smallestBase st) (eB d) else smallestBase st | StaticE _ \<Rightarrow> smallestBase st)"
  by (cases e; auto simp: Let_def max_def min_def)+

declare updateBase.simps [simp del]

lemma recordMatch_induct:
  assumes "P st" "\<And>e. full = Some e \<Longrightarrow> dynBase e \<le> maxBase st \<Longrightarrow> P (updateBase e True (st\<lparr>matches := (matches st)[i := Some e]\<rparr>))"
    "\<And>e. name = Some e \<Longrightarrow> dynBase e \<le> maxBase st \<Longrightarrow> P (updateBase e False (st\<lparr>nameMatches := (nameMatches st)[i := Some e]\<rparr>))"
  shows "P (recordMatch i full name st)"
  using assms by (auto simp: recordMatch_def split: option.splits)

lemma recordMatch_simps [simp]:
  "headers (recordMatch i full name st) = headers st" "maxBase (recordMatch i full name st) = maxBase st"
  "uses (recordMatch i full name st) = uses st" "wasBlocked (recordMatch i full name st) = wasBlocked st"
  "length (matches (recordMatch i full name st)) = length (matches st)"
  "length (nameMatches (recordMatch i full name st)) = length (nameMatches st)"
  by (rule recordMatch_induct; simp)+

lemma recordMatch_other:
  "j \<noteq> i \<Longrightarrow> entry_ref (recordMatch i full name st) j = entry_ref st j"
  by (rule recordMatch_induct) (simp_all add: entry_ref_def)

lemma call_ok_full:
  assumes "call_ok t st" "i < length (headers st)" "table_ok t" "e \<in> qpack_entries t"
    "entryName e = Name (headers st ! i)" "entryValue e = Value (headers st ! i)" "\<not> Sensitive (headers st ! i)"
    "entry_ref st i = None \<or> largestBase st < dynBase e"
  shows "call_ok t (updateBase e True (st\<lparr>matches := (matches st)[i := Some e]\<rparr>))"
proof -
  let ?s = "updateBase e True (st\<lparr>matches := (matches st)[i := Some e]\<rparr>)"
  have len: "length (matches st) = length (headers st)" using assms(1) by (simp add: call_ok_def)
  have e: "eB d \<le> base t \<and> 0 < eB d" if "e = DynamicE d" for d
    using that assms(3,4) table_ok_entry [of t d] by (auto simp: qpack_entries_def)
  have "full_ok t ?s (headers st ! j) f" if "j < length (headers st)" "matches ?s ! j = Some f" for j f
  proof (cases "j = i")
    case True
    with that assms len show ?thesis by (auto simp: full_ok_def updateBase_bases)
  next
    case False
    with that have "full_ok t st (headers st ! j) f" using assms(1) by (simp add: call_ok_def)
    then show ?thesis by (auto simp: full_ok_def updateBase_bases split: Entry.splits)
  qed
  moreover have "name_ok ?s (headers st ! j) f" if "j < length (headers st)" "nameMatches st ! j = Some f" for j f
  proof -
    have "name_ok st (headers st ! j) f" using that assms(1) by (simp add: call_ok_def)
    then show ?thesis by (auto simp: name_ok_def updateBase_bases split: Entry.splits)
  qed
  moreover have "largestBase ?s = 0 \<or>
      (\<exists>j < length (headers st). \<exists>d. entry_ref ?s j = Some (DynamicE d) \<and> eB d = largestBase ?s)"
  proof (cases "largestBase ?s = largestBase st \<and> entry_ref st i = None")
    case True
    have "entry_ref ?s j = entry_ref st j" if "entry_ref st j \<noteq> None" for j
      using that True by (cases "j = i") (auto simp: entry_ref_def)
    moreover have "largestBase st = 0 \<or>
      (\<exists>j < length (headers st). \<exists>d. entry_ref st j = Some (DynamicE d) \<and> eB d = largestBase st)"
      using assms(1) by (simp add: call_ok_def)
    ultimately show ?thesis using True by (metis option.discI)
  next
    case False
    obtain d where "e = DynamicE d" "largestBase ?s = eB d"
      using False assms(1,8) by (cases e) (auto simp: updateBase_bases max_def call_ok_def split: if_splits)
    moreover have "entry_ref ?s i = Some e" using assms(2) len by (simp add: entry_ref_def)
    ultimately show ?thesis using assms(2) by auto
  qed
  ultimately show ?thesis
    using assms(1) e by (auto simp: call_ok_def updateBase_bases split: Entry.splits)
qed

lemma call_ok_name:
  assumes "call_ok t st" "i < length (headers st)" "table_ok t" "e \<in> qpack_entries t"
    "entryName e = Name (headers st ! i)" "entry_ref st i = None"
  shows "call_ok t (updateBase e False (st\<lparr>nameMatches := (nameMatches st)[i := Some e]\<rparr>))"
proof -
  let ?s = "updateBase e False (st\<lparr>nameMatches := (nameMatches st)[i := Some e]\<rparr>)"
  have len: "length (nameMatches st) = length (headers st)" using assms(1) by (simp add: call_ok_def)
  have e: "eB d \<le> base t \<and> 0 < eB d" if "e = DynamicE d" for d
    using that assms(3,4) table_ok_entry [of t d] by (auto simp: qpack_entries_def)
  have "full_ok t ?s (headers st ! j) f" if "j < length (headers st)" "matches st ! j = Some f" for j f
  proof -
    have "full_ok t st (headers st ! j) f" using that assms(1) by (simp add: call_ok_def)
    then show ?thesis by (auto simp: full_ok_def updateBase_bases split: Entry.splits)
  qed
  moreover have "name_ok ?s (headers st ! j) f" if "j < length (headers st)" "nameMatches ?s ! j = Some f" for j f
  proof (cases "j = i")
    case True
    with that assms(2,4,5) len e show ?thesis by (auto simp: name_ok_def updateBase_bases qpack_entries_def)
  next
    case False
    with that have "name_ok st (headers st ! j) f" using assms(1) by (simp add: call_ok_def)
    then show ?thesis by (auto simp: name_ok_def updateBase_bases split: Entry.splits)
  qed
  moreover have "largestBase ?s = 0 \<or>
      (\<exists>j < length (headers st). \<exists>d. entry_ref ?s j = Some (DynamicE d) \<and> eB d = largestBase ?s)"
  proof (cases "largestBase ?s = largestBase st")
    case True
    have "entry_ref ?s j = entry_ref st j" if "entry_ref st j \<noteq> None" for j
      using that assms(6) by (cases "j = i") (auto simp: entry_ref_def)
    moreover have "largestBase st = 0 \<or>
      (\<exists>j < length (headers st). \<exists>d. entry_ref st j = Some (DynamicE d) \<and> eB d = largestBase st)"
      using assms(1) by (simp add: call_ok_def)
    ultimately show ?thesis using True by (metis option.discI)
  next
    case False
    then obtain d where "e = DynamicE d" "largestBase ?s = eB d"
      by (cases e) (auto simp: updateBase_bases max_def split: if_splits)
    moreover have "entry_ref ?s i = Some e"
      using assms(2,6) len by (auto simp: entry_ref_def split: option.splits)
    ultimately show ?thesis using assms(2) by auto
  qed
  ultimately show ?thesis
    using assms(1) e by (auto simp: call_ok_def updateBase_bases split: Entry.splits)
qed


section \<open>Changes of the table\<close>

text \<open>
  What a turn of \<open>writeTableChanges\<close> leaves unchanged, and what it keeps: only the table and
  the unacknowledged size of the encoder change, and only what is recorded for the fields
  whose numbers are in a given set.
\<close>

definition turn_ok :: "nat set \<Rightarrow> QpackEncoder \<times> qpackWriterState \<Rightarrow> QpackEncoder \<times> qpackWriterState \<Rightarrow> bool" where
  "turn_ok I s s' \<longleftrightarrow> (case (s, s') of ((enc, st), (enc', st')) \<Rightarrow>
     same_rest enc enc' \<and> acked_ok enc' \<and> qcapacity enc' = qcapacity enc \<and> call_ok (qcommon (qtable enc')) st' \<and>
     headers st' = headers st \<and> maxBase st' = maxBase st \<and> uses st' = uses st \<and> wasBlocked st' = wasBlocked st \<and>
     (\<forall>j. j \<notin> I \<longrightarrow> entry_ref st' j = entry_ref st j))"

definition emits :: "('w \<Rightarrow> byte list) \<Rightarrow> (('w qpack_enc), unit) io \<Rightarrow> nat set \<Rightarrow> QpackEncoder \<times> qpackWriterState \<Rightarrow> bool" where
  "emits out m I s \<longleftrightarrow> (\<exists>bs s'. tproduces out m s bs () s' \<and> turn_ok I s s' \<and>
     updates (HuffmanPreference (fst s)) (qcommon (qtable (fst s))) bs (qcommon (qtable (fst s'))))"

lemma emitsI:
  "tproduces out m s bs () s' \<Longrightarrow> turn_ok I s s' \<Longrightarrow>
     updates (HuffmanPreference (fst s)) (qcommon (qtable (fst s))) bs (qcommon (qtable (fst s'))) \<Longrightarrow> emits out m I s"
  unfolding emits_def by blast

lemma emits_getT: "emits out (f s) I s \<Longrightarrow> emits out (bnd getT f) I s"
  unfolding emits_def by (blast intro: tproduces_getT)

lemma updates_one: "update_step c t bs t' \<Longrightarrow> updates c t bs t'"
  using updates_step [OF updates_refl, of c t bs t'] by simp

lemma call_ok_evict:
  assumes "call_ok t st" "base t \<le> base t'"
    "\<forall>d \<in> set (dynamic t). d \<notin> set (dynamic t') \<longrightarrow> CanEvict st d"
  shows "call_ok t' st"
proof -
  have "full_ok t' st h e" if "full_ok t st h e" for h e
    using that assms(3) by (fastforce simp: full_ok_def qpack_entries_def CanEvict_def)
  with assms(1,2) show ?thesis by (auto simp: call_ok_def)
qed

lemma encoderInsert_produces:
  fixes out :: "'w \<Rightarrow> byte list"
  assumes "acked_ok enc" "32 + length n + length v < 2 ^ 62"
  shows "\<exists>x enc'. tproduces out (encoderInsert n v) (enc, st) [] x (enc', st) \<and> acked_ok enc' \<and>
    qcapacity enc' = qcapacity enc \<and>
    same_rest enc enc' \<and>
    (\<forall>e \<in> set (dynamic (qcommon (qtable enc))). e \<notin> set (dynamic (qcommon (qtable enc'))) \<longrightarrow> CanEvict st e) \<and>
    (case x of
       None \<Rightarrow> qcommon (qtable enc') = qcommon (qtable enc)
     | Some e \<Rightarrow> e = \<lparr>eN = n, eV = v, eB = qbase enc + 1\<rparr> \<and> e \<in> set (dynamic (qcommon (qtable enc'))) \<and>
         fits n v (qcommon (qtable enc)) \<and> qcommon (qtable enc') = inserted n v (qcommon (qtable enc)))"
proof -
  obtain y enc' where y: "\<And>w :: 'w bitWriter. encoderInsert n v ((enc, st), w) = (y, ((enc', st), w))"
  proof (cases "entrySize \<lparr>eN = n, eV = v, eB = 0\<rparr> + unacknowledgedSize enc > referenceableLimit (qtable enc)")
    case True
    then show ?thesis by (intro that) (simp add: encoderInsert_def)
  next
    case False
    obtain z qt where "QpackEncoderInsert n v (CanEvict st) (store enc) (qtable enc) = (z, qt)" by fastforce
    with False show ?thesis
      by (cases z; cases "projr z") (auto simp: encoderInsert_def intro: that split: option.splits)
  qed
  note sp = encoderInsert_spec [OF assms y]
  then obtain x where x: "y = Inr x" by (cases y) auto
  have tp: "tproduces out (encoderInsert n v) (enc, st) [] x (enc', st)"
    using y x by (simp add: tproduces_def)
  have ok: "table_ok (qcommon (qtable enc))" "table_ok (qcommon (qtable enc'))"
    using assms(1) sp by (auto simp: acked_ok_def qtable_ok_def)
  have none: "qcommon (qtable enc') = qcommon (qtable enc)" if "x = None" using sp x that by simp
  have some: "fits n v (qcommon (qtable enc)) \<and> qcommon (qtable enc') = inserted n v (qcommon (qtable enc)) \<and>
      e = \<lparr>eN = n, eV = v, eB = qbase enc + 1\<rparr> \<and> e \<in> set (dynamic (qcommon (qtable enc')))" if "x = Some e" for e
  proof -
    have f: "fits n v (qcommon (qtable enc))" using sp x that by (simp add: fits_def)
    note i = QpackDecoderInsert_fits [OF ok(1) f]
    have "qcommon (qtable enc') = inserted n v (qcommon (qtable enc))"
      using sp x that i by (intro table_eqI [OF ok(2) i(2)]) simp_all
    with f sp x that show ?thesis by simp
  qed
  have "case x of None \<Rightarrow> qcommon (qtable enc') = qcommon (qtable enc)
     | Some e \<Rightarrow> e = \<lparr>eN = n, eV = v, eB = qbase enc + 1\<rparr> \<and> e \<in> set (dynamic (qcommon (qtable enc'))) \<and>
         fits n v (qcommon (qtable enc)) \<and> qcommon (qtable enc') = inserted n v (qcommon (qtable enc))"
    using none some by (cases x) auto
  with tp sp show ?thesis by blast
qed

text \<open>An insert followed by recording the new entry for field \<open>i\<close>.\<close>

lemma turn_ok_insert:
  assumes "call_ok (qcommon (qtable enc)) st" "i < length (headers st)" "\<not> Sensitive (headers st ! i)"
    "acked_ok enc'" "qcapacity enc' = qcapacity enc"
    "same_rest enc enc'"
    "\<forall>e \<in> set (dynamic (qcommon (qtable enc))). e \<notin> set (dynamic (qcommon (qtable enc'))) \<longrightarrow> CanEvict st e"
    "e = \<lparr>eN = Name (headers st ! i), eV = Value (headers st ! i), eB = qbase enc + 1\<rparr>"
    "e \<in> set (dynamic (qcommon (qtable enc')))"
  shows "turn_ok {i} (enc, st) (enc', recordMatch i (Some (DynamicE e)) None st)"
proof -
  let ?t' = "qcommon (qtable enc')"
  have t: "table_ok ?t'" using assms(4) by (simp add: acked_ok_def qtable_ok_def)
  have b: "qbase enc \<le> base ?t'" using table_ok_entry(1) [OF t assms(9)] assms(8) by simp
  have c: "call_ok ?t' st" by (rule call_ok_evict [OF assms(1) b assms(7)])
  have "largestBase st \<le> qbase enc" using assms(1) by (simp add: call_ok_def)
  then have "call_ok ?t' (updateBase (DynamicE e) True (st\<lparr>matches := (matches st)[i := Some (DynamicE e)]\<rparr>))"
    using assms(2,3,8,9) by (intro call_ok_full [OF c _ t]) (auto simp: qpack_entries_def)
  then have "call_ok ?t' (recordMatch i (Some (DynamicE e)) None st)"
    using c by - (rule recordMatch_induct, auto)
  with assms(4-6) show ?thesis by (simp add: turn_ok_def recordMatch_other)
qed

lemma turn_ok_refl:
  assumes "acked_ok enc" "call_ok (qcommon (qtable enc)) st"
  shows "turn_ok I (enc, st) (enc, st)"
  using assms by (simp add: turn_ok_def same_rest_def)

lemma turn_ok_trans: "turn_ok I s s1 \<Longrightarrow> turn_ok J s1 s2 \<Longrightarrow> turn_ok (I \<union> J) s s2"
  by (cases s; cases s1; cases s2) (auto simp: turn_ok_def same_rest_def)


lemma word_index:
  assumes "table_ok t" "d \<in> set (dynamic t)" "base t' = base t + 1"
  shows "unat (word_of_int (QpackIndex t' (DynamicE d) - 1) :: u64) = nat (base t - eB d)"
proof -
  have "QpackIndex t' (DynamicE d) - 1 = base t - eB d" using assms(3) by simp
  then show ?thesis
    using table_ok_entry(1,2) [OF assms(1,2)] table_ok_length [OF assms(1)] unat_of_int [of "base t - eB d"]
    by (simp only: intMax_def) simp
qed

lemma static_index:
  assumes "StaticE s \<in> qpack_entries t"
  obtains i where "i < 99" "qpackStaticTable ! i = s" "QpackIndex t' (StaticE s) = int i"
  using assms sindex_qpack by (auto simp: qpack_entries_def in_set_conv_nth)

definition header_ok :: "HuffmanCodingChoice \<Rightarrow> HeaderField \<Rightarrow> bool" where
  "header_ok c h \<longleftrightarrow> string_ok c (Name h) \<and> string_ok c (Value h)"

lemma header_ok_size: "header_ok c h \<Longrightarrow> 32 + length (Name h) + length (Value h) < 2 ^ 62"
  by (simp add: header_ok_def string_ok_def)

lemma record_match_produces:
  "tproduces out (record_match i full name) (enc, st) [] () (enc, recordMatch i full name st)"
  by (simp add: record_match_def tproduces_def)

context reliable_sink
begin

lemma tproduces_io:
  "produces out m as x \<Longrightarrow> tproduces out (f x) t bs y t' \<Longrightarrow> tproduces out (bnd (onIO m) f) t (as @ bs) y t'"
  by (rule tproduces_bnd [OF tproduces_onIO])

lemma string_produces:
  "string_ok c s \<Longrightarrow> 1 \<le> n \<Longrightarrow> n \<le> 8 \<Longrightarrow> produces out (WriteStringRaw ops s n c) (string_bits c n s) ()"
  by (rule WriteStringRaw_produces) (auto simp: string_ok_def)

lemma instruction_bits:
  "produces out (WriteBits ops 0 3) [False, False, False] ()" "produces out (WriteBits ops 1 2) [False, True] ()"
  "produces out (WriteBits ops 2 2) [True, False] ()" "produces out (WriteBits ops 3 2) [True, True] ()"
  "produces out (WriteBits ops 1 4) [False, False, False, True] ()"
  using WriteBits_produces [of 3 0] WriteBits_produces [of 2 1] WriteBits_produces [of 2 2]
    WriteBits_produces [of 2 3] WriteBits_produces [of 4 1]
  by (simp_all add: bits_def upt_conv_Cons take_bit_eq_mod bit_numeral_rec)

end

text \<open>An insert, the instruction for it, and the record of the new entry.\<close>

lemma insert_emits:
  assumes "acked_ok enc" "call_ok (qcommon (qtable enc)) st" "i < length (headers st)"
    "\<not> Sensitive (headers st ! i)" "header_ok (HuffmanPreference enc) (headers st ! i)"
  defines "h \<equiv> headers st ! i" and "t \<equiv> qcommon (qtable enc)"
  assumes instruction: "\<And>e enc'. same_rest enc enc' \<Longrightarrow> qbase enc' = qbase enc + 1 \<Longrightarrow>
      tproduces out (k e) (enc', st) bs () (enc', recordMatch i (Some (DynamicE e)) None st)"
    and meaning: "fits (Name h) (Value h) t \<Longrightarrow>
      update_step (HuffmanPreference enc) t bs (inserted (Name h) (Value h) t)"
  shows "emits out (bnd (encoderInsert (Name h) (Value h)) (\<lambda>x. case x of None \<Rightarrow> ret () | Some e \<Rightarrow> k e)) {i} (enc, st)"
proof -
  have t: "table_ok t" using assms(1) by (simp add: acked_ok_def qtable_ok_def t_def)
  have "32 + length (Name h) + length (Value h) < 2 ^ 62" unfolding h_def by (rule header_ok_size [OF assms(5)])
  from encoderInsert_produces [OF assms(1) this, of out st]
  obtain x enc' where ins: "tproduces out (encoderInsert (Name h) (Value h)) (enc, st) [] x (enc', st)"
    and e': "acked_ok enc'" "qcapacity enc' = qcapacity enc" "same_rest enc enc'"
      "\<forall>e \<in> set (dynamic (qcommon (qtable enc))). e \<notin> set (dynamic (qcommon (qtable enc'))) \<longrightarrow> CanEvict st e"
    and x: "case x of None \<Rightarrow> qcommon (qtable enc') = t
     | Some e \<Rightarrow> e = \<lparr>eN = Name h, eV = Value h, eB = qbase enc + 1\<rparr> \<and> e \<in> set (dynamic (qcommon (qtable enc'))) \<and>
         fits (Name h) (Value h) t \<and> qcommon (qtable enc') = inserted (Name h) (Value h) t"
    unfolding t_def by blast
  let ?k = "\<lambda>x. case x of None \<Rightarrow> ret () | Some e \<Rightarrow> k e"
  show ?thesis
  proof (cases x)
    case None
    have "tproduces out (bnd (encoderInsert (Name h) (Value h)) ?k) (enc, st) ([] @ []) () (enc', st)"
      by (rule tproduces_bnd [OF ins]) (simp add: None tproduces_ret)
    moreover have "turn_ok {i} (enc, st) (enc', st)"
      using e' None x assms(2) by (simp add: turn_ok_def t_def)
    moreover have "updates (HuffmanPreference enc) t [] (qcommon (qtable enc'))"
      using None x updates_refl [of _ t] by simp
    ultimately show ?thesis
      by (intro emitsI [where bs = "[]" and s' = "(enc', st)"]) (simp_all add: t_def del: split_paired_Ex)
  next
    case (Some e)
    have "qbase enc' = qbase enc + 1" using x Some QpackDecoderInsert_fits(4) [OF t] by (simp add: t_def)
    from instruction [OF e'(3) this, of e]
    have "tproduces out (bnd (encoderInsert (Name h) (Value h)) ?k) (enc, st) ([] @ bs) ()
        (enc', recordMatch i (Some (DynamicE e)) None st)"
      by (intro tproduces_bnd [OF ins]) (simp add: Some)
    moreover have "turn_ok {i} (enc, st) (enc', recordMatch i (Some (DynamicE e)) None st)"
      using x Some by (intro turn_ok_insert [OF assms(2-4) e']) (auto simp: h_def)
    moreover have "updates (HuffmanPreference enc) t bs (qcommon (qtable enc'))"
      using meaning x Some by (intro updates_one) simp
    ultimately show ?thesis
      by (intro emitsI [where bs = bs and s' = "(enc', recordMatch i (Some (DynamicE e)) None st)"])
        (simp_all add: t_def)
  qed
qed

context reliable_sink
begin

lemma writeDuplicate_emits:
  assumes "acked_ok enc" "call_ok (qcommon (qtable enc)) st" "i < length (headers st)"
    "\<not> Sensitive (headers st ! i)" "header_ok (HuffmanPreference enc) (headers st ! i)"
    "d \<in> set (dynamic (qcommon (qtable enc)))" "eN d = Name (headers st ! i)" "eV d = Value (headers st ! i)"
  shows "emits out (writeDuplicate ops d i) {i} (enc, st)"
proof -
  let ?t = "qcommon (qtable enc)"
  have t: "table_ok ?t" using assms(1) by (simp add: acked_ok_def qtable_ok_def)
  let ?bs = "[False, False, False] @ int_bits 5 (nat (base ?t - eB d)) @ []"
  show ?thesis
    unfolding writeDuplicate_def assms(7,8)
  proof (rule insert_emits [OF assms(1-5), of out _ ?bs], goal_cases)
    case (1 e enc')
    have idx: "produces out (WriteInt ops (word_of_int (QpackIndex (qcommon (qtable enc')) (DynamicE d) - 1)) 5)
        (int_bits 5 (nat (base ?t - eB d))) ()"
      using WriteInt_produces [of 5 "word_of_int (QpackIndex (qcommon (qtable enc')) (DynamicE d) - 1)"]
        word_index [OF t assms(6) 1(2)] by simp
    show ?case
      by (intro tproduces_io [OF instruction_bits(1)] tproduces_getT)
        (simp only: prod.case, intro tproduces_io [OF idx] record_match_produces)
  next
    case 2
    then show ?case using duplicate [OF assms(6), of "HuffmanPreference enc"] assms(7,8) by simp
  qed
qed

lemma writeInsert_emits:
  assumes "acked_ok enc" "call_ok (qcommon (qtable enc)) st" "i < length (headers st)"
    "\<not> Sensitive (headers st ! i)" "header_ok (HuffmanPreference enc) (headers st ! i)"
    "\<forall>e. nm = Some e \<longrightarrow> e \<in> qpack_entries (qcommon (qtable enc)) \<and> entryName e = Name (headers st ! i)"
  shows "emits out (writeInsert ops i nm) {i} (enc, st)"
proof -
  let ?t = "qcommon (qtable enc)" and ?h = "headers st ! i" and ?c = "HuffmanPreference enc"
  have t: "table_ok ?t" using assms(1) by (simp add: acked_ok_def qtable_ok_def)
  have str: "string_ok ?c (Name ?h)" "string_ok ?c (Value ?h)" using assms(5) by (simp_all add: header_ok_def)
  let ?n = "\<lambda>enc'. case nm of
      None \<Rightarrow> onIO (bnd (WriteBits ops 1 2) (\<lambda>_. WriteStringRaw ops (Name ?h) 5 (HuffmanPreference enc')))
    | Some (DynamicE d) \<Rightarrow> onIO (bnd (WriteBits ops 2 2) (\<lambda>_.
        WriteInt ops (word_of_int (QpackIndex (qcommon (qtable enc')) (DynamicE d) - 1)) 6))
    | Some (StaticE s) \<Rightarrow> onIO (bnd (WriteBits ops 3 2) (\<lambda>_.
        WriteInt ops (word_of_int (QpackIndex (qcommon (qtable enc')) (StaticE s))) 6))"
  have "\<exists>bs. (\<forall>enc'. same_rest enc enc' \<and> qbase enc' = qbase enc + 1 \<longrightarrow>
        tproduces out (?n enc') (enc', st) bs () (enc', st)) \<and>
      (fits (Name ?h) (Value ?h) ?t \<longrightarrow> update_step ?c ?t (bs @ string_bits ?c 7 (Value ?h)) (inserted (Name ?h) (Value ?h) ?t))"
  proof (cases nm)
    case None
    then show ?thesis
      using insert_literal [OF str] produces_bnd [OF instruction_bits(2) string_produces [OF str(1), of 5]]
      by (intro exI [of _ "[False, True] @ string_bits ?c 5 (Name ?h)"])
        (auto simp: same_rest_def intro!: tproduces_onIO)
  next
    case (Some e)
    show ?thesis
    proof (cases e)
      case (StaticE s)
      then have "StaticE s \<in> qpack_entries ?t" using assms(6) Some by simp
      then obtain k where k: "k < 99" "qpackStaticTable ! k = s" "\<And>t'. QpackIndex t' (StaticE s) = int k"
        by (rule static_index) simp
      have "produces out (WriteInt ops (word_of_int (int k)) 6) (int_bits 6 k) ()"
        using WriteInt_produces [of 6 "word_of_int (int k)"] k(1) by (simp add: unat_of_nat)
      from produces_bnd [OF instruction_bits(4) this] insert_static_name [OF k(1) str(2)] show ?thesis
        using Some StaticE k assms(6)
        by (intro exI [of _ "[True, True] @ int_bits 6 k"]) (auto intro!: tproduces_onIO)
    next
      case (DynamicE d)
      then have d: "d \<in> set (dynamic ?t)" "eN d = Name ?h" using assms(6) Some by (auto simp: qpack_entries_def)
      have idx: "produces out (WriteInt ops (word_of_int (QpackIndex (qcommon (qtable enc')) (DynamicE d) - 1)) 6)
          (int_bits 6 (nat (base ?t - eB d))) ()" if "qbase enc' = qbase enc + 1" for enc'
        using WriteInt_produces [of 6 "word_of_int (QpackIndex (qcommon (qtable enc')) (DynamicE d) - 1)"]
          word_index [OF t d(1) that] by simp
      have "tproduces out (?n enc') (enc', st) ([True, False] @ int_bits 6 (nat (base ?t - eB d))) () (enc', st)"
        if "qbase enc' = qbase enc + 1" for enc'
        unfolding Some DynamicE option.case Entry.case
        by (intro tproduces_onIO produces_bnd [OF instruction_bits(3)] idx that)
      moreover have "update_step ?c ?t (([True, False] @ int_bits 6 (nat (base ?t - eB d))) @ string_bits ?c 7 (Value ?h))
          (inserted (Name ?h) (Value ?h) ?t)" if "fits (Name ?h) (Value ?h) ?t"
        using insert_dynamic_name [OF d(1) str(2)] d(2) that by simp
      ultimately show ?thesis by blast
    qed
  qed
  then obtain bs where bs: "\<And>enc'. same_rest enc enc' \<Longrightarrow> qbase enc' = qbase enc + 1 \<Longrightarrow>
        tproduces out (?n enc') (enc', st) bs () (enc', st)"
    "fits (Name ?h) (Value ?h) ?t \<Longrightarrow> update_step ?c ?t (bs @ string_bits ?c 7 (Value ?h)) (inserted (Name ?h) (Value ?h) ?t)"
    by blast
  have "emits out (bnd (encoderInsert (Name ?h) (Value ?h)) (\<lambda>x. case x of None \<Rightarrow> ret () | Some e \<Rightarrow>
      bnd getT (\<lambda>(enc, st). bnd (?n enc) (\<lambda>_. bnd (onIO (WriteStringRaw ops (Value ?h) 7 (HuffmanPreference enc)))
        (\<lambda>_. record_match i (Some (DynamicE e)) None))))) {i} (enc, st)"
  proof (rule insert_emits [OF assms(1-5), of out _ "bs @ string_bits ?c 7 (Value ?h) @ []"], goal_cases)
    case (1 e enc')
    have "HuffmanPreference enc' = ?c" using 1(1) by (simp add: same_rest_def)
    with string_produces [OF str(2), of 7]
    have v: "produces out (WriteStringRaw ops (Value ?h) 7 (HuffmanPreference enc')) (string_bits ?c 7 (Value ?h)) ()"
      by simp
    show ?case
      by (rule tproduces_getT, unfold prod.case)
        (intro tproduces_bnd [OF bs(1) [OF 1]] tproduces_io [OF v] record_match_produces)
  next
    case 2
    from bs(2) [OF this] show ?case by simp
  qed
  then show ?thesis unfolding writeInsert_def by (intro emits_getT) (simp only: prod.case Let_def)
qed

end


lemma emits_ret:
  assumes "acked_ok enc" "call_ok (qcommon (qtable enc)) st"
  shows "emits out (ret ()) I (enc, st)"
  by (rule emitsI [OF tproduces_ret turn_ok_refl [OF assms]]) (rule updates_refl)

lemma emits_bnd:
  assumes "emits out m I s" "\<And>s'. turn_ok I s s' \<Longrightarrow> emits out (f ()) J s'"
  shows "emits out (bnd m f) (I \<union> J) s"
proof -
  from assms(1) obtain bs s1 where 1: "tproduces out m s bs () s1" "turn_ok I s s1"
    "updates (HuffmanPreference (fst s)) (qcommon (qtable (fst s))) bs (qcommon (qtable (fst s1)))"
    by (auto simp: emits_def)
  from assms(2) [OF 1(2)] obtain cs s2 where 2: "tproduces out (f ()) s1 cs () s2" "turn_ok J s1 s2"
    "updates (HuffmanPreference (fst s1)) (qcommon (qtable (fst s1))) cs (qcommon (qtable (fst s2)))"
    by (auto simp: emits_def)
  have "HuffmanPreference (fst s1) = HuffmanPreference (fst s)"
    using 1(2) by (auto simp: turn_ok_def same_rest_def split: prod.splits)
  with 2(3) 1(3) have "updates (HuffmanPreference (fst s)) (qcommon (qtable (fst s))) (bs @ cs) (qcommon (qtable (fst s2)))"
    by (auto intro: updates_trans)
  from emitsI [OF tproduces_bnd [where f = f, OF 1(1) 2(1)] turn_ok_trans [OF 1(2) 2(2)] this] show ?thesis .
qed

lemma bnd_ret: "bnd (ret x) f = f x"
  by (rule ext) simp

lemma record_match_turn:
  assumes "acked_ok enc" "call_ok (qcommon (qtable enc)) st" "i < length (headers st)" "entry_ref st i = None"
    "\<not> Sensitive (headers st ! i)"
    "\<forall>e. full = Some e \<longrightarrow> e \<in> qpack_entries (qcommon (qtable enc)) \<and>
       entryName e = Name (headers st ! i) \<and> entryValue e = Value (headers st ! i)"
    "\<forall>e. nm = Some e \<longrightarrow> e \<in> qpack_entries (qcommon (qtable enc)) \<and> entryName e = Name (headers st ! i)"
  shows "turn_ok {i} (enc, st) (enc, recordMatch i full nm st)"
proof -
  have t: "table_ok (qcommon (qtable enc))" using assms(1) by (simp add: acked_ok_def qtable_ok_def)
  have "call_ok (qcommon (qtable enc)) (recordMatch i full nm st)"
    by (rule recordMatch_induct)
      (use assms in \<open>auto intro!: call_ok_full [OF assms(2,3) t] call_ok_name [OF assms(2,3) t]\<close>)
  then show ?thesis using assms(1) by (simp add: turn_ok_def same_rest_def recordMatch_other)
qed

lemma record_match_emits:
  "turn_ok {i} (enc, st) (enc, recordMatch i full nm st) \<Longrightarrow> emits out (record_match i full nm) {i} (enc, st)"
  using emitsI [OF record_match_produces] by (simp add: updates_refl)

lemma record_match_then:
  assumes "turn_ok {i} (enc, st) (enc, recordMatch i full nm st)" "emits out m {i} (enc, recordMatch i full nm st)"
  shows "emits out (bnd (record_match i full nm) (\<lambda>_. m)) {i} (enc, st)"
proof -
  from assms(2) obtain bs s2 where 2: "tproduces out m (enc, recordMatch i full nm st) bs () s2"
    "turn_ok {i} (enc, recordMatch i full nm st) s2"
    "updates (HuffmanPreference enc) (qcommon (qtable enc)) bs (qcommon (qtable (fst s2)))"
    by (auto simp: emits_def)
  from emitsI [OF tproduces_bnd [OF record_match_produces 2(1)] turn_ok_trans [OF assms(1) 2(2)]] 2(3)
  show ?thesis by simp
qed

context reliable_sink
begin

lemma tableChange_emits:
  assumes "acked_ok enc" "call_ok (qcommon (qtable enc)) st" "i < length (headers st)" "entry_ref st i = None"
    "header_ok (HuffmanPreference enc) (headers st ! i)"
  shows "emits out (tableChange ops i) {i} (enc, st)"
proof -
  let ?h = "headers st ! i" and ?t = "qcommon (qtable enc)"
  have pass: "emits out (ret ()) {i} (enc, st)" by (rule emits_ret [OF assms(1,2)])
  show ?thesis
  proof (cases "Sensitive ?h")
    case True
    with pass show ?thesis unfolding tableChange_def by (intro emits_getT) simp
  next
    case False
    obtain full nm where lr: "LookupReferenceable (qtable enc) (Name ?h) (Value ?h) (maxBase st) = (full, nm)" by fastforce
    obtain dup inm where le: "LookupExtra (qtable enc) (Name ?h) (Value ?h) = (dup, inm)" by fastforce
    note sp = LookupReferenceable_spec [OF lr] and se = LookupExtra_spec [OF le]
    note turn = record_match_turn [OF assms(1-4) False]
    have rec: "emits out (record_match i full nm) {i} (enc, st)"
      using sp by (intro record_match_emits turn) auto
    have dupl: "emits out (writeDuplicate ops d i) {i} (enc, st)" if "dup = Some d" for d
      using se(2) [OF that] by (intro writeDuplicate_emits [OF assms(1-3) False assms(5)]) auto
    have ins: "emits out (bnd (if nm \<noteq> None then record_match i None nm else ret ()) (\<lambda>_.
        if p then writeInsert ops i (if nm \<noteq> None then nm else map_option DynamicE inm) else ret ())) {i} (enc, st)"
      if "dup = None" for p
    proof (cases nm)
      case None
      have "emits out (writeInsert ops i None) {i} (enc, st)"
        by (rule writeInsert_emits [OF assms(1-3) False assms(5)]) simp
      with None se(1) that pass show ?thesis by (simp add: bnd_ret)
    next
      case (Some e)
      let ?st = "recordMatch i None nm st"
      have tn: "turn_ok {i} (enc, st) (enc, ?st)" using sp by (intro turn) auto
      then have c: "call_ok ?t ?st" by (simp add: turn_ok_def)
      have "emits out (writeInsert ops i nm) {i} (enc, ?st)"
        using assms(3,5) False sp by (intro writeInsert_emits [OF assms(1) c]) auto
      then have "emits out (if p then writeInsert ops i nm else ret ()) {i} (enc, ?st)"
        using emits_ret [OF assms(1) c, of out] by simp
      from record_match_then [OF tn this] Some show ?thesis by (cases p) simp_all
    qed
    note body = prod.case Let_def lr le False if_False if_True option.case simp_thms
    show ?thesis
      unfolding tableChange_def
    proof (rule emits_getT, cases "full \<noteq> None \<or> LookupBlocked (qtable enc) (Name ?h) (Value ?h) (maxBase st)", goal_cases)
      case 1
      then show ?case using rec pass by (cases "full \<noteq> None") (simp_all only: body)
    next
      case 2
      then have no: "(full \<noteq> None) = False" "LookupBlocked (qtable enc) (Name ?h) (Value ?h) (maxBase st) = False" by simp_all
      show ?case
      proof (cases dup)
        case None
        from ins [OF None] show ?thesis by (simp only: body no None)
      next
        case (Some d)
        from dupl [OF Some] pass show ?thesis
          by (cases "eB d \<le> highestAcknowledged enc") (simp_all only: body no Some)
      qed
    qed
  qed
qed

lemma tableChanges_emits:
  assumes "acked_ok enc" "call_ok (qcommon (qtable enc)) st" "distinct is"
    "\<forall>i \<in> set is. i < length (headers st) \<and> entry_ref st i = None \<and>
       header_ok (HuffmanPreference enc) (headers st ! i)"
  shows "emits out (tableChanges ops is) (set is) (enc, st)"
  using assms
proof (induction "is" arbitrary: enc st)
  case Nil
  show ?case unfolding tableChanges.simps by (rule emits_ret [OF Nil.prems(1,2)])
next
  case (Cons i "is")
  have "emits out (bnd (tableChange ops i) (\<lambda>_. tableChanges ops is)) ({i} \<union> set is) (enc, st)"
  proof (rule emits_bnd)
    show "emits out (tableChange ops i) {i} (enc, st)"
      using Cons.prems by (intro tableChange_emits) auto
    fix s' assume t: "turn_ok {i} (enc, st) s'"
    obtain enc' st' where s': "s' = (enc', st')" by fastforce
    show "emits out (tableChanges ops is) (set is) s'"
      unfolding s' using Cons.prems t s'
      by (intro Cons.IH) (auto simp: turn_ok_def same_rest_def)
  qed
  then show ?case by simp
qed

end


section \<open>The header block\<close>

text \<open>
  The entries that the block refers to for a name only. Nothing protects them while the same
  block inserts entries, so the claims about the block require that they are still there.
\<close>

definition names_live :: "tableCommon \<Rightarrow> qpackWriterState \<Rightarrow> bool" where
  "names_live t st \<longleftrightarrow> (\<forall>i < length (headers st). \<forall>d. matches st ! i = None \<and> nameMatches st ! i = Some (DynamicE d) \<longrightarrow>
     d \<in> set (dynamic t))"

lemma entry_ref_live:
  assumes "call_ok t st" "names_live t st" "i < length (headers st)" "entry_ref st i = Some (DynamicE d)"
  shows "d \<in> set (dynamic t)"
  using assms by (auto simp: call_ok_def names_live_def entry_ref_def full_ok_def qpack_entries_def split: if_splits)

lemma largest_live:
  assumes "call_ok t st" "names_live t st" "table_ok t" "largestBase st \<noteq> 0"
  shows "32 \<le> unat (capacity t)" "base t < largestBase st + int (unat (capacity t) div 32)"
proof -
  obtain i d where "i < length (headers st)" "entry_ref st i = Some (DynamicE d)" "eB d = largestBase st"
    using assms(1,4) by (auto simp: call_ok_def)
  then have d: "d \<in> set (dynamic t)" "eB d = largestBase st" using entry_ref_live [OF assms(1,2)] by auto
  have "32 * length (dynamic t) \<le> unat (capacity t)"
    using assms(3) length_le_total [of "dynamic t"] by (simp add: table_ok_def word_le_nat_alt)
  then have len: "length (dynamic t) \<le> unat (capacity t) div 32" by simp
  moreover have "0 < length (dynamic t)" using d(1) by auto
  ultimately have "0 < unat (capacity t) div 32" by linarith
  then show "32 \<le> unat (capacity t)" by (simp add: div_greater_zero_iff)
  show "base t < largestBase st + int (unat (capacity t) div 32)"
    using table_ok_entry(2) [OF assms(3) d(1)] d(2) len by simp
qed

definition used_by :: "nat \<Rightarrow> QpackEncoder \<times> qpackWriterState \<Rightarrow> QpackEncoder \<times> qpackWriterState" where
  "used_by i = (\<lambda>(enc, st). (enc\<lparr>store := addUse i st (store enc)\<rparr>, st))"

lemma used_by_produces:
  "tproduces out (modifyT (\<lambda>(enc, st). (enc\<lparr>store := addUse i st (store enc)\<rparr>, st))) s [] () (used_by i s)"
  unfolding used_by_def by (rule tproduces_modifyT)

context reliable_sink
begin

lemma literal_bits:
  "produces out (WriteBits ops (2 OR (if s then 1 else 0)) 4) [False, False, True, s] ()"
  "produces out (WriteBits ops (4 OR push_bit 1 (if s then 1 else 0)) 4) [False, True, s, False] ()"
  "produces out (WriteBits ops (5 OR push_bit 1 (if s then 1 else 0)) 4) [False, True, s, True] ()"
  using WriteBits_produces [of 4 2] WriteBits_produces [of 4 3] WriteBits_produces [of 4 4]
    WriteBits_produces [of 4 6] WriteBits_produces [of 4 5] WriteBits_produces [of 4 7]
  by (cases s; simp add: bits_def upt_conv_Cons take_bit_eq_mod bit_numeral_rec)+

lemma relative_index_produces:
  assumes "0 \<le> b - eB d" "b - eB d \<le> intMax" "1 \<le> n" "n \<le> 8"
  shows "produces out (WriteInt ops (word_of_int (entryIndex d b)) n) (int_bits n (nat (b - eB d))) ()"
  using WriteInt_produces [OF assms(3,4), of "word_of_int (b - eB d)"] assms(1,2) unat_of_int [of "b - eB d"]
  by (simp add: entryIndex_def intMax_def)

lemma static_index_produces:
  assumes "s \<in> set qpackStaticTable" "1 \<le> n" "n \<le> 8"
  obtains k where "k < 99" "qpackStaticTable ! k = s"
    "\<And>t. produces out (WriteInt ops (word_of_int (QpackIndex t (StaticE s))) n) (int_bits n k) ()"
proof -
  obtain k where k: "k < 99" "qpackStaticTable ! k = s" using assms(1) by (auto simp: in_set_conv_nth)
  then have "unat (word_of_int (QpackIndex t (StaticE s)) :: u64) = k" for t
    using sindex_qpack [OF k(1)] by (simp add: unat_of_nat)
  with WriteInt_produces [OF assms(2,3)] have
    "produces out (WriteInt ops (word_of_int (QpackIndex t (StaticE s))) n) (int_bits n k) ()" for t
    by metis
  with k show thesis by (rule that)
qed

lemma qwriteIndexed_produces:
  assumes "full_ok t st h e" "matches st ! i = Some e" "largestBase st \<le> intMax" "table_ok t" "h = headers st ! i"
  shows "\<exists>bs. tproduces out (qwriteIndexed ops i) (enc, st) bs () (used_by i (enc, st)) \<and>
    field_line c t (largestBase st) bs h"
proof (cases e)
  case (StaticE s)
  with assms(1) have "s \<in> set qpackStaticTable" by (auto simp: full_ok_def qpack_entries_def)
  from static_index_produces [OF this, of 6] obtain k where k: "k < 99" "qpackStaticTable ! k = s"
    "\<And>t. produces out (WriteInt ops (word_of_int (QpackIndex t (StaticE s))) 6) (int_bits 6 k) ()" by auto
  have idx: "produces out (bnd (WriteBits ops 3 2) (\<lambda>_.
      WriteInt ops (word_of_int (QpackIndex (qcommon (qtable enc)) (StaticE s))) 6)) ([True, True] @ int_bits 6 k) ()"
    by (intro produces_bnd [OF instruction_bits(4)] k(3))
  have "tproduces out (qwriteIndexed ops i) (enc, st) (([True, True] @ int_bits 6 k) @ []) () (used_by i (enc, st))"
    unfolding qwriteIndexed_def
    by (rule tproduces_getT)
      (simp only: prod.case assms(2) StaticE option.case Entry.case,
        intro tproduces_io [OF idx] used_by_produces)
  moreover have "field_line c t (largestBase st) ([True, True] @ int_bits 6 k) h"
    using indexed_static [OF k(1), of c t "largestBase st"] k(2) assms(1) StaticE
    by (cases h) (simp add: full_ok_def)
  ultimately show ?thesis by auto
next
  case (DynamicE d)
  let ?b = "largestBase st"
  have d: "d \<in> set (dynamic t)" "eB d \<le> ?b" "0 < eB d"
    using assms(1,4) DynamicE table_ok_entry(4) [of t d] by (auto simp: full_ok_def qpack_entries_def)
  have "produces out (WriteInt ops (word_of_int (entryIndex d ?b)) 6) (int_bits 6 (nat (?b - eB d))) ()"
    using d assms(3) by (intro relative_index_produces) simp_all
  then have idx: "produces out (bnd (WriteBits ops 2 2) (\<lambda>_. WriteInt ops (word_of_int (entryIndex d ?b)) 6))
      ([True, False] @ int_bits 6 (nat (?b - eB d))) ()"
    by (intro produces_bnd [OF instruction_bits(3)])
  have pos: "(entryIndex d ?b < 0) = False" using d by (simp add: entryIndex_def)
  have "tproduces out (qwriteIndexed ops i) (enc, st) (([True, False] @ int_bits 6 (nat (?b - eB d))) @ []) () (used_by i (enc, st))"
    unfolding qwriteIndexed_def
    by (rule tproduces_getT)
      (simp only: prod.case assms(2) DynamicE option.case Entry.case Let_def pos if_False,
        intro tproduces_io [OF idx] used_by_produces)
  moreover have "field_line c t ?b ([True, False] @ int_bits 6 (nat (?b - eB d))) h"
    using indexed_dynamic [OF d(1,2), of c] assms(1) DynamicE by (cases h) (simp add: full_ok_def)
  ultimately show ?thesis by auto
qed

lemma qwriteLiteral_produces:
  assumes "\<forall>e. nameMatches st ! i = Some e \<longrightarrow> name_ok st h e \<and> (\<forall>d. e = DynamicE d \<longrightarrow> d \<in> set (dynamic t))"
    "largestBase st \<le> intMax" "h = headers st ! i" "header_ok c h" "c = HuffmanPreference enc"
  shows "\<exists>bs. tproduces out (qwriteLiteral ops i) (enc, st) bs () (used_by i (enc, st)) \<and>
    field_line c t (largestBase st) bs h"
proof -
  let ?b = "largestBase st"
  let ?s = "if Sensitive h then 1 else 0 :: u64"
  let ?n = "case nameMatches st ! i of
      Some nameMatch \<Rightarrow> writeLiteralNameReference ops enc st ?s nameMatch
    | None \<Rightarrow> bnd (WriteBits ops (2 OR ?s) 4) (\<lambda>_. WriteStringRaw ops (Name h) 3 (HuffmanPreference enc))"
  have str: "string_ok c (Name h)" "string_ok c (Value h)" using assms(4) by (simp_all add: header_ok_def)
  have "\<exists>bs. produces out ?n bs () \<and> field_line c t ?b (bs @ string_bits c 7 (Value h)) h"
  proof (cases "nameMatches st ! i")
    case None
    have "produces out ?n ([False, False, True, Sensitive h] @ string_bits c 3 (Name h)) ()"
      unfolding None option.case assms(5)
      by (intro produces_bnd [OF literal_bits(1)] string_produces str [unfolded assms(5)]) simp_all
    moreover have "field_line c t ?b (([False, False, True, Sensitive h] @ string_bits c 3 (Name h)) @ string_bits c 7 (Value h)) h"
      using literal_name [OF str, of t ?b "Sensitive h"] by (cases h) simp
    ultimately show ?thesis by blast
  next
    case (Some e)
    show ?thesis
    proof (cases e)
      case (StaticE s)
      then have s: "s \<in> set qpackStaticTable" "sname s = Name h" using assms(1) Some by (auto simp: name_ok_def)
      from static_index_produces [OF s(1), of 4] obtain k where k: "k < 99" "qpackStaticTable ! k = s"
        "\<And>t. produces out (WriteInt ops (word_of_int (QpackIndex t (StaticE s))) 4) (int_bits 4 k) ()" by auto
      have "produces out ?n ([False, True, Sensitive h, True] @ int_bits 4 k) ()"
        unfolding Some StaticE option.case writeLiteralNameReference.simps
        by (intro produces_bnd [OF literal_bits(3)] k(3))
      moreover have "field_line c t ?b (([False, True, Sensitive h, True] @ int_bits 4 k) @ string_bits c 7 (Value h)) h"
        using literal_static_name [OF k(1) str(2), of t ?b "Sensitive h"] k(2) s(2) by (cases h) simp
      ultimately show ?thesis by blast
    next
      case (DynamicE d)
      then have d: "d \<in> set (dynamic t)" "eN d = Name h" "0 < eB d" "eB d \<le> ?b"
        using assms(1) Some by (auto simp: name_ok_def)
      have idx: "produces out (WriteInt ops (word_of_int (entryIndex d ?b)) 4) (int_bits 4 (nat (?b - eB d))) ()"
        using d assms(2) by (intro relative_index_produces) simp_all
      have pos: "(entryIndex d ?b < 0) = False" using d by (simp add: entryIndex_def)
      have "produces out ?n ([False, True, Sensitive h, False] @ int_bits 4 (nat (?b - eB d))) ()"
        unfolding Some DynamicE option.case writeLiteralNameReference.simps Let_def pos if_False
        by (intro produces_bnd [OF literal_bits(2)] idx)
      moreover have "field_line c t ?b (([False, True, Sensitive h, False] @ int_bits 4 (nat (?b - eB d))) @ string_bits c 7 (Value h)) h"
        using literal_dynamic_name [OF d(1,4) str(2), of "Sensitive h"] d(2) by (cases h) simp
      ultimately show ?thesis by blast
    qed
  qed
  then obtain bs where bs: "produces out ?n bs ()" "field_line c t ?b (bs @ string_bits c 7 (Value h)) h" by blast
  have v: "produces out (WriteStringRaw ops (Value h) 7 (HuffmanPreference enc)) (string_bits c 7 (Value h)) ()"
    using string_produces [OF str(2), of 7] assms(5) by simp
  have "tproduces out (qwriteLiteral ops i) (enc, st) (bs @ string_bits c 7 (Value h) @ []) () (used_by i (enc, st))"
    unfolding qwriteLiteral_def
    by (rule tproduces_getT)
      (simp only: prod.case Let_def assms(3) [symmetric],
        intro tproduces_io [OF bs(1)] tproduces_io [OF v] used_by_produces)
  with bs(2) show ?thesis by auto
qed

end


lemma fold_used_by: "fold used_by is (enc, st) = (enc\<lparr>store := fold (\<lambda>i. addUse i st) is (store enc)\<rparr>, st)"
  by (induction "is" arbitrary: enc) (simp_all add: used_by_def)

lemma acked_ok_cong:
  "qtable enc' = qtable enc \<Longrightarrow> unacknowledgedSize enc' = unacknowledgedSize enc \<Longrightarrow>
     highestAcknowledged enc' = highestAcknowledged enc \<Longrightarrow> acked_ok enc' = acked_ok enc"
  by (simp add: acked_ok_def unacked_def)

lemma encodeLargestReference_live:
  assumes "call_ok t st" "names_live t st" "table_ok t"
  shows "encodeLargestReference (capacity t) (largestBase st) =
    Inr (if largestBase st = 0 then 0 else word_of_int (largestBase st) mod (2 * (capacity t div 32)) + 1)"
proof (cases "largestBase st = 0")
  case False
  from largest_live(1) [OF assms False] have m: "0 < unat (capacity t) div 32" "unat (capacity t) div 32 < 2 ^ 60"
    using unat_u64 [of "capacity t"] by (simp_all add: div_greater_zero_iff)
  have "unat (2 * (capacity t div 32)) = 2 * (unat (capacity t) div 32)"
    using m(2) by (simp add: unat_word_ariths unat_div)
  then have "2 * (capacity t div 32) \<noteq> 0" using m(1) by (metis mult_eq_0_iff neq0_conv unat_0 zero_neq_numeral)
  with False show ?thesis by (simp add: encodeLargestReference_def Let_def)
qed (simp add: encodeLargestReference_def)

context reliable_sink
begin

lemma qwriteField_produces:
  assumes "call_ok t st" "names_live t st" "table_ok t" "largestBase st \<le> intMax" "c = HuffmanPreference enc"
    "i < length (headers st)" "header_ok c (headers st ! i)"
  shows "\<exists>bs. tproduces out (qwriteField ops i) (enc, st) bs () (used_by i (enc, st)) \<and>
    field_line c t (largestBase st) bs (headers st ! i)"
proof (cases "matches st ! i")
  case (Some e)
  have "full_ok t st (headers st ! i) e" using assms(1,6) Some by (simp add: call_ok_def)
  from qwriteIndexed_produces [OF this Some assms(4,3) refl, of enc c] Some show ?thesis
    unfolding qwriteField_def by (auto intro!: tproduces_getT)
next
  case None
  have "\<forall>e. nameMatches st ! i = Some e \<longrightarrow> name_ok st (headers st ! i) e \<and> (\<forall>d. e = DynamicE d \<longrightarrow> d \<in> set (dynamic t))"
    using assms(1,2,6) None by (auto simp: call_ok_def names_live_def)
  from qwriteLiteral_produces [OF this assms(4) refl assms(7,5)] None show ?thesis
    unfolding qwriteField_def by (auto intro!: tproduces_getT)
qed

lemma qwriteFields_produces:
  assumes "call_ok t st" "names_live t st" "table_ok t" "largestBase st \<le> intMax" "c = HuffmanPreference enc"
    "\<forall>i \<in> set is. i < length (headers st) \<and> header_ok c (headers st ! i)"
  shows "\<exists>bs. tproduces out (qwriteFields ops is) (enc, st) bs () (fold used_by is (enc, st)) \<and>
    field_lines c t (largestBase st) bs (map (\<lambda>i. headers st ! i) is)"
  using assms(5,6)
proof (induction "is" arbitrary: enc)
  case Nil
  show ?case
    by (intro exI [of _ "[]"] conjI) (simp_all only: qwriteFields.simps fold_simps tproduces_ret list.map lines_Nil)
next
  case (Cons i "is")
  obtain bs where 1: "tproduces out (qwriteField ops i) (enc, st) bs () (used_by i (enc, st))"
    "field_line c t (largestBase st) bs (headers st ! i)"
    using qwriteField_produces [OF assms(1-4) Cons.prems(1)] Cons.prems(2) by auto
  obtain enc' where u: "used_by i (enc, st) = (enc', st)" "HuffmanPreference enc' = HuffmanPreference enc"
    by (simp add: used_by_def)
  from Cons.IH [of enc'] Cons.prems u(2) obtain cs where 2:
    "tproduces out (qwriteFields ops is) (enc', st) cs () (fold used_by is (enc', st))"
    "field_lines c t (largestBase st) cs (map (\<lambda>i. headers st ! i) is)" by auto
  have "tproduces out (qwriteFields ops (i # is)) (enc, st) (bs @ cs) () (fold used_by (i # is) (enc, st))"
    unfolding qwriteFields.simps using 1(1) 2(1) u(1) by (intro tproduces_bnd [OF 1(1)]) simp
  with lines_Cons [OF 1(2) 2(2)] show ?case by auto
qed

lemma writeHeaderBlock_produces:
  assumes "call_ok t st" "names_live t st" "table_ok t" "base t \<le> intMax" "c = HuffmanPreference enc"
    "t = qcommon (qtable enc)" "\<forall>h \<in> set (headers st). header_ok c h"
  shows "\<exists>bs lr. tproduces out (writeHeaderBlock ops) (enc, st) (int_bits 8 (unat lr) @ int_bits 8 0 @ bs) ()
      (fold used_by [0..<length (headers st)] (enc, st)) \<and>
    encodeLargestReference (capacity t) (largestBase st) = Inr lr \<and>
    field_lines c t (largestBase st) bs (headers st)"
proof -
  have le: "largestBase st \<le> intMax" using assms(1,4) by (auto simp: call_ok_def)
  obtain lr where lr: "encodeLargestReference (capacity t) (largestBase st) = Inr lr"
    using encodeLargestReference_live [OF assms(1-3)] by simp
  from qwriteFields_produces [OF assms(1-3) le assms(5), of "[0..<length (headers st)]"] assms(7)
  obtain bs where bs: "tproduces out (qwriteFields ops [0..<length (headers st)]) (enc, st) bs ()
      (fold used_by [0..<length (headers st)] (enc, st))"
    "field_lines c t (largestBase st) bs (headers st)" by (auto simp: map_nth)
  have "produces out (WriteInt ops 0 8) (int_bits 8 0) ()"
    using WriteInt_produces [of 8 0] by simp
  then have "tproduces out (writeHeaderBlock ops) (enc, st) (int_bits 8 (unat lr) @ int_bits 8 0 @ bs) ()
      (fold used_by [0..<length (headers st)] (enc, st))"
    unfolding writeHeaderBlock_def
    by (intro tproduces_getT)
      (simp only: prod.case lr [unfolded assms(6)] sum.case,
        intro tproduces_io [OF WriteInt_produces] tproduces_io bs(1), simp_all)
  with lr bs(2) show ?thesis by blast
qed

lemma writeTableChanges_emits:
  assumes "acked_ok enc" "\<forall>h \<in> set (headers (initHeaders uni hs)). header_ok (HuffmanPreference enc) h"
  shows "\<exists>bs enc' st'. tproduces out (writeTableChanges ops i) (enc, initHeaders uni hs) bs () (enc', st') \<and>
    updates (HuffmanPreference enc) (qcommon (qtable enc)) bs (qcommon (qtable enc')) \<and>
    acked_ok enc' \<and> qcapacity enc' = qcapacity enc \<and> call_ok (qcommon (qtable enc')) st' \<and>
    headers st' = headers (initHeaders uni hs) \<and> HuffmanPreference enc' = HuffmanPreference enc \<and>
    highestAcknowledged enc' = highestAcknowledged enc \<and> uses st' = nextBlock (store enc) \<and>
    store enc' = snd (newBlock (store enc)) \<and>
    (let ut = snd (trackerGet i (usage enc)) in usage enc' =
       (if largestBase st' > 0 then AList.update i (streamAdd (uses st') (fst (trackerGet i ut))) ut else ut))"
proof -
  let ?st0 = "initHeaders uni hs" and ?t = "qcommon (qtable enc)"
  obtain enc1 st1 where s1: "setupCall i (enc, ?st0) = (enc1, st1)" by fastforce
  then have e1: "qtable enc1 = qtable enc" "HuffmanPreference enc1 = HuffmanPreference enc"
    "highestAcknowledged enc1 = highestAcknowledged enc" "store enc1 = snd (newBlock (store enc))"
    "usage enc1 = snd (trackerGet i (usage enc))" "unacknowledgedSize enc1 = unacknowledgedSize enc"
    "uses st1 = nextBlock (store enc)" "headers st1 = headers ?st0" "matches st1 = matches ?st0"
    "nameMatches st1 = nameMatches ?st0" "largestBase st1 = 0"
    by (auto simp: setupCall_def setupUsage_def Let_def newBlock_def initHeaders_def split: prod.splits)
  have len: "length (headers ?st0) = length hs" "matches ?st0 = replicate (length hs) None"
    "nameMatches ?st0 = replicate (length hs) None" by (simp_all add: initHeaders_def)
  have a1: "acked_ok enc1" using assms(1) acked_ok_cong [OF e1(1,6,3)] by simp
  have "0 \<le> base ?t" using assms(1) by (auto simp: acked_ok_def qtable_ok_def table_ok_def)
  then have c1: "call_ok (qcommon (qtable enc1)) st1" using e1 len by (simp add: call_ok_def)
  have "emits out (tableChanges ops [0..<length (headers st1)]) (set [0..<length (headers st1)]) (enc1, st1)"
    using assms(2) e1 len by (intro tableChanges_emits [OF a1 c1]) (auto simp: entry_ref_def)
  then obtain bs enc2 st2 where 2: "tproduces out (tableChanges ops [0..<length (headers st1)]) (enc1, st1) bs () (enc2, st2)"
    "turn_ok (set [0..<length (headers st1)]) (enc1, st1) (enc2, st2)"
    "updates (HuffmanPreference enc1) ?t bs (qcommon (qtable enc2))"
    using e1(1) unfolding emits_def by auto
  obtain enc3 st3 where s3: "finishCall i (enc2, st2) = (enc3, st3)" by fastforce
  have st3: "st3 = st2" "qtable enc3 = qtable enc2" "HuffmanPreference enc3 = HuffmanPreference enc2"
    "highestAcknowledged enc3 = highestAcknowledged enc2" "store enc3 = store enc2"
    "unacknowledgedSize enc3 = unacknowledgedSize enc2"
    "usage enc3 = (if largestBase st2 > 0 then AList.update i (streamAdd (uses st2) (fst (trackerGet i (usage enc2)))) (usage enc2) else usage enc2)"
    using s3 by (auto simp: finishCall_def Let_def split: if_splits)
  have "tproduces out (writeTableChanges ops i) (enc, ?st0) ([] @ bs @ []) () (enc3, st3)"
    unfolding writeTableChanges_def
    by (rule tproduces_bnd [OF tproduces_modifyT], unfold s1, rule tproduces_getT, unfold prod.case,
        rule tproduces_bnd [OF 2(1)], rule tproduces_modifyT [of out "finishCall i" "(enc2, st2)", unfolded s3])
  moreover have "acked_ok enc3"
    using 2(2) acked_ok_cong [OF st3(2,6,4)] by (simp add: turn_ok_def)
  moreover have "qcapacity enc3 = qcapacity enc \<and> call_ok (qcommon (qtable enc3)) st3 \<and>
      headers st3 = headers ?st0 \<and> HuffmanPreference enc3 = HuffmanPreference enc \<and>
      highestAcknowledged enc3 = highestAcknowledged enc \<and> uses st3 = nextBlock (store enc) \<and>
      store enc3 = snd (newBlock (store enc))"
    using 2(2) e1 st3 by (simp add: turn_ok_def same_rest_def)
  moreover have "usage enc2 = snd (trackerGet i (usage enc))"
    using 2(2) e1 by (simp add: turn_ok_def same_rest_def)
  ultimately show ?thesis
    using 2(3) e1(2) st3 by (intro exI [of _ bs] exI [of _ enc3] exI [of _ st3]) (simp add: Let_def)
qed

end

end
