(* ===== verification/QpackDecoder.thy ===== *)
theory QpackDecoder
  imports QpackWire
begin

text \<open>
  The QPACK decoder: \<open>src/hc/qpackdecoder.go\<close>. A decoder is its table and what it has sent on
  its three channels, in order; the goroutine that serves the channels is one function per turn
  of its loop. Waiting for an entry that has not arrived is the outcome \<open>Blocked\<close>.
\<close>

section \<open>Acknowledgments\<close>

text \<open>What the goroutine \<open>writeAcknowledgements\<close> can receive in its \<open>select\<close>.\<close>

datatype ackEvent =
    Acknowledged u64 int
  | Cancelled u64
  | Available int
  | AvailableClosed
  | Tss

record QpackDecoder =
  dtable :: tableCommon
  sent :: "ackEvent list"

definition NewQpackDecoder :: "u64 \<Rightarrow> QpackDecoder" where
  "NewQpackDecoder c = \<lparr>dtable = NewQpackDecoderTable c, sent = []\<rparr>"

definition send :: "ackEvent \<Rightarrow> QpackDecoder \<Rightarrow> QpackDecoder" where
  "send ev d = d\<lparr>sent := sent d @ [ev]\<rparr>"

record ackState =
  largestAcknowledged :: int
  syncLargest :: int
  delayTss :: bool

definition initAckState :: ackState where
  "initAckState = \<lparr>largestAcknowledged = 0, syncLargest = 0, delayTss = True\<rparr>"

text \<open>One turn of the loop; the result says whether the loop goes on.\<close>

definition writeAcknowledgement :: "'w snk_ops \<Rightarrow> ackEvent \<Rightarrow> (ackState \<times> 'w bitWriter, bool) io" where
  "writeAcknowledgement ops ev =
     (case ev of
        Acknowledged i largestReference \<Rightarrow>
          bnd (modifyT (\<lambda>s. s\<lparr>largestAcknowledged := largestReference\<rparr>)) (\<lambda>_.
          onIO (bnd (WriteBit ops 1) (\<lambda>_. bnd (WriteInt ops i 7) (\<lambda>_. ret True))))
      | Cancelled i \<Rightarrow>
          onIO (bnd (WriteBits ops 1 2) (\<lambda>_. bnd (WriteInt ops i 6) (\<lambda>_. ret True)))
      | AvailableClosed \<Rightarrow> ret False
      | Available entry \<Rightarrow>
          bnd (modifyT (\<lambda>s. if syncLargest s < entry
                 then s\<lparr>syncLargest := entry, delayTss := False\<rparr> else s)) (\<lambda>_. ret True)
      | Tss \<Rightarrow>
          bnd (modifyT (\<lambda>s. s\<lparr>delayTss := True\<rparr>)) (\<lambda>_.
          bnd getT (\<lambda>s.
            if syncLargest s \<le> largestAcknowledged s then ret True
            else
              bnd (modifyT (\<lambda>s. s\<lparr>largestAcknowledged := syncLargest s\<rparr>)) (\<lambda>_.
              onIO (bnd (WriteBits ops 0 2) (\<lambda>_.
                bnd (WriteInt ops (word_of_int (syncLargest s - largestAcknowledged s)) 6) (\<lambda>_. ret True)))))))"

text \<open>The loop over the events, in the order in which \<open>select\<close> takes them; an error ends it.\<close>

fun writeAcknowledgements :: "'w snk_ops \<Rightarrow> ackEvent list \<Rightarrow> (ackState \<times> 'w bitWriter, unit) io" where
  "writeAcknowledgements ops [] = ret ()"
| "writeAcknowledgements ops (ev # evs) =
     bnd (writeAcknowledgement ops ev) (\<lambda>on. if on then writeAcknowledgements ops evs else ret ())"

section \<open>Table updates\<close>

type_synonym 'r qpack_dec = "QpackDecoder \<times> 'r bitReader"

text \<open>
  An insert that fails would make \<open>added.Base()\<close> a nil dereference.
\<close>

definition insertAvailable :: "string \<Rightarrow> string \<Rightarrow> (QpackDecoder \<times> 'r, unit) io" where
  "insertAvailable n v s =
     (case s of (d, r) \<Rightarrow>
        (case QpackDecoderInsert n v (dtable d) of
           (None, t) \<Rightarrow> (Inl (Panic ''nil dereference''), (d\<lparr>dtable := t\<rparr>, r))
         | (Some entry, t) \<Rightarrow> (Inr (), (send (Available (eB entry)) (d\<lparr>dtable := t\<rparr>), r))))"

definition readValueAndInsert :: "'r src_ops \<Rightarrow> string \<Rightarrow> ('r qpack_dec, unit) io" where
  "readValueAndInsert ops name =
     bnd (onIO (ReadString ops 7)) (\<lambda>value.
     bnd getT (\<lambda>d.
       if 32 + word_of_nat (length name + length value) > capacity (dtable d) then throw ErrTableOverflow
       else insertAvailable name value))"

definition readInsertWithNameReference :: "'r src_ops \<Rightarrow> int \<Rightarrow> ('r qpack_dec, unit) io" where
  "readInsertWithNameReference ops b =
     bnd (onIO (ReadBit ops)) (\<lambda>static.
     bnd (onIO (ReadIndex ops 6)) (\<lambda>nameIndex.
     bnd getT (\<lambda>d.
       case (if static \<noteq> 0 then QpackGetStatic nameIndex
             else map_option DynamicE (GetDynamic (dtable d) nameIndex b)) of
         None \<Rightarrow> throw ErrIndexError
       | Some nameEntry \<Rightarrow> readValueAndInsert ops (entryName nameEntry))))"

definition readInsertWithNameLiteral :: "'r src_ops \<Rightarrow> ('r qpack_dec, unit) io" where
  "readInsertWithNameLiteral ops =
     bnd (onIO (ReadString ops 5)) (\<lambda>name. readValueAndInsert ops name)"

definition readDuplicate :: "'r src_ops \<Rightarrow> int \<Rightarrow> ('r qpack_dec, unit) io" where
  "readDuplicate ops b =
     bnd (onIO (ReadIndex ops 5)) (\<lambda>index.
     bnd getT (\<lambda>d.
       case GetDynamic (dtable d) index b of
         None \<Rightarrow> throw ErrIndexError
       | Some entry \<Rightarrow> insertAvailable (eN entry) (eV entry)))"

definition readDynamicUpdate :: "'r src_ops \<Rightarrow> ('r qpack_dec, unit) io" where
  "readDynamicUpdate ops =
     bnd (onIO (ReadInt ops 5)) (\<lambda>c. modifyT (\<lambda>d. d\<lparr>dtable := SetCapacity c (dtable d)\<rparr>))"

text \<open>One turn of the loop; \<open>False\<close> leaves it at the end of the input.\<close>

definition readUpdate :: "'r src_ops \<Rightarrow> ('r qpack_dec, bool) io" where
  "readUpdate ops s =
     (let b0 = base (dtable (fst s)) in
      case onIO (ReadBit ops) s of
        (Inl e, s') \<Rightarrow> if e = EOF then (Inr False, s') else (Inl e, s')
      | (Inr b, s') \<Rightarrow>
          (if b = 1 then bnd (readInsertWithNameReference ops b0) (\<lambda>_. ret True)
           else
             bnd (onIO (ReadBit ops)) (\<lambda>b.
               if b = 1 then bnd (readInsertWithNameLiteral ops) (\<lambda>_. ret True)
               else
                 bnd (onIO (ReadBit ops)) (\<lambda>b.
                   bnd (if b = 1 then readDynamicUpdate ops else readDuplicate ops b0) (\<lambda>_. ret True)))) s')"

partial_function (option) updatesLoop ::
  "'r src_ops \<Rightarrow> 'r qpack_dec \<Rightarrow> ((goerr + unit) \<times> 'r qpack_dec) option" where
  "updatesLoop ops s =
     (case readUpdate ops s of
        (Inl e, s') \<Rightarrow> Some (Inl e, s')
      | (Inr again, s') \<Rightarrow> if again then updatesLoop ops s' else Some (Inr (), s'))"

declare updatesLoop.simps [code]

definition ReadTableUpdates :: "'r src_ops \<Rightarrow> QpackDecoder \<Rightarrow> 'r \<Rightarrow> ((goerr + unit) \<times> QpackDecoder \<times> 'r) option" where
  "ReadTableUpdates ops d r =
     map_option (\<lambda>(x, (d', br)). (x, d', reader br)) (updatesLoop ops (d, NewBitReader r))"

section \<open>Header blocks\<close>

definition headerOf :: "Entry option \<Rightarrow> ('s, HeaderField) io" where
  "headerOf entry =
     (case entry of
        None \<Rightarrow> throw ErrIndexError
      | Some e \<Rightarrow> ret \<lparr>Name = entryName e, Value = entryValue e, Sensitive = False\<rparr>)"

definition qreadIndexed :: "'r src_ops \<Rightarrow> int \<Rightarrow> ('r qpack_dec, HeaderField) io" where
  "qreadIndexed ops b =
     bnd (onIO (ReadBit ops)) (\<lambda>static.
     bnd (onIO (ReadIndex ops 6)) (\<lambda>index.
     bnd getT (\<lambda>d.
       headerOf (if static = 1 then QpackGetStatic index
                 else map_option DynamicE (GetDynamic (dtable d) index b)))))"

definition readPostBaseIndexed :: "'r src_ops \<Rightarrow> int \<Rightarrow> ('r qpack_dec, HeaderField) io" where
  "readPostBaseIndexed ops b =
     bnd (onIO (ReadIndex ops 4)) (\<lambda>postBase.
     bnd getT (\<lambda>d. headerOf (map_option DynamicE (GetDynamic (dtable d) (-1 - postBase) b))))"

definition literalOf :: "'r src_ops \<Rightarrow> byte \<Rightarrow> Entry option \<Rightarrow> ('r qpack_dec, HeaderField) io" where
  "literalOf ops neverIndex nameEntry =
     (case nameEntry of
        None \<Rightarrow> throw ErrIndexError
      | Some e \<Rightarrow>
          bnd (onIO (ReadString ops 7)) (\<lambda>value.
            ret \<lparr>Name = entryName e, Value = value, Sensitive = neverIndex = 1\<rparr>))"

definition readLiteralWithNameReference :: "'r src_ops \<Rightarrow> int \<Rightarrow> ('r qpack_dec, HeaderField) io" where
  "readLiteralWithNameReference ops b =
     bnd (onIO (ReadBit ops)) (\<lambda>neverIndex.
     bnd (onIO (ReadBit ops)) (\<lambda>static.
     bnd (onIO (ReadIndex ops 4)) (\<lambda>nameIndex.
     bnd getT (\<lambda>d.
       literalOf ops neverIndex
         (if static = 1 then QpackGetStatic nameIndex
          else map_option DynamicE (GetDynamic (dtable d) nameIndex b))))))"

text \<open>The index is \<open>-1*postBase\<close>, where \<open>readPostBaseIndexed\<close> has \<open>-1-postBase\<close>.\<close>

definition readLiteralWithPostBaseNameReference :: "'r src_ops \<Rightarrow> int \<Rightarrow> ('r qpack_dec, HeaderField) io" where
  "readLiteralWithPostBaseNameReference ops b =
     bnd (onIO (ReadBit ops)) (\<lambda>neverIndex.
     bnd (onIO (ReadIndex ops 3)) (\<lambda>postBase.
     bnd getT (\<lambda>d.
       literalOf ops neverIndex (map_option DynamicE (GetDynamic (dtable d) (-1 * postBase) b)))))"

definition readLiteralWithNameLiteral :: "'r src_ops \<Rightarrow> ('r qpack_dec, HeaderField) io" where
  "readLiteralWithNameLiteral ops =
     bnd (onIO (ReadBit ops)) (\<lambda>neverIndex.
     bnd (onIO (ReadString ops 3)) (\<lambda>name.
     bnd (onIO (ReadString ops 7)) (\<lambda>value.
       ret \<lparr>Name = name, Value = value, Sensitive = neverIndex = 1\<rparr>)))"

text \<open>
  The arithmetic is on \<open>uint64\<close> and wraps around; a division by zero is a run-time panic.
\<close>

definition decodeLargestBase :: "tableCommon \<Rightarrow> u64 \<Rightarrow> goerr + int" where
  "decodeLargestBase t lrRaw =
     (if lrRaw = 0 then Inr 0
      else
        (let maxEntries = capacity t div 32;
             fullRange = maxEntries * 2;
             maxValue = word_of_int (base t) + maxEntries
         in if fullRange = 0 then Inl (Panic ''integer divide by zero'')
            else
              (let rounded = maxValue div fullRange * fullRange;
                   largestReference = rounded + lrRaw - 1
               in Inr (sint (if largestReference > maxValue \<and> largestReference \<ge> fullRange
                             then largestReference - fullRange else largestReference)))))"

definition readBase :: "'r src_ops \<Rightarrow> ('r qpack_dec, int \<times> int) io" where
  "readBase ops =
     bnd (onIO (ReadInt ops 8)) (\<lambda>lrRaw.
     bnd getT (\<lambda>d.
       case decodeLargestBase (dtable d) lrRaw of
         Inl e \<Rightarrow> throw e
       | Inr largest \<Rightarrow>
           (case WaitForEntry largest (dtable d) of
              Some e \<Rightarrow> throw e
            | None \<Rightarrow>
                bnd (onIO (ReadBit ops)) (\<lambda>sign.
                bnd (onIO (ReadIndex ops 7)) (\<lambda>delta.
                  if sign = 1 \<and> delta = 0 then throw ErrInvalidDelta
                  else ret (largest, s64 (largest + delta * (1 - 2 * uint sign))))))))"

definition readFieldLine :: "'r src_ops \<Rightarrow> int \<Rightarrow> ('r qpack_dec, HeaderField option) io" where
  "readFieldLine ops b0 s =
     (case onIO (ReadBit ops) s of
        (Inl e, s') \<Rightarrow> if e = EOF then (Inr None, s') else (Inl e, s')
      | (Inr b, s') \<Rightarrow>
          (if b = 1 then bnd (qreadIndexed ops b0) (\<lambda>h. ret (Some h))
           else
             bnd (onIO (ReadBit ops)) (\<lambda>b.
               if b = 1 then bnd (readLiteralWithNameReference ops b0) (\<lambda>h. ret (Some h))
               else
                 bnd (onIO (ReadBit ops)) (\<lambda>b.
                   if b = 1 then bnd (readLiteralWithNameLiteral ops) (\<lambda>h. ret (Some h))
                   else
                     bnd (onIO (ReadBit ops)) (\<lambda>b.
                       bnd (if b = 1 then readPostBaseIndexed ops b0
                            else readLiteralWithPostBaseNameReference ops b0) (\<lambda>h. ret (Some h)))))) s')"

partial_function (option) fieldLinesLoop ::
  "'r src_ops \<Rightarrow> int \<Rightarrow> HeaderField list \<Rightarrow> 'r qpack_dec \<Rightarrow>
     ((goerr + HeaderField list) \<times> 'r qpack_dec) option" where
  "fieldLinesLoop ops b headers s =
     (case readFieldLine ops b s of
        (Inl e, s') \<Rightarrow> Some (Inl e, s')
      | (Inr None, s') \<Rightarrow> Some (Inr headers, s')
      | (Inr (Some h), s') \<Rightarrow> fieldLinesLoop ops b (headers @ [h]) s')"

declare fieldLinesLoop.simps [code]

definition QpackReadHeaderBlock :: "'r src_ops \<Rightarrow> u64 \<Rightarrow> QpackDecoder \<Rightarrow> 'r \<Rightarrow>
    ((goerr + HeaderField list) \<times> QpackDecoder \<times> 'r) option" where
  "QpackReadHeaderBlock ops i d r =
     (case readBase ops (d, NewBitReader r) of
        (Inl e, (d', br)) \<Rightarrow> Some (Inl e, d', reader br)
      | (Inr (largest, b), s) \<Rightarrow>
          map_option (\<lambda>(x, (d', br)).
            (x, case x of
                  Inl _ \<Rightarrow> d'
                | Inr _ \<Rightarrow> if largest > 0 then send (Acknowledged i largest) d' else d', reader br))
            (fieldLinesLoop ops b [] s))"

definition QpackCancelled :: "u64 \<Rightarrow> QpackDecoder \<Rightarrow> QpackDecoder" where
  "QpackCancelled i d = send (Cancelled i) d"

definition QpackDecoderClose :: "QpackDecoder \<Rightarrow> QpackDecoder" where
  "QpackDecoderClose d = send AvailableClosed d"


section \<open>The decoder understands the instructions\<close>

text \<open>The decoder after the table has become \<open>t\<close>: an insert is announced on a channel.\<close>

definition with_table :: "tableCommon \<Rightarrow> QpackDecoder \<Rightarrow> QpackDecoder" where
  "with_table t d =
     (let d' = d\<lparr>dtable := t\<rparr> in if base (dtable d) < base t then send (Available (base t)) d' else d')"

lemma dtable_with_table [simp]: "dtable (with_table t d) = t"
  by (simp add: with_table_def send_def Let_def)

lemma QpackGetStatic_nth: "i < 99 \<Longrightarrow> QpackGetStatic (int i) = Some (StaticE (qpackStaticTable ! i))"
  by (simp add: QpackGetStatic_def length_qpackStaticTable)

lemma dynamic_index_bound: "table_ok t \<Longrightarrow> e \<in> set (dynamic t) \<Longrightarrow> nat (base t - eB e) < 2 ^ 63"
  using table_ok_entry(1,2) [of t e] table_ok_length [of t] by (simp add: intMax_def)

lemma GetDynamic_entry:
  assumes "table_ok t" "e \<in> set (dynamic t)"
  shows "GetDynamic t (int (nat (base t - eB e))) (base t) = Some e"
  using assms table_ok_entry [OF assms] table_ok_length [OF assms(1)]
  by (simp add: GetDynamic_self)

lemma insertAvailable_fits:
  assumes "table_ok (dtable d)" "fits n v (dtable d)"
  shows "tconsumes content fin ok (insertAvailable n v) d [] () (with_table (inserted n v (dtable d)) d)"
proof -
  note i = QpackDecoderInsert_fits [OF assms]
  then show ?thesis by (auto simp: tconsumes_def insertAvailable_def with_table_def Let_def)
qed

context byte_source
begin

lemma tconsumes_bit:
  "tconsumes content fin ok (f (of_bool b)) t bs x t' \<Longrightarrow>
     tconsumes content fin ok (bnd (onIO (ReadBit ops)) f) t (b # bs) x t'"
  using tconsumes_bnd [OF tconsumes_onIO [OF ReadBit_consumes]] by fastforce

lemma tconsumes_io:
  "consumes content fin ok m as x \<Longrightarrow> tconsumes content fin ok (f x) t bs y t' \<Longrightarrow>
     tconsumes content fin ok (bnd (onIO m) f) t (as @ bs) y t'"
  by (rule tconsumes_bnd [OF tconsumes_onIO])

lemma tconsumes_then_ret:
  "tconsumes content fin ok m t bs x t' \<Longrightarrow> tconsumes content fin ok (bnd m (\<lambda>x. ret (f x))) t bs (f x) t'"
  by (rule tconsumes_bnd [where cs = "[]", unfolded append_Nil2]) (assumption, rule tconsumes_ret)

lemma string_consumes:
  "string_ok c s \<Longrightarrow> 1 \<le> n \<Longrightarrow> n \<le> 8 \<Longrightarrow> consumes content fin ok (ReadString ops n) (string_bits c n s) s"
  by (rule ReadString_consumes) (auto simp: string_ok_def)

lemma readValueAndInsert_consumes:
  assumes "table_ok (dtable d)" "fits n v (dtable d)" "string_ok c v"
  shows "tconsumes content fin ok (readValueAndInsert ops n) d (string_bits c 7 v) ()
    (with_table (inserted n v (dtable d)) d)"
proof -
  let ?s = "32 + word_of_nat (length n + length v) :: u64"
  have "unat ?s = 32 + length n + length v"
    using assms(2) unat_u64 [of "capacity (dtable d)"]
    by (simp add: fits_def unat_word_ariths unat_of_nat)
  then have "\<not> ?s > capacity (dtable d)" using assms(2) by (simp add: fits_def word_less_nat_alt)
  with insertAvailable_fits [OF assms(1,2)] show ?thesis
    unfolding readValueAndInsert_def
    by (intro tconsumes_io [OF string_consumes [OF assms(3)], where bs = "[]", unfolded append_Nil2] tconsumes_getT)
      simp_all
qed

lemma readUpdate_consumes:
  assumes "update_step c t bs t'" "table_ok t" "t = dtable d"
  shows "tconsumes content fin ok (readUpdate ops) d bs True (with_table t' d)"
proof -
  let ?b = "base (dtable d)"
  let ?f3 = "\<lambda>b :: byte. bnd (if b = 1 then readDynamicUpdate ops else readDuplicate ops ?b) (\<lambda>_. ret True)"
  let ?f2 = "\<lambda>b :: byte. if b = 1 then bnd (readInsertWithNameLiteral ops) (\<lambda>_. ret True)
    else bnd (onIO (ReadBit ops)) ?f3"
  let ?f1 = "\<lambda>b :: byte. if b = 1 then bnd (readInsertWithNameReference ops ?b) (\<lambda>_. ret True)
    else bnd (onIO (ReadBit ops)) ?f2"
  have turn: "tconsumes content fin ok (readUpdate ops) d (b # bs) x d'"
    if "tconsumes content fin ok (?f1 (of_bool b)) d bs x d'" for b bs x d'
    unfolding tconsumes_def
  proof (intro allI impI)
    fix br rest assume br: "rok ok br \<and> rbits content br = (b # bs) @ rest"
    with ReadBit_spec [of br] obtain br1 where 1: "ReadBit ops br = (Inr (of_bool b), br1)" "rok ok br1"
      "rbits content br1 = bs @ rest" "fin (reader br1) = fin (reader br)" by auto
    from that 1(2,3) obtain br2 where "?f1 (of_bool b) (d, br1) = (Inr x, (d', br2))" "rok ok br2"
      "rbits content br2 = rest" "fin (reader br2) = fin (reader br1)" by (rule tconsumesE)
    with 1 show "\<exists>br'. readUpdate ops (d, br) = (Inr x, (d', br')) \<and> rok ok br' \<and>
        rbits content br' = rest \<and> fin (reader br') = fin (reader br)"
      by (simp add: readUpdate_def)
  qed
  from assms show ?thesis
  proof (induction rule: update_step.induct)
    case (duplicate e t)
    have "tconsumes content fin ok (readDuplicate ops ?b) d (int_bits 5 (nat (?b - eB e)) @ []) ()
        (with_table (inserted (eN e) (eV e) (dtable d)) d)"
      unfolding readDuplicate_def
      using duplicate GetDynamic_entry [of t e] dynamic_index_bound [of t e]
      by (intro tconsumes_io [OF ReadIndex_consumes] tconsumes_getT) (auto intro: insertAvailable_fits)
    from tconsumes_then_ret [OF this, of "\<lambda>_. True"] duplicate(4) show ?case
      by (auto intro!: turn tconsumes_bit)
  next
    case (insert_dynamic_name e t v)
    have "tconsumes content fin ok (readInsertWithNameReference ops ?b) d
        (False # int_bits 6 (nat (?b - eB e)) @ string_bits c 7 v) ()
        (with_table (inserted (eN e) v (dtable d)) d)"
      unfolding readInsertWithNameReference_def
      using insert_dynamic_name GetDynamic_entry [of t e] dynamic_index_bound [of t e]
      by (intro tconsumes_bit tconsumes_io [OF ReadIndex_consumes] tconsumes_getT)
        (auto intro: readValueAndInsert_consumes)
    from tconsumes_then_ret [OF this, of "\<lambda>_. True"] insert_dynamic_name(5) show ?case
      by (auto intro!: turn)
  next
    case (insert_static_name i v t)
    have "tconsumes content fin ok (readInsertWithNameReference ops ?b) d
        (True # int_bits 6 i @ string_bits c 7 v) ()
        (with_table (inserted (sname (qpackStaticTable ! i)) v (dtable d)) d)"
      unfolding readInsertWithNameReference_def
      using insert_static_name
      by (intro tconsumes_bit tconsumes_io [OF ReadIndex_consumes] tconsumes_getT)
        (auto simp: QpackGetStatic_nth intro: readValueAndInsert_consumes)
    from tconsumes_then_ret [OF this, of "\<lambda>_. True"] insert_static_name(5) show ?case
      by (auto intro!: turn)
  next
    case (insert_literal n v t)
    have "tconsumes content fin ok (readInsertWithNameLiteral ops) d
        (string_bits c 5 n @ string_bits c 7 v) () (with_table (inserted n v (dtable d)) d)"
      unfolding readInsertWithNameLiteral_def
      using insert_literal
      by (intro tconsumes_io [OF string_consumes]) (auto intro: readValueAndInsert_consumes)
    from tconsumes_then_ret [OF this, of "\<lambda>_. True"] insert_literal(5) show ?case
      by (auto intro!: turn tconsumes_bit)
  next
    case (set_capacity t k)
    have "tconsumes content fin ok (onIO (ReadInt ops 5)) d (int_bits 5 (unat k)) k d"
      using tconsumes_onIO [OF ReadInt_consumes, of 5 "unat k"] unat_u64 [of k] by simp
    from tconsumes_bnd [OF this tconsumes_modifyT, of "\<lambda>c d. d\<lparr>dtable := SetCapacity c (dtable d)\<rparr>"]
    have "tconsumes content fin ok (readDynamicUpdate ops) d (int_bits 5 (unat k)) () (with_table (SetCapacity k t) d)"
      using set_capacity by (simp add: readDynamicUpdate_def with_table_def Let_def SetCapacity_spec)
    from tconsumes_then_ret [OF this, of "\<lambda>_. True"] show ?case
      by (auto intro!: turn tconsumes_bit)
  qed
qed

lemma readUpdate_end:
  assumes "rok ok br" "rbits content br = []" "fin (reader br) = EOF"
  obtains br' where "readUpdate ops (d, br) = (Inr False, (d, br'))"
proof -
  from assms(1,2) obtain br' where "ReadBit ops br = (Inl (fin (reader br)), br')" by (rule ReadBit_end)
  with assms(3) have "readUpdate ops (d, br) = (Inr False, (d, br'))" by (simp add: readUpdate_def Let_def)
  then show thesis by (rule that)
qed

lemma updatesLoop_updates:
  assumes "updates c t bs t'" "table_ok t" "t = dtable d"
  shows "\<exists>d'. dtable d' = t' \<and> sent d' = sent d @ map Available [base t + 1..base t'] \<and>
    (\<forall>br rest. rok ok br \<and> rbits content br = bs @ rest \<longrightarrow>
      (\<exists>br'. rok ok br' \<and> rbits content br' = rest \<and> fin (reader br') = fin (reader br) \<and>
         updatesLoop ops (d, br) = updatesLoop ops (d', br')))"
  using assms
proof (induction rule: updates.induct)
  case (updates_refl t)
  then show ?case by (intro exI [of _ d]) auto
next
  case (updates_step t bs t1 cs t2)
  from updates_step.IH [OF updates_step.prems] obtain d1 where 1: "dtable d1 = t1"
    "sent d1 = sent d @ map Available [base t + 1..base t1]"
    "\<forall>br rest. rok ok br \<and> rbits content br = bs @ rest \<longrightarrow>
      (\<exists>br'. rok ok br' \<and> rbits content br' = rest \<and> fin (reader br') = fin (reader br) \<and>
         updatesLoop ops (d, br) = updatesLoop ops (d1, br'))" by blast
  have ok1: "table_ok t1" using updates_step.hyps(1) updates_step.prems(1) by (rule updates_ok)
  have le: "base t \<le> base t1" using updates_step.hyps(1) updates_step.prems(1) by (rule updates_base)
  let ?d = "with_table t2 d1"
  have "sent ?d = sent d @ map Available [base t + 1..base t2]"
    using update_step_base [OF updates_step.hyps(2) ok1] 1(1,2) le
    by (auto simp: with_table_def send_def upto_rec2)
  moreover have "\<exists>br'. rok ok br' \<and> rbits content br' = rest \<and> fin (reader br') = fin (reader br) \<and>
      updatesLoop ops (d, br) = updatesLoop ops (?d, br')"
    if br: "rok ok br" "rbits content br = (bs @ cs) @ rest" for br rest
  proof -
    from 1(3) br obtain br1 where b1: "rok ok br1" "rbits content br1 = cs @ rest"
      "fin (reader br1) = fin (reader br)" "updatesLoop ops (d, br) = updatesLoop ops (d1, br1)" by auto
    from readUpdate_consumes [OF updates_step.hyps(2) ok1 1(1) [symmetric]] b1(1,2) obtain br2 where
      "readUpdate ops (d1, br1) = (Inr True, (?d, br2))" "rok ok br2" "rbits content br2 = rest"
      "fin (reader br2) = fin (reader br1)" by (rule tconsumesE)
    with b1 show ?thesis by (auto simp: updatesLoop.simps [of ops "(d1, br1)"])
  qed
  ultimately show ?case by (intro exI [of _ ?d]) auto
qed

lemma ReadTableUpdates_spec:
  assumes "updates c (dtable d) bs t'" "table_ok (dtable d)"
    "ok r" "bytes_bits (content r) = bs" "fin r = EOF"
  shows "\<exists>d' r'. ReadTableUpdates ops d r = Some (Inr (), d', r') \<and> dtable d' = t' \<and>
    sent d' = sent d @ map Available [base (dtable d) + 1..base t']"
proof -
  from updatesLoop_updates [OF assms(1,2) refl] obtain d' where d': "dtable d' = t'"
    "sent d' = sent d @ map Available [base (dtable d) + 1..base t']"
    "\<forall>br rest. rok ok br \<and> rbits content br = bs @ rest \<longrightarrow>
      (\<exists>br'. rok ok br' \<and> rbits content br' = rest \<and> fin (reader br') = fin (reader br) \<and>
         updatesLoop ops (d, br) = updatesLoop ops (d', br'))" by blast
  have "rok ok (NewBitReader r)" "rbits content (NewBitReader r) = bs @ []"
    using assms(3,4) by (simp_all add: rok_def NewBitReader_def rbits_def)
  with d'(3) obtain br1 where 1: "rok ok br1" "rbits content br1 = []" "fin (reader br1) = EOF"
    "updatesLoop ops (d, NewBitReader r) = updatesLoop ops (d', br1)"
    using assms(5) by (metis NewBitReader_def bitReader.select_convs(1))
  from 1(1-3) obtain br2 where "readUpdate ops (d', br1) = (Inr False, (d', br2))" by (rule readUpdate_end)
  with 1(4) have "updatesLoop ops (d, NewBitReader r) = Some (Inr (), (d', br2))"
    by (simp add: updatesLoop.simps [of ops "(d', br1)"])
  with d' show ?thesis by (simp add: ReadTableUpdates_def)
qed

end


section \<open>Header blocks are understood\<close>

lemma GetDynamic_relative:
  assumes "table_ok t" "e \<in> set (dynamic t)" "base t \<le> intMax" "0 \<le> b" "b \<le> base t"
  shows "GetDynamic t (b - eB e) b = Some e"
proof -
  note te = table_ok_entry [OF assms(1,2)]
  have "GetDynamic t (b - eB e) b = (if b \<le> base t \<and> 0 \<le> (b - eB e) + (base t - b) \<and>
      (b - eB e) + (base t - b) < int (length (dynamic t))
     then Some (dynamic t ! nat ((b - eB e) + (base t - b))) else None)"
    using te assms by (intro GetDynamic_spec) (simp_all add: intMax_def)
  with te assms show ?thesis by simp
qed

lemma relative_bound:
  assumes "table_ok t" "e \<in> set (dynamic t)" "base t \<le> intMax" "b \<le> base t"
  shows "nat (b - eB e) < 2 ^ 63" "0 \<le> b \<Longrightarrow> nat (eB e - b - 1) < 2 ^ 63"
  using table_ok_entry [OF assms(1,2)] assms(3,4) by (simp_all add: intMax_def)

context byte_source
begin

lemma headerOf_consumes:
  "tconsumes content fin ok (headerOf (Some e)) t [] \<lparr>Name = entryName e, Value = entryValue e, Sensitive = False\<rparr> t"
  by (simp add: headerOf_def tconsumes_ret)

lemma literalOf_consumes:
  assumes "string_ok c v"
  shows "tconsumes content fin ok (literalOf ops (of_bool s) (Some e)) t (string_bits c 7 v)
    \<lparr>Name = entryName e, Value = v, Sensitive = s\<rparr> t"
  using tconsumes_then_ret [OF tconsumes_onIO [OF string_consumes [OF assms, of 7]],
      of "\<lambda>v. \<lparr>Name = entryName e, Value = v, Sensitive = s\<rparr>" t]
  by (cases s) (simp_all add: literalOf_def)

lemma readFieldLine_consumes:
  assumes "field_line c (dtable d) b bs h" "table_ok (dtable d)" "base (dtable d) \<le> intMax"
    "0 \<le> b" "b \<le> base (dtable d)"
  shows "tconsumes content fin ok (readFieldLine ops b) d bs (Some h) d"
proof -
  let ?t = "dtable d"
  let ?f4 = "\<lambda>x :: byte. bnd (if x = 1 then readPostBaseIndexed ops b
      else readLiteralWithPostBaseNameReference ops b) (\<lambda>h. ret (Some h))"
  let ?f3 = "\<lambda>x :: byte. if x = 1 then bnd (readLiteralWithNameLiteral ops) (\<lambda>h. ret (Some h))
      else bnd (onIO (ReadBit ops)) ?f4"
  let ?f2 = "\<lambda>x :: byte. if x = 1 then bnd (readLiteralWithNameReference ops b) (\<lambda>h. ret (Some h))
      else bnd (onIO (ReadBit ops)) ?f3"
  let ?f1 = "\<lambda>x :: byte. if x = 1 then bnd (qreadIndexed ops b) (\<lambda>h. ret (Some h))
      else bnd (onIO (ReadBit ops)) ?f2"
  have turn: "tconsumes content fin ok (readFieldLine ops b) d (x # bs) y d'"
    if "tconsumes content fin ok (?f1 (of_bool x)) d bs y d'" for x bs y d'
    unfolding tconsumes_def
  proof (intro allI impI)
    fix br rest assume br: "rok ok br \<and> rbits content br = (x # bs) @ rest"
    with ReadBit_spec [of br] obtain br1 where 1: "ReadBit ops br = (Inr (of_bool x), br1)" "rok ok br1"
      "rbits content br1 = bs @ rest" "fin (reader br1) = fin (reader br)" by auto
    from that 1(2,3) obtain br2 where "?f1 (of_bool x) (d, br1) = (Inr y, (d', br2))" "rok ok br2"
      "rbits content br2 = rest" "fin (reader br2) = fin (reader br1)" by (rule tconsumesE)
    with 1 show "\<exists>br'. readFieldLine ops b (d, br) = (Inr y, (d', br')) \<and> rok ok br' \<and>
        rbits content br' = rest \<and> fin (reader br') = fin (reader br)"
      by (simp add: readFieldLine_def)
  qed
  note g = GetDynamic_relative [OF assms(2) _ assms(3-5)]
  note l = relative_bound [OF assms(2) _ assms(3,5)]
  note hd = headerOf_consumes [of "StaticE s" for s, simplified] headerOf_consumes [of "DynamicE e" for e, simplified]
  note lt = literalOf_consumes [of c v _ "StaticE s" for v s, simplified] literalOf_consumes [of c v _ "DynamicE e" for v e, simplified]
  from assms(1) show ?thesis
  proof (induction rule: field_line.induct)
    case (indexed_static i)
    have "tconsumes content fin ok (qreadIndexed ops b) d (True # int_bits 6 i @ [])
        \<lparr>Name = sname (qpackStaticTable ! i), Value = svalue (qpackStaticTable ! i), Sensitive = False\<rparr> d"
      unfolding qreadIndexed_def using indexed_static
      by (intro tconsumes_bit tconsumes_io [OF ReadIndex_consumes] tconsumes_getT)
        (simp_all add: QpackGetStatic_nth hd)
    from tconsumes_then_ret [OF this, of Some] show ?case by (auto intro!: turn)
  next
    case (indexed_dynamic e)
    have "tconsumes content fin ok (qreadIndexed ops b) d (False # int_bits 6 (nat (b - eB e)) @ [])
        \<lparr>Name = eN e, Value = eV e, Sensitive = False\<rparr> d"
      unfolding qreadIndexed_def using indexed_dynamic
      by (intro tconsumes_bit tconsumes_io [OF ReadIndex_consumes] tconsumes_getT)
        (simp_all add: g l(1) [simplified] hd)
    from tconsumes_then_ret [OF this, of Some] show ?case by (auto intro!: turn)
  next
    case (indexed_post_base e)
    have "tconsumes content fin ok (readPostBaseIndexed ops b) d (int_bits 4 (nat (eB e - b - 1)) @ [])
        \<lparr>Name = eN e, Value = eV e, Sensitive = False\<rparr> d"
      unfolding readPostBaseIndexed_def using indexed_post_base
      by (intro tconsumes_io [OF ReadIndex_consumes] tconsumes_getT)
        (use l(2) [OF indexed_post_base(1) assms(4)] in \<open>simp_all add: g hd\<close>)
    from tconsumes_then_ret [OF this, of Some] show ?case by (auto intro!: turn tconsumes_bit)
  next
    case (literal_static_name i v s)
    have "tconsumes content fin ok (readLiteralWithNameReference ops b) d
        (s # True # int_bits 4 i @ string_bits c 7 v)
        \<lparr>Name = sname (qpackStaticTable ! i), Value = v, Sensitive = s\<rparr> d"
      unfolding readLiteralWithNameReference_def using literal_static_name
      by (intro tconsumes_bit tconsumes_io [OF ReadIndex_consumes] tconsumes_getT)
        (simp_all add: QpackGetStatic_nth lt)
    from tconsumes_then_ret [OF this, of Some] show ?case by (auto intro!: turn tconsumes_bit)
  next
    case (literal_dynamic_name e v s)
    have "tconsumes content fin ok (readLiteralWithNameReference ops b) d
        (s # False # int_bits 4 (nat (b - eB e)) @ string_bits c 7 v) \<lparr>Name = eN e, Value = v, Sensitive = s\<rparr> d"
      unfolding readLiteralWithNameReference_def using literal_dynamic_name
      by (intro tconsumes_bit tconsumes_io [OF ReadIndex_consumes] tconsumes_getT)
        (simp_all add: g l(1) [simplified] lt)
    from tconsumes_then_ret [OF this, of Some] show ?case by (auto intro!: turn tconsumes_bit)
  next
    case (literal_name n v s)
    have "tconsumes content fin ok (readLiteralWithNameLiteral ops) d
        (s # string_bits c 3 n @ string_bits c 7 v @ []) \<lparr>Name = n, Value = v, Sensitive = s\<rparr> d"
      unfolding readLiteralWithNameLiteral_def using literal_name
      by (intro tconsumes_bit tconsumes_io [OF string_consumes])
        (cases s; auto intro: tconsumes_ret)+
    from tconsumes_then_ret [OF this, of Some] show ?case by (auto intro!: turn tconsumes_bit)
  qed
qed

lemma fieldLinesLoop_lines:
  assumes "field_lines c (dtable d) b bs hs" "table_ok (dtable d)" "base (dtable d) \<le> intMax"
    "0 \<le> b" "b \<le> base (dtable d)" "rok ok br" "rbits content br = bs" "fin (reader br) = EOF"
  shows "\<exists>br'. fieldLinesLoop ops b acc (d, br) = Some (Inr (acc @ hs), (d, br')) \<and>
    rok ok br' \<and> rbits content br' = [] \<and> fin (reader br') = EOF"
  using assms(1,6-8)
proof (induction arbitrary: acc br rule: field_lines.induct)
  case lines_Nil
  from lines_Nil.prems(1,2) obtain br' where br': "ReadBit ops br = (Inl (fin (reader br)), br')" "rok ok br'"
    "rbits content br' = []" "fin (reader br') = fin (reader br)" by (rule ReadBit_end)
  with lines_Nil.prems(3) have "readFieldLine ops b (d, br) = (Inr None, (d, br'))" by (simp add: readFieldLine_def)
  with br' lines_Nil.prems(3) show ?case by (simp add: fieldLinesLoop.simps)
next
  case (lines_Cons bs h cs hs)
  from readFieldLine_consumes [OF lines_Cons.hyps(1) assms(2-5)] lines_Cons.prems(1,2)
  obtain br1 where 1: "readFieldLine ops b (d, br) = (Inr (Some h), (d, br1))" "rok ok br1"
    "rbits content br1 = cs" "fin (reader br1) = fin (reader br)" by (rule tconsumesE)
  with lines_Cons.IH [OF 1(2,3), of "acc @ [h]"] lines_Cons.prems(3) show ?case
    by (auto simp: fieldLinesLoop.simps [of ops b acc])
qed

end

lemma window_recovers:
  fixes m b x :: nat
  assumes "0 < m" "b < x + m" "x \<le> b + m"
  defines "c \<equiv> (b + m) div (2 * m) * (2 * m) + x mod (2 * m)"
  shows "(if c > b + m \<and> c \<ge> 2 * m then c - 2 * m else c) = x"
proof -
  define k where "k = 2 * m"
  define q s p y where qs: "q = (b + m) div k" "s = (b + m) mod k" "p = x div k" "y = x mod k"
  have k: "0 < k" "s < k" "y < k" using assms(1) by (simp_all add: k_def qs)
  have bm: "b + m = q * k + s" and x: "x = p * k + y" by (simp_all add: qs)
  have c: "c = q * k + y" by (simp add: c_def qs k_def)
  have lo: "q * k + s < p * k + k + y" using assms(2) bm x by (simp add: k_def)
  have hi: "p * k + y \<le> q * k + s" using assms(3) bm x by simp
  have step: "i * k + k \<le> j * k" if "i < j" for i j :: nat
    using that mult_le_mono1 [of "Suc i" j k] by simp
  show ?thesis
  proof (cases "y \<le> s")
    case True
    have "p = q" using step [of p q] step [of q p] lo hi True k by (cases p q rule: linorder_cases) auto
    with c x bm True k_def show ?thesis by simp
  next
    case False
    have "Suc p = q"
    proof (cases "Suc p" q rule: linorder_cases)
      case less
      then show ?thesis using step [of "Suc p" q] lo False k by simp
    next
      case greater
      then have "q * k \<le> p * k" by (intro mult_le_mono1) simp
      then show ?thesis using hi False by linarith
    qed
    with c x bm False k_def show ?thesis by auto
  qed
qed

lemma decodeLargestBase_inverse:
  assumes "0 < x" "x \<le> intMax" "0 \<le> base t" "base t \<le> intMax" "32 \<le> unat (capacity t)"
    "base t < x + int (unat (capacity t) div 32)" "x \<le> base t + int (unat (capacity t) div 32)"
  shows "decodeLargestBase t (word_of_int x mod (2 * (capacity t div 32)) + 1) = Inr x"
proof -
  let ?b = "nat (base t)" and ?x = "nat x"
  define m where "m = unat (capacity t) div 32"
  define c where "c = (?b + m) div (2 * m) * (2 * m) + ?x mod (2 * m)"
  have m: "0 < m" "m < 2 ^ 60" using assms(5) unat_u64 [of "capacity t"] by (simp_all add: m_def)
  have b: "?b < 2 ^ 63" "?x < 2 ^ 63" using assms by (simp_all add: intMax_def)
  have um: "unat (capacity t div 32) = m" by (simp add: unat_div m_def)
  have fr: "unat (capacity t div 32 * 2) = 2 * m" using m um by (simp add: unat_word_ariths)
  have mv: "unat (word_of_int (base t) + capacity t div 32) = ?b + m"
    using b m assms(3) um by (simp add: unat_word_ariths unat_of_int)
  have xm: "unat (word_of_int x mod (2 * (capacity t div 32)) + 1 :: u64) = ?x mod (2 * m) + 1"
  proof -
    have "?x mod (2 * m) < 2 * m" "2 * m < 2 ^ 62" using m by simp_all
    then have "?x mod (2 * m) < 2 ^ 62" by (rule less_trans)
    then have "?x mod (2 * m) + 1 < 2 ^ 64" by simp
    moreover have "unat (word_of_int x mod (2 * (capacity t div 32)) :: u64) = ?x mod (2 * m)"
      using b assms(1) fr by (simp add: unat_of_int unat_mod mult.commute)
    ultimately show ?thesis by (simp add: unat_word_ariths(1))
  qed
  have rd: "unat ((word_of_int (base t) + capacity t div 32) div (capacity t div 32 * 2) * (capacity t div 32 * 2)) =
      (?b + m) div (2 * m) * (2 * m)"
  proof -
    have "(?b + m) div (2 * m) * (2 * m) \<le> ?b + m" by (rule div_times_less_eq_dividend)
    moreover have "?b + m < 2 ^ 64" using b m by simp
    ultimately have "(?b + m) div (2 * m) * (2 * m) < 2 ^ 64" by (rule le_less_trans)
    then show ?thesis using fr mv by (simp add: unat_word_ariths(2) unat_div)
  qed
  have xm0: "unat (word_of_int x mod (2 * (capacity t div 32)) :: u64) = ?x mod (2 * m)"
    using b assms(1) fr by (simp add: unat_of_int unat_mod mult.commute)
  let ?c = "(word_of_int (base t) + capacity t div 32) div (capacity t div 32 * 2) * (capacity t div 32 * 2) +
    (word_of_int x mod (2 * (capacity t div 32)) + 1) - 1 :: u64"
  have "c \<le> ?b + m + 2 * m" unfolding c_def using m by (intro add_mono) simp_all
  moreover have "?b + m + 2 * m < 2 ^ 64" using b m by simp
  ultimately have c64: "c < 2 ^ 64" by (rule le_less_trans)
  have cu: "unat ?c = c"
    using rd xm c64 by (simp only: unat_word_ariths(1) c_def add_diff_cancel_right' add_diff_eq [symmetric] xm0) simp
  have w: "(if c > ?b + m \<and> c \<ge> 2 * m then c - 2 * m else c) = ?x"
    unfolding c_def using m(1) assms m_def by (intro window_recovers) auto
  let ?r = "if ?c > word_of_int (base t) + capacity t div 32 \<and> ?c \<ge> capacity t div 32 * 2
    then ?c - capacity t div 32 * 2 else ?c"
  have "unat ?r = ?x"
    using w cu mv fr by (auto simp: word_less_nat_alt word_le_nat_alt unat_sub_if' split: if_splits)
  moreover have "sint w = x" if "unat w = ?x" for w :: u64
    using that b(2) assms(1) sint_small [of "unat w"] unfolding of_nat_unat ucast_id by (simp add: uint_nat)
  ultimately have s: "sint ?r = x" by blast
  have nz: "word_of_int x mod (2 * (capacity t div 32)) + 1 \<noteq> (0 :: u64)" "capacity t div 32 * 2 \<noteq> 0"
    using xm fr m(1) by (metis add_gr_0 less_numeral_extra(1) not_less_iff_gr_or_eq unat_0) (metis fr m(1) mult_eq_0_iff neq0_conv unat_0 zero_neq_numeral)
  then show ?thesis by (simp only: decodeLargestBase_def Let_def s if_False)
qed

lemma int_bits_8_0: "int_bits 8 0 = False # int_bits 7 0"
  by (simp add: int_bits_def bits_def upt_conv_Cons)

context byte_source
begin

lemma readBase_consumes:
  assumes "decodeLargestBase (dtable d) lr = Inr x" "0 \<le> x" "x \<le> base (dtable d)" "base (dtable d) \<le> intMax"
  shows "tconsumes content fin ok (readBase ops) d (int_bits 8 (unat lr) @ int_bits 8 0) (x, x) d"
proof -
  have lr: "consumes content fin ok (ReadInt ops 8) (int_bits 8 (unat lr)) lr"
    using ReadInt_consumes [of 8 "unat lr"] unat_u64 [of lr] by simp
  have "s64 x = x" using assms by (intro s64_id) (simp_all add: intMax_def)
  then show ?thesis
    unfolding readBase_def int_bits_8_0
    using assms
    by (intro tconsumes_io [OF lr] tconsumes_getT)
      (auto simp: WaitForEntry_def intro!: tconsumes_bit
        tconsumes_io [OF ReadIndex_consumes [of 7 0], where bs = "[]", unfolded append_Nil2] tconsumes_ret)
qed

lemma QpackReadHeaderBlock_spec:
  assumes "decodeLargestBase (dtable d) lr = Inr x" "0 \<le> x" "x \<le> base (dtable d)" "base (dtable d) \<le> intMax"
    "table_ok (dtable d)" "field_lines c (dtable d) x bs hs"
    "ok r" "bytes_bits (content r) = int_bits 8 (unat lr) @ int_bits 8 0 @ bs" "fin r = EOF"
  shows "\<exists>r'. ok r' \<and> content r' = [] \<and> fin r' = EOF \<and> QpackReadHeaderBlock ops i d r =
    Some (Inr hs, (if x > 0 then send (Acknowledged i x) d else d), r')"
proof -
  let ?br = "NewBitReader r"
  have br: "rok ok ?br" "rbits content ?br = (int_bits 8 (unat lr) @ int_bits 8 0) @ bs" "fin (reader ?br) = EOF"
    using assms(7-9) by (simp_all add: rok_def NewBitReader_def rbits_def)
  from readBase_consumes [OF assms(1-4)] br(1,2) obtain br1 where 1:
    "readBase ops (d, ?br) = (Inr (x, x), (d, br1))" "rok ok br1" "rbits content br1 = bs"
    "fin (reader br1) = fin (reader ?br)" by (rule tconsumesE)
  from fieldLinesLoop_lines [OF assms(6,5,4,2,3) 1(2,3), of "[]"] 1(4) br(3) obtain br2 where
    "fieldLinesLoop ops x [] (d, br1) = Some (Inr hs, (d, br2))" "rok ok br2" "rbits content br2 = []"
    "fin (reader br2) = EOF" by auto
  with 1(1) show ?thesis by (simp add: QpackReadHeaderBlock_def rok_def rbits_def)
qed

end

end
