(* ===== verification/QpackSync.thy ===== *)
theory QpackSync
  imports QpackEmit QpackDecoder
begin

text \<open>
  Encoder and decoder of QPACK together: what one writes the other reads, with the dynamic
  tables in step, and the encoder's invariant through the writing of a block.
\<close>

section \<open>The encoder's invariant through a block\<close>

lemma usage_ok_blockAdd:
  assumes "usage_ok b s ut" "0 < eB e" "eB e \<le> b"
  shows "usage_ok b (blockAdd a e s) ut"
  using assms by (fastforce simp: usage_ok_def blockAdd_def Let_def)

lemma usage_ok_newBlock: "usage_ok b s ut \<Longrightarrow> usage_ok b (snd (newBlock s)) ut"
  by (fastforce simp: usage_ok_def newBlock_def)

lemma nextBlock_addUse [simp]: "nextBlock (addUse i st s) = nextBlock s"
  by (simp add: addUse_def blockAdd_def Let_def split: option.split Entry.split)

lemma entry_ref_bounds:
  assumes "call_ok t st" "table_ok t" "i < length (headers st)" "entry_ref st i = Some (DynamicE d)"
  shows "0 < eB d" "eB d \<le> base t"
proof -
  have "full_ok t st (headers st ! i) (DynamicE d) \<or> name_ok st (headers st ! i) (DynamicE d)"
    using assms(1,3,4) by (auto simp: call_ok_def entry_ref_def split: if_splits)
  then have "0 < eB d \<and> eB d \<le> largestBase st"
    using table_ok_entry(4) [OF assms(2), of d] by (auto simp: full_ok_def name_ok_def qpack_entries_def)
  with assms(1) show "0 < eB d" "eB d \<le> base t" by (simp_all add: call_ok_def)
qed

lemma addUse_cases:
  "addUse i st s = (case entry_ref st i of Some (DynamicE d) \<Rightarrow> blockAdd (uses st) d s | _ \<Rightarrow> s)"
  by (simp add: addUse_def entry_ref_def split: option.split Entry.split)

lemma addUses_ok:
  assumes "store_ok s" "usage_ok (base t) s ut" "uses st < nextBlock s" "call_ok t st" "table_ok t"
    "\<forall>i \<in> set is. i < length (headers st)"
  shows "store_ok (fold (\<lambda>i. addUse i st) is s) \<and> usage_ok (base t) (fold (\<lambda>i. addUse i st) is s) ut"
  using assms(1-3,6)
proof (induction "is" arbitrary: s)
  case (Cons i "is")
  have "store_ok (addUse i st s) \<and> usage_ok (base t) (addUse i st s) ut"
    using Cons.prems entry_ref_bounds [OF assms(4,5), of i]
    by (auto simp: addUse_cases store_ok_blockAdd usage_ok_blockAdd split: option.split Entry.split)
  with Cons.IH [of "addUse i st s"] Cons.prems show ?case by simp
qed simp

lemma trackerGet_ok:
  assumes "usage_ok b s ut"
  shows "usage_ok b s (snd (trackerGet i ut))"
    "\<forall>a \<in> set (fst (trackerGet i ut)). a < nextBlock s \<and> 0 \<le> hmax (blocks s a) \<and> hmax (blocks s a) \<le> b"
  using assms usage_ok_lookup [OF assms, of i]
  by (auto simp: trackerGet_def usage_ok_update split: option.split)

text \<open>Integers with an 8-bit prefix are whole bytes.\<close>

lemma length_int_bits_8: "length (int_bits 8 n) mod 8 = 0"
  using length_int_bits [of 8 n] by simp


section \<open>Round trip of a header block\<close>

text \<open>
  What a call needs for the block it writes to be readable: the fields are within the limits of
  strings, the entries used as name references survive the call's own inserts, and the insert
  count stays within an \<open>int\<close>.
\<close>

definition lowered :: "(string \<Rightarrow> string) \<Rightarrow> HeaderField list \<Rightarrow> HeaderField list" where
  "lowered uni hs = headers (initHeaders uni hs)"

definition call_fine :: "'u snk_ops \<Rightarrow> (string \<Rightarrow> string) \<Rightarrow> u64 \<Rightarrow> HeaderField list \<Rightarrow> QpackEncoder \<Rightarrow> 'u bitWriter \<Rightarrow> bool" where
  "call_fine uops uni i hs enc uw \<longleftrightarrow> (\<forall>h \<in> set (lowered uni hs). header_ok (HuffmanPreference enc) h) \<and>
     (\<forall>enc' st' uw'. writeTableChanges uops i ((enc, initHeaders uni hs), uw) = (Inr (), ((enc', st'), uw')) \<longrightarrow>
        names_live (qcommon (qtable enc')) st' \<and> qbase enc' \<le> intMax)"

lemma largest_decodes:
  assumes "call_ok t st" "names_live t st" "table_ok t" "base t \<le> intMax"
    "encodeLargestReference (capacity t) (largestBase st) = Inr lr"
  shows "decodeLargestBase t lr = Inr (largestBase st)"
proof (cases "largestBase st = 0")
  case True
  with assms(5) show ?thesis by (simp add: encodeLargestReference_def decodeLargestBase_def)
next
  case False
  have b: "0 \<le> largestBase st" "largestBase st \<le> base t" using assms(1) by (simp_all add: call_ok_def)
  have "lr = word_of_int (largestBase st) mod (2 * (capacity t div 32)) + 1"
    using assms(5) encodeLargestReference_live [OF assms(1-3)] False by simp
  with decodeLargestBase_inverse [of "largestBase st" t] largest_live [OF assms(1-3) False] b False assms(4)
  show ?thesis by simp
qed

lemma QpackWriteHeaderBlock_spec:
  assumes "reliable_sink uops uout" "reliable_sink wops wout" "qenc_ok enc" "wsavedBits uw = 0"
    "call_fine uops uni i hs enc uw"
  shows "\<exists>enc' uw' w' ubs lr x lines. QpackWriteHeaderBlock uops wops uni i hs enc uw w = (Inr (), enc', uw', w') \<and>
    qenc_ok enc' \<and> wsavedBits uw' = 0 \<and> uout (writer uw') = uout (writer uw) @ bits_bytes ubs \<and>
    bytes_bits (bits_bytes ubs) = ubs \<and>
    updates (HuffmanPreference enc) (qcommon (qtable enc)) ubs (qcommon (qtable enc')) \<and>
    wout w' = wout w @ bits_bytes (int_bits 8 (unat lr) @ int_bits 8 0 @ lines) \<and>
    bytes_bits (bits_bytes (int_bits 8 (unat lr) @ int_bits 8 0 @ lines)) = int_bits 8 (unat lr) @ int_bits 8 0 @ lines \<and>
    field_lines (HuffmanPreference enc) (qcommon (qtable enc')) x lines (lowered uni hs) \<and>
    decodeLargestBase (qcommon (qtable enc')) lr = Inr x \<and> 0 \<le> x \<and> x \<le> qbase enc' \<and> qbase enc' \<le> intMax \<and>
    HuffmanPreference enc' = HuffmanPreference enc"
proof -
  have ok: "acked_ok enc" "store_ok (store enc)" "usage_ok (qbase enc) (store enc) (usage enc)"
    using assms(3) by (auto simp: qenc_ok_def)
  have hdr: "\<forall>h \<in> set (headers (initHeaders uni hs)). header_ok (HuffmanPreference enc) h"
    using assms(5) by (simp add: call_fine_def lowered_def)
  from reliable_sink.writeTableChanges_emits [OF assms(1) ok(1) hdr, of i]
  obtain ubs enc1 st where w: "tproduces uout (writeTableChanges uops i) (enc, initHeaders uni hs) ubs () (enc1, st)"
    and up: "updates (HuffmanPreference enc) (qcommon (qtable enc)) ubs (qcommon (qtable enc1))"
    and e1: "acked_ok enc1" "call_ok (qcommon (qtable enc1)) st" "headers st = headers (initHeaders uni hs)"
      "HuffmanPreference enc1 = HuffmanPreference enc" "uses st = nextBlock (store enc)"
      "store enc1 = snd (newBlock (store enc))"
    and us: "let ut = snd (trackerGet i (usage enc)) in usage enc1 =
       (if largestBase st > 0 then AList.update i (streamAdd (uses st) (fst (trackerGet i ut))) ut else ut)"
    by blast
  let ?t = "qcommon (qtable enc1)"
  have u8: "wsavedBits uw < 8" using assms(4) by simp
  from w u8 obtain uw' where uw': "writeTableChanges uops i ((enc, initHeaders uni hs), uw) = (Inr (), ((enc1, st), uw'))"
    "wsavedBits uw' < 8" "wbits uout uw' = wbits uout uw @ ubs" by (rule tproducesE)
  then have fine: "names_live ?t st" "base ?t \<le> intMax" using assms(5) by (auto simp: call_fine_def)
  have t: "table_ok ?t" "table_ok (qcommon (qtable enc))" using e1(1) ok(1) by (simp_all add: acked_ok_def qtable_ok_def)
  from reliable_sink.writeHeaderBlock_produces [OF assms(2) e1(2) fine(1) t(1) fine(2) refl refl] hdr e1(3,4)
  obtain lines lr where b: "tproduces wout (writeHeaderBlock wops) (enc1, st)
      (int_bits 8 (unat lr) @ int_bits 8 0 @ lines) () (fold used_by [0..<length (headers st)] (enc1, st))"
    and lr: "encodeLargestReference (capacity ?t) (largestBase st) = Inr lr"
    and fl: "field_lines (HuffmanPreference enc) ?t (largestBase st) lines (headers st)" by auto
  let ?bits = "int_bits 8 (unat lr) @ int_bits 8 0 @ lines"
  let ?enc' = "enc1\<lparr>store := fold (\<lambda>i. addUse i st) [0..<length (headers st)] (store enc1)\<rparr>"
  from b obtain bw where bw: "writeHeaderBlock wops ((enc1, st), NewBitWriter w) = (Inr (), ((?enc', st), bw))"
    "wsavedBits bw < 8" "wbits wout bw = wbits wout (NewBitWriter w) @ ?bits"
    by (rule tproducesE [where bw = "NewBitWriter w"]) (auto simp: NewBitWriter_def fold_used_by)
  have "length ?bits mod 8 = 0"
    using length_int_bits_8 length_field_lines [OF fl] by (simp add: aligned(4))
  from aligned_output [OF bw(3,2) _ this] have out: "wout (writer bw) = wout w @ bits_bytes ?bits"
    "bytes_bits (bits_bytes ?bits) = ?bits" by (simp_all add: NewBitWriter_def)
  note uo = aligned_output [OF uw'(3,2) assms(4) length_updates [OF up]]
  have s1: "store_ok (store enc1)" using e1(6) store_ok_newBlock [OF ok(2)] by simp
  have "base (qcommon (qtable enc)) \<le> base ?t" using up t(2) by (rule updates_base)
  then have "usage_ok (base ?t) (store enc1) (snd (trackerGet i (usage enc)))"
    using e1(6) usage_ok_newBlock [OF trackerGet_ok(1) [OF ok(3)]] by (auto intro: usage_ok_mono)
  then have "usage_ok (base ?t) (store enc1) (usage enc1)"
    using us trackerGet_ok(2) [of "base ?t" "store enc1" "snd (trackerGet i (usage enc))" i] e1(5,6) t(1)
    by (auto simp: Let_def streamAdd_def newBlock_def table_ok_def intro!: usage_ok_update)
  moreover have "uses st < nextBlock (store enc1)" using e1(5,6) by (simp add: newBlock_def)
  ultimately have "qenc_ok ?enc'"
    using addUses_ok [OF s1 _ _ e1(2) t(1), of "usage enc1" "[0..<length (headers st)]"] e1(1)
      acked_ok_cong [of ?enc' enc1] by (auto simp: qenc_ok_def)
  moreover have "QpackWriteHeaderBlock uops wops uni i hs enc uw w = (Inr (), ?enc', uw', writer bw)"
    using uw'(1) bw(1) by (simp add: QpackWriteHeaderBlock_def)
  moreover have "0 \<le> largestBase st \<and> largestBase st \<le> base ?t" using e1(2) by (simp add: call_ok_def)
  ultimately show ?thesis
    using uo up out fl largest_decodes [OF e1(2) fine(1) t(1) fine(2) lr] fine(2) e1(3,4)
    by (intro exI [of _ ?enc'] exI [of _ uw'] exI [of _ "writer bw"] exI [of _ ubs] exI [of _ lr]
        exI [of _ "largestBase st"] exI [of _ lines]) (simp add: lowered_def)
qed


section \<open>Properties of QPACK\<close>

text \<open>C1: A QPACK header block survives the trip. From tables that agree, the encoder writes its
  instructions to the updates stream and the block to the request stream; a decoder that reads
  the updates has the encoder's new table, and reading the block then gives the fields in order,
  with lower-case names and the sensitive marks, leaves the table alone and queues an
  acknowledgment. The encoder keeps its invariant, so the next block can follow. The call is a fine one (\<open>call_fine\<close>): strings and counts are
  within their limits, and no entry that the block uses for its name is evicted by the block's own
  inserts (\<open>name_reference_evicted\<close> is a block for which this fails).\<close>

theorem qpack_roundtrip:
  assumes "reliable_sink uops uout" "reliable_sink wops wout" "byte_source rops content fin ok"
    "qenc_ok enc" "wsavedBits uw = 0" "call_fine uops uni i hs enc uw" "dtable d = qcommon (qtable enc)"
  shows "\<exists>enc' uw' w' ubs bs. QpackWriteHeaderBlock uops wops uni i hs enc uw w = (Inr (), enc', uw', w') \<and>
    qenc_ok enc' \<and> wsavedBits uw' = 0 \<and> uout (writer uw') = uout (writer uw) @ ubs \<and> wout w' = wout w @ bs \<and>
    (\<forall>r q. ok r \<and> content r = ubs \<and> fin r = EOF \<and> ok q \<and> content q = bs \<and> fin q = EOF \<longrightarrow>
      (\<exists>d' r' d'' q'. ReadTableUpdates rops d r = Some (Inr (), d', r') \<and> dtable d' = qcommon (qtable enc') \<and>
         QpackReadHeaderBlock rops i d' q = Some (Inr (lowered uni hs), d'', q') \<and> dtable d'' = dtable d'))"
proof -
  from QpackWriteHeaderBlock_spec [OF assms(1,2,4-6), of w] obtain enc' uw' w' ubs lr x lines where
    w: "QpackWriteHeaderBlock uops wops uni i hs enc uw w = (Inr (), enc', uw', w')"
    "qenc_ok enc'" "wsavedBits uw' = 0" "uout (writer uw') = uout (writer uw) @ bits_bytes ubs"
    "bytes_bits (bits_bytes ubs) = ubs"
    "updates (HuffmanPreference enc) (qcommon (qtable enc)) ubs (qcommon (qtable enc'))"
    "wout w' = wout w @ bits_bytes (int_bits 8 (unat lr) @ int_bits 8 0 @ lines)"
    "bytes_bits (bits_bytes (int_bits 8 (unat lr) @ int_bits 8 0 @ lines)) = int_bits 8 (unat lr) @ int_bits 8 0 @ lines"
    "field_lines (HuffmanPreference enc) (qcommon (qtable enc')) x lines (lowered uni hs)"
    "decodeLargestBase (qcommon (qtable enc')) lr = Inr x" "0 \<le> x" "x \<le> qbase enc'" "qbase enc' \<le> intMax"
    by blast
  have t: "table_ok (dtable d)" "table_ok (qcommon (qtable enc'))"
    using assms(4,7) w(2) by (simp_all add: qenc_ok_def acked_ok_def qtable_ok_def)
  have "\<exists>d' r' d'' q'. ReadTableUpdates rops d r = Some (Inr (), d', r') \<and> dtable d' = qcommon (qtable enc') \<and>
      QpackReadHeaderBlock rops i d' q = Some (Inr (lowered uni hs), d'', q') \<and> dtable d'' = dtable d'"
    if r: "ok r" "content r = bits_bytes ubs" "fin r = EOF" and q: "ok q" "fin q = EOF"
      "content q = bits_bytes (int_bits 8 (unat lr) @ int_bits 8 0 @ lines)" for r q
  proof -
    have "updates (HuffmanPreference enc) (dtable d) ubs (qcommon (qtable enc'))" using w(6) assms(7) by simp
    from byte_source.ReadTableUpdates_spec [OF assms(3) this t(1) r(1) _ r(3)] r(2) w(5) obtain d' r' where
      d': "ReadTableUpdates rops d r = Some (Inr (), d', r')" "dtable d' = qcommon (qtable enc')" by auto
    from byte_source.QpackReadHeaderBlock_spec [OF assms(3), of d' lr x "HuffmanPreference enc" lines "lowered uni hs" q i]
      w(8-13) t(2) q d'(2) obtain q' where
      "QpackReadHeaderBlock rops i d' q = Some (Inr (lowered uni hs), (if x > 0 then send (Acknowledged i x) d' else d'), q')"
      by auto
    with d' show ?thesis by (auto simp: send_def)
  qed
  with w(1-4,7) show ?thesis by blast
qed

text \<open>A fresh encoder with room for the entries and for blocked streams.\<close>

definition example_encoder :: "u64 \<Rightarrow> QpackEncoder" where
  "example_encoder c = (case NewQpackEncoder c c of
     Inr enc \<Rightarrow> enc\<lparr>maxBlockedStreams := 10, HuffmanPreference := HuffmanCodingNever\<rparr>)"

definition example_field :: "string \<Rightarrow> string \<Rightarrow> HeaderField" where
  "example_field n v = \<lparr>Name = n, Value = v, Sensitive = False\<rparr>"

lemma example_encoder_ok: "unat c < 2 ^ 62 \<Longrightarrow> qenc_ok (example_encoder c)"
  using qenc_ok_New [of c c] by (auto simp: example_encoder_def qenc_ok_def acked_ok_def unacked_def)

definition example_request :: "HeaderField list" where
  "example_request = [example_field '':method'' ''GET'', example_field ''X-A'' ''1'']"

lemma example_lowered: "lowered id example_request = [example_field '':method'' ''GET'', example_field ''x-a'' ''1'']"
  by code_simp

lemma example_tables: "dtable (NewQpackDecoder 4096) = qcommon (qtable (example_encoder 4096))"
  by code_simp

lemma example_fine: "call_fine buf_ops id 4 example_request (example_encoder 4096) (NewBitWriter [])"
proof -
  have "case writeTableChanges buf_ops 4 ((example_encoder 4096, initHeaders id example_request), NewBitWriter []) of
      (x, ((enc, st), w)) \<Rightarrow> nameMatches st = [None, None] \<and> length (headers st) = 2 \<and> qbase enc = 1"
    by code_simp
  moreover have "\<forall>h \<in> set (lowered id example_request). header_ok HuffmanCodingNever h"
    unfolding example_lowered by (simp add: header_ok_def string_ok_def example_field_def)
  moreover have "HuffmanPreference (example_encoder 4096) = HuffmanCodingNever" by code_simp
  ultimately show ?thesis
    by (auto simp: call_fine_def names_live_def intMax_def less_Suc_eq numeral_2_eq_2)
qed

theorem qpack_roundtrip_witness:
  "\<exists>enc' uw' bs d' r' d'' q'. QpackWriteHeaderBlock buf_ops buf_ops id 4
       example_request (example_encoder 4096) (NewBitWriter []) [] = (Inr (), enc', uw', bs) \<and>
     ReadTableUpdates source_ops (NewQpackDecoder 4096) (writer uw', EOF) = Some (Inr (), d', r') \<and>
     QpackReadHeaderBlock source_ops 4 d' (bs, EOF) = Some (Inr
       [example_field '':method'' ''GET'', example_field ''x-a'' ''1''], d'', q')"
proof -
  have "wsavedBits (NewBitWriter []) = 0" by (simp add: NewBitWriter_def)
  from qpack_roundtrip [OF buf.reliable_sink_axioms buf.reliable_sink_axioms src.byte_source_axioms
      example_encoder_ok this example_fine example_tables, of "[]"]
  show ?thesis by (auto simp: example_lowered NewBitWriter_def)
qed

text \<open>An entry that a block refers to only for its name is not protected while the block inserts other
  entries. This history makes the encoder evict such an entry and then refer to it: the decoder,
  whose table agrees with the encoder's, rejects the block with an index error.\<close>

lemma name_reference_evicted:
  "case QpackWriteHeaderBlock buf_ops buf_ops id 0 [example_field ''a'' ''''] (example_encoder 65) (NewBitWriter []) [] of
     (x1, enc1, u1, w1) \<Rightarrow>
   (case AcknowledgeHeader 0 enc1 of (y, enc2) \<Rightarrow>
   (case QpackWriteHeaderBlock buf_ops buf_ops id 4 [example_field ''a'' ''1'', example_field ''b'' '''']
           (SetIndexPreference ''a'' False enc2) u1 [] of (x2, enc3, u2, w2) \<Rightarrow>
   (case ReadTableUpdates source_ops (NewQpackDecoder 65) (writer u2, EOF) of
      None \<Rightarrow> False
    | Some (z, d, _) \<Rightarrow> x1 = Inr () \<and> y = Inr () \<and> x2 = Inr () \<and> z = Inr () \<and> dtable d = qcommon (qtable enc3) \<and>
        map_option fst (QpackReadHeaderBlock source_ops 4 d (w2, EOF)) = Some (Inl ErrIndexError))))"
  by code_simp

end
