(* ===== verification/QpackInvariant.thy ===== *)
theory QpackInvariant
  imports QpackSync
begin

text \<open>
  The QPACK encoder as a state machine: its operations as steps, over writers that may fail at
  any point, and what holds in every state that can be reached.
\<close>

section \<open>Operations that keep an invariant\<close>

text \<open>\<open>stays P m t\<close>: whatever the reader or writer does, \<open>m\<close> run in state \<open>t\<close> ends in a state with \<open>P\<close>.\<close>

definition stays :: "('t \<Rightarrow> bool) \<Rightarrow> ('t \<times> 'r, 'a) io \<Rightarrow> 't \<Rightarrow> bool" where
  "stays P m t \<longleftrightarrow> (\<forall>r. P (fst (snd (m (t, r)))))"

named_theorems stays

lemma stays_ret [stays]: "P t \<Longrightarrow> stays P (ret x) t"
  by (simp add: stays_def)

lemma stays_throw [stays]: "P t \<Longrightarrow> stays P (throw e) t"
  by (simp add: stays_def)

lemma stays_onIO [stays]: "P t \<Longrightarrow> stays P (onIO m) t"
  by (simp add: stays_def onIO_def split: prod.split)

lemma stays_modifyT [stays]: "P (f t) \<Longrightarrow> stays P (modifyT f) t"
  by (simp add: stays_def modifyT_def)

lemma stays_getT [stays]: "stays P (f t) t \<Longrightarrow> stays P (bnd getT f) t"
  by (simp add: stays_def)

lemma stays_bnd_onIO [stays]:
  assumes "P t" "\<And>x. stays P (f x) t"
  shows "stays P (bnd (onIO m) f) t"
  unfolding stays_def
proof
  fix r
  obtain x r' where "m r = (x, r')" by fastforce
  then have "onIO m (t, r) = (x, (t, r'))" by simp
  with assms show "P (fst (snd (bnd (onIO m) f (t, r))))" by (cases x) (simp_all add: stays_def)
qed

lemma stays_bnd:
  assumes "stays Q m t" "\<And>x t'. Q t' \<Longrightarrow> stays P (f x) t'" "\<And>t'. Q t' \<Longrightarrow> P t'"
  shows "stays P (bnd m f) t"
  unfolding stays_def
proof
  fix r
  obtain x t' r' where m: "m (t, r) = (x, (t', r'))" by (metis surj_pair)
  then have "Q t'" using assms(1) by (metis stays_def fst_conv snd_conv)
  with m assms(2,3) show "P (fst (snd (bnd m f (t, r))))" by (cases x) (auto simp: stays_def)
qed

lemma stays_if:
  "(c \<Longrightarrow> stays P a t) \<Longrightarrow> (\<not> c \<Longrightarrow> stays P b t) \<Longrightarrow> stays P (if c then a else b) t"
  by simp

lemma stays_option:
  "(x = None \<Longrightarrow> stays P a t) \<Longrightarrow> (\<And>y. x = Some y \<Longrightarrow> stays P (b y) t) \<Longrightarrow>
     stays P (case x of None \<Rightarrow> a | Some y \<Rightarrow> b y) t"
  by (cases x) simp_all

section \<open>Writing a block\<close>

text \<open>
  What a call has recorded: the entries were inserted, and its record of uses is allocated. Other calls may go
  on in the meantime; they only make the insert count and the store grow (\<open>grown\<close>).
\<close>

definition refs_ok :: "QpackEncoder \<Rightarrow> qpackWriterState \<Rightarrow> bool" where
  "refs_ok enc st \<longleftrightarrow> uses st < nextBlock (store enc) \<and> 0 \<le> largestBase st \<and> largestBase st \<le> qbase enc \<and>
     length (matches st) = length (headers st) \<and> length (nameMatches st) = length (headers st) \<and>
     (\<forall>d. Some (DynamicE d) \<in> set (matches st) \<union> set (nameMatches st) \<longrightarrow> 0 < eB d \<and> eB d \<le> qbase enc)"

definition hmax_ok :: "QpackEncoder \<Rightarrow> bool" where
  "hmax_ok enc \<longleftrightarrow> (\<forall>a. 0 \<le> hmax (blocks (store enc) a) \<and> hmax (blocks (store enc) a) \<le> qbase enc)"

definition grown :: "QpackEncoder \<Rightarrow> QpackEncoder \<Rightarrow> bool" where
  "grown g enc \<longleftrightarrow> qbase g \<le> qbase enc \<and> nextBlock (store g) \<le> nextBlock (store enc)"

definition sizes_ok :: "HeaderField list \<Rightarrow> bool" where
  "sizes_ok hs \<longleftrightarrow> (\<forall>h \<in> set hs. 32 + length (Name h) + length (Value h) < 2 ^ 62)"

lemma refs_ok_grown: "refs_ok g st \<Longrightarrow> grown g enc \<Longrightarrow> refs_ok enc st"
  by (fastforce simp: refs_ok_def grown_def)

text \<open>The invariant within a call that began with the encoder \<open>g\<close>.\<close>

fun within_call :: "QpackEncoder \<Rightarrow> HeaderField list \<Rightarrow> QpackEncoder \<times> qpackWriterState \<Rightarrow> bool" where
  "within_call g hs (enc, st) \<longleftrightarrow> qenc_ok enc \<and> hmax_ok enc \<and> grown g enc \<and> refs_ok enc st \<and> headers st = hs \<and> sizes_ok hs"

text \<open>
  The entries that the decoder will still need: a block that is not acknowledged refers to
  them, or their own insertion is not acknowledged.
\<close>

definition needed :: "QpackEncoder \<Rightarrow> BasicDynamicEntry \<Rightarrow> bool" where
  "needed enc e \<longleftrightarrow> 0 < refcount (store enc) (eB e) \<and> refcount (store enc) (eB e) < 2 ^ 64 \<or> highestAcknowledged enc < eB e"

text \<open>The invariant of the first section, while the table changes.\<close>

fun changing :: "QpackEncoder \<Rightarrow> HeaderField list \<Rightarrow> QpackEncoder \<times> qpackWriterState \<Rightarrow> bool" where
  "changing g hs (enc, st) \<longleftrightarrow> within_call g hs (enc, st) \<and>
     refcount (store enc) = refcount (store g) \<and> highestAcknowledged enc = highestAcknowledged g \<and>
     (\<forall>e \<in> set (dynamic (qcommon (qtable g))). needed g e \<longrightarrow> e \<in> set (dynamic (qcommon (qtable enc)))) \<and>
     (\<forall>d. Some (DynamicE d) \<in> set (matches st) \<longrightarrow> d \<in> set (dynamic (qcommon (qtable enc))) \<and> smallestBase st \<le> eB d)"

lemma encoderInsert_keeps:
  assumes "qenc_ok enc" "e \<in> set (dynamic (qcommon (qtable enc)))" "32 + length n + length v < 2 ^ 62"
    "encoderInsert n v ((enc, st), w) = (x, ((enc', st'), w'))" "needed enc e \<or> smallestBase st \<le> eB e"
  shows "e \<in> set (dynamic (qcommon (qtable enc')))"
proof (rule ccontr)
  assume out: "e \<notin> set (dynamic (qcommon (qtable enc')))"
  have ok: "acked_ok enc" "store_ok (store enc)" using assms(1) by (auto simp: qenc_ok_def)
  note sp = encoderInsert_spec [OF ok(1) assms(3,4)]
  then have "CanEvict st e" "\<not> inUse (store enc) e" using assms(2) out by auto
  then have "highestAcknowledged enc < eB e"
    using assms(5) ok(2)
    by (auto simp: needed_def CanEvict_def inUse_def store_ok_def word_greater_zero_iff word_of_nat_eq_0_iff dvd_def)
  moreover have "table_ok (qcommon (qtable enc))" using ok(1) by (simp add: acked_ok_def qtable_ok_def)
  note te = table_ok_entry [OF this assms(2)]
  ultimately have k: "nat (qbase enc - eB e) < unacked enc" by (simp add: unacked_def)
  obtain e' c where d: "dynamic (qcommon (qtable enc')) = e' # fit c (dynamic (qcommon (qtable enc)))"
    "qbase enc' = qbase enc + 1" "highestAcknowledged enc' = highestAcknowledged enc" "acked_ok enc'"
    using sp assms(2) out by (auto split: sum.splits option.splits)
  obtain l where l: "fit c (dynamic (qcommon (qtable enc))) = take l (dynamic (qcommon (qtable enc)))"
    using fit_is_take by blast
  have "unacked enc' \<le> length (dynamic (qcommon (qtable enc')))" using d(4) by (simp add: acked_ok_def)
  then have "unacked enc < Suc l" using d l k by (simp add: unacked_def)
  moreover have "nat (qbase enc - eB e) < length (dynamic (qcommon (qtable enc)))" using te(1,2) by simp
  ultimately have "take l (dynamic (qcommon (qtable enc))) ! nat (qbase enc - eB e) = e"
    "nat (qbase enc - eB e) < length (take l (dynamic (qcommon (qtable enc))))"
    using k te(3) by simp_all
  then have "e \<in> set (take l (dynamic (qcommon (qtable enc))))" by (metis nth_mem)
  with out d l show False by simp
qed

subsection \<open>The first section\<close>

lemma refs_ok_recordMatch:
  assumes "refs_ok enc st"
    "\<forall>d. full = Some (DynamicE d) \<or> nm = Some (DynamicE d) \<longrightarrow> 0 < eB d \<and> eB d \<le> qbase enc"
  shows "refs_ok enc (recordMatch i full nm st)"
proof (rule recordMatch_induct)
  show "refs_ok enc st" by (rule assms(1))
  fix e
  show "refs_ok enc (updateBase e True (st\<lparr>matches := (matches st)[i := Some e]\<rparr>))" if "full = Some e"
    using that assms set_update_subset_insert [of "matches st" i "Some e"]
    by (fastforce simp: refs_ok_def updateBase_bases split: Entry.split)
  show "refs_ok enc (updateBase e False (st\<lparr>nameMatches := (nameMatches st)[i := Some e]\<rparr>))" if "nm = Some e"
    using that assms set_update_subset_insert [of "nameMatches st" i "Some e"]
    by (fastforce simp: refs_ok_def updateBase_bases split: Entry.split)
qed

text \<open>A full match is recorded together with the lowering of the smallest base.\<close>

lemma matches_recordMatch:
  assumes "\<forall>d. Some (DynamicE d) \<in> set (matches st) \<longrightarrow> P d \<and> smallestBase st \<le> eB d" "\<forall>d. full = Some (DynamicE d) \<longrightarrow> P d"
  shows "\<forall>d. Some (DynamicE d) \<in> set (matches (recordMatch i full nm st)) \<longrightarrow> P d \<and> smallestBase (recordMatch i full nm st) \<le> eB d"
proof (rule recordMatch_induct)
  show "\<forall>d. Some (DynamicE d) \<in> set (matches st) \<longrightarrow> P d \<and> smallestBase st \<le> eB d" by (rule assms(1))
  fix e
  show "\<forall>d. Some (DynamicE d) \<in> set (matches (updateBase e True (st\<lparr>matches := (matches st)[i := Some e]\<rparr>))) \<longrightarrow>
      P d \<and> smallestBase (updateBase e True (st\<lparr>matches := (matches st)[i := Some e]\<rparr>)) \<le> eB d" if full: "full = Some e"
  proof (intro allI impI)
    fix d
    let ?u = "updateBase e True (st\<lparr>matches := (matches st)[i := Some e]\<rparr>)"
    have u: "matches ?u = (matches st)[i := Some e]" "smallestBase ?u \<le> smallestBase st" "e = DynamicE x \<Longrightarrow> smallestBase ?u \<le> eB x" for x
      by (simp_all add: updateBase_bases split: Entry.split)
    assume "Some (DynamicE d) \<in> set (matches ?u)"
    then have "Some (DynamicE d) = Some e \<or> Some (DynamicE d) \<in> set (matches st)"
      unfolding u(1) using set_update_subset_insert [of "matches st" i "Some e"] by blast
    then show "P d \<and> smallestBase ?u \<le> eB d"
      using u(2) u(3) [of d] assms full by (auto intro: order_trans)
  qed
  show "\<forall>d. Some (DynamicE d) \<in> set (matches (updateBase e False (st\<lparr>nameMatches := (nameMatches st)[i := Some e]\<rparr>))) \<longrightarrow>
      P d \<and> smallestBase (updateBase e False (st\<lparr>nameMatches := (nameMatches st)[i := Some e]\<rparr>)) \<le> eB d" if "nm = Some e"
    using assms(1) by (simp add: updateBase_bases split: Entry.split)
qed

lemma changing_record:
  assumes "changing g hs (enc, st)"
    "\<forall>d. full = Some (DynamicE d) \<or> nm = Some (DynamicE d) \<longrightarrow> d \<in> set (dynamic (qcommon (qtable enc)))"
  shows "stays (changing g hs) (record_match i full nm) (enc, st)"
proof -
  have "table_ok (qcommon (qtable enc))" using assms(1) by (simp add: qenc_ok_def acked_ok_def qtable_ok_def)
  note te = table_ok_entry [OF this]
  have "\<forall>d. full = Some (DynamicE d) \<or> nm = Some (DynamicE d) \<longrightarrow> 0 < eB d \<and> eB d \<le> qbase enc"
    using te(1,4) assms(2) by fastforce
  then have "refs_ok enc (recordMatch i full nm st)" using assms(1) by (intro refs_ok_recordMatch) simp_all
  moreover have "\<forall>d. Some (DynamicE d) \<in> set (matches (recordMatch i full nm st)) \<longrightarrow>
      d \<in> set (dynamic (qcommon (qtable enc))) \<and> smallestBase (recordMatch i full nm st) \<le> eB d"
    using assms by (intro matches_recordMatch) simp_all
  moreover have "headers (recordMatch i full nm st) = headers st" by simp
  ultimately have "changing g hs (enc, recordMatch i full nm st)"
    using assms(1) unfolding changing.simps within_call.simps by metis
  then show ?thesis unfolding record_match_def by (intro stays_modifyT) simp
qed

lemma qenc_ok_rest:
  assumes "qenc_ok enc" "acked_ok enc'" "same_rest enc enc'" "qbase enc \<le> qbase enc'"
  shows "qenc_ok enc'"
  using assms by (auto simp: qenc_ok_def same_rest_def intro: usage_ok_mono)

text \<open>After an insert, \<open>k\<close> goes on with the new entry or without one.\<close>

lemma changing_insert:
  fixes k :: "BasicDynamicEntry option \<Rightarrow> ('w qpack_enc, 'b) io"
  assumes "changing g hs (enc, st)" "32 + length n + length v < 2 ^ 62"
    "\<And>enc'. changing g hs (enc', st) \<Longrightarrow> stays (changing g hs) (k None) (enc', st)"
    "\<And>enc' e. changing g hs (enc', st) \<Longrightarrow> e \<in> set (dynamic (qcommon (qtable enc'))) \<Longrightarrow> stays (changing g hs) (k (Some e)) (enc', st)"
  shows "stays (changing g hs) (bnd (encoderInsert n v) k) (enc, st)"
  unfolding stays_def
proof
  fix r :: "'w bitWriter"
  obtain x enc' st' r' where i: "encoderInsert n v ((enc, st), r) = (x, ((enc', st'), r'))" by (metis surj_pair)
  have a: "qenc_ok enc" "acked_ok enc" using assms(1) by (simp_all add: qenc_ok_def)
  note sp = encoderInsert_spec [OF a(2) assms(2) i]
  have b: "qbase enc \<le> qbase enc'" and s: "store enc' = store enc" "highestAcknowledged enc' = highestAcknowledged enc"
    using sp by (auto simp: same_rest_def split: sum.splits option.splits)
  have q: "qenc_ok enc'" using qenc_ok_rest [OF a(1) _ _ b] sp by simp
  have "refs_ok enc' st" using assms(1) refs_ok_grown [of enc st enc'] b s by (simp add: grown_def)
  moreover have "hmax_ok enc'" using assms(1) b s by (simp add: hmax_ok_def) (meson order_trans)
  ultimately have "within_call g hs (enc', st)" using assms(1) q b s by (simp add: grown_def)
  moreover have "e \<in> set (dynamic (qcommon (qtable enc')))"
    if "e \<in> set (dynamic (qcommon (qtable enc)))" "needed g e \<or> smallestBase st \<le> eB e" for e
    using encoderInsert_keeps [OF a(1) that(1) assms(2) i] that(2) assms(1) by (auto simp: needed_def)
  ultimately have w: "changing g hs (enc', st)" using assms(1) s by auto
  have "x = Inr None \<or> (\<exists>e. x = Inr (Some e) \<and> e \<in> set (dynamic (qcommon (qtable enc'))))"
    using sp by (auto split: sum.splits option.splits)
  with w i sp assms(3) [OF w] assms(4) [OF w] show "changing g hs (fst (snd (bnd (encoderInsert n v) k ((enc, st), r))))"
    by (auto simp: stays_def)
qed

lemma writeDuplicate_stays:
  assumes "changing g hs (enc, st)" "32 + length (eN d) + length (eV d) < 2 ^ 62"
  shows "stays (changing g hs) (writeDuplicate ops d i) (enc, st)"
  unfolding writeDuplicate_def
  by (rule changing_insert [OF assms])
    (auto simp del: changing.simps split: prod.split intro!: stays changing_record)

lemma writeInsert_stays:
  assumes "changing g hs (enc, st)" "i < length hs"
  shows "stays (changing g hs) (writeInsert ops i nm) (enc, st)"
proof -
  have "32 + length (Name (headers st ! i)) + length (Value (headers st ! i)) < 2 ^ 62"
    using assms by (auto simp: sizes_ok_def)
  note ins = changing_insert [OF assms(1) this]
  show ?thesis
    unfolding writeInsert_def
    by (rule stays_getT, unfold prod.case Let_def, rule ins)
      (auto simp del: changing.simps split: prod.split option.split Entry.split intro!: stays changing_record)
qed

lemma tableChange_stays:
  assumes "changing g hs (enc, st)" "i < length hs"
  shows "stays (changing g hs) (tableChange ops i) (enc, st)"
proof -
  let ?h = "headers st ! i"
  obtain full nm where lr: "LookupReferenceable (qtable enc) (Name ?h) (Value ?h) (maxBase st) = (full, nm)" by fastforce
  obtain dup inm where le: "LookupExtra (qtable enc) (Name ?h) (Value ?h) = (dup, inm)" by fastforce
  have found: "\<forall>d. full = Some (DynamicE d) \<or> nm = Some (DynamicE d) \<longrightarrow> d \<in> set (dynamic (qcommon (qtable enc)))"
    using LookupReferenceable_spec [OF lr] by (auto simp: qpack_entries_def)
  have size: "32 + length (Name ?h) + length (Value ?h) < 2 ^ 62" using assms by (auto simp: sizes_ok_def)
  have dup: "stays (changing g hs) (writeDuplicate ops d i) (enc, st)" if "dup = Some d" for d
    using LookupExtra_spec(2) [OF le that] size by (intro writeDuplicate_stays [OF assms(1)]) simp
  have ins: "stays (changing g hs) (if p then writeInsert ops i x else ret ()) t" if "changing g hs t" for p x t
    using that assms(2) writeInsert_stays [of g hs "fst t" "snd t" i] by (cases t) (auto simp del: changing.simps intro: stays)
  have rec: "stays (changing g hs) (record_match i full nm) (enc, st)"
    "stays (changing g hs) (record_match i None nm) (enc, st)"
    using found by (auto intro!: changing_record [OF assms(1)])
  have both: "stays (changing g hs) (bnd (if nm \<noteq> None then record_match i None nm else ret ()) (\<lambda>_.
      if p then writeInsert ops i x else ret ())) (enc, st)" for p x
    by (rule stays_bnd [where Q = "changing g hs", OF _ ins]) (intro stays_if rec(2) stays_ret assms(1), assumption+)
  show ?thesis
    unfolding tableChange_def
    by (rule stays_getT, unfold prod.case Let_def lr le)
      (intro stays_if stays_option stays_ret assms(1) rec(1) dup both)
qed

lemma tableChanges_stays:
  assumes "changing g hs t" "\<forall>i \<in> set is. i < length hs"
  shows "stays (changing g hs) (tableChanges ops is) t"
  using assms
proof (induction "is" arbitrary: t)
  case Nil
  show ?case unfolding tableChanges.simps by (rule stays_ret) (rule Nil.prems(1))
next
  case (Cons i "is")
  have "stays (changing g hs) (tableChange ops i) t"
    using Cons.prems by (cases t) (auto intro!: tableChange_stays simp del: changing.simps)
  with Cons show ?case
    unfolding tableChanges.simps by (intro stays_bnd [where Q = "changing g hs"]) auto
qed

lemma changing_setup:
  assumes "qenc_ok enc" "hmax_ok enc" "sizes_ok (lowered uni hs)"
  shows "changing enc (lowered uni hs) (setupCall i (enc, initHeaders uni hs))"
proof -
  obtain su ut where tr: "trackerGet i (usage enc) = (su, ut)" by fastforce
  let ?s = "snd (newBlock (store enc))"
  have ok: "acked_ok enc" "store_ok (store enc)" "usage_ok (qbase enc) (store enc) (usage enc)"
    using assms(1) by (auto simp: qenc_ok_def)
  have "usage_ok (qbase enc) ?s ut" using usage_ok_newBlock [OF trackerGet_ok(1) [OF ok(3), of i]] tr by simp
  moreover have "acked_ok (enc\<lparr>usage := ut, store := ?s\<rparr>)"
    using ok(1) acked_ok_cong [of "enc\<lparr>usage := ut, store := ?s\<rparr>" enc] by simp
  moreover have b: "0 \<le> qbase enc" using ok(1) by (auto simp: acked_ok_def)
  moreover have "refcount ?s = refcount (store enc)" by (rule ext) (simp add: newBlock_def refcount_def)
  moreover have "hmax_ok (enc\<lparr>usage := ut, store := ?s\<rparr>)" using assms(2) b by (simp add: hmax_ok_def newBlock_def)
  ultimately show ?thesis
    using assms(3) ok(2) store_ok_newBlock [OF ok(2)] tr
    by (auto simp: setupCall_def qenc_ok_def refs_ok_def grown_def setupUsage_def Let_def initHeaders_def newBlock_def lowered_def)
qed

lemma changing_finish:
  assumes "changing g hs (enc, st)"
  shows "changing g hs (finishCall i (enc, st))"
proof -
  let ?e = "if isNewlyBlocked (highestAcknowledged enc) st then enc\<lparr>blockedStreams := blockedStreams enc + 1\<rparr> else enc"
  let ?ut = "AList.update i (streamAdd (uses st) (fst (trackerGet i (usage enc)))) (usage enc)"
  let ?e' = "if largestBase st > 0 then ?e\<lparr>usage := ?ut\<rparr> else ?e"
  have same: "qtable ?e' = qtable enc" "store ?e' = store enc"
    "unacknowledgedSize ?e' = unacknowledgedSize enc" "highestAcknowledged ?e' = highestAcknowledged enc"
    "usage ?e' = (if largestBase st > 0 then ?ut else usage enc)" by simp_all
  have ok: "acked_ok enc" "store_ok (store enc)" "usage_ok (qbase enc) (store enc) (usage enc)" "refs_ok enc st" "hmax_ok enc"
    using assms by (auto simp: qenc_ok_def)
  have "\<forall>a \<in> set (streamAdd (uses st) (fst (trackerGet i (usage enc)))).
      a < nextBlock (store enc) \<and> 0 \<le> hmax (blocks (store enc) a) \<and> hmax (blocks (store enc) a) \<le> qbase enc"
    using trackerGet_ok(2) [OF ok(3), of i] ok(4,5) by (auto simp: streamAdd_def refs_ok_def hmax_ok_def)
  then have "usage_ok (qbase enc) (store enc) (usage ?e')"
    using ok(3) usage_ok_update [OF ok(3)] unfolding same(5) by simp
  moreover have "acked_ok ?e'" using ok(1) acked_ok_cong [OF same(1,3,4)] by simp
  ultimately have "qenc_ok ?e'" unfolding qenc_ok_def same(1,2) using ok(2) by blast
  moreover have "refs_ok ?e' st" using ok(4) unfolding refs_ok_def same(1,2) .
  moreover have "hmax_ok ?e'" using ok(5) unfolding hmax_ok_def same(1,2) .
  moreover have "finishCall i (enc, st) = (?e', st)" by (simp add: finishCall_def Let_def)
  moreover have "grown g ?e'" using assms unfolding grown_def same(1,2) by (simp add: grown_def)
  ultimately show ?thesis using assms same(1,2,4) by simp
qed

lemma writeTableChanges_keeps:
  assumes "qenc_ok enc" "hmax_ok enc" "sizes_ok (lowered uni hs)"
    "writeTableChanges ops i ((enc, initHeaders uni hs), uw) = (x, ((enc', st), uw'))"
  shows "changing enc (lowered uni hs) (enc', st)"
proof -
  let ?hs = "lowered uni hs" and ?P = "changing enc (lowered uni hs)"
  have "stays ?P (bnd (tableChanges ops [0..<length (headers s)]) (\<lambda>_. modifyT (finishCall i))) (e, s)" if "?P (e, s)" for e s
  proof -
    have "length (headers s) = length ?hs" using that by simp
    with that show ?thesis
      by (intro stays_bnd [where Q = ?P] tableChanges_stays)
        (auto simp del: changing.simps intro!: stays changing_finish)
  qed
  then have "stays ?P (bnd getT (\<lambda>(_, s). bnd (tableChanges ops [0..<length (headers s)]) (\<lambda>_.
      modifyT (finishCall i)))) t" if "?P t" for t
    using that by (cases t) (auto intro!: stays_getT simp del: changing.simps)
  from stays_bnd [OF stays_modifyT this, of ?P "setupCall i" "(enc, initHeaders uni hs)"]
  have "stays ?P (writeTableChanges ops i) (enc, initHeaders uni hs)"
    using changing_setup [OF assms(1,2,3)] unfolding writeTableChanges_def by (simp del: changing.simps)
  with assms(4) show ?thesis by (metis stays_def fst_conv snd_conv)
qed

subsection \<open>The second section\<close>

lemma within_call_use:
  assumes "within_call g hs (enc, st)" "i < length hs"
  shows "within_call g hs (enc\<lparr>store := addUse i st (store enc)\<rparr>, st)"
proof -
  let ?e = "enc\<lparr>store := addUse i st (store enc)\<rparr>"
  have ok: "acked_ok enc" "store_ok (store enc)" "usage_ok (qbase enc) (store enc) (usage enc)" "refs_ok enc st" "hmax_ok enc"
    using assms(1) by (auto simp: qenc_ok_def)
  have len: "i < length (matches st)" "i < length (nameMatches st)"
    using ok(4) assms by (auto simp: refs_ok_def)
  have a: "acked_ok ?e" using ok(1) acked_ok_cong [of ?e enc] by simp
  show ?thesis
  proof (cases "\<exists>d. entry_ref st i = Some (DynamicE d)")
    case False
    then have "?e = enc" by (auto simp: addUse_cases split: option.split Entry.split)
    with assms(1) show ?thesis by simp
  next
    case True
    then obtain d where d: "entry_ref st i = Some (DynamicE d)" by blast
    then have "Some (DynamicE d) \<in> set (matches st) \<union> set (nameMatches st)"
      using len by (metis UnI1 UnI2 entry_ref_def nth_mem)
    then have b: "0 < eB d" "eB d \<le> qbase enc" using ok(4) by (auto simp: refs_ok_def)
    have s: "store ?e = blockAdd (uses st) d (store enc)" using d by (simp add: addUse_cases)
    have "store_ok (store ?e)" "usage_ok (qbase enc) (store ?e) (usage enc)"
      unfolding s using ok b by (auto simp: refs_ok_def intro: store_ok_blockAdd usage_ok_blockAdd)
    moreover have "refs_ok ?e st" using ok(4) b s by (auto simp: refs_ok_def blockAdd_def Let_def)
    moreover have "hmax_ok ?e" using ok(5) b s by (auto simp: hmax_ok_def blockAdd_def Let_def)
    ultimately show ?thesis using a assms(1) by (simp add: qenc_ok_def grown_def)
  qed
qed

lemma qwriteField_stays:
  assumes "within_call g hs (enc, st)" "i < length hs"
  shows "stays (within_call g hs) (qwriteField ops i) (enc, st)"
  unfolding qwriteField_def qwriteIndexed_def qwriteLiteral_def
  by (rule stays_getT, unfold prod.case Let_def)
    (intro stays_if stays_getT, unfold prod.case Let_def,
      (intro stays_bnd_onIO assms(1) stays_modifyT, unfold prod.case, rule within_call_use [OF assms])+)

lemma qwriteFields_stays:
  assumes "within_call g hs t" "\<forall>i \<in> set is. i < length hs"
  shows "stays (within_call g hs) (qwriteFields ops is) t"
  using assms
proof (induction "is" arbitrary: t)
  case Nil
  show ?case unfolding qwriteFields.simps by (rule stays_ret) (rule Nil.prems(1))
next
  case (Cons i "is")
  have "stays (within_call g hs) (qwriteField ops i) t"
    using Cons.prems by (cases t) (auto intro!: qwriteField_stays simp del: within_call.simps)
  with Cons show ?case
    unfolding qwriteFields.simps by (intro stays_bnd [where Q = "within_call g hs"]) auto
qed

text \<open>
  Whatever happens to the writer, the encoder keeps its invariant: a failed write leaves a
  block half written, but never an encoder that miscounts.
\<close>

lemma writeHeaderBlock_keeps:
  assumes "within_call g hs (enc, st)" "writeHeaderBlock ops ((enc, st), bw) = (x, ((enc', st'), bw'))"
  shows "within_call g hs (enc', st')"
proof -
  have "length (headers st) = length hs" using assms(1) by simp
  with assms(1) have "stays (within_call g hs) (writeHeaderBlock ops) (enc, st)"
    unfolding writeHeaderBlock_def
    by (intro stays_getT) (auto simp del: within_call.simps split: sum.split intro!: stays qwriteFields_stays)
  with assms(2) show ?thesis by (metis stays_def fst_conv snd_conv)
qed

section \<open>The encoder as a state machine\<close>

text \<open>
  The state is the encoder together with the calls of \<open>WriteHeaderBlock\<close> that are between their two
  sections: the first section of a call (\<open>table_changes\<close>, under the lock of the table) leaves the
  record of the call behind, the second (\<open>write_block\<close>) writes the fields from it, and any other
  operation, another call included, may come in between. Each section under the lock is one step;
  the second holds the lock shared, and two of them at the same time are taken one after the other.
  The writers fail as a script says. Errors are results like any other and the machine goes on
  after them; a panic ends it. The insert count is assumed to stay within an \<open>int\<close>, and so is the
  sum in \<open>AcknowledgeInsert\<close>.
\<close>

type_synonym enc_state = "QpackEncoder \<times> qpackWriterState list"

inductive enc_step :: "enc_state \<Rightarrow> enc_state \<Rightarrow> bool" where
  table_changes: "sizes_ok (lowered uni hs) \<Longrightarrow>
    writeTableChanges script_ops i ((enc, initHeaders uni hs), uw) = (Inr (), ((enc', st), uw')) \<Longrightarrow>
    enc_step (enc, calls) (enc', calls @ [st])"
| table_changes_fail: "sizes_ok (lowered uni hs) \<Longrightarrow>
    writeTableChanges script_ops i ((enc, initHeaders uni hs), uw) = (Inl e, ((enc', st), uw')) \<Longrightarrow>
    enc_step (enc, calls) (enc', calls)"
| write_block: "k < length calls \<Longrightarrow>
    writeHeaderBlock script_ops ((enc, calls ! k), NewBitWriter w) = (x, ((enc', st), bw)) \<Longrightarrow>
    enc_step (enc, calls) (enc', take k calls @ drop (Suc k) calls)"
| ack_header: "qbase enc \<le> intMax \<Longrightarrow> AcknowledgeHeader i enc = (x, enc') \<Longrightarrow> enc_step (enc, calls) (enc', calls)"
| ack_insert: "qbase enc \<le> intMax \<Longrightarrow> highestAcknowledged enc + increment \<le> intMax \<Longrightarrow>
    AcknowledgeInsert increment enc = (x, enc') \<Longrightarrow> enc_step (enc, calls) (enc', calls)"
| ack_reset: "AcknowledgeReset i enc = (x, enc') \<Longrightarrow> enc_step (enc, calls) (enc', calls)"
| set_capacity: "unat c < 2 ^ 62 \<Longrightarrow> QpackSetCapacity c enc = (x, enc') \<Longrightarrow> enc_step (enc, calls) (enc', calls)"
| set_limit: "enc_step (enc, calls) (QpackSetReferenceableLimit limit enc, calls)"
| set_blocked: "SetMaxBlockedStreams m enc = (x, enc') \<Longrightarrow> enc_step (enc, calls) (enc', calls)"
| set_index: "enc_step (enc, calls) (SetIndexPreference name pref enc, calls)"
| clear_index: "enc_step (enc, calls) (ClearIndexPreference name enc, calls)"
| set_huffman: "enc_step (enc, calls) (enc\<lparr>HuffmanPreference := c\<rparr>, calls)"

inductive enc_run :: "enc_state \<Rightarrow> bool" where
  start: "unat c < 2 ^ 62 \<Longrightarrow> NewQpackEncoder c limit = Inr enc \<Longrightarrow> enc_run (enc, [])"
| step: "enc_run s \<Longrightarrow> enc_step s s' \<Longrightarrow> enc_run s'"

definition enc_reach :: "QpackEncoder \<Rightarrow> bool" where
  "enc_reach enc \<longleftrightarrow> (\<exists>calls. enc_run (enc, calls))"

fun machine_ok :: "enc_state \<Rightarrow> bool" where
  "machine_ok (enc, calls) \<longleftrightarrow> qenc_ok enc \<and> hmax_ok enc \<and> (\<forall>st \<in> set calls. refs_ok enc st \<and> sizes_ok (headers st))"

text \<open>A call that nothing interrupts is its two sections in a row.\<close>

lemma whole_block_run:
  assumes "enc_run (enc, calls)" "sizes_ok (lowered uni hs)"
    "QpackWriteHeaderBlock script_ops script_ops uni i hs enc uw w = (x, enc', uw', w')"
  shows "enc_run (enc', calls)"
proof -
  obtain y enc1 st uw1 where t: "writeTableChanges script_ops i ((enc, initHeaders uni hs), uw) = (y, ((enc1, st), uw1))"
    by (metis surj_pair)
  show ?thesis
  proof (cases y)
    case (Inl e)
    with t assms show ?thesis by (auto simp: QpackWriteHeaderBlock_def intro: step table_changes_fail)
  next
    case (Inr u)
    obtain z enc2 st2 bw where b: "writeHeaderBlock script_ops ((enc1, st), NewBitWriter w) = (z, ((enc2, st2), bw))"
      by (metis surj_pair)
    have "enc_run (enc1, calls @ [st])" using t Inr assms(1,2) by (auto intro: step table_changes)
    moreover have "enc_step (enc1, calls @ [st]) (enc2, calls)"
      using write_block [of "length calls" "calls @ [st]" enc1 w z enc2 st2 bw] b by simp
    ultimately show ?thesis using t Inr b assms(3) by (auto simp: QpackWriteHeaderBlock_def intro: step)
  qed
qed

lemma qenc_ok_cong:
  assumes "qtable enc' = qtable enc" "unacknowledgedSize enc' = unacknowledgedSize enc"
    "highestAcknowledged enc' = highestAcknowledged enc" "store enc' = store enc" "usage enc' = usage enc"
  shows "qenc_ok enc' = qenc_ok enc"
  unfolding qenc_ok_def acked_ok_cong [OF assms(1-3)] assms by (rule refl)

lemma qenc_ok_SetCapacity:
  assumes "qenc_ok enc" "unat c < 2 ^ 62" "QpackSetCapacity c enc = (x, enc')"
  shows "qenc_ok enc'"
proof (cases "QpackTableSetCapacity c (qtable enc)")
  case (Inl e)
  with assms show ?thesis by (simp add: QpackSetCapacity_def)
next
  case (Inr qt)
  have q: "qtable_ok (qtable enc)" "0 \<le> highestAcknowledged enc" "highestAcknowledged enc \<le> qbase enc"
    "unat (unacknowledgedSize enc) = total_size (take (unacked enc) (dynamic (qcommon (qtable enc))))"
    using assms(1) by (auto simp: qenc_ok_def acked_ok_def)
  note c = qtable_ok_SetCapacity [OF q(1) Inr]
  have "qbase enc \<le> 0" using Inr by (auto simp: QpackTableSetCapacity_def split: if_splits)
  then have "qbase enc = 0" "highestAcknowledged enc = 0" using q(2,3) by auto
  then have "acked_ok (enc\<lparr>qtable := qt\<rparr>)"
    using c q(4) assms(2) by (simp add: acked_ok_def unacked_def)
  with Inr c(4) assms \<open>qbase enc = 0\<close> show ?thesis
    by (auto simp: QpackSetCapacity_def qenc_ok_def)
qed

lemma qenc_ok_SetLimit:
  assumes "qenc_ok enc"
  shows "qenc_ok (QpackSetReferenceableLimit limit enc)"
proof -
  have "table_ok (qcommon (qtable enc))" using assms by (simp add: qenc_ok_def acked_ok_def qtable_ok_def)
  from qtable_ok_SetReferenceableLimit [OF this, of limit] assms show ?thesis
    by (simp add: QpackSetReferenceableLimit_def qenc_ok_def acked_ok_def unacked_def)
qed

text \<open>Acknowledgments change the records of uses, but forget none and keep the insert count.\<close>

definition recorded_as :: "usageStore \<Rightarrow> usageStore \<Rightarrow> bool" where
  "recorded_as s s' \<longleftrightarrow> nextBlock s' = nextBlock s \<and> (\<forall>a. hmax (blocks s' a) = hmax (blocks s a))"

lemma streamCancel_recorded: "recorded_as s (snd (streamCancel su m s))"
  by (induction su m s rule: streamCancel.induct) (simp_all add: recorded_as_def)

lemma trackers_recorded:
  "recorded_as s (snd (snd (trackerAck i ut s)))" "recorded_as s (snd (snd (trackerCancel i ut s)))"
proof -
  show "recorded_as s (snd (snd (trackerAck i ut s)))"
  proof (cases "map_of ut i")
    case (Some su)
    then show ?thesis by (cases su) (simp_all add: trackerAck_def recorded_as_def)
  qed (simp add: trackerAck_def recorded_as_def)
  show "recorded_as s (snd (snd (trackerCancel i ut s)))"
    using streamCancel_recorded [of s _ 0]
    by (auto simp: trackerCancel_def recorded_as_def split: option.split prod.split) (metis snd_conv)+
qed

lemma updateHighestAcknowledged_store [simp]:
  "store (snd (updateHighestAcknowledged n enc)) = store enc" "qtable (snd (updateHighestAcknowledged n enc)) = qtable enc"
  by (auto simp: updateHighestAcknowledged_def Let_def split: sum.split)

lemma acknowledgments_recorded:
  "recorded_as (store enc) (store (snd (AcknowledgeHeader i enc)))" "recorded_as (store enc) (store (snd (AcknowledgeReset i enc)))"
  "recorded_as (store enc) (store (snd (AcknowledgeInsert n enc)))"
  using trackers_recorded [of "store enc" i "usage enc"]
  by (auto simp: AcknowledgeHeader_def AcknowledgeReset_def AcknowledgeInsert_def Let_def recorded_as_def split: prod.split)

lemma machine_ok_mono:
  assumes "machine_ok (enc, calls)" "qenc_ok enc'" "hmax_ok enc'" "grown enc enc'" "set calls' \<subseteq> set calls"
  shows "machine_ok (enc', calls')"
  using assms by (auto intro: refs_ok_grown)

lemma machine_ok_recorded:
  assumes "machine_ok (enc, calls)" "qenc_ok enc'" "recorded_as (store enc) (store enc')" "qbase enc' = qbase enc"
  shows "machine_ok (enc', calls)"
  using assms(1,2) by (rule machine_ok_mono) (use assms in \<open>auto simp: recorded_as_def hmax_ok_def grown_def\<close>)

lemma machine_ok_settings:
  assumes "machine_ok (enc, calls)" "qtable enc' = qtable enc" "unacknowledgedSize enc' = unacknowledgedSize enc"
    "highestAcknowledged enc' = highestAcknowledged enc" "store enc' = store enc" "usage enc' = usage enc"
  shows "machine_ok (enc', calls)"
  using assms(1) by (rule machine_ok_recorded) (use assms qenc_ok_cong [OF assms(2-6)] in \<open>auto simp: recorded_as_def\<close>)

lemma machine_ok_changes:
  assumes "machine_ok (enc, calls)" "sizes_ok (lowered uni hs)"
    "writeTableChanges script_ops i ((enc, initHeaders uni hs), uw) = (x, ((enc', st), uw'))"
  shows "machine_ok (enc', calls) \<and> machine_ok (enc', calls @ [st])"
proof -
  have ch: "changing enc (lowered uni hs) (enc', st)" using assms by (intro writeTableChanges_keeps) simp_all
  then have "machine_ok (enc', calls)" using assms(1) by (intro machine_ok_mono [OF assms(1)]) simp_all
  with ch show ?thesis by auto
qed

lemma machine_ok_block:
  assumes "machine_ok (enc, calls)" "k < length calls"
    "writeHeaderBlock script_ops ((enc, calls ! k), NewBitWriter w) = (x, ((enc', st), bw))"
  shows "machine_ok (enc', take k calls @ drop (Suc k) calls)"
proof -
  have "within_call enc (headers (calls ! k)) (enc, calls ! k)"
    using assms(1,2) by (auto simp: grown_def)
  from writeHeaderBlock_keeps [OF this assms(3)] show ?thesis
    by (intro machine_ok_mono [OF assms(1)]) (auto dest: in_set_takeD in_set_dropD)
qed

lemma enc_step_ok:
  assumes "enc_step s s'" "machine_ok s"
  shows "machine_ok s'"
  using assms
proof (induction rule: enc_step.induct)
  case (table_changes uni hs i enc uw enc' st uw' calls)
  then show ?case using machine_ok_changes by blast
next
  case (table_changes_fail uni hs i enc uw e enc' st uw' calls)
  then show ?case using machine_ok_changes by blast
next
  case (write_block k calls enc w x enc' st bw)
  from machine_ok_block [OF write_block(3,1,2)] show ?case .
next
  case (ack_header enc i x enc' calls)
  then have "qenc_ok enc" by simp
  with AcknowledgeHeader_spec [OF _ ack_header(1,2)] have "qenc_ok enc'" "qtable enc' = qtable enc" by blast+
  with acknowledgments_recorded(1) [of enc i] ack_header(2) show ?case
    by (intro machine_ok_recorded [OF ack_header(3)]) simp_all
next
  case (ack_insert enc increment x enc' calls)
  then have "qenc_ok enc" by simp
  with AcknowledgeInsert_spec [OF _ ack_insert(1-3)] have "qenc_ok enc'" "qtable enc' = qtable enc" by blast+
  with acknowledgments_recorded(3) [of enc increment] ack_insert(3) show ?case
    by (intro machine_ok_recorded [OF ack_insert(4)]) simp_all
next
  case (ack_reset i enc x enc' calls)
  then have "qenc_ok enc" by simp
  with AcknowledgeReset_spec [OF _ ack_reset(1)] have "qenc_ok enc'" "qtable enc' = qtable enc" by blast+
  with acknowledgments_recorded(2) [of enc i] ack_reset(1) show ?case
    by (intro machine_ok_recorded [OF ack_reset(2)]) simp_all
next
  case (set_capacity c enc x enc' calls)
  then have "qenc_ok enc'" using qenc_ok_SetCapacity [of enc] by auto
  moreover have "recorded_as (store enc) (store enc') \<and> qbase enc' = qbase enc"
  proof (cases "QpackTableSetCapacity c (qtable enc)")
    case (Inr qt)
    have q: "qtable_ok (qtable enc)" "0 \<le> qbase enc" using set_capacity(3) by (auto simp: qenc_ok_def acked_ok_def)
    have "qbase enc \<le> 0" using Inr by (auto simp: QpackTableSetCapacity_def split: if_splits)
    with q qtable_ok_SetCapacity(4) [OF q(1) Inr] Inr set_capacity(2) show ?thesis
      by (auto simp: QpackSetCapacity_def recorded_as_def)
  qed (use set_capacity(2) in \<open>auto simp: QpackSetCapacity_def recorded_as_def\<close>)
  ultimately show ?case using machine_ok_recorded set_capacity(3) by blast
next
  case (set_limit enc calls limit)
  have q: "qenc_ok (QpackSetReferenceableLimit limit enc)" using set_limit by (intro qenc_ok_SetLimit) simp
  moreover have "table_ok (qcommon (qtable enc))" using set_limit by (simp add: qenc_ok_def acked_ok_def qtable_ok_def)
  ultimately show ?case
    using qtable_ok_SetReferenceableLimit(2) [of "qtable enc" limit]
    by (intro machine_ok_recorded [OF set_limit]) (auto simp: QpackSetReferenceableLimit_def recorded_as_def)
next
  case (set_blocked m enc x enc' calls)
  then show ?case by (intro machine_ok_settings [OF set_blocked(2)]) (auto simp: SetMaxBlockedStreams_def split: if_splits)
next
  case (set_index enc calls name pref)
  then show ?case by (rule machine_ok_settings) (simp_all add: SetIndexPreference_def)
next
  case (clear_index enc calls name)
  then show ?case by (rule machine_ok_settings) (simp_all add: ClearIndexPreference_def)
next
  case (set_huffman enc calls c)
  then show ?case by (rule machine_ok_settings) simp_all
qed

lemma enc_run_ok: "enc_run s \<Longrightarrow> machine_ok s"
proof (induction rule: enc_run.induct)
  case (start c limit enc)
  then have "qenc_ok enc" using qenc_ok_New [OF start(1), of limit] by auto
  moreover have "store enc = emptyStore" using start(2) by (auto simp: NewQpackEncoder_def split: sum.splits)
  ultimately show ?case by (auto simp: hmax_ok_def emptyStore_def qenc_ok_def acked_ok_def)
qed (rule enc_step_ok)

lemma enc_reach_ok: "enc_reach enc \<Longrightarrow> qenc_ok enc \<and> hmax_ok enc"
  using enc_run_ok by (fastforce simp: enc_reach_def)

lemma enc_reach_step: "enc_reach enc \<Longrightarrow> (\<And>calls. enc_step (enc, calls) (enc', calls)) \<Longrightarrow> enc_reach enc'"
  by (metis enc_reach_def step)

section \<open>Properties of the encoder\<close>

definition example_reached :: QpackEncoder where
  "example_reached =
     fst (snd (QpackWriteHeaderBlock script_ops script_ops id 0 [example_field ''a'' '''']
       (example_encoder 65) (NewBitWriter ([], [])) ([], [])))"

lemma example_encoder_run: "unat c < 2 ^ 62 \<Longrightarrow> enc_run (example_encoder c, [])"
proof -
  assume c: "unat c < 2 ^ 62"
  then obtain enc where enc: "NewQpackEncoder c c = Inr enc" using qenc_ok_New [of c c] by blast
  have "enc_run (enc, [])" using c enc by (rule start)
  moreover have "blockedStreams enc = 0" using enc by (auto simp: NewQpackEncoder_def split: sum.splits)
  then have "SetMaxBlockedStreams 10 enc = (Inr (), enc\<lparr>maxBlockedStreams := 10\<rparr>)"
    by (simp add: SetMaxBlockedStreams_def)
  ultimately have "enc_run (enc\<lparr>maxBlockedStreams := 10\<rparr>, [])" by (metis set_blocked step)
  then have "enc_run (enc\<lparr>maxBlockedStreams := 10\<rparr>\<lparr>HuffmanPreference := HuffmanCodingNever\<rparr>, [])"
    by (metis set_huffman step)
  with enc show ?thesis by (simp add: example_encoder_def)
qed

lemma example_sizes:
  "sizes_ok (lowered id [example_field ''a'' ''''])" "sizes_ok (lowered id [example_field ''b'' ''''])"
proof -
  have "lowered id [example_field ''a'' ''''] = [example_field ''a'' '''']" "lowered id [example_field ''b'' ''''] = [example_field ''b'' '''']"
    by code_simp+
  then show "sizes_ok (lowered id [example_field ''a'' ''''])" "sizes_ok (lowered id [example_field ''b'' ''''])"
    by (simp_all add: sizes_ok_def example_field_def)
qed

lemma example_reached: "enc_reach example_reached"
proof -
  let ?w = "QpackWriteHeaderBlock script_ops script_ops id 0 [example_field ''a'' '''']
       (example_encoder 65) (NewBitWriter ([], [])) ([], [])"
  have "?w = (fst ?w, example_reached, fst (snd (snd ?w)), snd (snd (snd ?w)))"
    by (simp add: example_reached_def)
  from whole_block_run [OF example_encoder_run example_sizes(1) this] show ?thesis
    unfolding enc_reach_def by auto
qed

lemma example_reached_state:
  "qbase example_reached = 1 \<and> highestAcknowledged example_reached = 0 \<and>
   dynamic (qcommon (qtable example_reached)) = [\<lparr>eN = ''a'', eV = '''', eB = 1\<rparr>] \<and>
   nextBlock (store example_reached) = 1 \<and> entries (blocks (store example_reached) 0) = [1]"
  by code_simp

text \<open>C3: The encoder's bookkeeping is exact in every state that can be reached, over writers that fail at any
  point and whatever the peer acknowledges: the size it counts as unacknowledged is that of the
  entries newer than the highest acknowledged one, all of which are in the table; every usage
  counter is the number of references from blocks not yet acknowledged; and the table keeps the
  accounting of its own size and of its referenceable part.\<close>

theorem encoder_bookkeeping:
  assumes "enc_reach enc"
  shows "qtable_ok (qtable enc) \<and> unacked enc \<le> length (dynamic (qcommon (qtable enc))) \<and>
    unat (unacknowledgedSize enc) = total_size (take (unacked enc) (dynamic (qcommon (qtable enc)))) \<and>
    usageCount (store enc) b = word_of_nat (refcount (store enc) b)"
  using enc_reach_ok [OF assms] by (auto simp: qenc_ok_def acked_ok_def store_ok_def)

theorem encoder_bookkeeping_witness:
  "unat (unacknowledgedSize example_reached) = total_size (take (unacked example_reached) (dynamic (qcommon (qtable example_reached)))) \<and>
   dynamic (qcommon (qtable example_reached)) = [\<lparr>eN = ''a'', eV = '''', eB = 1\<rparr>]"
  using encoder_bookkeeping [OF example_reached] example_reached_state by blast

text \<open>C5: Acknowledgments from the peer never make a reachable encoder panic, whatever stream they name and
  whatever they count: each is accepted or refused with \<open>ErrIndexError\<close>, and a count of inserts
  is accepted exactly when it is positive and covers no more than what was sent. The counts must
  not overflow an \<open>int\<close>.\<close>

theorem acknowledgments_safe:
  assumes "enc_reach enc" "qbase enc \<le> intMax" "highestAcknowledged enc + increment \<le> intMax"
  shows "fst (AcknowledgeHeader i enc) \<in> {Inr (), Inl ErrIndexError} \<and>
    fst (AcknowledgeReset i enc) \<in> {Inr (), Inl ErrIndexError} \<and>
    fst (AcknowledgeInsert increment enc) =
      (if 0 < increment \<and> highestAcknowledged enc + increment \<le> qbase enc then Inr () else Inl ErrIndexError)"
proof -
  have ok: "qenc_ok enc" using enc_reach_ok [OF assms(1)] by blast
  obtain x1 e1 x2 e2 x3 e3 where "AcknowledgeHeader i enc = (x1, e1)" "AcknowledgeReset i enc = (x2, e2)"
    "AcknowledgeInsert increment enc = (x3, e3)" by (metis surj_pair)
  with AcknowledgeHeader_spec [OF ok assms(2)] AcknowledgeReset_spec [OF ok] AcknowledgeInsert_spec [OF ok assms(2,3)]
  show ?thesis by fastforce
qed

theorem acknowledgments_safe_witness:
  "fst (AcknowledgeInsert 1 example_reached) = Inr () \<and> fst (AcknowledgeInsert 2 example_reached) = Inl ErrIndexError"
  using acknowledgments_safe [OF example_reached, of 1] acknowledgments_safe [OF example_reached, of 2]
  by (simp add: example_reached_state intMax_def)

text \<open>C4: While a block is written, whatever its fields are, wherever the write stops and whatever
  calls are going on, the encoder evicts no entry that the decoder will still need: every entry
  that a header block not yet acknowledged refers to, and every entry whose own insertion is not
  acknowledged, is still in the table when the table has been changed, and so is every entry that
  the block itself was going to refer to in full. (The reference counters are 64-bit; the fields
  are shorter than \<open>2^62\<close>.)\<close>

theorem needed_entries_kept:
  assumes "enc_reach enc" "sizes_ok (lowered uni hs)"
    "writeTableChanges ops i ((enc, initHeaders uni hs), w) = (x, ((enc', st), w'))"
  shows "(\<forall>e \<in> set (dynamic (qcommon (qtable enc))).
       0 < refcount (store enc) (eB e) \<and> refcount (store enc) (eB e) < 2 ^ 64 \<or> highestAcknowledged enc < eB e \<longrightarrow>
       e \<in> set (dynamic (qcommon (qtable enc')))) \<and>
    (\<forall>e. Some (DynamicE e) \<in> set (matches st) \<longrightarrow> e \<in> set (dynamic (qcommon (qtable enc'))))"
  using writeTableChanges_keeps [OF _ _ assms(2,3)] enc_reach_ok [OF assms(1)] unfolding changing.simps needed_def by blast

text \<open>The entry \<open>a\<close>, acknowledged but in use, is in the way of an insert of \<open>b\<close>.\<close>

definition example_acked :: QpackEncoder where
  "example_acked = snd (AcknowledgeInsert 1 example_reached)"

lemma example_acked_state:
  "highestAcknowledged example_acked = 1 \<and> unacknowledgedSize example_acked = 0 \<and> capacity (qcommon (qtable example_acked)) = 65 \<and>
   dynamic (qcommon (qtable example_acked)) = [\<lparr>eN = ''a'', eV = '''', eB = 1\<rparr>] \<and> qbase example_acked = 1 \<and>
   nextBlock (store example_acked) = 1 \<and> entries (blocks (store example_acked) 0) = [1]"
  by code_simp

lemma example_acked_reached: "enc_reach example_acked"
proof (rule enc_reach_step [OF example_reached])
  fix calls
  have "AcknowledgeInsert 1 example_reached = (fst (AcknowledgeInsert 1 example_reached), example_acked)"
    by (simp add: example_acked_def)
  then show "enc_step (example_reached, calls) (example_acked, calls)"
    by (rule ack_insert [rotated 2]) (simp_all add: example_reached_state intMax_def)
qed

theorem needed_entries_kept_witness:
  "\<lparr>eN = ''a'', eV = '''', eB = 1\<rparr> \<in> set (dynamic (qcommon (qtable (fst (fst (snd
     (writeTableChanges buf_ops 4 ((example_acked, initHeaders id [example_field ''b'' '''']), NewBitWriter []))))))))"
proof -
  obtain x enc' st w' where i: "writeTableChanges buf_ops 4 ((example_acked, initHeaders id [example_field ''b'' '''']), NewBitWriter []) =
    (x, ((enc', st), w'))" by (metis surj_pair)
  from needed_entries_kept [OF example_acked_reached example_sizes(2) i] example_acked_state i
  show ?thesis by (simp add: refcount_def)
qed

text \<open>C14: The sum in \<open>AcknowledgeInsert\<close> can overflow. In every reachable state in which anything has been
  acknowledged, a peer that counts \<open>2^63 - 1\<close> further inserts passes the check against the insert
  count, and the encoder crashes on an entry that is not there.\<close>

theorem acknowledge_insert_overflow:
  assumes "enc_reach enc" "0 < highestAcknowledged enc" "qbase enc \<le> intMax"
  shows "fst (AcknowledgeInsert intMax enc) = Inl (Panic ''nil dereference'')"
proof -
  let ?h = "highestAcknowledged enc"
  have h: "?h \<le> qbase enc" using enc_reach_ok [OF assms(1)] by (simp add: qenc_ok_def acked_ok_def)
  have s: "s64 (?h + intMax) = ?h + intMax - 2 ^ 64" using assms(2,3) h by (intro s64_above) simp_all
  have "s64 (qbase enc - (?h + intMax - 2 ^ 64)) < 0"
    using assms h s64_above [of "qbase enc - (?h + intMax - 2 ^ 64)"] by (simp add: intMax_def)
  then have g: "GetDynamic (qcommon (qtable enc)) 0 (?h + intMax - 2 ^ 64) = None"
    by (simp add: GetDynamic_def Let_def)
  have i0: "0 < intMax" by (simp add: intMax_def)
  have l: "ackLoop (qcommon (qtable enc)) (?h + intMax - 2 ^ 64) 0 intMax z = Inl (Panic ''nil dereference'')" for z
    by (subst ackLoop.simps) (simp only: g i0 if_True option.case)
  have "\<not> qbase enc < ?h + intMax - 2 ^ 64" using assms h by (simp add: intMax_def)
  then show ?thesis
    using l s i0 by (simp add: AcknowledgeInsert_def updateHighestAcknowledged_def Let_def add.commute [of intMax])
qed

theorem acknowledge_insert_overflow_witness:
  "fst (AcknowledgeInsert intMax example_acked) = Inl (Panic ''nil dereference'')"
  using acknowledge_insert_overflow [OF example_acked_reached] example_acked_state by (simp add: intMax_def)

text \<open>
  Between its two sections a call has no claim on the entries it matched: with the entry \<open>a\<close>
  acknowledged and no longer in use, a second call may insert \<open>b\<close> in its place, after which the
  first writes a reference to \<open>a\<close> all the same.
\<close>

lemma matched_entry_evicted:
  "case writeTableChanges buf_ops 4 ((snd (AcknowledgeHeader 0 example_reached), initHeaders id [example_field ''a'' '''']), NewBitWriter []) of
     (x, ((enc, st), uw)) \<Rightarrow>
   (case writeTableChanges buf_ops 8 ((enc, initHeaders id [example_field ''b'' '''']), uw) of
     (y, ((enc', st'), uw')) \<Rightarrow> x = Inr () \<and> y = Inr () \<and>
       matches st = [Some (DynamicE \<lparr>eN = ''a'', eV = '''', eB = 1\<rparr>)] \<and>
       dynamic (qcommon (qtable enc')) = [\<lparr>eN = ''b'', eV = '''', eB = 2\<rparr>])"
  by code_simp

end
