(* ===== verification/Progress.thy ===== *)
theory Progress
  imports Hpack QpackInvariant
begin

text \<open>
  Reading ends: no reader of the codecs gives bits back, and every turn of a loop over the
  input takes at least one, so the loops return on every input that ends.
\<close>

section \<open>Readers that only take bits\<close>

definition shrinks :: "('r \<Rightarrow> byte list) \<Rightarrow> ('r \<Rightarrow> bool) \<Rightarrow> ('r bitReader, 'a) io \<Rightarrow> bool" where
  "shrinks content ok m \<longleftrightarrow> (\<forall>br. rok ok br \<longrightarrow>
     rok ok (snd (m br)) \<and> length (rbits content (snd (m br))) \<le> length (rbits content br))"

lemma shrinksD:
  assumes "shrinks content ok m" "rok ok br" "m br = (x, br')"
  shows "rok ok br'" "length (rbits content br') \<le> length (rbits content br)"
  using assms(1,2) unfolding shrinks_def by (metis assms(3) snd_conv)+

text \<open>The same for an operation that has a codec's state beside the reader.\<close>

definition tshrinks :: "('r \<Rightarrow> byte list) \<Rightarrow> ('r \<Rightarrow> bool) \<Rightarrow> ('t \<times> 'r bitReader, 'a) io \<Rightarrow> bool" where
  "tshrinks content ok m \<longleftrightarrow> (\<forall>t br. rok ok br \<longrightarrow> rok ok (snd (snd (m (t, br)))) \<and>
     length (rbits content (snd (snd (m (t, br))))) \<le> length (rbits content br))"

named_theorems shrinking

lemma shrinks_bnd [shrinking]:
  assumes "shrinks content ok m" "\<And>x. shrinks content ok (f x)"
  shows "shrinks content ok (bnd m f)"
  unfolding shrinks_def
proof (intro allI impI)
  fix br assume "rok ok br"
  obtain x br' where m: "m br = (x, br')" by fastforce
  with assms(1) \<open>rok ok br\<close> have 1: "rok ok br'" "length (rbits content br') \<le> length (rbits content br)"
    by (metis shrinks_def snd_conv)+
  show "rok ok (snd (bnd m f br)) \<and> length (rbits content (snd (bnd m f br))) \<le> length (rbits content br)"
  proof (cases x)
    case (Inr a)
    have "rok ok (snd (f a br'))" "length (rbits content (snd (f a br'))) \<le> length (rbits content br')"
      using assms(2) [of a] 1(1) by (auto simp: shrinks_def)
    with m Inr 1(2) show ?thesis by simp
  qed (use m 1 in simp)
qed

lemma shrinks_ret [shrinking]: "shrinks content ok (ret x)"
  and shrinks_throw [shrinking]: "shrinks content ok (throw e)"
  by (simp_all add: shrinks_def)

lemma shrinks_if [shrinking]: "shrinks content ok a \<Longrightarrow> shrinks content ok b \<Longrightarrow> shrinks content ok (if c then a else b)"
  by simp

lemma tshrinks_bnd [shrinking]:
  assumes "tshrinks content ok m" "\<And>x. tshrinks content ok (f x)"
  shows "tshrinks content ok (bnd m f)"
  unfolding tshrinks_def
proof (intro allI impI)
  fix t br assume "rok ok br"
  obtain x t' br' where m: "m (t, br) = (x, (t', br'))" by (metis surj_pair)
  with assms(1) \<open>rok ok br\<close> have 1: "rok ok br'" "length (rbits content br') \<le> length (rbits content br)"
    by (metis tshrinks_def snd_conv)+
  show "rok ok (snd (snd (bnd m f (t, br)))) \<and> length (rbits content (snd (snd (bnd m f (t, br))))) \<le> length (rbits content br)"
  proof (cases x)
    case (Inr a)
    have "rok ok (snd (snd (f a (t', br'))))" "length (rbits content (snd (snd (f a (t', br'))))) \<le> length (rbits content br')"
      using assms(2) [of a] 1(1) by (auto simp: tshrinks_def)
    with m Inr 1(2) show ?thesis by simp
  qed (use m 1 in simp)
qed

lemma tshrinks_ret [shrinking]: "tshrinks content ok (ret x)"
  and tshrinks_throw [shrinking]: "tshrinks content ok (throw e)"
  and tshrinks_getT [shrinking]: "tshrinks content ok getT"
  and tshrinks_modifyT [shrinking]: "tshrinks content ok (modifyT f)"
  by (simp_all add: tshrinks_def)

lemma tshrinks_onIO [shrinking]: "shrinks content ok m \<Longrightarrow> tshrinks content ok (onIO m)"
  by (simp add: tshrinks_def shrinks_def onIO_def split: prod.split) (metis snd_conv)

lemma tshrinks_onT [shrinking]: "tshrinks content ok (onT m)"
  by (simp add: tshrinks_def onT_def split: prod.split)

lemma tshrinks_dropError [shrinking]: "tshrinks content ok m \<Longrightarrow> tshrinks content ok (dropError m)"
  by (simp add: tshrinks_def dropError_def split: prod.split sum.split) (metis snd_conv)

lemma tshrinks_if [shrinking]: "tshrinks content ok a \<Longrightarrow> tshrinks content ok b \<Longrightarrow> tshrinks content ok (if c then a else b)"
  by simp

lemma tshrinks_option [shrinking]:
  "tshrinks content ok a \<Longrightarrow> (\<And>x. tshrinks content ok (b x)) \<Longrightarrow>
     tshrinks content ok (case y of None \<Rightarrow> a | Some x \<Rightarrow> b x)"
  by (cases y) simp_all

lemma tshrinks_sum [shrinking]:
  "(\<And>x. tshrinks content ok (a x)) \<Longrightarrow> (\<And>x. tshrinks content ok (b x)) \<Longrightarrow>
     tshrinks content ok (case y of Inl x \<Rightarrow> a x | Inr x \<Rightarrow> b x)"
  by (cases y) simp_all

lemma tshrinks_prod [shrinking]:
  "(\<And>a b. tshrinks content ok (f a b)) \<Longrightarrow> tshrinks content ok (case p of (a, b) \<Rightarrow> f a b)"
  by (cases p) simp

lemma readFullLoop_keeps:
  assumes "\<And>n r. 0 < n \<Longrightarrow> I r \<Longrightarrow> I (snd (srcRead ops n r))"
  shows "I r \<Longrightarrow> I (snd (readFullLoop ops n acc r))"
proof (induction n arbitrary: acc r rule: less_induct)
  case (less n)
  obtain p e r' where r: "srcRead ops n r = ((p, e), r')" by (metis surj_pair)
  have r': "I r'" if "0 < n" using assms [OF that less.prems] r by simp
  show ?case
  proof (cases "n = 0 \<or> e \<noteq> None \<or> p = []")
    case True
    with r r' less.prems show ?thesis by (auto simp: readFullLoop.simps [of ops n] split: option.splits)
  next
    case False
    then have "n - length p < n" by auto
    from less.IH [OF this r'] False this r show ?thesis by (simp add: readFullLoop.simps [of ops n])
  qed
qed

lemma ReadFull_keeps:
  assumes "\<And>n r. 0 < n \<Longrightarrow> I r \<Longrightarrow> I (snd (srcRead ops n r))" "I r"
  shows "I (snd (ReadFull ops n r))"
  using readFullLoop_keeps [of I ops, OF assms(1,2), of n "[]"]
  by (simp add: ReadFull_def split: prod.split) (metis snd_conv)

context byte_source
begin

lemma bounded_source: "byte_source ops content fin (\<lambda>r. ok r \<and> length (content r) \<le> n)"
proof
  fix rb r b bs
  assume rb: "srcReadByte ops = Some rb" and ok: "ok r \<and> length (content r) \<le> n"
  show "\<exists>r'. rb r = (Inr b, r') \<and> (ok r' \<and> length (content r') \<le> n) \<and> content r' = bs \<and> fin r' = fin r"
    if "content r = b # bs" using source_read_byte_Cons [OF rb _ that] ok that by fastforce
  show "\<exists>r'. rb r = (Inl (fin r), r') \<and> (ok r' \<and> length (content r') \<le> n) \<and> content r' = [] \<and> fin r' = fin r"
    if "content r = []" using source_read_byte_Nil [OF rb _ that] ok by fastforce
next
  fix r m assume ok: "ok r \<and> length (content r) \<le> n" and m: "(0 :: nat) < m"
  from source_read [OF conjunct1 [OF ok] m] obtain k e r' where
    "srcRead ops m r = ((take k (content r), e), r')" "k \<le> m" "k \<le> length (content r)" "ok r'"
    "content r' = drop k (content r)" "fin r' = fin r"
    "case e of None \<Rightarrow> 0 < k | Some x \<Rightarrow> x = fin r \<and> k = length (content r) \<and> k < m" by blast
  with ok show "\<exists>k e r'. srcRead ops m r = ((take k (content r), e), r') \<and> k \<le> m \<and> k \<le> length (content r) \<and>
      (ok r' \<and> length (content r') \<le> n) \<and> content r' = drop k (content r) \<and> fin r' = fin r \<and>
      (case e of None \<Rightarrow> 0 < k | Some x \<Rightarrow> x = fin r \<and> k = length (content r) \<and> k < m)"
    by (intro exI [of _ k] exI [of _ e] exI [of _ r']) auto
qed

lemma ReadBit_shrinks [shrinking]: "shrinks content ok (ReadBit ops)"
  unfolding shrinks_def using ReadBit_spec by (fastforce split: list.splits)

lemma ReadBits_shrinks [shrinking]: "n \<le> 64 \<Longrightarrow> shrinks content ok (ReadBits ops n)"
  unfolding shrinks_def using ReadBits_spec by (fastforce split: if_splits)

lemma readIntLoop_shrinks [shrinking]: "shrinks content ok (readIntLoop ops s v)"
proof (induction "70 - s" arbitrary: s v rule: less_induct)
  case less
  show ?case
    unfolding shrinks_def
  proof (intro allI impI)
    fix br assume br: "rok ok br"
    show "rok ok (snd (readIntLoop ops s v br)) \<and>
        length (rbits content (snd (readIntLoop ops s v br))) \<le> length (rbits content br)"
    proof (cases "s < 64")
      case False
      with br show ?thesis by (simp add: readIntLoop.simps)
    next
      case True
      obtain x br1 where r: "ReadBits ops 8 br = (x, br1)" by fastforce
      have 1: "rok ok br1" "length (rbits content br1) \<le> length (rbits content br)"
        using shrinksD [OF ReadBits_shrinks br r] by simp_all
      have "shrinks content ok (readIntLoop ops (s + 7) w)" for w using True by (intro less) simp
      then have "rok ok (snd (readIntLoop ops (s + 7) w br1)) \<and>
          length (rbits content (snd (readIntLoop ops (s + 7) w br1))) \<le> length (rbits content br1)" for w
        using 1(1) unfolding shrinks_def by blast
      then have "rok ok (snd (readIntLoop ops (s + 7) w br1)) \<and>
          length (rbits content (snd (readIntLoop ops (s + 7) w br1))) \<le> length (rbits content br)" for w
        using 1(2) order_trans by blast
      with 1 True r show ?thesis
        by (cases x) (simp_all add: readIntLoop.simps [of ops s])
    qed
  qed
qed

lemma ReadInt_shrinks [shrinking]: "n \<le> 8 \<Longrightarrow> shrinks content ok (ReadInt ops n)"
  unfolding ReadInt_def by (intro shrinking) simp

lemma ReadIndex_shrinks [shrinking]: "n \<le> 8 \<Longrightarrow> shrinks content ok (ReadIndex ops n)"
  unfolding ReadIndex_def by (intro shrinking)

lemma decompressRead_keeps:
  "rok ok (hreader d) \<Longrightarrow> rok ok (hreader (snd (decompressRead ops n p d)))"
proof (induction "n - length p" arbitrary: p d rule: less_induct)
  case outer: less
  from outer.prems show ?case
  proof (induction "cursor_size (cursor d)" arbitrary: d rule: less_induct)
    case less
    show ?case
    proof (cases "length p < n")
      case False
      with less.prems show ?thesis by (simp add: decompressRead.simps)
    next
      case True
      obtain x br where r: "ReadBit ops (hreader d) = (x, br)" by fastforce
      have br: "rok ok br" by (rule shrinksD(1) [OF ReadBit_shrinks less.prems r])
      show ?thesis
      proof (cases "\<exists>b c c'. x = Inr b \<and> cursor d = Some c \<and> (if b = 0 then next0 c else next1 c) = Some c'")
        case False
        with True r br show ?thesis
          by (cases x; cases "cursor d") (auto simp: decompressRead.simps [of ops n p d] split: option.split)
      next
        case True': True
        then obtain b c c' where x: "x = Inr b" "cursor d = Some c" "(if b = 0 then next0 c else next1 c) = Some c'" by blast
        have "size c' < size c" using x(3) next_size by (metis option.sel)
        then have smaller: "cursor_size (cursor (d\<lparr>hreader := br, cursor := Some c'\<rparr>)) < cursor_size (cursor d)"
          using x(2) by (simp add: cursor_size_def)
        have "rok ok (hreader (snd (decompressRead ops n p (d\<lparr>hreader := br, cursor := Some c'\<rparr>))))"
          using less.hyps [OF smaller] br by simp
        moreover have "rok ok (hreader (snd (decompressRead ops n (p @ [y]) (d\<lparr>hreader := br, cursor := Some e\<rparr>))))" for y e
          using outer.hyps [of "p @ [y]" "d\<lparr>hreader := br, cursor := Some e\<rparr>"] True br by simp
        ultimately show ?thesis using True r x by (simp add: decompressRead.simps [of ops n p d])
      qed
    qed
  qed
qed

lemma ReadString_shrinks [shrinking]:
  assumes "n \<le> 8"
  shows "shrinks content ok (ReadString ops n)"
  unfolding shrinks_def
proof (intro allI impI)
  fix br assume br: "rok ok br"
  let ?P = "\<lambda>br'. rok ok br' \<and> length (rbits content br') \<le> length (rbits content br)"
  have strings: "?P (limR (snd (ReadFull (lim_ops (br_ops ops)) k l)))"
    "?P (limR (reader (hreader (snd (ReadFull (huff_ops (lim_ops (br_ops ops))) k (NewHuffmanDecompressor l))))))"
    if "?P (limR l)" for l k
  proof -
    let ?wb = "\<lambda>br. bits_bytes (rbits content br)"
    let ?beyond = "drop (nat (limN l)) (?wb (limR l))"
    let ?left = "tail_bits (rbits content (limR l))" and ?F = "fin (reader (limR l))"
    let ?ok = "\<lambda>m. ((rok ok (limR m) \<and> tail_bits (rbits content (limR m)) = ?left) \<and>
      drop (nat (limN m)) (?wb (limR m)) = ?beyond \<and> fin (reader (limR m)) = ?F) \<and>
      length (lim_content ?wb m) \<le> length (lim_content ?wb l)"
    note src = byte_source.bounded_source [OF byte_source.lim_source [OF br_source], of ?left ?beyond ?F "length (lim_content ?wb l)"]
    have total: "length (rbits content x) = 8 * length (?wb x) + length (tail_bits (rbits content x))" for x
      using arg_cong [OF bytes_and_tail_bits [of "rbits content x"], of length] by simp
    have split: "length (?wb (limR m)) = length (lim_content ?wb m) + length (drop (nat (limN m)) (?wb (limR m)))" for m
      by (simp add: lim_content_def)
    have bound: "?P (limR m)" if "?ok m" for m
    proof -
      have d: "drop (nat (limN m)) (?wb (limR m)) = ?beyond" and t: "tail_bits (rbits content (limR m)) = ?left"
        and r: "rok ok (limR m)" and c: "length (lim_content ?wb m) \<le> length (lim_content ?wb l)"
        using that by blast+
      from c have "length (?wb (limR m)) \<le> length (?wb (limR l))" unfolding split [of m] split [of l] d by (rule add_right_mono)
      then have "length (rbits content (limR m)) \<le> length (rbits content (limR l))"
        unfolding total [of "limR m"] total [of "limR l"] t by (intro add_right_mono mult_left_mono) simp_all
      with r \<open>?P (limR l)\<close> show ?thesis by (blast intro: order_trans)
    qed
    have start: "?ok l" using that by blast
    have step: "?ok (snd (srcRead (lim_ops (br_ops ops)) j m))" if "0 < j" "?ok m" for j m
      using byte_source.source_read [OF src that(2,1)] by auto
    have "?ok (snd (ReadFull (lim_ops (br_ops ops)) k l))"
      by (rule ReadFull_keeps [where I = ?ok]) (rule step, assumption+, rule start)
    then show "?P (limR (snd (ReadFull (lim_ops (br_ops ops)) k l)))" by (rule bound)
    have h: "rok ?ok (hreader (snd (srcRead (huff_ops (lim_ops (br_ops ops))) j d)))" if "rok ?ok (hreader d)" for j d
      using byte_source.decompressRead_keeps [OF src that] by (simp add: huff_ops_def)
    have "rok ?ok (hreader (NewHuffmanDecompressor l))"
      using start by (simp add: NewHuffmanDecompressor_def NewBitReader_def rok_def)
    then have "rok ?ok (hreader (snd (ReadFull (huff_ops (lim_ops (br_ops ops))) k (NewHuffmanDecompressor l))))"
      by (rule ReadFull_keeps [where I = "\<lambda>d. rok ?ok (hreader d)", rotated]) (rule h)
    then have "?ok (reader (hreader (snd (ReadFull (huff_ops (lim_ops (br_ops ops))) k (NewHuffmanDecompressor l)))))"
      unfolding rok_def [of ?ok] by (rule conjunct1)
    then show "?P (limR (reader (hreader (snd (ReadFull (huff_ops (lim_ops (br_ops ops))) k (NewHuffmanDecompressor l))))))"
      by (rule bound)
  qed
  obtain x br1 where 1: "ReadBit ops br = (x, br1)" by fastforce
  note s1 = shrinksD [OF ReadBit_shrinks br 1]
  show "?P (snd (ReadString ops n br))"
  proof (cases x)
    case (Inl e)
    with 1 s1 show ?thesis by (simp add: ReadString_def)
  next
    case (Inr b)
    obtain y br2 where 2: "ReadInt ops n br1 = (y, br2)" by fastforce
    note s2 = shrinksD [OF ReadInt_shrinks [OF assms] s1(1) 2]
    have P: "?P br2" using s1 s2 by simp
    show ?thesis
    proof (cases y)
      case Inl
      with 1 2 Inr P show ?thesis by (simp add: ReadString_def)
    next
      case (Inr len)
      let ?l = "\<lparr>limR = br2, limN = sint len\<rparr>"
      let ?n = "if b \<noteq> 0 then len * 8 div 5 + 1 else len"
      have "?P (limR ?l)" using P by simp
      note st = strings [OF this, of "unat ?n"]
      show ?thesis
      proof (cases "makeslice_ok ?n")
        case False
        with 1 2 P \<open>x = Inr b\<close> Inr show ?thesis by (simp add: ReadString_def Let_def)
      next
        case True
        with 1 2 \<open>x = Inr b\<close> Inr st show ?thesis
          by (cases "b = 0") (simp_all add: ReadString_def Let_def case_prod_beta)
      qed
    qed
  qed
qed

text \<open>A first bit is taken before a turn goes on with \<open>f\<close>.\<close>

lemma turn_takes:
  assumes "tshrinks content ok (f b)" "rok ok br" "ReadBit ops br = (Inr b, br1)" "f b (t, br1) = (x, (t', br'))"
  shows "rok ok br' \<and> length (rbits content br') < length (rbits content br)"
proof -
  from ReadBit_spec [OF assms(2)] assms(3) have 1: "rok ok br1" "length (rbits content br1) < length (rbits content br)"
    by (auto split: list.splits)
  from assms(1) 1(1) have "rok ok (snd (snd (f b (t, br1)))) \<and>
      length (rbits content (snd (snd (f b (t, br1))))) \<le> length (rbits content br1)"
    unfolding tshrinks_def by blast
  with 1 assms(4) show ?thesis by simp
qed

section \<open>The loops return\<close>

lemma readBlockTurn_takes:
  assumes "rok ok br" "readBlockTurn ops (t, br) = (Inr (Some h), (t', br'))"
  shows "rok ok br' \<and> length (rbits content br') < length (rbits content br)"
proof -
  let ?f = "\<lambda>b :: byte. if b = 1 then bnd (readIndexed ops) (\<lambda>h. ret (Some (Some h)))
    else bnd (onIO (ReadBit ops)) (\<lambda>b.
      if b = 1 then bnd (readIncremental ops) (\<lambda>h. ret (Some (Some h)))
      else bnd (onIO (ReadBit ops)) (\<lambda>b.
        if b = 1 then bnd (readCapacity ops) (\<lambda>_. ret (Some None))
        else bnd (readLiteral ops) (\<lambda>h. ret (Some (Some h)))))"
  have f: "tshrinks content ok (?f b)" for b
    unfolding readIndexed_def readIncremental_def readCapacity_def readLiteral_def readNameValue_def
    by (intro shrinking) simp_all
  obtain x br1 where 1: "ReadBit ops br = (x, br1)" by fastforce
  with assms(2) obtain b where "x = Inr b" "?f b (t, br1) = (Inr (Some h), (t', br'))"
    by (cases x) (auto simp: readBlockTurn_def split: if_splits)
  with turn_takes [where f = ?f, OF f assms(1)] 1 show ?thesis by blast
qed

lemma readBlockLoop_returns: "rok ok br \<Longrightarrow> \<exists>y. readBlockLoop ops hs (t, br) = Some y"
proof (induction "length (rbits content br)" arbitrary: hs t br rule: less_induct)
  case less
  obtain x t' br' where r: "readBlockTurn ops (t, br) = (x, (t', br'))" by (metis surj_pair)
  show ?case
  proof (cases "\<exists>h. x = Inr (Some h)")
    case True
    then obtain h where h: "x = Inr (Some h)" by blast
    with readBlockTurn_takes [OF less.prems] r have "\<exists>y. readBlockLoop ops hs' (t', br') = Some y" for hs'
      by (intro less.hyps) auto
    with r h show ?thesis by (cases h) (simp_all add: readBlockLoop.simps [of ops hs "(t, br)"])
  next
    case False
    with r show ?thesis by (cases x) (auto simp: readBlockLoop.simps [of ops hs "(t, br)"] split: option.split)
  qed
qed

end

lemma insertAvailable_shrinks [shrinking]: "tshrinks content ok (insertAvailable n v)"
  by (simp add: tshrinks_def insertAvailable_def split: prod.split option.split)

lemma headerOf_shrinks [shrinking]: "tshrinks content ok (headerOf e)"
  unfolding headerOf_def by (intro shrinking)

context byte_source
begin

lemma readUpdate_takes:
  assumes "rok ok br" "readUpdate ops (d, br) = (Inr True, (d', br'))"
  shows "rok ok br' \<and> length (rbits content br') < length (rbits content br)"
proof -
  let ?f = "\<lambda>b :: byte. if b = 1 then bnd (readInsertWithNameReference ops (base (dtable d))) (\<lambda>_. ret True)
    else bnd (onIO (ReadBit ops)) (\<lambda>b.
      if b = 1 then bnd (readInsertWithNameLiteral ops) (\<lambda>_. ret True)
      else bnd (onIO (ReadBit ops)) (\<lambda>b.
        bnd (if b = 1 then readDynamicUpdate ops else readDuplicate ops (base (dtable d))) (\<lambda>_. ret True)))"
  have f: "tshrinks content ok (?f b)" for b
    unfolding readInsertWithNameReference_def readInsertWithNameLiteral_def readDynamicUpdate_def readDuplicate_def
      readValueAndInsert_def
    by (intro shrinking) simp_all
  obtain x br1 where 1: "ReadBit ops br = (x, br1)" by fastforce
  with assms(2) obtain b where "x = Inr b" "?f b (d, br1) = (Inr True, (d', br'))"
    by (cases x) (auto simp: readUpdate_def Let_def split: if_splits)
  with turn_takes [where f = ?f, OF f assms(1)] 1 show ?thesis by blast
qed

lemma updatesLoop_returns: "rok ok br \<Longrightarrow> \<exists>y. updatesLoop ops (d, br) = Some y"
proof (induction "length (rbits content br)" arbitrary: d br rule: less_induct)
  case less
  obtain x d' br' where r: "readUpdate ops (d, br) = (x, (d', br'))" by (metis surj_pair)
  show ?case
  proof (cases "x = Inr True")
    case True
    with readUpdate_takes [OF less.prems] r have "\<exists>y. updatesLoop ops (d', br') = Some y"
      by (intro less.hyps) auto
    with r True show ?thesis by (simp add: updatesLoop.simps [of ops "(d, br)"])
  next
    case False
    with r show ?thesis by (cases x) (auto simp: updatesLoop.simps [of ops "(d, br)"])
  qed
qed

lemma literalOf_shrinks [shrinking]: "tshrinks content ok (literalOf ops b e)"
  unfolding literalOf_def by (intro shrinking) simp_all

lemma readFieldLine_turn:
  obtains m where "\<And>b. tshrinks content ok (m b)"
    "\<And>d br. readFieldLine ops k (d, br) = (case ReadBit ops br of
       (Inl e, br1) \<Rightarrow> (if e = EOF then Inr None else Inl e, (d, br1)) | (Inr b, br1) \<Rightarrow> m b (d, br1))"
proof
  let ?f = "\<lambda>b :: byte. if b = 1 then bnd (qreadIndexed ops k) (\<lambda>h. ret (Some h))
    else bnd (onIO (ReadBit ops)) (\<lambda>b.
      if b = 1 then bnd (readLiteralWithNameReference ops k) (\<lambda>h. ret (Some h))
      else bnd (onIO (ReadBit ops)) (\<lambda>b.
        if b = 1 then bnd (readLiteralWithNameLiteral ops) (\<lambda>h. ret (Some h))
        else bnd (onIO (ReadBit ops)) (\<lambda>b.
          bnd (if b = 1 then readPostBaseIndexed ops k else readLiteralWithPostBaseNameReference ops k)
            (\<lambda>h. ret (Some h)))))"
  show "tshrinks content ok (?f b)" for b
    unfolding qreadIndexed_def readLiteralWithNameReference_def readLiteralWithNameLiteral_def readPostBaseIndexed_def
      readLiteralWithPostBaseNameReference_def
    by (intro shrinking) simp_all
  show "readFieldLine ops k (d, br) = (case ReadBit ops br of
       (Inl e, br1) \<Rightarrow> (if e = EOF then Inr None else Inl e, (d, br1)) | (Inr b, br1) \<Rightarrow> ?f b (d, br1))" for d br
    by (simp add: readFieldLine_def onIO_def split: prod.split sum.split)
qed

lemma readFieldLine_takes:
  assumes "rok ok br" "readFieldLine ops b0 (d, br) = (Inr (Some h), (d', br'))"
  shows "rok ok br' \<and> length (rbits content br') < length (rbits content br)"
proof -
  obtain m where m: "\<And>b. tshrinks content ok (m b)" "\<And>d br. readFieldLine ops b0 (d, br) = (case ReadBit ops br of
       (Inl e, br1) \<Rightarrow> (if e = EOF then Inr None else Inl e, (d, br1)) | (Inr b, br1) \<Rightarrow> m b (d, br1))"
    using readFieldLine_turn [where k = b0] by blast
  obtain x br1 where 1: "ReadBit ops br = (x, br1)" by fastforce
  with assms(2) obtain b where "x = Inr b" "m b (d, br1) = (Inr (Some h), (d', br'))"
    by (cases x) (auto simp: m(2) split: if_splits)
  with turn_takes [where f = m, OF m(1) assms(1)] 1 show ?thesis by blast
qed

lemma readFieldLine_shrinks: "tshrinks content ok (readFieldLine ops b0)"
  unfolding tshrinks_def
proof (intro allI impI)
  fix d br assume br: "rok ok br"
  obtain m where m: "\<And>b. tshrinks content ok (m b)" "\<And>d br. readFieldLine ops b0 (d, br) = (case ReadBit ops br of
       (Inl e, br1) \<Rightarrow> (if e = EOF then Inr None else Inl e, (d, br1)) | (Inr b, br1) \<Rightarrow> m b (d, br1))"
    using readFieldLine_turn [where k = b0] by blast
  obtain x br1 where 1: "ReadBit ops br = (x, br1)" by fastforce
  note s1 = shrinksD [OF ReadBit_shrinks br 1]
  show "rok ok (snd (snd (readFieldLine ops b0 (d, br)))) \<and>
      length (rbits content (snd (snd (readFieldLine ops b0 (d, br))))) \<le> length (rbits content br)"
  proof (cases x)
    case (Inr b)
    have "rok ok (snd (snd (m b (d, br1)))) \<and> length (rbits content (snd (snd (m b (d, br1))))) \<le> length (rbits content br1)"
      using m(1) [of b] s1(1) unfolding tshrinks_def by blast
    with 1 Inr s1(2) show ?thesis by (simp add: m(2))
  qed (use 1 s1 in \<open>simp add: m(2)\<close>)
qed

lemma fieldLinesLoop_returns:
  "rok ok br \<Longrightarrow> \<exists>x d' br'. fieldLinesLoop ops b hs (d, br) = Some (x, (d', br')) \<and> rok ok br'"
proof (induction "length (rbits content br)" arbitrary: hs d br rule: less_induct)
  case less
  obtain x d' br' where r: "readFieldLine ops b (d, br) = (x, (d', br'))" by (metis surj_pair)
  have br': "rok ok br'"
    using readFieldLine_shrinks [of b] less.prems r unfolding tshrinks_def by (metis snd_conv)
  show ?case
  proof (cases "\<exists>h. x = Inr (Some h)")
    case True
    then obtain h where h: "x = Inr (Some h)" by blast
    with readFieldLine_takes [OF less.prems] r
    have "\<exists>y d'' br''. fieldLinesLoop ops b (hs @ [h]) (d', br') = Some (y, (d'', br'')) \<and> rok ok br''"
      by (intro less.hyps) auto
    with r h show ?thesis by (simp add: fieldLinesLoop.simps [of ops b hs "(d, br)"])
  next
    case False
    with r br' show ?thesis by (cases x) (auto simp: fieldLinesLoop.simps [of ops b hs "(d, br)"] split: option.split)
  qed
qed

lemma readBase_shrinks: "tshrinks content ok (readBase ops)"
  unfolding readBase_def by (intro shrinking) simp_all

lemma QpackReadHeaderBlock_returns:
  assumes "ok r"
  shows "\<exists>x d' r'. QpackReadHeaderBlock ops i d r = Some (x, d', r') \<and> ok r'"
proof -
  have r: "rok ok (NewBitReader r)" using assms by (simp add: rok_def NewBitReader_def)
  obtain x d' br where b: "readBase ops (d, NewBitReader r) = (x, (d', br))" by (metis surj_pair)
  have br: "rok ok br" using readBase_shrinks r b unfolding tshrinks_def by (metis snd_conv)
  show ?thesis
  proof (cases x)
    case (Inr y)
    obtain largest c where y: "y = (largest, c)" by fastforce
    from fieldLinesLoop_returns [OF br, of c "[]" d'] obtain z d'' br' where
      "fieldLinesLoop ops c [] (d', br) = Some (z, (d'', br'))" "rok ok br'" by blast
    with b Inr y show ?thesis by (simp add: QpackReadHeaderBlock_def rok_def)
  qed (use b br in \<open>simp add: QpackReadHeaderBlock_def rok_def\<close>)
qed

lemma serviceAck_takes:
  assumes "rok ok br" "serviceAck ops (enc, br) = (Inr (), (enc', br'))"
  shows "rok ok br' \<and> length (rbits content br') < length (rbits content br)"
proof -
  let ?f = "\<lambda>b :: byte. if b = 1 then bnd (onIO (ReadInt ops 7)) (\<lambda>v. dropError (onT (AcknowledgeHeader v)))
    else bnd (onIO (ReadBit ops)) (\<lambda>b. bnd (onIO (ReadInt ops 6)) (\<lambda>v.
      if b = 0 then dropError (onT (AcknowledgeInsert (sint v))) else dropError (onT (AcknowledgeReset v))))"
  have f: "tshrinks content ok (?f b)" for b by (intro shrinking) simp_all
  obtain x br1 where 1: "ReadBit ops br = (x, br1)" by fastforce
  with assms(2) obtain b where "x = Inr b" "?f b (enc, br1) = (Inr (), (enc', br'))"
    by (cases x) (auto simp: serviceAck_def)
  with turn_takes [where f = ?f, OF f assms(1)] 1 show ?thesis by blast
qed

lemma ServiceAcknowledgments_returns: "rok ok br \<Longrightarrow> \<exists>y. ServiceAcknowledgments ops (enc, br) = Some y"
proof (induction "length (rbits content br)" arbitrary: enc br rule: less_induct)
  case less
  obtain x enc' br' where r: "serviceAck ops (enc, br) = (x, (enc', br'))" by (metis surj_pair)
  show ?case
  proof (cases x)
    case (Inr u)
    with serviceAck_takes [OF less.prems] r have "\<exists>y. ServiceAcknowledgments ops (enc', br') = Some y"
      by (intro less.hyps) auto
    with r Inr show ?thesis by (simp add: ServiceAcknowledgments.simps [of ops "(enc, br)"])
  qed (use r in \<open>simp add: ServiceAcknowledgments.simps [of ops "(enc, br)"]\<close>)
qed

end

section \<open>Properties\<close>

text \<open>The encoder's service of the acknowledgment stream ends when the stream does, with the error the
  stream ended with or with one that an acknowledgment caused, and never spins.\<close>

theorem acknowledgment_service_returns:
  assumes "byte_source ops content fin ok" "ok r"
  shows "\<exists>e enc' br. ServiceAcknowledgments ops (enc, NewBitReader r) = Some (e, enc', br)"
  using byte_source.ServiceAcknowledgments_returns [OF assms(1), of "NewBitReader r" enc] assms(2)
  by (force simp: rok_def NewBitReader_def)

theorem acknowledgment_service_returns_witness:
  "\<exists>e enc' br. ServiceAcknowledgments source_ops (example_encoder 64, NewBitReader ([0x80, 1], EOF)) = Some (e, enc', br)"
  using acknowledgment_service_returns [OF src.byte_source_axioms, where r = "([0x80, 1], EOF)" and enc = "example_encoder 64"] by simp

end
