(* ===== verification/Outcome.thy ===== *)
theory Outcome
  imports Progress
begin

text \<open>
  What the decoders come to on input that ends: a Hoare-style account of the errors each reader
  can end with. The panics and waits that remain are named, and no other is possible.
\<close>

section \<open>Outcomes of fallible operations\<close>

text \<open>
  \<open>answers I E Q m\<close>: from a state with \<open>I\<close>, \<open>m\<close> ends in one with \<open>I\<close>, with a result
  that satisfies \<open>Q\<close> or an error in \<open>E\<close>.
\<close>

definition answers :: "('s \<Rightarrow> bool) \<Rightarrow> goerr set \<Rightarrow> ('a \<Rightarrow> bool) \<Rightarrow> ('s, 'a) io \<Rightarrow> bool" where
  "answers I E Q m \<longleftrightarrow> (\<forall>s. I s \<longrightarrow> I (snd (m s)) \<and> (case fst (m s) of Inl e \<Rightarrow> e \<in> E | Inr x \<Rightarrow> Q x))"

lemma answersD:
  assumes "answers I E Q m" "I s" "m s = (x, s')"
  shows "I s'" "case x of Inl e \<Rightarrow> e \<in> E | Inr y \<Rightarrow> Q y"
  using assms(1,2) unfolding answers_def by (metis assms(3) fst_conv snd_conv)+

named_theorems answering

lemma answers_ret [answering]: "Q x \<Longrightarrow> answers I E Q (ret x)"
  and answers_throw [answering]: "e \<in> E \<Longrightarrow> answers I E Q (throw e)"
  by (simp_all add: answers_def)

lemma answers_bnd:
  assumes "answers I E Q m" "\<And>x. Q x \<Longrightarrow> answers I E R (f x)"
  shows "answers I E R (bnd m f)"
  unfolding answers_def
proof (intro allI impI)
  fix s assume "I s"
  obtain x s' where m: "m s = (x, s')" by fastforce
  note a = answersD [OF assms(1) \<open>I s\<close> m]
  show "I (snd (bnd m f s)) \<and> (case fst (bnd m f s) of Inl e \<Rightarrow> e \<in> E | Inr x \<Rightarrow> R x)"
  proof (cases x)
    case (Inr y)
    with a assms(2) [of y] m show ?thesis by (simp add: answers_def)
  qed (use a m in simp)
qed

lemma answers_weaken: "answers I E Q m \<Longrightarrow> (\<And>x. Q x \<Longrightarrow> R x) \<Longrightarrow> answers I E R m"
  by (auto simp: answers_def split: sum.splits)

lemma answers_at: "(\<And>s. I s \<Longrightarrow> \<exists>m'. m s = m' s \<and> answers I E Q m') \<Longrightarrow> answers I E Q m"
  by (metis answers_def)

lemma answers_if [answering]:
  "(c \<Longrightarrow> answers I E Q a) \<Longrightarrow> (\<not> c \<Longrightarrow> answers I E Q b) \<Longrightarrow> answers I E Q (if c then a else b)"
  by simp

lemma answers_option [answering]:
  "(y = None \<Longrightarrow> answers I E Q a) \<Longrightarrow> (\<And>x. y = Some x \<Longrightarrow> answers I E Q (b x)) \<Longrightarrow>
     answers I E Q (case y of None \<Rightarrow> a | Some x \<Rightarrow> b x)"
  by (cases y) simp_all

lemma answers_prod [answering]:
  "(\<And>a b. p = (a, b) \<Longrightarrow> answers I E Q (f a b)) \<Longrightarrow> answers I E Q (case p of (a, b) \<Rightarrow> f a b)"
  by (cases p) simp

text \<open>One turn of a loop that an \<open>EOF\<close> on the first bit leaves.\<close>

lemma answers_turn:
  assumes "answers I E Q m" "R x0" "\<And>b. Q b \<Longrightarrow> answers I E R (f b)"
  shows "answers I E R (\<lambda>s. case m s of (Inl e, s') \<Rightarrow> if e = EOF then (Inr x0, s') else (Inl e, s') | (Inr b, s') \<Rightarrow> f b s')"
  unfolding answers_def
proof (intro allI impI)
  fix s assume "I s"
  obtain x s' where m: "m s = (x, s')" by fastforce
  note a = answersD [OF assms(1) \<open>I s\<close> m]
  let ?r = "case m s of (Inl e, s') \<Rightarrow> if e = EOF then (Inr x0, s') else (Inl e, s') | (Inr b, s') \<Rightarrow> f b s'"
  show "I (snd ?r) \<and> (case fst ?r of Inl e \<Rightarrow> e \<in> E | Inr x \<Rightarrow> R x)"
  proof (cases x)
    case (Inr y)
    with a assms(3) [of y] m show ?thesis by (simp add: answers_def)
  qed (use a m assms(2) in simp)
qed

text \<open>An operation of the reader beside a codec's state with the invariant \<open>J\<close>.\<close>

definition beside :: "('t \<Rightarrow> bool) \<Rightarrow> ('r \<Rightarrow> bool) \<Rightarrow> 't \<times> 'r \<Rightarrow> bool" where
  "beside J I s \<longleftrightarrow> J (fst s) \<and> I (snd s)"

lemma answers_onIO: "answers I E Q m \<Longrightarrow> answers (beside J I) E Q (onIO m)"
  by (fastforce simp: answers_def onIO_def beside_def split: prod.split)

lemma answers_getT: "answers (beside J I) E J getT"
  and answers_modifyT [answering]: "(\<And>t. J t \<Longrightarrow> J (f t)) \<Longrightarrow> answers (beside J I) E (\<lambda>_. True) (modifyT f)"
  by (simp_all add: answers_def modifyT_def beside_def split: prod.split)

lemmas answers_io = answers_bnd [OF answers_onIO]
lemmas answers_get = answers_bnd [OF answers_getT]

section \<open>\<open>io.ReadFull\<close>\<close>

lemma readFullLoop_answers:
  assumes "\<And>n r p e r'. 0 < n \<Longrightarrow> I r \<Longrightarrow> srcRead ops n r = ((p, e), r') \<Longrightarrow>
      J r' \<and> length p \<le> n \<and> (case e of None \<Rightarrow> I r' \<and> p \<noteq> [] | Some x \<Rightarrow> x \<in> E)"
    "\<And>r. I r \<Longrightarrow> J r"
  shows "I r \<Longrightarrow> readFullLoop ops n acc r = ((p, e), r') \<Longrightarrow>
    J r' \<and> length p \<le> length acc + n \<and> (case e of None \<Rightarrow> length p = length acc + n | Some x \<Rightarrow> x \<in> E)"
proof (induction n arbitrary: acc r rule: less_induct)
  case (less n)
  obtain q x r1 where r: "srcRead ops n r = ((q, x), r1)" by (metis surj_pair)
  show ?case
  proof (cases "n = 0")
    case True
    with less.prems assms(2) show ?thesis by (auto simp: readFullLoop.simps [of ops 0])
  next
    case False
    note s = assms(1) [OF _ less.prems(1) r]
    show ?thesis
    proof (cases x)
      case (Some y)
      with False r s less.prems show ?thesis by (auto simp: readFullLoop.simps [of ops n])
    next
      case None
      with False s have q: "q \<noteq> []" "length q \<le> n" "I r1" by auto
      then have "n - length q < n" using False by (cases q) auto
      from less.IH [OF this q(3), of "acc @ q"] None False q r less.prems(2) show ?thesis
        by (auto simp: readFullLoop.simps [of ops n] split: option.splits)
    qed
  qed
qed

lemma ReadFull_answers:
  assumes "\<And>n r p e r'. 0 < n \<Longrightarrow> I r \<Longrightarrow> srcRead ops n r = ((p, e), r') \<Longrightarrow>
      J r' \<and> length p \<le> n \<and> (case e of None \<Rightarrow> I r' \<and> p \<noteq> [] | Some x \<Rightarrow> x \<in> E)"
    "\<And>r. I r \<Longrightarrow> J r" "I r" "ReadFull ops n r = ((p, e), r')"
  shows "J r' \<and> length p \<le> n \<and> (case e of None \<Rightarrow> True | Some x \<Rightarrow> x \<in> E \<or> x = ErrUnexpectedEOF)"
proof -
  obtain q x r1 where r: "readFullLoop ops n [] r = ((q, x), r1)" by (metis surj_pair)
  have "J r1 \<and> length q \<le> length ([] :: byte list) + n \<and>
      (case x of None \<Rightarrow> length q = length ([] :: byte list) + n | Some y \<Rightarrow> y \<in> E)"
    by (rule readFullLoop_answers [where I = I, OF assms(1,2,3) r])
  with r assms(4) show ?thesis
    by (auto simp: ReadFull_def split: option.splits if_splits)
qed

section \<open>Integers and strings\<close>

text \<open>
  The errors that a reader over a source that ends with \<open>F\<close> can end with: \<open>F\<close> itself, any
  error value, and the panic of a string that is announced longer than memory can be.
\<close>

definition expected :: "goerr \<Rightarrow> goerr set" where
  "expected F = {e. e = F \<or> \<not> abnormal e \<or> e = Panic ''makeslice: len out of range''}"

lemma expected_simps [simp]:
  "F \<in> expected F" "EOF \<in> expected F" "ErrIntegerOverflow \<in> expected F" "ErrInvalidHuffman \<in> expected F"
  "ErrIndexError \<in> expected F" "ErrTableOverflow \<in> expected F" "ErrUnexpectedEOF \<in> expected F"
  "ErrInvalidDelta \<in> expected F" "Panic ''makeslice: len out of range'' \<in> expected F"
  by (simp_all add: expected_def)

text \<open>The invariant of a bit reader over a source that ends with \<open>F\<close>.\<close>

abbreviation ends_with :: "('r \<Rightarrow> bool) \<Rightarrow> ('r \<Rightarrow> goerr) \<Rightarrow> goerr \<Rightarrow> 'r bitReader \<Rightarrow> bool" where
  "ends_with ok fin F \<equiv> \<lambda>br. rok ok br \<and> fin (reader br) = F"

context byte_source
begin

lemma ReadBit_answers: "answers (ends_with ok fin F) (expected F) (\<lambda>_. True) (ReadBit ops)"
  unfolding answers_def using ReadBit_spec by (fastforce split: list.splits)

lemma ReadBits_answers: "n \<le> 64 \<Longrightarrow> answers (ends_with ok fin F) (expected F) (\<lambda>_. True) (ReadBits ops n)"
  unfolding answers_def using ReadBits_spec by (fastforce split: if_splits)

lemma readIntLoop_answers: "answers (ends_with ok fin F) (expected F) (\<lambda>_. True) (readIntLoop ops s v)"
proof (induction "70 - s" arbitrary: s v rule: less_induct)
  case less
  have eq: "readIntLoop ops s v = (if s < 64 then bnd (ReadBits ops 8) (\<lambda>b.
      if s = 63 \<and> (b > 1 \<or> b = 1 \<and> drop_bit 63 v = 1) then throw ErrIntegerOverflow
      else if b AND 0x80 = 0 then ret (v + push_bit s (b AND 0x7f))
      else readIntLoop ops (s + 7) (v + push_bit s (b AND 0x7f))) else ret v)"
  proof
    fix br
    obtain x br' where "ReadBits ops 8 br = (x, br')" by fastforce
    then show "readIntLoop ops s v br = (if s < 64 then bnd (ReadBits ops 8) (\<lambda>b.
      if s = 63 \<and> (b > 1 \<or> b = 1 \<and> drop_bit 63 v = 1) then throw ErrIntegerOverflow
      else if b AND 0x80 = 0 then ret (v + push_bit s (b AND 0x7f))
      else readIntLoop ops (s + 7) (v + push_bit s (b AND 0x7f))) else ret v) br"
      by (cases x) (auto simp: readIntLoop.simps [of ops s v])
  qed
  show ?case unfolding eq by (intro answering answers_bnd [OF ReadBits_answers] less) simp_all
qed

lemma ReadInt_answers: "n \<le> 64 \<Longrightarrow> answers (ends_with ok fin F) (expected F) (\<lambda>_. True) (ReadInt ops n)"
  unfolding ReadInt_def by (intro answering answers_bnd [OF ReadBits_answers] readIntLoop_answers) simp_all

lemma ReadIndex_answers: "n \<le> 64 \<Longrightarrow> answers (ends_with ok fin F) (expected F) (\<lambda>_. True) (ReadIndex ops n)"
  unfolding ReadIndex_def by (intro answering answers_bnd [OF ReadInt_answers]) simp_all

lemma decompressRead_answers:
  assumes "ends_with ok fin F (hreader d)" "cursor d \<noteq> None" "length p \<le> n" "decompressRead ops n p d = ((q, e), d')"
  shows "ends_with ok fin F (hreader d') \<and> length q \<le> n \<and>
    (case e of None \<Rightarrow> cursor d' \<noteq> None \<and> length q = n | Some x \<Rightarrow> x = F \<or> x = ErrInvalidHuffman)"
  using assms
proof (induction ops\<equiv>ops n p d arbitrary: q e d' rule: decompressRead.induct)
  case (1 n p d)
  obtain x br where r: "ReadBit ops (hreader d) = (x, br)" by fastforce
  note b = answersD [OF ReadBit_answers [of F] "1.prems"(1) r]
  obtain c where c: "cursor d = Some c" using "1.prems"(2) by blast
  show ?case
  proof (cases "length p < n")
    case False
    with "1.prems" show ?thesis by (auto simp: decompressRead.simps [of ops n p d])
  next
    case True
    show ?thesis
    proof (cases x)
      case (Inl y)
      have "y = F" using ReadBit_spec [of "hreader d"] "1.prems"(1) r Inl by (auto split: list.splits)
      with Inl True r b "1.prems" show ?thesis by (auto simp: decompressRead.simps [of ops n p d])
    next
      case (Inr y)
      show ?thesis
      proof (cases "if y = 0 then next0 c else next1 c")
        case None
        with Inr True r b c "1.prems" show ?thesis by (auto simp: decompressRead.simps [of ops n p d])
      next
        case (Some c')
        note IH = "1.hyps" [OF True r [symmetric] _ c Some]
        show ?thesis
          using IH Inr Some True r b c "1.prems"(3,4)
          by (simp add: decompressRead.simps [of ops n p d] split: if_splits)
      qed
    qed
  qed
qed

text \<open>Both ways of reading the bytes of a string, from a reader limited to its length.\<close>

lemma string_bytes_answers:
  assumes "ends_with ok fin F (limR l)" "limN l = k"
  shows "ReadFull (lim_ops (br_ops ops)) n l = ((p, e), l') \<Longrightarrow>
      ends_with ok fin F (limR l') \<and> length p \<le> n \<and> (case e of None \<Rightarrow> True | Some x \<Rightarrow> x \<in> expected F)"
    and "ReadFull (huff_ops (lim_ops (br_ops ops))) n (NewHuffmanDecompressor l) = ((p, e), d) \<Longrightarrow>
      ends_with ok fin F (limR (reader (hreader d))) \<and> length p \<le> n \<and> (case e of None \<Rightarrow> True | Some x \<Rightarrow> x \<in> expected F)"
proof -
  let ?wb = "\<lambda>br. bits_bytes (rbits content br)"
  let ?beyond = "drop (nat (limN l)) (?wb (limR l))" and ?left = "tail_bits (rbits content (limR l))"
  let ?ok = "\<lambda>m. (rok ok (limR m) \<and> tail_bits (rbits content (limR m)) = ?left) \<and>
    drop (nat (limN m)) (?wb (limR m)) = ?beyond \<and> fin (reader (limR m)) = F"
  let ?fin = "lim_fin ?wb (\<lambda>br. fin (reader br))"
  note src = byte_source.lim_source [OF br_source, of ?left ?beyond F]
  have start: "?ok l" using assms(1) by blast
  have fin: "?fin l \<in> expected F" using assms(1) by (simp add: lim_fin_def)
  { assume r: "ReadFull (lim_ops (br_ops ops)) n l = ((p, e), l')"
    from byte_source.ReadFull_spec [OF src start, of n] obtain l2 where "?ok l2"
      "ReadFull (lim_ops (br_ops ops)) n l = ((take n (lim_content ?wb l), if n \<le> length (lim_content ?wb l) then None
        else if lim_content ?wb l \<noteq> [] \<and> ?fin l = EOF then Some ErrUnexpectedEOF else Some (?fin l)), l2)" by blast
    with r fin show "ends_with ok fin F (limR l') \<and> length p \<le> n \<and> (case e of None \<Rightarrow> True | Some x \<Rightarrow> x \<in> expected F)"
      by auto }
  let ?I = "\<lambda>d. ends_with ?ok ?fin (?fin l) (hreader d) \<and> cursor d \<noteq> None"
  assume r: "ReadFull (huff_ops (lim_ops (br_ops ops))) n (NewHuffmanDecompressor l) = ((p, e), d)"
  have "?I (NewHuffmanDecompressor l)"
    using start by (simp add: NewHuffmanDecompressor_def NewBitReader_def rok_def)
  moreover have "rok ?ok (hreader d2) \<and> length q \<le> j \<and> (case x of None \<Rightarrow> ?I d2 \<and> q \<noteq> [] | Some y \<Rightarrow> y \<in> {?fin l, ErrInvalidHuffman})"
    if "0 < j" "?I d1" "srcRead (huff_ops (lim_ops (br_ops ops))) j d1 = ((q, x), d2)" for j d1 q x d2
    using byte_source.decompressRead_answers [OF src conjunct1 [OF that(2)] conjunct2 [OF that(2)], of "[]" j q x d2] that(1,3)
    by (auto simp: huff_ops_def split: option.splits)
  ultimately have out: "rok ?ok (hreader d) \<and> length p \<le> n \<and>
      (case e of None \<Rightarrow> True | Some x \<Rightarrow> x \<in> {?fin l, ErrInvalidHuffman} \<or> x = ErrUnexpectedEOF)"
    using r by (intro ReadFull_answers [where I = ?I and J = "\<lambda>d. rok ?ok (hreader d)" and ops = "huff_ops (lim_ops (br_ops ops))"]) blast+
  then have "?ok (reader (hreader d))" unfolding rok_def [of ?ok] by blast
  then have "ends_with ok fin F (limR (reader (hreader d)))" by blast
  with out fin show "ends_with ok fin F (limR (reader (hreader d))) \<and> length p \<le> n \<and> (case e of None \<Rightarrow> True | Some x \<Rightarrow> x \<in> expected F)"
    by (auto split: option.splits)
qed

lemma ReadString_answers:
  assumes "n \<le> 64"
  shows "answers (ends_with ok fin F) (expected F) (\<lambda>s. length s \<le> 2 ^ 48) (ReadString ops n)"
  unfolding answers_def
proof (intro allI impI)
  fix br assume br: "ends_with ok fin F br"
  let ?P = "\<lambda>x br'. ends_with ok fin F br' \<and> (case x of Inl e \<Rightarrow> e \<in> expected F | Inr s \<Rightarrow> length s \<le> 2 ^ 48)"
  have ign: "case ignoring e '''' of Inl e \<Rightarrow> e \<in> expected F | Inr s \<Rightarrow> length s \<le> 2 ^ 48" if "e \<in> expected F" for e
    using that by (simp add: ignoring_def)
  have res: "case readStringResult p e of Inl e \<Rightarrow> e \<in> expected F | Inr s \<Rightarrow> length s \<le> 2 ^ 48"
    if "length p \<le> 2 ^ 48" "case e of None \<Rightarrow> True | Some x \<Rightarrow> x \<in> expected F" for p e
    using that by (auto simp: readStringResult_def bytes_string_def split: option.split)
  obtain x br1 where 1: "ReadBit ops br = (x, br1)" by fastforce
  note a1 = answersD [OF ReadBit_answers br 1]
  obtain y br2 where 2: "ReadInt ops n br1 = (y, br2)" by fastforce
  note a2 = answersD [OF ReadInt_answers [OF assms] a1(1) 2]
  have "?P (fst (ReadString ops n br)) (snd (ReadString ops n br))"
  proof (cases x)
    case (Inl e)
    with 1 a1 ign show ?thesis by (simp add: ReadString_def)
  next
    case (Inr b)
    show ?thesis
    proof (cases y)
      case Inl
      with 1 2 Inr a2 ign show ?thesis by (simp add: ReadString_def)
    next
      case (Inr len)
      let ?l = "\<lparr>limR = br2, limN = sint len\<rparr>"
      let ?n = "if b \<noteq> 0 then len * 8 div 5 + 1 else len"
      have l: "ends_with ok fin F (limR ?l)" "limN ?l = sint len" using a2(1) by simp_all
      show ?thesis
      proof (cases "makeslice_ok ?n")
        case False
        with 1 2 a2(1) \<open>x = Inr b\<close> Inr show ?thesis by (simp add: ReadString_def Let_def)
      next
        case True
        then have n: "unat ?n \<le> 2 ^ 48" by (simp add: makeslice_ok_def word_le_nat_alt)
        obtain p e l' q f d where f: "ReadFull (lim_ops (br_ops ops)) (unat ?n) ?l = ((p, e), l')"
          "ReadFull (huff_ops (lim_ops (br_ops ops))) (unat ?n) (NewHuffmanDecompressor ?l) = ((q, f), d)" by (metis surj_pair)
        note st = string_bytes_answers(1) [OF l f(1)] string_bytes_answers(2) [OF l f(2)]
        have "?P (readStringResult p e) (limR l')" "?P (readStringResult q f) (limR (reader (hreader d)))"
          using st n res by (auto intro: order_trans)
        with True 1 2 \<open>x = Inr b\<close> Inr f show ?thesis
          by (cases "b = 0") (simp_all add: ReadString_def Let_def)
      qed
    qed
  qed
  then show "ends_with ok fin F (snd (ReadString ops n br)) \<and>
      (case fst (ReadString ops n br) of Inl e \<Rightarrow> e \<in> expected F | Inr s \<Rightarrow> length s \<le> 2 ^ 48)" by simp
qed

lemmas reads = answers_io [OF ReadBit_answers] answers_io [OF ReadInt_answers] answers_io [OF ReadIndex_answers]
  answers_io [OF ReadString_answers] answers_get

section \<open>HPACK\<close>

lemma readNameValue_answers:
  "n \<le> 64 \<Longrightarrow> answers (beside (\<lambda>_. True) (ends_with ok fin F)) (expected F) (\<lambda>_. True) (readNameValue ops n)"
  unfolding readNameValue_def
  by (intro reads answering answers_bnd [where Q = "\<lambda>_. True"] answers_weaken [OF answers_onIO [OF ReadString_answers]]) simp_all

lemma readBlockTurn_answers:
  "answers (beside (\<lambda>_. True) (ends_with ok fin F)) (expected F) (\<lambda>_. True) (readBlockTurn ops)"
  unfolding readBlockTurn_def [abs_def]
proof (rule answers_turn [OF answers_onIO [OF ReadBit_answers]])
  fix b :: byte
  show "answers (beside (\<lambda>_. True) (ends_with ok fin F)) (expected F) (\<lambda>_. True)
    (if b = 1 then bnd (readIndexed ops) (\<lambda>h. ret (Some (Some h)))
     else bnd (onIO (ReadBit ops)) (\<lambda>b.
       if b = 1 then bnd (readIncremental ops) (\<lambda>h. ret (Some (Some h)))
       else bnd (onIO (ReadBit ops)) (\<lambda>b.
         if b = 1 then bnd (readCapacity ops) (\<lambda>_. ret (Some None))
         else bnd (readLiteral ops) (\<lambda>h. ret (Some (Some h))))))"
    unfolding readIndexed_def readIncremental_def readCapacity_def readLiteral_def
    by (intro answering reads answers_bnd [where Q = "\<lambda>_. True"] answers_bnd [OF readNameValue_answers]) simp_all
qed simp

lemma readBlockLoop_answers:
  assumes "readBlockLoop ops hs s = Some y" "beside (\<lambda>_. True) (ends_with ok fin F) s"
  shows "case fst y of Inl e \<Rightarrow> e \<in> expected F | Inr _ \<Rightarrow> True"
proof -
  let ?I = "beside (\<lambda>_. True) (ends_with ok fin F)"
  let ?P = "\<lambda>ops' hs s y. ops' = ops \<longrightarrow> ?I s \<longrightarrow> (case fst y of Inl e \<Rightarrow> e \<in> expected F | Inr _ \<Rightarrow> True)"
  have "?P ops hs s y"
  proof (rule readBlockLoop.raw_induct [where P = ?P, OF _ assms(1)], intro impI)
    fix loop ops' hs s y
    assume IH: "\<And>ops' hs s y. loop ops' hs s = Some y \<Longrightarrow> ?P ops' hs s y" and o: "ops' = ops" and I: "?I s"
      and b: "(case readBlockTurn ops' s of (Inl e, s') \<Rightarrow> Some (Inl e, s') | (Inr None, s') \<Rightarrow> Some (Inr hs, s')
        | (Inr (Some None), s') \<Rightarrow> loop ops' hs s' | (Inr (Some (Some h)), s') \<Rightarrow> loop ops' (hs @ [h]) s') = Some y"
    obtain x s' where t: "readBlockTurn ops s = (x, s')" by (metis surj_pair)
    note a = answersD [OF readBlockTurn_answers I t]
    show "case fst y of Inl e \<Rightarrow> e \<in> expected F | Inr _ \<Rightarrow> True"
    proof (cases "\<exists>h. x = Inr (Some h)")
      case True
      with b t o obtain hs' where "loop ops hs' s' = Some y" by (auto split: option.splits)
      from IH [OF this] a(1) show ?thesis by simp
    qed (use a b t o in \<open>auto split: sum.splits option.splits\<close>)
  qed
  with assms(2) show ?thesis by simp
qed

end

section \<open>The updates of QPACK\<close>

text \<open>
  The decoder's table is accounted exactly, and its names come from strings that were read or from
  the static table. Then no insert fails, and the result of an insert is never nil.
\<close>

definition dec_ok :: "QpackDecoder \<Rightarrow> bool" where
  "dec_ok d \<longleftrightarrow> table_ok (dtable d) \<and> (\<forall>e \<in> set (dynamic (dtable d)). length (eN e) < 2 ^ 50)"

lemma dec_ok_New: "dec_ok (NewQpackDecoder c)"
  by (simp add: dec_ok_def NewQpackDecoder_def NewQpackDecoderTable_def table_ok_def emptyTable_def)

lemma fit_subset: "set (fit c es) \<subseteq> set es"
  using fit_is_take [of c es] by (auto dest: in_set_takeD)

lemma insertAvailable_answers:
  assumes "dec_ok d" "fits n v (dtable d)" "length n < 2 ^ 50" "I r"
  shows "\<exists>d'. insertAvailable n v (d, r) = (Inr (), (d', r)) \<and> dec_ok d'"
proof -
  have t: "table_ok (dtable d)" using assms(1) by (simp add: dec_ok_def)
  note i = QpackDecoderInsert_fits [OF t assms(2)]
  have "dec_ok (send x (d\<lparr>dtable := inserted n v (dtable d)\<rparr>))" for x
    using i(2,5) assms(1,3) fit_subset by (fastforce simp: dec_ok_def send_def)
  then show ?thesis by (simp add: insertAvailable_def i(1))
qed

lemma checked_insert_answers:
  assumes "length n < 2 ^ 50" "length v \<le> 2 ^ 48"
  shows "answers (beside dec_ok I) (expected F) (\<lambda>_. True) (bnd getT (\<lambda>d.
    if 32 + word_of_nat (length n + length v) > capacity (dtable d) then throw ErrTableOverflow else insertAvailable n v))"
  unfolding answers_def
proof (intro allI impI)
  fix s assume s: "beside dec_ok I s"
  obtain d r where sr: "s = (d, r)" by fastforce
  let ?w = "32 + word_of_nat (length n + length v) :: u64"
  have "?w = word_of_nat (32 + length n + length v)" by simp
  then have w: "unat ?w = 32 + length n + length v" using assms by (simp only: unat_of_nat) simp
  let ?m = "bnd getT (\<lambda>d. if ?w > capacity (dtable d) then throw ErrTableOverflow else insertAvailable n v)"
  show "beside dec_ok I (snd (?m s)) \<and> (case fst (?m s) of Inl e \<Rightarrow> e \<in> expected F | Inr x \<Rightarrow> True)"
  proof (cases "?w > capacity (dtable d)")
    case False
    then have "fits n v (dtable d)" using w by (simp add: fits_def word_le_nat_alt not_less)
    with insertAvailable_answers [of d n v I r] s sr assms(1) False show ?thesis by (auto simp: beside_def)
  qed (use s sr in simp)
qed

lemma GetDynamic_mem: "GetDynamic t i b = Some e \<Longrightarrow> e \<in> set (dynamic t)"
  by (auto simp: GetDynamic_def Let_def split: if_splits intro!: nth_mem)

lemma duplicate_answers:
  "answers (beside dec_ok I) (expected F) (\<lambda>_. True) (bnd getT (\<lambda>d.
    case GetDynamic (dtable d) index b of None \<Rightarrow> throw ErrIndexError | Some entry \<Rightarrow> insertAvailable (eN entry) (eV entry)))"
  unfolding answers_def
proof (intro allI impI)
  fix s assume s: "beside dec_ok I s"
  obtain d r where sr: "s = (d, r)" by fastforce
  let ?m = "bnd getT (\<lambda>d. case GetDynamic (dtable d) index b of None \<Rightarrow> throw ErrIndexError | Some entry \<Rightarrow> insertAvailable (eN entry) (eV entry))"
  show "beside dec_ok I (snd (?m s)) \<and> (case fst (?m s) of Inl e \<Rightarrow> e \<in> expected F | Inr x \<Rightarrow> True)"
  proof (cases "GetDynamic (dtable d) index b")
    case (Some e)
    then have e: "e \<in> set (dynamic (dtable d))" by (rule GetDynamic_mem)
    have t: "table_ok (dtable d)" and n: "length (eN e) < 2 ^ 50" using s sr e by (auto simp: beside_def dec_ok_def)
    have "esize e \<le> total_size (dynamic (dtable d))" using e by (simp add: total_size_def member_le_sum_list)
    also have "\<dots> \<le> unat (capacity (dtable d))" using t by (auto simp: table_ok_def word_le_nat_alt)
    finally have "fits (eN e) (eV e) (dtable d)" by (simp add: fits_def esize_def)
    with insertAvailable_answers [of d "eN e" "eV e" I r] s sr n Some show ?thesis by (auto simp: beside_def)
  qed (use s sr in simp)
qed

lemma short_static_names: "list_all (\<lambda>e. length (sname e) < 100) qpackStaticTable"
  by code_simp

lemma named_entry_short:
  assumes "dec_ok d" "(if c then QpackGetStatic i else map_option DynamicE (GetDynamic (dtable d) i b)) = Some e"
  shows "length (entryName e) < 2 ^ 50"
proof (cases c)
  case True
  with assms(2) have "e \<in> StaticE ` set qpackStaticTable" by (auto simp: QpackGetStatic_def split: if_splits intro!: nth_mem)
  with short_static_names show ?thesis by (auto simp: list_all_iff)
next
  case False
  with assms GetDynamic_mem show ?thesis by (fastforce simp: dec_ok_def)
qed

lemma dec_ok_SetCapacity: "dec_ok d \<Longrightarrow> dec_ok (d\<lparr>dtable := SetCapacity c (dtable d)\<rparr>)"
  using SetCapacity_spec [of "dtable d" c] fit_subset by (fastforce simp: dec_ok_def)

context byte_source
begin

lemma readValueAndInsert_answers:
  "length n < 2 ^ 50 \<Longrightarrow>
     answers (beside dec_ok (ends_with ok fin F)) (expected F) (\<lambda>_. True) (readValueAndInsert ops n)"
  unfolding readValueAndInsert_def by (intro answers_io [OF ReadString_answers] checked_insert_answers) simp_all

lemma update_instructions_answer:
  "answers (beside dec_ok (ends_with ok fin F)) (expected F) (\<lambda>_. True) (readInsertWithNameReference ops b)"
  "answers (beside dec_ok (ends_with ok fin F)) (expected F) (\<lambda>_. True) (readInsertWithNameLiteral ops)"
  "answers (beside dec_ok (ends_with ok fin F)) (expected F) (\<lambda>_. True) (readDynamicUpdate ops)"
  "answers (beside dec_ok (ends_with ok fin F)) (expected F) (\<lambda>_. True) (readDuplicate ops b)"
proof -
  show "answers (beside dec_ok (ends_with ok fin F)) (expected F) (\<lambda>_. True) (readInsertWithNameReference ops b)"
    unfolding readInsertWithNameReference_def
    by (intro answering reads readValueAndInsert_answers) (simp, simp, erule (1) named_entry_short)
  show "answers (beside dec_ok (ends_with ok fin F)) (expected F) (\<lambda>_. True) (readInsertWithNameLiteral ops)"
    unfolding readInsertWithNameLiteral_def by (intro reads readValueAndInsert_answers) simp_all
  show "answers (beside dec_ok (ends_with ok fin F)) (expected F) (\<lambda>_. True) (readDynamicUpdate ops)"
    unfolding readDynamicUpdate_def by (intro answering reads dec_ok_SetCapacity) simp_all
  show "answers (beside dec_ok (ends_with ok fin F)) (expected F) (\<lambda>_. True) (readDuplicate ops b)"
    unfolding readDuplicate_def by (intro answers_io [OF ReadIndex_answers] duplicate_answers) simp_all
qed

lemma readUpdate_answers:
  "answers (beside dec_ok (ends_with ok fin F)) (expected F) (\<lambda>_. True) (readUpdate ops)"
proof (rule answers_at)
  fix s :: "QpackDecoder \<times> 'r bitReader"
  let ?b = "base (dtable (fst s))"
  let ?f = "\<lambda>b :: byte. if b = 1 then bnd (readInsertWithNameReference ops ?b) (\<lambda>_. ret True)
    else bnd (onIO (ReadBit ops)) (\<lambda>b.
      if b = 1 then bnd (readInsertWithNameLiteral ops) (\<lambda>_. ret True)
      else bnd (onIO (ReadBit ops)) (\<lambda>b.
        bnd (if b = 1 then readDynamicUpdate ops else readDuplicate ops ?b) (\<lambda>_. ret True)))"
  let ?m = "\<lambda>s. case onIO (ReadBit ops) s of (Inl e, s') \<Rightarrow> if e = EOF then (Inr False, s') else (Inl e, s') | (Inr b, s') \<Rightarrow> ?f b s'"
  have "answers (beside dec_ok (ends_with ok fin F)) (expected F) (\<lambda>_. True) (?f b)" for b
    by (intro answering answers_io [OF ReadBit_answers] answers_bnd [OF update_instructions_answer(1)]
        answers_bnd [OF update_instructions_answer(2)] answers_bnd [where Q = "\<lambda>_. True"] update_instructions_answer) simp_all
  then have "answers (beside dec_ok (ends_with ok fin F)) (expected F) (\<lambda>_. True) ?m"
    by (intro answers_turn [OF answers_onIO [OF ReadBit_answers]]) simp_all
  moreover have "readUpdate ops s = ?m s" by (simp add: readUpdate_def Let_def)
  ultimately show "\<exists>m'. readUpdate ops s = m' s \<and> answers (beside dec_ok (ends_with ok fin F)) (expected F) (\<lambda>_. True) m'"
    by (intro exI [of _ ?m] conjI)
qed

lemma updatesLoop_answers:
  assumes "updatesLoop ops s = Some y" "beside dec_ok (ends_with ok fin F) s"
  shows "dec_ok (fst (snd y)) \<and> (case fst y of Inl e \<Rightarrow> e \<in> expected F | Inr _ \<Rightarrow> True)"
proof -
  let ?I = "beside dec_ok (ends_with ok fin F)"
  let ?P = "\<lambda>ops' s y. ops' = ops \<longrightarrow> ?I s \<longrightarrow> dec_ok (fst (snd y)) \<and> (case fst y of Inl e \<Rightarrow> e \<in> expected F | Inr _ \<Rightarrow> True)"
  have "?P ops s y"
  proof (rule updatesLoop.raw_induct [where P = ?P, OF _ assms(1)], intro impI)
    fix loop ops' s y
    assume IH: "\<And>ops' s y. loop ops' s = Some y \<Longrightarrow> ?P ops' s y" and o: "ops' = ops" and I: "?I s"
      and b: "(case readUpdate ops' s of (Inl e, s') \<Rightarrow> Some (Inl e, s')
        | (Inr again, s') \<Rightarrow> if again then loop ops' s' else Some (Inr (), s')) = Some y"
    obtain x s' where t: "readUpdate ops s = (x, s')" by (metis surj_pair)
    note a = answersD [OF readUpdate_answers I t]
    show "dec_ok (fst (snd y)) \<and> (case fst y of Inl e \<Rightarrow> e \<in> expected F | Inr _ \<Rightarrow> True)"
    proof (cases "x = Inr True")
      case True
      with b t o have "loop ops s' = Some y" by simp
      from IH [OF this] a(1) show ?thesis by simp
    qed (use a b t o in \<open>auto simp: beside_def split: sum.splits if_splits\<close>)
  qed
  with assms(2) show ?thesis by simp
qed

section \<open>The header blocks of QPACK\<close>

lemma literalOf_answers:
  "answers (beside (\<lambda>_. True) (ends_with ok fin F)) (expected F) (\<lambda>_. True) (literalOf ops b e)"
  unfolding literalOf_def by (intro answering reads) simp_all

lemma headerOf_answers: "answers I (expected F) (\<lambda>_. True) (headerOf e)"
  unfolding headerOf_def by (intro answering) simp_all

lemma readFieldLine_answers:
  "answers (beside (\<lambda>_. True) (ends_with ok fin F)) (expected F) (\<lambda>_. True) (readFieldLine ops b0)"
  unfolding readFieldLine_def [abs_def]
proof (rule answers_turn [OF answers_onIO [OF ReadBit_answers]])
  fix b :: byte
  show "answers (beside (\<lambda>_. True) (ends_with ok fin F)) (expected F) (\<lambda>_. True)
    (if b = 1 then bnd (qreadIndexed ops b0) (\<lambda>h. ret (Some h))
     else bnd (onIO (ReadBit ops)) (\<lambda>b.
       if b = 1 then bnd (readLiteralWithNameReference ops b0) (\<lambda>h. ret (Some h))
       else bnd (onIO (ReadBit ops)) (\<lambda>b.
         if b = 1 then bnd (readLiteralWithNameLiteral ops) (\<lambda>h. ret (Some h))
         else bnd (onIO (ReadBit ops)) (\<lambda>b.
           bnd (if b = 1 then readPostBaseIndexed ops b0
                else readLiteralWithPostBaseNameReference ops b0) (\<lambda>h. ret (Some h))))))"
    unfolding qreadIndexed_def readLiteralWithNameReference_def readLiteralWithNameLiteral_def readPostBaseIndexed_def
      readLiteralWithPostBaseNameReference_def
    by (intro answering reads literalOf_answers headerOf_answers answers_bnd [where Q = "\<lambda>_. True"]) simp_all
qed simp

lemma fieldLinesLoop_answers:
  assumes "fieldLinesLoop ops b0 hs s = Some y" "beside (\<lambda>_. True) (ends_with ok fin F) s"
  shows "case fst y of Inl e \<Rightarrow> e \<in> expected F | Inr _ \<Rightarrow> True"
proof -
  let ?I = "beside (\<lambda>_. True) (ends_with ok fin F)"
  let ?P = "\<lambda>ops' b hs s y. ops' = ops \<longrightarrow> ?I s \<longrightarrow> (case fst y of Inl e \<Rightarrow> e \<in> expected F | Inr _ \<Rightarrow> True)"
  have "?P ops b0 hs s y"
  proof (rule fieldLinesLoop.raw_induct [where P = ?P, OF _ assms(1)], intro impI)
    fix loop ops' b hs s y
    assume IH: "\<And>ops' b hs s y. loop ops' b hs s = Some y \<Longrightarrow> ?P ops' b hs s y" and o: "ops' = ops" and I: "?I s"
      and b: "(case readFieldLine ops' b s of (Inl e, s') \<Rightarrow> Some (Inl e, s') | (Inr None, s') \<Rightarrow> Some (Inr hs, s')
        | (Inr (Some h), s') \<Rightarrow> loop ops' b (hs @ [h]) s') = Some y"
    obtain x s' where t: "readFieldLine ops b s = (x, s')" by (metis surj_pair)
    note a = answersD [OF readFieldLine_answers I t]
    show "case fst y of Inl e \<Rightarrow> e \<in> expected F | Inr _ \<Rightarrow> True"
    proof (cases "\<exists>h. x = Inr (Some h)")
      case True
      with b t o obtain hs' where "loop ops b hs' s' = Some y" by auto
      from IH [OF this] a(1) show ?thesis by simp
    qed (use a b t o in \<open>auto split: sum.splits option.splits\<close>)
  qed
  with assms(2) show ?thesis by simp
qed

end

text \<open>
  The prefix of a block can ask for more than reading: it may need entries that have not arrived,
  or, with a table that can hold no entry at all, make the decoder divide by zero.
\<close>

definition prefix_trouble :: "QpackDecoder \<Rightarrow> u64 \<Rightarrow> goerr \<Rightarrow> bool" where
  "prefix_trouble d lrRaw e \<longleftrightarrow>
     e = Panic ''integer divide by zero'' \<and> lrRaw \<noteq> 0 \<and> capacity (dtable d) < 32 \<or>
     e = Blocked \<and> (\<exists>largest. decodeLargestBase (dtable d) lrRaw = Inr largest \<and> base (dtable d) < largest)"

lemma decodeLargestBase_error:
  "decodeLargestBase t lrRaw = Inl e \<Longrightarrow> e = Panic ''integer divide by zero'' \<and> lrRaw \<noteq> 0 \<and> capacity t < 32"
proof -
  assume e: "decodeLargestBase t lrRaw = Inl e"
  then have z: "capacity t div 32 * 2 = 0" by (auto simp: decodeLargestBase_def Let_def split: if_splits)
  have "unat (capacity t) div 32 * 2 < 2 ^ 64" using unat_u64 [of "capacity t"] by simp
  then have "unat (capacity t) div 32 * 2 = 0"
    using arg_cong [OF z, of unat] by (simp add: unat_mult_lem [symmetric] unat_div unat_word_ariths)
  then have "capacity t < 32" by (simp add: word_less_nat_alt)
  with e show ?thesis by (auto simp: decodeLargestBase_def Let_def split: if_splits)
qed

context byte_source
begin

lemma readBase_answers:
  assumes "ends_with ok fin F br" "readBase ops (d, br) = (x, (d', br'))"
  shows "ends_with ok fin F br' \<and> (case x of Inr _ \<Rightarrow> True
    | Inl e \<Rightarrow> e \<in> expected F \<or> (\<exists>lrRaw br1. ReadInt ops 8 br = (Inr lrRaw, br1) \<and> prefix_trouble d lrRaw e))"
proof -
  obtain y br1 where r: "ReadInt ops 8 br = (y, br1)" by fastforce
  have a: "ends_with ok fin F br1" "case y of Inl e \<Rightarrow> e \<in> expected F | Inr _ \<Rightarrow> True"
    using answersD [OF ReadInt_answers assms(1) r] by simp_all
  show ?thesis
  proof (cases y)
    case (Inl e)
    with r a assms(2) show ?thesis by (auto simp: readBase_def)
  next
    case (Inr lrRaw)
    show ?thesis
    proof (cases "decodeLargestBase (dtable d) lrRaw")
      case (Inl e)
      with r Inr a assms(2) decodeLargestBase_error [OF Inl] show ?thesis
        by (auto simp: readBase_def prefix_trouble_def)
    next
      case l: (Inr largest)
      let ?m = "bnd (onIO (ReadBit ops)) (\<lambda>sign. bnd (onIO (ReadIndex ops 7)) (\<lambda>delta.
        if sign = 1 \<and> delta = 0 then throw ErrInvalidDelta
        else ret (largest, s64 (largest + delta * (1 - 2 * uint sign)))))"
      have m: "answers (beside (\<lambda>_ :: QpackDecoder. True) (ends_with ok fin F)) (expected F) (\<lambda>_. True) ?m"
        by (intro answering reads) simp_all
      show ?thesis
      proof (cases "base (dtable d) < largest")
        case True
        with r Inr l a assms(2) show ?thesis by (auto simp: readBase_def prefix_trouble_def WaitForEntry_def)
      next
        case False
        have "?m (d, br1) = (x, (d', br'))" using r Inr l False assms(2) by (simp add: readBase_def WaitForEntry_def)
        from answersD [OF m _ this] a(1) show ?thesis by (auto simp: beside_def split: sum.splits)
      qed
    qed
  qed
qed

lemma QpackReadHeaderBlock_answers:
  assumes "ok r" "QpackReadHeaderBlock ops i d r = Some (x, d', r')" "x = Inl e"
  shows "e \<in> expected (fin r) \<or> (\<exists>lrRaw br. ReadInt ops 8 (NewBitReader r) = (Inr lrRaw, br) \<and> prefix_trouble d lrRaw e)"
proof -
  have r: "ends_with ok fin (fin r) (NewBitReader r)" using assms(1) by (simp add: rok_def NewBitReader_def)
  obtain y d1 br where b: "readBase ops (d, NewBitReader r) = (y, (d1, br))" by (metis surj_pair)
  note a = readBase_answers [OF r b]
  show ?thesis
  proof (cases y)
    case (Inl f)
    with a b assms(2,3) show ?thesis by (auto simp: QpackReadHeaderBlock_def)
  next
    case (Inr z)
    obtain largest c where z: "z = (largest, c)" by fastforce
    have "beside (\<lambda>_. True) (ends_with ok fin (fin r)) (d1, br)" using a by (simp add: beside_def)
    moreover obtain w where "fieldLinesLoop ops c [] (d1, br) = Some w" "fst w = x"
      using b Inr z assms(2) by (auto simp: QpackReadHeaderBlock_def)
    ultimately show ?thesis using fieldLinesLoop_answers assms(3) by fastforce
  qed
qed

end

lemma validateLoop_error:
  "validateLoop p hs = Some e \<Longrightarrow> abnormal e \<Longrightarrow> e = Panic ''index out of range'' \<and> (\<exists>h \<in> set hs. Name h = [])"
  by (induction p hs rule: validateLoop.induct) (auto split: list.splits if_splits)

section \<open>The property\<close>



end
