(* ===== verification/Frame.thy ===== *)
theory Frame
  imports HcIO
begin

text \<open>
  The frame layer of HTTP over QUIC, \<open>src/frame.go\<close>: variable length integers and frames.
  A \<open>frameReader\<close> is the bit reader it embeds and a \<open>frameWriter\<close> the bit writer. The
  reader of a frame's body wraps the reader of the stream; the model passes the stream's
  reader into it, and the caller takes it back from there when the frame has been handled.
\<close>

section \<open>Frame types and errors\<close>

type_synonym FrameType = byte

definition frameData :: FrameType where "frameData = 0"
definition frameHeaders :: FrameType where "frameHeaders = 1"
definition framePriority :: FrameType where "framePriority = 2"
definition frameCancelPush :: FrameType where "frameCancelPush = 3"
definition frameSettings :: FrameType where "frameSettings = 4"
definition framePushPromise :: FrameType where "framePushPromise = 5"
definition frameGoaway :: FrameType where "frameGoaway = 7"
definition frameMaxPushID :: FrameType where "frameMaxPushID = 13"

lemmas frame_types = frameData_def frameHeaders_def framePriority_def frameCancelPush_def
  frameSettings_def framePushPromise_def frameGoaway_def frameMaxPushID_def

definition FrameType_String :: "FrameType \<Rightarrow> string" where
  "FrameType_String ft =
     (if ft = frameData then ''DATA''
      else if ft = frameHeaders then ''HEADERS''
      else if ft = framePriority then ''PRIORITY''
      else if ft = frameCancelPush then ''CANCEL_PUSH''
      else if ft = frameSettings then ''SETTINGS''
      else if ft = framePushPromise then ''PUSH_PROMISE''
      else if ft = frameGoaway then ''GOAWAY''
      else if ft = frameMaxPushID then ''MAX_PUSH_ID''
      else ''UNKNOWN!'')"

definition ErrUnsupportedFrame :: goerr where
  "ErrUnsupportedFrame = ErrOther ''Unsupported frame type received''"

definition ErrValueTooLarge :: goerr where
  "ErrValueTooLarge = ErrOther ''Value too large for the field''"

definition ErrExtraData :: goerr where
  "ErrExtraData = ErrOther ''Extra data at the end of a frame''"

section \<open>Reading\<close>

type_synonym 'r body = "'r bitReader limitedReader bitReader"

text \<open>The operations of the reader of a frame's body, as an \<open>io.Reader\<close> below another reader.\<close>

abbreviation body_ops :: "'r src_ops \<Rightarrow> 'r bitReader limitedReader src_ops" where
  "body_ops ops \<equiv> lim_ops (br_ops ops)"

definition ReadVarint :: "'r src_ops \<Rightarrow> ('r bitReader, u64) io" where
  "ReadVarint ops = bnd (ReadBits ops 2) (\<lambda>len. ReadBits ops (push_bit (unat len) 8 - 2))"

definition Limited :: "u64 \<Rightarrow> 'r bitReader \<Rightarrow> 'r body" where
  "Limited n fr = NewBitReader \<lparr>limR = fr, limN = sint n\<rparr>"

text \<open>The stream's reader, taken back from the reader of a frame's body.\<close>

definition unlimited :: "'r body \<Rightarrow> 'r bitReader" where
  "unlimited r = limR (reader r)"

definition ReadFrame :: "'r src_ops \<Rightarrow> 'r bitReader \<Rightarrow> (goerr + FrameType \<times> 'r body) \<times> 'r bitReader" where
  "ReadFrame ops fr =
     (case ReadVarint ops fr of
        (Inl e, fr1) \<Rightarrow> (Inl e, fr1)
      | (Inr len, fr1) \<Rightarrow>
          (case ReadByte ops fr1 of
             (Inl e, fr2) \<Rightarrow> (Inl e, fr2)
           | (Inr t, fr2) \<Rightarrow> (Inr (t, Limited len fr2), fr2)))"

definition CheckForEOF :: "'r src_ops \<Rightarrow> 'r bitReader \<Rightarrow> goerr option \<times> 'r bitReader" where
  "CheckForEOF ops fr =
     (case Read ops 1 fr of ((p, err), fr') \<Rightarrow>
        (case err of
           Some e \<Rightarrow> if e \<noteq> EOF then (Some e, fr')
                      else if length p > 0 then (Some ErrExtraData, fr') else (None, fr')
         | None \<Rightarrow> if length p > 0 then (Some ErrExtraData, fr') else (None, fr')))"

text \<open>\<open>io.Copy(ioutil.Discard, r)\<close> reads with a buffer of 8192 bytes until an error comes.\<close>

partial_function (option) copyDiscard :: "'r src_ops \<Rightarrow> 'r \<Rightarrow> (goerr option \<times> 'r) option" where
  "copyDiscard ops r =
     (case srcRead ops 8192 r of
        ((p, None), r') \<Rightarrow> copyDiscard ops r'
      | ((p, Some e), r') \<Rightarrow> Some (if e = EOF then None else Some e, r'))"

declare copyDiscard.simps [code]

section \<open>Writing\<close>

text \<open>The switch of \<open>WriteVarint\<close>: the code for the length, or none for too large a value.\<close>

definition varintSize :: "u64 \<Rightarrow> nat option" where
  "varintSize v =
     (if v \<ge> push_bit 62 1 then None
      else if v \<ge> push_bit 30 1 then Some 3
      else if v \<ge> push_bit 14 1 then Some 2
      else if v \<ge> push_bit 6 1 then Some 1
      else Some 0)"

text \<open>An error of the second \<open>WriteBits\<close> is dropped: the source returns \<open>0, nil\<close>.\<close>

definition WriteVarint :: "'w snk_ops \<Rightarrow> u64 \<Rightarrow> 'w bitWriter \<Rightarrow> (nat \<times> goerr option) \<times> 'w bitWriter" where
  "WriteVarint ops v fw =
     (case varintSize v of
        None \<Rightarrow> ((0, Some ErrValueTooLarge), fw)
      | Some sz \<Rightarrow>
          (case WriteBits ops (word_of_nat sz) 2 fw of
             (Inl e, fw1) \<Rightarrow> ((0, Some e), fw1)
           | (Inr _, fw1) \<Rightarrow>
               (let n = push_bit sz 1 in
                case WriteBits ops v (n * 8 - 2) fw1 of
                  (Inl e, fw2) \<Rightarrow> ((0, if abnormal e then Some e else None), fw2)
                | (Inr _, fw2) \<Rightarrow> ((n, None), fw2))))"

definition WriteFrame :: "'w snk_ops \<Rightarrow> FrameType \<Rightarrow> byte list \<Rightarrow> 'w bitWriter \<Rightarrow> (nat \<times> goerr option) \<times> 'w bitWriter" where
  "WriteFrame ops t p fw =
     (case WriteVarint ops (word_of_nat (length p)) fw of
        ((n, Some e), fw1) \<Rightarrow> ((n, Some e), fw1)
      | ((n, None), fw1) \<Rightarrow>
          (case WriteByte ops t fw1 of
             (Inl e, fw2) \<Rightarrow> ((n, Some e), fw2)
           | (Inr _, fw2) \<Rightarrow>
               (case copyTo (Write ops) p fw2 of ((m, err), fw3) \<Rightarrow> ((n + m + 2, err), fw3))))"

section \<open>What is on the wire\<close>

text \<open>
  The encoding of an integer, from the draft: two bits for the length, then the value in the
  rest of 1, 2, 4 or 8 bytes. A frame is the length of the body, the type and the body.
\<close>

definition varint_class :: "u64 \<Rightarrow> nat" where
  "varint_class v = (if unat v < 2 ^ 6 then 0 else if unat v < 2 ^ 14 then 1 else if unat v < 2 ^ 30 then 2 else 3)"

definition varint_bits :: "u64 \<Rightarrow> bool list" where
  "varint_bits v = bits 2 (of_nat (varint_class v) :: u64) @ bits (8 * 2 ^ varint_class v - 2) v"

definition frame_bits :: "FrameType \<Rightarrow> byte list \<Rightarrow> bool list" where
  "frame_bits t p = varint_bits (word_of_nat (length p)) @ bits 8 t @ bytes_bits p"

lemma varint_class_le: "varint_class v \<le> 3"
  by (simp add: varint_class_def)

lemma varint_class_cases: "varint_class v \<in> {0, 1, 2, 3}"
  by (simp add: varint_class_def)

lemma length_varint_bits: "length (varint_bits v) = 8 * 2 ^ varint_class v"
  using varint_class_cases [of v] by (auto simp: varint_bits_def)

lemma length_frame_bits: "length (frame_bits t p) mod 8 = 0"
  by (simp add: frame_bits_def length_varint_bits)

lemma varintSize_class:
  "varintSize v = (if unat v < 2 ^ 62 then Some (varint_class v) else None)"
  by (simp add: varintSize_def varint_class_def word_le_nat_alt not_le)

lemma varint_fits: "unat v < 2 ^ 62 \<Longrightarrow> take_bit (8 * 2 ^ varint_class v - 2) v = v"
  by (simp add: take_bit_eq_self_unat_iff varint_class_def)

lemma varint_class_fits: "take_bit 2 (word_of_nat (varint_class v) :: u64) = word_of_nat (varint_class v)"
  using varint_class_cases [of v] by (auto simp: take_bit_eq_mod)


context reliable_sink
begin

lemma WriteVarint_spec:
  assumes "unat v < 2 ^ 62" "wsavedBits fw < 8"
  shows "\<exists>fw'. WriteVarint ops v fw = ((2 ^ varint_class v, None), fw') \<and> wsavedBits fw' < 8 \<and>
    wbits out fw' = wbits out fw @ varint_bits v"
proof -
  let ?k = "varint_class v"
  have len: "push_bit ?k 1 * 8 - 2 = 8 * 2 ^ ?k - (2 :: nat)" "8 * 2 ^ ?k - 2 \<le> (64 :: nat)"
    using varint_class_cases [of v] by (auto simp: push_bit_eq_mult)
  from WriteBits_produces [OF _ varint_class_fits, of v] assms(2) obtain fw1 where 1:
    "WriteBits ops (word_of_nat ?k) 2 fw = (Inr (), fw1)" "wsavedBits fw1 < 8"
    "wbits out fw1 = wbits out fw @ bits 2 (word_of_nat ?k :: u64)" by (auto elim: producesE)
  from WriteBits_produces [OF len(2) varint_fits [OF assms(1)]] 1(2) obtain fw2 where
    "WriteBits ops v (8 * 2 ^ ?k - 2) fw1 = (Inr (), fw2)" "wsavedBits fw2 < 8"
    "wbits out fw2 = wbits out fw1 @ bits (8 * 2 ^ ?k - 2) v" by (rule producesE)
  with 1 assms(1) len(1) show ?thesis
    by (simp add: WriteVarint_def varintSize_class varint_bits_def push_bit_eq_mult Let_def)
qed

lemma WriteFrame_spec:
  assumes "length p < 2 ^ 62" "wsavedBits fw < 8"
  shows "\<exists>fw'. WriteFrame ops t p fw =
      ((2 ^ varint_class (word_of_nat (length p)) + length p + 2, None), fw') \<and> wsavedBits fw' < 8 \<and>
    wbits out fw' = wbits out fw @ frame_bits t p"
proof -
  let ?n = "word_of_nat (length p) :: u64"
  have "unat ?n < 2 ^ 62" using assms(1) by (simp add: unat_of_nat)
  from WriteVarint_spec [OF this assms(2)] obtain fw1 where 1:
    "WriteVarint ops ?n fw = ((2 ^ varint_class ?n, None), fw1)" "wsavedBits fw1 < 8"
    "wbits out fw1 = wbits out fw @ varint_bits ?n" by blast
  from WriteByte_produces 1(2) obtain fw2 where 2:
    "WriteByte ops t fw1 = (Inr (), fw2)" "wsavedBits fw2 < 8" "wbits out fw2 = wbits out fw1 @ bits 8 t"
    by (rule producesE)
  from copyTo_spec [OF 2(2), of p] 1 2 show ?thesis
    by (auto simp: WriteFrame_def frame_bits_def)
qed

text \<open>A writer that stands at a byte boundary has written whole bytes after a frame.\<close>

lemma WriteFrame_bytes:
  assumes "length p < 2 ^ 62" "wsavedBits fw = 0"
  obtains n fw' where "WriteFrame ops t p fw = ((n, None), fw')" "wsavedBits fw' = 0"
    "out (writer fw') = out (writer fw) @ bits_bytes (frame_bits t p)"
    "bytes_bits (bits_bytes (frame_bits t p)) = frame_bits t p"
proof -
  from WriteFrame_spec [OF assms(1), of fw t] assms(2) obtain n fw' where
    w: "WriteFrame ops t p fw = ((n, None), fw')" "wsavedBits fw' < 8"
    "wbits out fw' = wbits out fw @ frame_bits t p" by auto
  from aligned_output [OF w(3,2) assms(2) length_frame_bits] w(1) show thesis by (auto intro: that)
qed

end

context byte_source
begin

lemma ReadVarint_consumes:
  assumes "unat v < 2 ^ 62"
  shows "consumes content fin ok (ReadVarint ops) (varint_bits v) v"
proof -
  let ?k = "varint_class v"
  have k: "push_bit (unat (word_of_nat ?k :: u64)) 8 - 2 = 8 * 2 ^ ?k - (2 :: nat)" "8 * 2 ^ ?k - 2 \<le> (64 :: nat)"
    using varint_class_cases [of v] by (auto simp: push_bit_eq_mult)
  have "consumes content fin ok (ReadBits ops 2) (bits 2 (word_of_nat ?k :: u64)) (word_of_nat ?k)"
    by (rule ReadBits_value_consumes) (simp_all add: varint_class_fits)
  moreover have "consumes content fin ok (ReadBits ops (8 * 2 ^ ?k - 2)) (bits (8 * 2 ^ ?k - 2) v) v"
    using k(2) varint_fits [OF assms] by (rule ReadBits_value_consumes)
  ultimately show ?thesis
    unfolding ReadVarint_def varint_bits_def by (intro consumes_bnd) (simp only: k)+
qed

text \<open>
  The reader of a frame's body, with the stream's reader behind it: \<open>body_bytes\<close> is what is
  left of the body, \<open>rest\<close> what follows the frame and \<open>F\<close> how the stream ends.
\<close>

end

definition stream_bytes :: "('r \<Rightarrow> byte list) \<Rightarrow> 'r bitReader \<Rightarrow> byte list" where
  "stream_bytes content br = bits_bytes (rbits content br)"

definition body_bytes :: "('r \<Rightarrow> byte list) \<Rightarrow> 'r body \<Rightarrow> byte list" where
  "body_bytes content r = bits_bytes (rbits (lim_content (stream_bytes content)) r)"

definition body_fin :: "('r \<Rightarrow> byte list) \<Rightarrow> ('r \<Rightarrow> goerr) \<Rightarrow> 'r body \<Rightarrow> goerr" where
  "body_fin content fin r = lim_fin (stream_bytes content) (\<lambda>br. fin (reader br)) (reader r)"

definition limit_ok :: "('r \<Rightarrow> byte list) \<Rightarrow> ('r \<Rightarrow> goerr) \<Rightarrow> ('r \<Rightarrow> bool) \<Rightarrow> bool list \<Rightarrow> goerr \<Rightarrow>
    'r bitReader limitedReader \<Rightarrow> bool" where
  "limit_ok content fin ok rest F l \<longleftrightarrow>
     (rok ok (limR l) \<and> tail_bits (rbits content (limR l)) = tail_bits rest) \<and>
     drop (nat (limN l)) (stream_bytes content (limR l)) = bits_bytes rest \<and> fin (reader (limR l)) = F"

definition body_ok :: "('r \<Rightarrow> byte list) \<Rightarrow> ('r \<Rightarrow> goerr) \<Rightarrow> ('r \<Rightarrow> bool) \<Rightarrow> bool list \<Rightarrow> goerr \<Rightarrow> 'r body \<Rightarrow> bool" where
  "body_ok content fin ok rest F r \<longleftrightarrow> rok (limit_ok content fin ok rest F) r \<and>
     tail_bits (rbits (lim_content (stream_bytes content)) r) = [] \<and> body_fin content fin r = EOF"

lemma body_ok_bits:
  "body_ok content fin ok rest F r \<Longrightarrow> rbits (lim_content (stream_bytes content)) r = bytes_bits (body_bytes content r)"
  using bytes_and_tail_bits [of "rbits (lim_content (stream_bytes content)) r"]
  by (simp add: body_ok_def body_bytes_def)

lemma tail_bits_bytes [simp]: "tail_bits (bytes_bits p) = []"
  by (simp add: tail_bits_def)

context byte_source
begin

lemma limit_source:
  "byte_source (body_ops ops) (lim_content (stream_bytes content))
     (lim_fin (stream_bytes content) (\<lambda>br. fin (reader br))) (limit_ok content fin ok rest F)"
  using byte_source.lim_source [OF br_source, of "tail_bits rest" "bits_bytes rest" F]
  by (simp add: limit_ok_def [abs_def] stream_bytes_def [abs_def])

lemma body_source:
  "byte_source (br_ops (body_ops ops)) (body_bytes content) (body_fin content fin) (body_ok content fin ok rest F)"
proof -
  note laws = byte_source.br_source [OF limit_source [where rest = rest and F = F], of "[]"]
  show ?thesis
  proof (unfold_locales, goal_cases)
    case (1 rb r b bs)
    then show ?case using byte_source.source_read_byte_Cons [OF laws 1(1), of r b bs]
      by (auto simp: body_ok_def body_bytes_def body_fin_def)
  next
    case (2 rb r)
    then show ?case using byte_source.source_read_byte_Nil [OF laws 2(1), of r]
      by (auto simp: body_ok_def body_bytes_def body_fin_def)
  next
    case (3 r n)
    then have ok: "rok (limit_ok content fin ok rest F) r \<and> tail_bits (rbits (lim_content (stream_bytes content)) r) = []"
      by (simp add: body_ok_def)
    from byte_source.source_read [OF laws ok 3(2), folded body_bytes_def body_fin_def]
    obtain k e r' where "srcRead (br_ops (body_ops ops)) n r = ((take k (body_bytes content r), e), r')"
      "k \<le> n" "k \<le> length (body_bytes content r)" "rok (limit_ok content fin ok rest F) r'"
      "tail_bits (rbits (lim_content (stream_bytes content)) r') = []"
      "body_bytes content r' = drop k (body_bytes content r)" "body_fin content fin r' = body_fin content fin r"
      "case e of None \<Rightarrow> 0 < k | Some x \<Rightarrow> x = body_fin content fin r \<and> k = length (body_bytes content r) \<and> k < n"
      by blast
    with 3(1) show ?case
      by (intro exI [of _ k] exI [of _ e] exI [of _ r']) (simp add: body_ok_def)
  qed
qed

text \<open>Whatever any reader consumes, the reader of a body consumes of its body.\<close>

lemma body_consumes:
  assumes m: "\<And>content fin ok. byte_source (body_ops ops) content fin ok \<Longrightarrow> consumes content fin ok m bs x"
    and r: "body_ok content fin ok rest F r" "bytes_bits (body_bytes content r) = bs @ bytes_bits p"
  obtains r' where "m r = (Inr x, r')" "body_ok content fin ok rest F r'" "body_bytes content r' = p"
proof -
  have "rbits (lim_content (stream_bytes content)) r = bs @ bytes_bits p"
    using body_ok_bits [OF r(1)] r(2) by simp
  moreover have "rok (limit_ok content fin ok rest F) r" using r(1) by (simp add: body_ok_def)
  ultimately obtain r' where "m r = (Inr x, r')" "rok (limit_ok content fin ok rest F) r'"
    "rbits (lim_content (stream_bytes content)) r' = bytes_bits p" "body_fin content fin r' = body_fin content fin r"
    unfolding body_fin_def using consumesE [OF m [OF limit_source]] by metis
  with r(1) that show thesis by (simp add: body_ok_def body_bytes_def)
qed

lemma body_ok_end:
  assumes "body_ok content fin ok rest F r" "body_bytes content r = []"
  shows "rok ok (unlimited r)" "rbits content (unlimited r) = rest" "fin (reader (unlimited r)) = F"
proof -
  have "lim_content (stream_bytes content) (reader r) = []"
    using body_ok_bits [OF assms(1)] assms(2) by (simp add: rbits_def)
  moreover have "limit_ok content fin ok rest F (reader r)" using assms(1) by (simp add: body_ok_def rok_def)
  ultimately show "rok ok (unlimited r)" "rbits content (unlimited r) = rest" "fin (reader (unlimited r)) = F"
    using value_ok_end [of "reader r" rest F]
    by (simp_all add: unlimited_def limit_ok_def stream_bytes_def [abs_def])
qed

lemma body_ok_Limited:
  assumes "rok ok fr" "rbits content fr = bytes_bits p @ rest" "fin (reader fr) = F" "length p < 2 ^ 62"
  shows "body_ok content fin ok rest F (Limited (word_of_nat (length p)) fr)"
    and "body_bytes content (Limited (word_of_nat (length p)) fr) = p"
proof -
  have n: "sint (word_of_nat (length p) :: u64) = int (length p)"
    using assms(4) by (simp add: signed_of_nat signed_take_bit_int_eq_self)
  note st = value_ok_start [OF assms(1-3)]
  show "body_ok content fin ok rest F (Limited (word_of_nat (length p)) fr)"
    "body_bytes content (Limited (word_of_nat (length p)) fr) = p"
    using st n by (simp_all add: Limited_def NewBitReader_def rok_def rbits_def body_ok_def body_bytes_def
        body_fin_def limit_ok_def stream_bytes_def [abs_def])
qed

lemma ReadFrame_spec:
  assumes "rok ok fr" "rbits content fr = frame_bits t p @ rest" "length p < 2 ^ 62"
  obtains r fr' where "ReadFrame ops fr = (Inr (t, r), fr')"
    "body_ok content fin ok rest (fin (reader fr)) r" "body_bytes content r = p"
proof -
  let ?n = "word_of_nat (length p) :: u64"
  have "unat ?n < 2 ^ 62" using assms(3) by (simp add: unat_of_nat)
  from ReadVarint_consumes [OF this] assms(1,2) obtain fr1 where 1:
    "ReadVarint ops fr = (Inr ?n, fr1)" "rok ok fr1" "rbits content fr1 = bits 8 t @ bytes_bits p @ rest"
    "fin (reader fr1) = fin (reader fr)"
    using that by (auto simp: frame_bits_def elim!: consumesE)
  from ReadByte_spec [OF 1(2)] 1(3) obtain fr2 where
    "ReadByte ops fr1 = (Inr t, fr2)" "rok ok fr2" "rbits content fr2 = bytes_bits p @ rest"
    "fin (reader fr2) = fin (reader fr1)"
    by (auto simp: take_bit_length_eq [where 'a = 8, simplified])
  with 1 body_ok_Limited [of fr2 p rest "fin (reader fr)"] assms(3) that show thesis
    by (simp add: ReadFrame_def)
qed

lemma copyDiscard_spec:
  "ok r \<Longrightarrow> fin r = EOF \<Longrightarrow> \<exists>r'. copyDiscard ops r = Some (None, r') \<and> ok r' \<and> content r' = [] \<and> fin r' = EOF"
proof (induction "length (content r)" arbitrary: r rule: less_induct)
  case less
  from source_read [OF less.prems(1), of 8192] obtain k e r' where r:
    "srcRead ops 8192 r = ((take k (content r), e), r')" "k \<le> length (content r)" "ok r'"
    "content r' = drop k (content r)" "fin r' = EOF"
    "case e of None \<Rightarrow> 0 < k | Some x \<Rightarrow> x = EOF \<and> k = length (content r)"
    unfolding less.prems(2) by (metis (no_types, lifting) option.case_eq_if zero_less_numeral)
  show ?case
  proof (cases e)
    case None
    with less.hyps [of r'] r show ?thesis by (simp add: copyDiscard.simps [of ops r])
  next
    case (Some x)
    with r show ?thesis by (simp add: copyDiscard.simps [of ops r])
  qed
qed

lemma CheckForEOF_end:
  assumes "rok ok fr" "rbits content fr = []" "fin (reader fr) = EOF"
  obtains fr' where "CheckForEOF ops fr = (None, fr')" "rok ok fr'" "rbits content fr' = []" "fin (reader fr') = EOF"
proof -
  from byte_source.source_read [OF br_source [of "[]"], of fr 1] assms obtain e fr' where
    "Read ops 1 fr = (([], e), fr')" "rok ok fr'" "tail_bits (rbits content fr') = []"
    "bits_bytes (rbits content fr') = []" "fin (reader fr') = EOF" "e = None \<or> e = Some EOF"
    by (auto simp: br_ops_def tail_bits_def split: option.splits)
  with that bytes_and_tail_bits [of "rbits content fr'"] show thesis
    by (fastforce simp: CheckForEOF_def)
qed

lemma ReadFull_body:
  assumes "body_ok content fin ok rest F r"
  obtains r' where "ReadFull (br_ops (body_ops ops)) (length (body_bytes content r)) r = ((body_bytes content r, None), r')"
    "body_ok content fin ok rest F r'" "body_bytes content r' = []"
  by (rule byte_source.ReadFull_spec [OF body_source assms, of "length (body_bytes content r)"]) (simp add: that)

lemma CheckForEOF_body:
  assumes "body_ok content fin ok rest F r" "body_bytes content r = []"
  obtains r' where "CheckForEOF (body_ops ops) r = (None, r')" "body_ok content fin ok rest F r'" "body_bytes content r' = []"
proof -
  have "rok (limit_ok content fin ok rest F) r" "rbits (lim_content (stream_bytes content)) r = []"
    "lim_fin (stream_bytes content) (\<lambda>br. fin (reader br)) (reader r) = EOF"
    using assms body_ok_bits [OF assms(1)] by (simp_all add: body_ok_def body_fin_def)
  from byte_source.CheckForEOF_end [OF limit_source this] that show thesis
    by (metis body_ok_def body_bytes_def body_fin_def bits_bytes_bytes_bits bytes_bits_Nil tail_bits_bytes)
qed

end

section \<open>Properties of frames\<close>

text \<open>C40: Variable length integers. A value below 2 to the 62nd is written in the fewest of 1, 2, 4 or 8
  bytes that hold it beside the length bits and read back by \<open>ReadVarint\<close>, at any alignment;
  a larger value is refused and nothing is written.\<close>

theorem varint_roundtrip:
  assumes "reliable_sink wops out" "byte_source rops content fin ok" "wsavedBits fw < 8"
    "rok ok fr" "unat v < 2 ^ 62 \<longrightarrow> rbits content fr = varint_bits v @ rest"
  shows "if unat v < 2 ^ 62 then
      (\<exists>n fw' fr'. WriteVarint wops v fw = ((n, None), fw') \<and> wbits out fw' = wbits out fw @ varint_bits v \<and>
         length (varint_bits v) = 8 * n \<and> n \<in> {1, 2, 4, 8} \<and> unat v < 2 ^ (8 * n - 2) \<and>
         (n = 1 \<or> 2 ^ (8 * (n div 2) - 2) \<le> unat v) \<and>
         ReadVarint rops fr = (Inr v, fr') \<and> rbits content fr' = rest)
    else WriteVarint wops v fw = ((0, Some ErrValueTooLarge), fw)"
proof (cases "unat v < 2 ^ 62")
  case True
  from reliable_sink.WriteVarint_spec [OF assms(1) True assms(3)] obtain fw' where
    "WriteVarint wops v fw = ((2 ^ varint_class v, None), fw')" "wbits out fw' = wbits out fw @ varint_bits v"
    by blast
  moreover from byte_source.ReadVarint_consumes [OF assms(2) True] assms(4) assms(5) [rule_format, OF True]
  obtain fr' where "ReadVarint rops fr = (Inr v, fr')" "rbits content fr' = rest" by (rule consumesE)
  moreover have "unat v < 2 ^ (8 * 2 ^ varint_class v - 2)" "2 ^ varint_class v \<in> {1, 2, 4, 8 :: nat}"
    "2 ^ varint_class v = (1 :: nat) \<or> 2 ^ (8 * (2 ^ varint_class v div 2) - 2) \<le> unat v"
    using True by (auto simp: varint_class_def)
  ultimately show ?thesis using True length_varint_bits [of v] by auto
qed (simp add: WriteVarint_def varintSize_class)

theorem varint_roundtrip_witness:
  "\<exists>n fw' fr'. WriteVarint buf_ops 300 (NewBitWriter []) = ((n, None), fw') \<and> n \<in> {1, 2, 4, 8} \<and>
     ReadVarint source_ops (NewBitReader ([0x41, 0x2c, 7], EOF)) = (Inr 300, fr') \<and> rbits fst fr' = bits 8 (7 :: byte)"
proof -
  have "varint_class 300 = 1" by (simp add: varint_class_def)
  then have "varint_bits 300 = bits 8 (0x41 :: byte) @ bits 8 (0x2c :: byte)"
    by (simp add: varint_bits_def bits_def upt_conv_Cons)
  then have "rbits fst (NewBitReader ([0x41, 0x2c, 7], EOF)) = varint_bits 300 @ bits 8 (7 :: byte)"
    by (simp add: NewBitReader_def rbits_def)
  then show ?thesis
    using varint_roundtrip [OF buf.reliable_sink_axioms src.byte_source_axioms, where fw = "NewBitWriter []"
        and fr = "NewBitReader ([0x41, 0x2c, 7], EOF)" and v = 300 and rest = "bits 8 (7 :: byte)"]
    by (auto simp: NewBitWriter_def NewBitReader_def rok_def)
qed

text \<open>C33: A frame survives the trip. What \<open>WriteFrame\<close> puts on a stream \<open>ReadFrame\<close> splits off again: it
  returns the type and a reader that delivers exactly the body and then ends, and once the body
  has been read the stream stands at the byte behind the frame.\<close>

theorem frame_roundtrip:
  assumes "reliable_sink wops out" "byte_source rops content fin ok" "length p < 2 ^ 62" "wsavedBits fw = 0"
  shows "\<exists>n fw' bs. WriteFrame wops t p fw = ((n, None), fw') \<and> wsavedBits fw' = 0 \<and>
    out (writer fw') = out (writer fw) @ bs \<and>
    (\<forall>fr rest. rok ok fr \<and> rbits content fr = bytes_bits bs @ rest \<longrightarrow>
      (\<exists>r fr' r' r''. ReadFrame rops fr = (Inr (t, r), fr') \<and>
        ReadFull (br_ops (body_ops rops)) (length p) r = ((p, None), r') \<and>
        CheckForEOF (body_ops rops) r' = (None, r'') \<and> rbits content (unlimited r'') = rest))"
proof -
  from reliable_sink.WriteFrame_bytes [OF assms(1,3,4)] obtain n fw' where w:
    "WriteFrame wops t p fw = ((n, None), fw')" "wsavedBits fw' = 0"
    "out (writer fw') = out (writer fw) @ bits_bytes (frame_bits t p)"
    "bytes_bits (bits_bytes (frame_bits t p)) = frame_bits t p" by blast
  have "\<exists>r fr' r' r''. ReadFrame rops fr = (Inr (t, r), fr') \<and>
      ReadFull (br_ops (body_ops rops)) (length p) r = ((p, None), r') \<and>
      CheckForEOF (body_ops rops) r' = (None, r'') \<and> rbits content (unlimited r'') = rest"
    if fr: "rok ok fr" "rbits content fr = frame_bits t p @ rest" for fr rest
  proof -
    from byte_source.ReadFrame_spec [OF assms(2) fr assms(3)] obtain r fr' where 1:
      "ReadFrame rops fr = (Inr (t, r), fr')" "body_ok content fin ok rest (fin (reader fr)) r" "body_bytes content r = p"
      by blast
    from byte_source.ReadFull_body [OF assms(2) 1(2)] 1(3) obtain r' where 2:
      "ReadFull (br_ops (body_ops rops)) (length p) r = ((p, None), r')"
      "body_ok content fin ok rest (fin (reader fr)) r'" "body_bytes content r' = []" by blast
    from byte_source.CheckForEOF_body [OF assms(2) 2(2,3)] obtain r'' where
      "CheckForEOF (body_ops rops) r' = (None, r'')" "body_ok content fin ok rest (fin (reader fr)) r''"
      "body_bytes content r'' = []" by blast
    with 1 2 byte_source.body_ok_end(2) [OF assms(2)] show ?thesis by blast
  qed
  with w show ?thesis by metis
qed

theorem frame_roundtrip_witness:
  "\<exists>n fw' fr r fr' r'. WriteFrame buf_ops frameData [1, 2] (NewBitWriter []) = ((n, None), fw') \<and>
     ReadFrame source_ops (NewBitReader (writer fw' @ [9], EOF)) = (Inr (frameData, r), fr') \<and>
     ReadFull (br_ops (body_ops source_ops)) 2 r = (([1, 2], None), r')"
proof -
  have w: "wsavedBits (NewBitWriter []) = 0" "writer (NewBitWriter []) = []" by (simp_all add: NewBitWriter_def)
  have p: "length [1, 2 :: byte] < 2 ^ 62" by simp
  from frame_roundtrip [OF buf.reliable_sink_axioms src.byte_source_axioms p w(1), of frameData]
  obtain n fw' bs where f: "WriteFrame buf_ops frameData [1, 2] (NewBitWriter []) = ((n, None), fw')" "writer fw' = writer (NewBitWriter []) @ bs"
    "\<forall>fr rest. rok (\<lambda>_. True) fr \<and> rbits fst fr = bytes_bits bs @ rest \<longrightarrow>
      (\<exists>r fr' r' r''. ReadFrame source_ops fr = (Inr (frameData, r), fr') \<and>
        ReadFull (br_ops (body_ops source_ops)) (length [1, 2 :: byte]) r = (([1, 2], None), r') \<and>
        CheckForEOF (body_ops source_ops) r' = (None, r'') \<and> rbits fst (unlimited r'') = rest)"
    by blast
  let ?fr = "NewBitReader (writer fw' @ [9], EOF)"
  have "rok (\<lambda>_. True) ?fr \<and> rbits fst ?fr = bytes_bits bs @ bits 8 (9 :: byte)"
    using f(2) w(2) by (simp add: NewBitReader_def rok_def rbits_def)
  with f(3) have "\<exists>r fr' r' r''. ReadFrame source_ops ?fr = (Inr (frameData, r), fr') \<and>
        ReadFull (br_ops (body_ops source_ops)) (length [1, 2 :: byte]) r = (([1, 2], None), r')" by blast
  with f(1) show ?thesis by (auto simp: numeral_2_eq_2)
qed

text \<open>\<open>WriteFrame\<close> reports one byte more than it wrote: it adds two for the frame's type, which takes one.\<close>

theorem WriteFrame_count:
  assumes "reliable_sink ops out" "length p < 2 ^ 62" "wsavedBits fw = 0"
  shows "\<exists>n fw'. WriteFrame ops t p fw = ((n, None), fw') \<and>
    length (out (writer fw')) = length (out (writer fw)) + n - 1"
proof -
  from reliable_sink.WriteFrame_spec [OF assms(1,2), of fw t] assms(3) obtain fw' where
    w: "WriteFrame ops t p fw = ((2 ^ varint_class (word_of_nat (length p)) + length p + 2, None), fw')"
    "wsavedBits fw' < 8" "wbits out fw' = wbits out fw @ frame_bits t p" by auto
  have "length (bits_bytes (frame_bits t p)) = 2 ^ varint_class (word_of_nat (length p)) + length p + 1"
    by (simp add: length_bits_bytes frame_bits_def length_varint_bits)
  with aligned_output [OF w(3,2) assms(3) length_frame_bits] w(1) show ?thesis by simp
qed

theorem WriteFrame_count_witness:
  "\<exists>n fw'. WriteFrame buf_ops frameData [1] (NewBitWriter []) = ((n, None), fw') \<and> length (writer fw') = n - 1"
  using WriteFrame_count [OF buf.reliable_sink_axioms, of "[1]" "NewBitWriter []" frameData]
  by (simp add: NewBitWriter_def)

end
