(* ===== verification/FrameProgress.thy ===== *)
theory FrameProgress
  imports Frame Progress
begin

text \<open>
  Whatever is done to the reader of a frame's body, the stream's reader behind it stays usable
  and never gets longer. With this the loops over frames are shown to return.
\<close>

section \<open>The stream behind a body\<close>

definition body_within :: "('r \<Rightarrow> byte list) \<Rightarrow> ('r \<Rightarrow> goerr) \<Rightarrow> ('r \<Rightarrow> bool) \<Rightarrow> nat \<Rightarrow> 'r body \<Rightarrow> bool" where
  "body_within content fin ok m r \<longleftrightarrow> (\<exists>rest F n. 8 * n + length rest \<le> m \<and>
     rok (\<lambda>l. limit_ok content fin ok rest F l \<and> length (lim_content (stream_bytes content) l) \<le> n) r)"

lemma body_withinE:
  assumes "body_within content fin ok m r"
  obtains rest F n where "8 * n + length rest \<le> m"
    "rok (\<lambda>l. limit_ok content fin ok rest F l \<and> length (lim_content (stream_bytes content) l) \<le> n) r"
  using assms by (auto simp: body_within_def)

lemma length_stream_bytes: "length (rbits content br) = 8 * length (stream_bytes content br) + length (tail_bits (rbits content br))"
  using arg_cong [OF bytes_and_tail_bits [of "rbits content br"], of length] by (simp add: stream_bytes_def)

lemma body_within_stream:
  assumes "body_within content fin ok m r"
  shows "rok ok (unlimited r) \<and> length (rbits content (unlimited r)) \<le> m"
proof -
  let ?l = "reader r"
  from assms obtain rest F n where n: "8 * n + length rest \<le> m" "limit_ok content fin ok rest F ?l"
    "length (lim_content (stream_bytes content) ?l) \<le> n"
    by (auto simp: body_within_def rok_def)
  have "stream_bytes content (limR ?l) = lim_content (stream_bytes content) ?l @ bits_bytes rest"
    using n(2) append_take_drop_id [of "nat (limN ?l)" "stream_bytes content (limR ?l)"]
    by (simp add: limit_ok_def lim_content_def)
  then have "length (stream_bytes content (limR ?l)) \<le> n + length (bits_bytes rest)" using n(3) by simp
  moreover have "length rest = 8 * length (bits_bytes rest) + length (tail_bits rest)"
    using arg_cong [OF bytes_and_tail_bits [of rest], of length] by simp
  moreover have "tail_bits (rbits content (limR ?l)) = tail_bits rest" "rok ok (limR ?l)"
    using n(2) by (simp_all add: limit_ok_def)
  ultimately show ?thesis
    using n(1) length_stream_bytes [of content "limR ?l"] by (simp add: unlimited_def)
qed

text \<open>The reader of a body is a source that stays within the stream.\<close>

definition body_range :: "('r \<Rightarrow> byte list) \<Rightarrow> ('r \<Rightarrow> goerr) \<Rightarrow> ('r \<Rightarrow> bool) \<Rightarrow> bool list \<Rightarrow> goerr \<Rightarrow> nat \<Rightarrow> bool list \<Rightarrow> 'r body \<Rightarrow> bool" where
  "body_range content fin ok rest F n left r \<longleftrightarrow>
     rok (\<lambda>l. limit_ok content fin ok rest F l \<and> length (lim_content (stream_bytes content) l) \<le> n) r \<and>
     tail_bits (rbits (lim_content (stream_bytes content)) r) = left"

context byte_source
begin

lemma body_within_Limited:
  assumes "rok ok fr"
  shows "body_within content fin ok (length (rbits content fr)) (Limited n fr)"
proof -
  let ?k = "nat (sint n)" and ?s = "stream_bytes content fr"
  let ?rest = "bytes_bits (drop ?k ?s) @ tail_bits (rbits content fr)"
  have "length (tail_bits (rbits content fr)) < 8" by (simp add: tail_bits_def minus_mult_div_eq_mod [symmetric])
  then have t: "bits_bytes (tail_bits (rbits content fr)) = []" "tail_bits ?rest = tail_bits (rbits content fr)"
    using tail_bits_drop [of "length (drop ?k ?s)" ?rest] by (simp_all add: tail_bits_def [of "tail_bits _"])
  have "8 * length (take ?k ?s) + length ?rest = length (rbits content fr)"
    by (simp add: length_stream_bytes min_def) arith
  then show ?thesis
    unfolding body_within_def
    by (intro exI [of _ ?rest] exI [of _ "fin (reader fr)"] exI [of _ "length (take ?k ?s)"])
      (use assms t in \<open>simp add: Limited_def NewBitReader_def rok_def limit_ok_def lim_content_def bits_bytes_bytes_append\<close>)
qed

lemmas bounded_limit_source = byte_source.bounded_source [OF limit_source]

text \<open>Any operation that only takes bits can be used on a body.\<close>

lemma body_within_shrinks:
  assumes m: "\<And>content fin ok. byte_source (body_ops ops) content fin ok \<Longrightarrow> shrinks content ok m"
    and r: "body_within content fin ok k r"
  shows "body_within content fin ok k (snd (m r))"
proof -
  from r obtain rest F n where n: "8 * n + length rest \<le> k"
    "rok (\<lambda>l. limit_ok content fin ok rest F l \<and> length (lim_content (stream_bytes content) l) \<le> n) r"
    by (rule body_withinE)
  from m [OF bounded_limit_source] n(2)
  have "rok (\<lambda>l. limit_ok content fin ok rest F l \<and> length (lim_content (stream_bytes content) l) \<le> n) (snd (m r))"
    by (simp add: shrinks_def)
  with n(1) show ?thesis unfolding body_within_def by blast
qed

lemma body_range_source:
  "byte_source (br_ops (body_ops ops)) (\<lambda>r. bits_bytes (rbits (lim_content (stream_bytes content)) r))
     (body_fin content fin) (body_range content fin ok rest F n left)"
  using byte_source.br_source [OF bounded_limit_source [where rest = rest and F = F and n = n], of left]
  by (simp add: body_range_def [abs_def] body_fin_def [abs_def])

lemma ReadVarint_shrinks [shrinking]: "shrinks content ok (ReadVarint ops)"
proof -
  have "shrinks content ok (\<lambda>br. ReadBits ops (push_bit (unat len) 8 - 2) br)" if "unat len < 4" for len :: u64
  proof -
    have "unat len = 0 \<or> unat len = 1 \<or> unat len = 2 \<or> unat len = 3" using that by auto
    then show ?thesis by (auto intro!: ReadBits_shrinks)
  qed
  note small = this
  show ?thesis
    unfolding shrinks_def
  proof (intro allI impI)
    fix br assume br: "rok ok br"
    from ReadBits_spec [OF br, of 2] obtain x br1 where 1: "ReadBits ops 2 br = (x, br1)"
      "x = Inr (unbits (take 2 (rbits content br))) \<or> (\<exists>e. x = Inl e)" by (auto split: if_splits)
    note s1 = shrinksD [OF ReadBits_shrinks br 1(1)]
    show "rok ok (snd (ReadVarint ops br)) \<and> length (rbits content (snd (ReadVarint ops br))) \<le> length (rbits content br)"
    proof (cases x)
      case (Inr len)
      have "take_bit 2 (unbits (take 2 (rbits content br)) :: u64) = unbits (take 2 (rbits content br))"
        by (rule take_bit_unbits) simp_all
      then have "unat (unbits (take 2 (rbits content br)) :: u64) < 4" by (simp add: take_bit_eq_self_unat_iff)
      with Inr 1(2) small [of len] s1 1(1) show ?thesis by (auto simp: ReadVarint_def shrinks_def intro: order_trans)
    qed (use 1 s1 in \<open>simp add: ReadVarint_def\<close>)
  qed
qed

lemma ReadByte_shrinks [shrinking]: "shrinks content ok (ReadByte ops)"
  unfolding shrinks_def using ReadByte_spec by (fastforce split: if_splits)

lemma ReadFrame_takes:
  assumes "rok ok fr" "ReadFrame ops fr = (x, fr')"
  shows "case x of Inl _ \<Rightarrow> rok ok fr' \<and> length (rbits content fr') \<le> length (rbits content fr)
    | Inr (t, r) \<Rightarrow> \<exists>m < length (rbits content fr). body_within content fin ok m r"
proof -
  obtain y fr1 where 1: "ReadVarint ops fr = (y, fr1)" by fastforce
  note s1 = shrinksD [OF ReadVarint_shrinks assms(1) 1]
  show ?thesis
  proof (cases y)
    case Inl
    with 1 s1 assms(2) show ?thesis by (auto simp: ReadFrame_def)
  next
    case (Inr len)
    obtain z fr2 where 2: "ReadByte ops fr1 = (z, fr2)" by fastforce
    note s2 = shrinksD [OF ReadByte_shrinks s1(1) 2]
    show ?thesis
    proof (cases z)
      case Inl
      with \<open>y = Inr len\<close> 1 2 s1 s2 assms(2) show ?thesis by (auto simp: ReadFrame_def)
    next
      case (Inr t)
      from ReadByte_spec [OF s1(1)] 2 Inr have "length (rbits content fr2) < length (rbits content fr1)"
        by (auto split: if_splits)
      with s1(2) have "length (rbits content fr2) < length (rbits content fr)" by simp
      with Inr \<open>y = Inr len\<close> 1 2 assms(2) body_within_Limited [OF s2(1), of len] show ?thesis
        by (auto simp: ReadFrame_def)
    qed
  qed
qed

lemma copyDiscard_returns: "ok r \<Longrightarrow> \<exists>e r'. copyDiscard ops r = Some (e, r') \<and> ok r'"
proof (induction "length (content r)" arbitrary: r rule: less_induct)
  case less
  from source_read [OF less.prems(1), of 8192] obtain k e r' where r:
    "srcRead ops 8192 r = ((take k (content r), e), r')" "k \<le> length (content r)" "ok r'"
    "content r' = drop k (content r)" "e = None \<Longrightarrow> 0 < k" by (auto split: option.splits)
  show ?case
  proof (cases e)
    case None
    with less.hyps [of r'] r show ?thesis by (simp add: copyDiscard.simps [of ops r])
  qed (use r in \<open>simp add: copyDiscard.simps [of ops r]\<close>)
qed

lemma body_within_range:
  assumes "body_within content fin ok m r"
  obtains rest F n left where "body_range content fin ok rest F n left r"
    "\<And>r'. body_range content fin ok rest F n left r' \<Longrightarrow> body_within content fin ok m r'"
proof -
  from assms obtain rest F n where "8 * n + length rest \<le> m"
    "rok (\<lambda>l. limit_ok content fin ok rest F l \<and> length (lim_content (stream_bytes content) l) \<le> n) r"
    by (rule body_withinE)
  then show thesis by (intro that) (auto simp: body_range_def body_within_def)
qed

lemma copyDiscard_body:
  assumes "body_within content fin ok m r"
  shows "\<exists>e r'. copyDiscard (br_ops (body_ops ops)) r = Some (e, r') \<and> body_within content fin ok m r'"
  using assms byte_source.copyDiscard_returns [OF body_range_source] by (metis body_within_range)

end

end
