(* ===== verification/Settings.thy ===== *)
theory Settings
  imports FrameProgress
begin

text \<open>
  The settings of a connection, \<open>src/settings.go\<close>: how they are written into the body of a
  SETTINGS frame, and how those of the peer are read and applied to the QPACK encoder of the
  connection. The peer's settings end where the body of the frame ends.
\<close>

section \<open>Configuration\<close>

record Config =
  DecoderTableCapacity :: u64
  ConcurrentDecoders :: "16 word"
  MaxConcurrentPushes :: u64
  TrackConnections :: bool
  InformationalResponses :: bool

type_synonym settingType = "16 word"

definition settingTableSize :: settingType where "settingTableSize = 1"
definition settingMaxHeaderListSize :: settingType where "settingMaxHeaderListSize = 6"
definition settingMaxQpackBlockedStreams :: settingType where "settingMaxQpackBlockedStreams = 7"

definition ErrSettingValue :: goerr where
  "ErrSettingValue = ErrOther ''setting value out of range''"

section \<open>Writing\<close>

text \<open>The error of the first \<open>WriteBits\<close> is overwritten by that of \<open>WriteVarint\<close>.\<close>

definition writeIntSetting :: "'w snk_ops \<Rightarrow> settingType \<Rightarrow> u64 \<Rightarrow> 'w bitWriter \<Rightarrow> (nat \<times> goerr option) \<times> 'w bitWriter" where
  "writeIntSetting ops s v fw =
     (case WriteVarint buf_ops v (NewBitWriter []) of
        ((_, Some e), _) \<Rightarrow> ((0, Some e), fw)
      | ((_, None), tmpfw) \<Rightarrow>
          (let buf = writer tmpfw in
           case WriteBits ops (ucast s) 16 fw of (x, fw1) \<Rightarrow>
             if (case x of Inl e \<Rightarrow> abnormal e | Inr _ \<Rightarrow> False) then ((0, Some (projl x)), fw1)
             else
               (case WriteVarint ops (word_of_nat (length buf)) fw1 of
                  ((n, Some e), fw2) \<Rightarrow> ((n + 2, Some e), fw2)
                | ((n, None), fw2) \<Rightarrow>
                    (case copyTo (Write ops) buf fw2 of ((m, err), fw3) \<Rightarrow> ((n + 2 + m, err), fw3)))))"

definition WriteTo :: "'w snk_ops \<Rightarrow> Config \<Rightarrow> 'w \<Rightarrow> (nat \<times> goerr option) \<times> 'w" where
  "WriteTo ops config w =
     (case writeIntSetting ops settingTableSize (DecoderTableCapacity config) (NewBitWriter w) of
        ((n, Some e), fw) \<Rightarrow> ((n, Some e), writer fw)
      | ((n, None), fw) \<Rightarrow>
          (case writeIntSetting ops settingMaxQpackBlockedStreams (ucast (ConcurrentDecoders config)) fw of
             ((m, err), fw') \<Rightarrow> ((n + m, err), writer fw')))"

section \<open>Reading\<close>

text \<open>The value of a setting that the code knows.\<close>

definition readSettingValue :: "'r src_ops \<Rightarrow> nat \<Rightarrow> (u64 \<Rightarrow> (QpackEncoder, unit) io) \<Rightarrow> QpackEncoder \<Rightarrow> 'r body \<Rightarrow>
    (goerr + unit) \<times> QpackEncoder \<times> 'r body" where
  "readSettingValue ops limit apply enc lr =
     (case ReadVarint (body_ops ops) lr of
        (Inl e, lr') \<Rightarrow> (Inl e, enc, lr')
      | (Inr n, lr') \<Rightarrow>
          if n \<ge> push_bit limit 1 then (Inl ErrSettingValue, enc, lr')
          else (case apply n enc of (x, enc') \<Rightarrow> (x, enc', lr')))"

text \<open>One turn of the loop; \<open>False\<close> leaves it at the end of the settings.\<close>

definition readSetting :: "'r src_ops \<Rightarrow> QpackEncoder \<Rightarrow> 'r bitReader \<Rightarrow>
    ((goerr + bool) \<times> QpackEncoder \<times> 'r bitReader) option" where
  "readSetting ops enc r =
     (case ReadBits ops 16 r of
        (Inl e, r1) \<Rightarrow> Some (if e = EOF then Inr False else Inl e, enc, r1)
      | (Inr s, r1) \<Rightarrow>
          (case ReadVarint ops r1 of
             (Inl e, r2) \<Rightarrow> Some (Inl e, enc, r2)
           | (Inr len, r2) \<Rightarrow>
               (let lr = Limited len r2; st = ucast s :: settingType;
                    known = (\<lambda>(x, enc', lr'). Some (map_sum id (\<lambda>_. True) x, enc', unlimited lr')) in
                if st = settingTableSize then known (readSettingValue ops 30 QpackSetCapacity enc lr)
                else if st = settingMaxQpackBlockedStreams then
                  known (readSettingValue ops 16 (\<lambda>n. SetMaxBlockedStreams (uint n)) enc lr)
                else
                  map_option (\<lambda>(err, lr'). (case err of Some e \<Rightarrow> Inl e | None \<Rightarrow> Inr True, enc, unlimited lr'))
                    (copyDiscard (br_ops (body_ops ops)) lr))))"

partial_function (option) readSettings :: "'r src_ops \<Rightarrow> QpackEncoder \<Rightarrow> 'r bitReader \<Rightarrow>
    (goerr option \<times> QpackEncoder \<times> 'r bitReader) option" where
  "readSettings ops enc r =
     Option.bind (readSetting ops enc r) (\<lambda>(x, enc', r').
       case x of
         Inl e \<Rightarrow> Some (Some e, enc', r')
       | Inr again \<Rightarrow> if again then readSettings ops enc' r' else Some (None, enc', r'))"

declare readSettings.simps [code]

section \<open>Settings on the wire\<close>

text \<open>A setting is an identifier, the length of its value and the value.\<close>

definition int_setting_bits :: "settingType \<Rightarrow> u64 \<Rightarrow> bool list" where
  "int_setting_bits s v = bits 16 s @ varint_bits (2 ^ varint_class v) @ varint_bits v"

definition setting_bits :: "settingType \<Rightarrow> byte list \<Rightarrow> bool list" where
  "setting_bits s p = bits 16 s @ varint_bits (word_of_nat (length p)) @ bytes_bits p"

definition settings_bits :: "Config \<Rightarrow> bool list" where
  "settings_bits config = int_setting_bits settingTableSize (DecoderTableCapacity config) @
     int_setting_bits settingMaxQpackBlockedStreams (ucast (ConcurrentDecoders config))"

lemma varint_length_fits: "unat (2 ^ varint_class v :: u64) < 2 ^ 62"
  using varint_class_cases [of v] by auto

lemma varint_class_length: "varint_class (2 ^ varint_class v) = 0"
  using varint_class_cases [of v] by (auto simp: varint_class_def [of "_ ^ _"] varint_class_def [of 1] varint_class_def [of 2])

lemma length_int_setting_bits: "length (int_setting_bits s v) = 8 * (3 + 2 ^ varint_class v)"
  by (simp add: int_setting_bits_def length_varint_bits varint_class_length)

lemma varint_bytes: "bytes_bits (bits_bytes (varint_bits v)) = varint_bits v"
  "length (bits_bytes (varint_bits v)) = 2 ^ varint_class v"
  using bytes_and_tail_bits [of "varint_bits v"] by (simp_all add: tail_bits_def length_bits_bytes length_varint_bits)

lemma decoders_value: "uint (ucast (d :: 16 word) :: u64) = uint d" "unat (ucast d :: u64) = unat d"
  "unat (ucast d :: u64) < 2 ^ 16"
proof -
  have "unat d < 2 ^ LENGTH(16)" by (rule unsigned_less)
  then have d: "unat d < 2 ^ 16" by simp
  then show v: "unat (ucast d :: u64) = unat d" by (simp add: unsigned_ucast_eq take_bit_nat_eq_self)
  then show "uint (ucast d :: u64) = uint d" by (metis uint_nat)
  show "unat (ucast d :: u64) < 2 ^ 16" using d v by simp
qed

lemma decoders_fit: "unat (ucast (d :: 16 word) :: u64) < 2 ^ 62"
  using decoders_value(3) [of d] by simp

lemma setting_type_value [simp]: "ucast (ucast (s :: settingType) :: u64) = s"
  by (rule bit_word_eqI) (simp add: bit_ucast_iff)

lemma WriteVarint_buf:
  assumes "unat v < 2 ^ 62"
  obtains tmpfw where "WriteVarint buf_ops v (NewBitWriter []) = ((2 ^ varint_class v, None), tmpfw)"
    "writer tmpfw = bits_bytes (varint_bits v)"
proof -
  from buf.WriteVarint_spec [OF assms, of "NewBitWriter []"] obtain tmpfw where
    w: "WriteVarint buf_ops v (NewBitWriter []) = ((2 ^ varint_class v, None), tmpfw)" "wsavedBits tmpfw < 8"
    "wbits (\<lambda>w. w) tmpfw = wbits (\<lambda>w. w) (NewBitWriter []) @ varint_bits v" by (auto simp: NewBitWriter_def)
  from aligned_output [OF w(3,2)] that [OF w(1)] show thesis
    by (simp add: NewBitWriter_def length_varint_bits)
qed

context reliable_sink
begin

lemma writeIntSetting_spec:
  assumes "unat v < 2 ^ 62" "wsavedBits fw < 8"
  obtains fw' where "writeIntSetting ops s v fw = ((3 + 2 ^ varint_class v, None), fw')" "wsavedBits fw' < 8"
    "wbits out fw' = wbits out fw @ int_setting_bits s v"
proof -
  let ?p = "bits_bytes (varint_bits v)" and ?k = "2 ^ varint_class v :: u64"
  from WriteVarint_buf [OF assms(1)] obtain tmpfw where t:
    "WriteVarint buf_ops v (NewBitWriter []) = ((2 ^ varint_class v, None), tmpfw)" "writer tmpfw = ?p" .
  have "produces out (WriteBits ops (ucast s) 16) (bits 16 s) ()"
    using WriteBits_produces [of 16 "ucast s"] by (simp add: bits_ucast take_bit_ucast)
  then obtain fw1 where 1: "WriteBits ops (ucast s) 16 fw = (Inr (), fw1)" "wsavedBits fw1 < 8"
    "wbits out fw1 = wbits out fw @ bits 16 s" using assms(2) by (rule producesE)
  from WriteVarint_spec [OF varint_length_fits 1(2), of v] obtain fw2 where 2:
    "WriteVarint ops ?k fw1 = ((1, None), fw2)" "wsavedBits fw2 < 8"
    "wbits out fw2 = wbits out fw1 @ varint_bits ?k" by (auto simp: varint_class_length)
  from copyTo_spec [OF 2(2), of ?p] obtain fw3 where
    "copyTo (Write ops) ?p fw2 = ((2 ^ varint_class v, None), fw3)" "wsavedBits fw3 < 8"
    "wbits out fw3 = wbits out fw2 @ varint_bits v" by (auto simp: varint_bytes)
  with t 1 2 that show thesis
    by (simp add: writeIntSetting_def varint_bytes int_setting_bits_def)
qed

lemma WriteTo_spec:
  assumes "unat (DecoderTableCapacity config) < 2 ^ 62"
  obtains n w' where "WriteTo ops config w = ((n, None), w')" "out w' = out w @ bits_bytes (settings_bits config)"
    "n = length (bits_bytes (settings_bits config))" "bytes_bits (bits_bytes (settings_bits config)) = settings_bits config"
proof -
  let ?c = "DecoderTableCapacity config" and ?d = "ucast (ConcurrentDecoders config) :: u64"
  have d: "unat ?d < 2 ^ 62" by (rule decoders_fit)
  obtain fw where 1: "writeIntSetting ops settingTableSize ?c (NewBitWriter w) = ((3 + 2 ^ varint_class ?c, None), fw)"
    "wsavedBits fw < 8" "wbits out fw = wbits out (NewBitWriter w) @ int_setting_bits settingTableSize ?c"
    using writeIntSetting_spec [OF assms, of "NewBitWriter w"] by (auto simp: NewBitWriter_def)
  obtain fw' where 2: "writeIntSetting ops settingMaxQpackBlockedStreams ?d fw = ((3 + 2 ^ varint_class ?d, None), fw')"
    "wsavedBits fw' < 8" "wbits out fw' = wbits out fw @ int_setting_bits settingMaxQpackBlockedStreams ?d"
    using writeIntSetting_spec [OF d 1(2)] by blast
  have "wbits out fw' = wbits out (NewBitWriter w) @ settings_bits config"
    using 1(3) 2(3) by (simp add: settings_bits_def)
  from aligned_output [OF this 2(2)] have "out (writer fw') = out w @ bits_bytes (settings_bits config)"
    "bytes_bits (bits_bytes (settings_bits config)) = settings_bits config"
    by (simp_all add: NewBitWriter_def settings_bits_def length_int_setting_bits)
  moreover have "length (bits_bytes (settings_bits config)) = 6 + 2 ^ varint_class ?c + 2 ^ varint_class ?d"
    by (simp add: length_bits_bytes settings_bits_def length_int_setting_bits)
  ultimately show thesis using that 1(1) 2(1) by (simp add: WriteTo_def)
qed

end

context byte_source
begin

lemma readSetting_start:
  assumes "rok ok r" "rbits content r = setting_bits s p @ rest" "length p < 2 ^ 62"
  obtains r1 r2 where "ReadBits ops 16 r = (Inr (ucast s), r1)"
    "ReadVarint ops r1 = (Inr (word_of_nat (length p)), r2)"
    "body_ok content fin ok rest (fin (reader r)) (Limited (word_of_nat (length p)) r2)"
    "body_bytes content (Limited (word_of_nat (length p)) r2) = p"
proof -
  have s: "take_bit 16 (ucast s :: u64) = ucast s" "bits 16 (ucast s :: u64) = bits 16 s"
    by (simp_all add: bits_ucast take_bit_ucast)
  from ReadBits_value_consumes [of 16 "ucast s"] assms(1) assms(2) s obtain r1 where 1:
    "ReadBits ops 16 r = (Inr (ucast s), r1)" "rok ok r1"
    "rbits content r1 = varint_bits (word_of_nat (length p)) @ bytes_bits p @ rest"
    "fin (reader r1) = fin (reader r)" by (auto simp: setting_bits_def elim!: consumesE)
  have "unat (word_of_nat (length p) :: u64) < 2 ^ 62" using assms(3) by (simp add: unat_of_nat)
  from ReadVarint_consumes [OF this] 1(2,3) obtain r2 where
    "ReadVarint ops r1 = (Inr (word_of_nat (length p)), r2)" "rok ok r2"
    "rbits content r2 = bytes_bits p @ rest" "fin (reader r2) = fin (reader r1)" by (rule consumesE)
  with 1 body_ok_Limited [OF _ _ _ assms(3)] that show thesis by metis
qed

text \<open>An unknown setting is skipped.\<close>

lemma readSetting_unknown:
  assumes "rok ok r" "rbits content r = setting_bits s p @ rest" "length p < 2 ^ 62"
    "s \<noteq> settingTableSize" "s \<noteq> settingMaxQpackBlockedStreams"
  obtains r' where "readSetting ops enc r = Some (Inr True, enc, r')" "rok ok r'" "rbits content r' = rest"
    "fin (reader r') = fin (reader r)"
proof -
  from readSetting_start [OF assms(1-3)] obtain r1 r2 where 1: "ReadBits ops 16 r = (Inr (ucast s), r1)"
    "ReadVarint ops r1 = (Inr (word_of_nat (length p)), r2)"
    "body_ok content fin ok rest (fin (reader r)) (Limited (word_of_nat (length p)) r2)"
    by blast
  let ?lr = "Limited (word_of_nat (length p)) r2"
  from byte_source.copyDiscard_spec [OF body_source 1(3)] 1(3) obtain lr' where
    "copyDiscard (br_ops (body_ops ops)) ?lr = Some (None, lr')"
    "body_ok content fin ok rest (fin (reader r)) lr'" "body_bytes content lr' = []"
    by (auto simp: body_ok_def)
  with 1 body_ok_end [of rest "fin (reader r)" lr'] assms(4,5) that show thesis
    by (simp add: readSetting_def)
qed

lemma readSettingValue_spec:
  assumes "unat v < 2 ^ 62" "body_ok content fin ok rest F lr" "body_bytes content lr = bits_bytes (varint_bits v)" "limit < 64"
  obtains lr' where "readSettingValue ops limit apply enc lr =
      (if unat v < 2 ^ limit then (case apply v enc of (x, enc') \<Rightarrow> (x, enc', lr')) else (Inl ErrSettingValue, enc, lr'))"
    "rok ok (unlimited lr')" "rbits content (unlimited lr') = rest" "fin (reader (unlimited lr')) = F"
proof -
  have "bytes_bits (body_bytes content lr) = varint_bits v @ bytes_bits []"
    using assms(3) by (simp add: varint_bytes)
  from body_consumes [OF byte_source.ReadVarint_consumes [OF _ assms(1)] assms(2) this] obtain lr' where
    "ReadVarint (body_ops ops) lr = (Inr v, lr')" "body_ok content fin ok rest F lr'" "body_bytes content lr' = []" .
  moreover have "v \<ge> push_bit limit 1 \<longleftrightarrow> \<not> unat v < 2 ^ limit"
    using assms(4) by (simp add: word_le_nat_alt unat_2p not_less)
  ultimately show thesis using body_ok_end [of rest F lr'] by (intro that [of lr']) (simp_all add: readSettingValue_def)
qed

lemma int_setting_bits_setting: "int_setting_bits s v = setting_bits s (bits_bytes (varint_bits v))"
  by (simp add: int_setting_bits_def setting_bits_def varint_bytes)

lemma readSetting_capacity:
  assumes "rok ok r" "rbits content r = int_setting_bits settingTableSize v @ rest" "unat v < 2 ^ 62"
  obtains r' where "readSetting ops enc r =
      (if unat v < 2 ^ 30 then (case QpackSetCapacity v enc of (x, enc') \<Rightarrow> Some (map_sum id (\<lambda>_. True) x, enc', r'))
       else Some (Inl ErrSettingValue, enc, r'))"
    "rok ok r'" "rbits content r' = rest" "fin (reader r') = fin (reader r)"
proof -
  let ?p = "bits_bytes (varint_bits v)"
  have "length ?p < 2 ^ 62" using varint_class_cases [of v] by (auto simp: varint_bytes)
  from readSetting_start [OF assms(1) assms(2) [unfolded int_setting_bits_setting] this] obtain r1 r2 where 1:
    "ReadBits ops 16 r = (Inr (ucast settingTableSize), r1)" "ReadVarint ops r1 = (Inr (word_of_nat (length ?p)), r2)"
    "body_ok content fin ok rest (fin (reader r)) (Limited (word_of_nat (length ?p)) r2)"
    "body_bytes content (Limited (word_of_nat (length ?p)) r2) = ?p" by blast
  from readSettingValue_spec [OF assms(3) 1(3,4), of 30 QpackSetCapacity enc] obtain lr' where
    "readSettingValue ops 30 QpackSetCapacity enc (Limited (word_of_nat (length ?p)) r2) =
       (if unat v < 2 ^ 30 then (case QpackSetCapacity v enc of (x, enc') \<Rightarrow> (x, enc', lr')) else (Inl ErrSettingValue, enc, lr'))"
    "rok ok (unlimited lr')" "rbits content (unlimited lr') = rest" "fin (reader (unlimited lr')) = fin (reader r)"
    by auto
  with 1(1,2) show thesis by (intro that [of "unlimited lr'"]) (simp_all add: readSetting_def Let_def split: prod.split)
qed

lemma readSetting_blocked:
  assumes "rok ok r" "rbits content r = int_setting_bits settingMaxQpackBlockedStreams v @ rest" "unat v < 2 ^ 62"
  obtains r' where "readSetting ops enc r =
      (if unat v < 2 ^ 16 then (case SetMaxBlockedStreams (uint v) enc of (x, enc') \<Rightarrow> Some (map_sum id (\<lambda>_. True) x, enc', r'))
       else Some (Inl ErrSettingValue, enc, r'))"
    "rok ok r'" "rbits content r' = rest" "fin (reader r') = fin (reader r)"
proof -
  let ?p = "bits_bytes (varint_bits v)" and ?f = "\<lambda>n. SetMaxBlockedStreams (uint n)"
  have "length ?p < 2 ^ 62" using varint_class_cases [of v] by (auto simp: varint_bytes)
  from readSetting_start [OF assms(1) assms(2) [unfolded int_setting_bits_setting] this] obtain r1 r2 where 1:
    "ReadBits ops 16 r = (Inr (ucast settingMaxQpackBlockedStreams), r1)" "ReadVarint ops r1 = (Inr (word_of_nat (length ?p)), r2)"
    "body_ok content fin ok rest (fin (reader r)) (Limited (word_of_nat (length ?p)) r2)"
    "body_bytes content (Limited (word_of_nat (length ?p)) r2) = ?p" by blast
  from readSettingValue_spec [OF assms(3) 1(3,4), of 16 ?f enc] obtain lr' where
    "readSettingValue ops 16 ?f enc (Limited (word_of_nat (length ?p)) r2) =
       (if unat v < 2 ^ 16 then (case ?f v enc of (x, enc') \<Rightarrow> (x, enc', lr')) else (Inl ErrSettingValue, enc, lr'))"
    "rok ok (unlimited lr')" "rbits content (unlimited lr') = rest" "fin (reader (unlimited lr')) = fin (reader r)"
    by auto
  moreover have "settingMaxQpackBlockedStreams \<noteq> settingTableSize"
    by (simp add: settingMaxQpackBlockedStreams_def settingTableSize_def)
  ultimately show thesis using 1(1,2)
    by (intro that [of "unlimited lr'"]) (simp_all add: readSetting_def Let_def split: prod.split)
qed

lemma readSetting_takes:
  assumes "rok ok r"
  shows "\<exists>x enc' r'. readSetting ops enc r = Some (x, enc', r') \<and> rok ok r' \<and>
    length (rbits content r') \<le> length (rbits content r) \<and> (x = Inr True \<longrightarrow> length (rbits content r') < length (rbits content r))"
proof -
  obtain x r1 where 1: "ReadBits ops 16 r = (x, r1)" by fastforce
  note s1 = shrinksD [OF ReadBits_shrinks assms 1]
  show ?thesis
  proof (cases x)
    case Inl
    with 1 s1 show ?thesis by (simp add: readSetting_def)
  next
    case (Inr s)
    with ReadBits_spec [OF assms, of 16] 1 have less: "length (rbits content r1) < length (rbits content r)"
      by (auto split: if_splits)
    obtain y r2 where 2: "ReadVarint ops r1 = (y, r2)" by fastforce
    note s2 = shrinksD [OF ReadVarint_shrinks s1(1) 2, simplified]
    let ?m = "length (rbits content r2)"
    have stream: "rok ok (unlimited lr) \<and> length (rbits content (unlimited lr)) < length (rbits content r)"
      if "body_within content fin ok ?m lr" for lr
      using body_within_stream [OF that] s2(2) less by simp
    show ?thesis
    proof (cases y)
      case Inl
      with 1 2 Inr s1 s2 show ?thesis by (auto simp: readSetting_def)
    next
      case (Inr len)
      let ?lr = "Limited len r2"
      have lr: "body_within content fin ok ?m ?lr" by (rule body_within_Limited [OF s2(1)])
      have "body_within content fin ok ?m (snd (ReadVarint (body_ops ops) ?lr))"
        by (rule body_within_shrinks [OF _ lr]) (rule byte_source.ReadVarint_shrinks)
      then have val: "body_within content fin ok ?m (snd (snd (readSettingValue ops n f enc ?lr)))" for n f
        by (auto simp: readSettingValue_def split: prod.splits sum.splits)
      from copyDiscard_body [OF lr] obtain e lr' where
        d: "copyDiscard (br_ops (body_ops ops)) ?lr = Some (e, lr')" "body_within content fin ok ?m lr'" by blast
      show ?thesis
        using 1 2 \<open>x = Inr s\<close> Inr d(1) stream [OF d(2)] stream [OF val] less
        by (auto simp: readSetting_def Let_def split: prod.split sum.split option.split)
          (metis less_imp_le snd_conv)+
    qed
  qed
qed

lemma readSettings_returns:
  "rok ok r \<Longrightarrow> \<exists>e enc' r'. readSettings ops enc r = Some (e, enc', r') \<and> rok ok r' \<and>
     length (rbits content r') \<le> length (rbits content r)"
proof (induction "length (rbits content r)" arbitrary: enc r rule: less_induct)
  case less
  from readSetting_takes [OF less.prems] obtain x enc' r' where r: "readSetting ops enc r = Some (x, enc', r')"
    "rok ok r'" "length (rbits content r') \<le> length (rbits content r)"
    "x = Inr True \<longrightarrow> length (rbits content r') < length (rbits content r)" by blast
  show ?case
  proof (cases "x = Inr True")
    case True
    with less.hyps [of r' enc'] r show ?thesis by (auto simp: readSettings.simps [of ops enc r])
  next
    case False
    with r show ?thesis by (cases x) (auto simp: readSettings.simps [of ops enc r])
  qed
qed

end

lemma qcommon_SetReferenceableLimit: "qcommon (SetReferenceableLimit limit qt) = qcommon qt"
  by (simp add: SetReferenceableLimit_def Let_def split: prod.split)

context byte_source
begin

lemma readSettings_written:
  assumes "unat (DecoderTableCapacity config) < 2 ^ 62" "qbase enc = 0" "blockedStreams enc \<le> uint (ConcurrentDecoders config)"
    and r: "rok ok r" "rbits content r = settings_bits config" "fin (reader r) = EOF"
  shows "\<exists>enc' r'. readSettings ops enc r = Some (
       if unat (DecoderTableCapacity config) < 2 ^ 30 then None else Some ErrSettingValue, enc', r') \<and>
      (if unat (DecoderTableCapacity config) < 2 ^ 30
       then qcapacity enc' = DecoderTableCapacity config \<and> maxBlockedStreams enc' = uint (ConcurrentDecoders config) \<and>
         enc'\<lparr>qtable := qtable enc, maxBlockedStreams := maxBlockedStreams enc\<rparr> = enc \<and>
         rok ok r' \<and> rbits content r' = [] \<and> fin (reader r') = EOF
       else enc' = enc)"
proof -
  let ?c = "DecoderTableCapacity config" and ?d = "ucast (ConcurrentDecoders config) :: u64"
  obtain enc1 where cap: "QpackSetCapacity ?c enc = (Inr (), enc1)" "qcapacity enc1 = ?c"
    "enc1\<lparr>qtable := qtable enc\<rparr> = enc"
    using assms(2) by (simp add: QpackSetCapacity_def QpackTableSetCapacity_def Let_def qcommon_SetReferenceableLimit)
  have "blockedStreams enc1 = blockedStreams enc" using arg_cong [OF cap(3), of blockedStreams] by simp
  with assms(3) have blk: "SetMaxBlockedStreams (uint ?d) enc1 =
      (Inr (), enc1\<lparr>maxBlockedStreams := uint (ConcurrentDecoders config)\<rparr>)"
    by (simp add: SetMaxBlockedStreams_def decoders_value)
  have "rbits content r = int_setting_bits settingTableSize ?c @ int_setting_bits settingMaxQpackBlockedStreams ?d"
    using r(2) by (simp add: settings_bits_def)
  from readSetting_capacity [OF r(1) this assms(1), of enc] obtain r1 where c1:
    "readSetting ops enc r = (if unat ?c < 2 ^ 30
       then (case QpackSetCapacity ?c enc of (x, enc') \<Rightarrow> Some (map_sum id (\<lambda>_. True) x, enc', r1))
       else Some (Inl ErrSettingValue, enc, r1))"
    "rok ok r1" "rbits content r1 = int_setting_bits settingMaxQpackBlockedStreams ?d" "fin (reader r1) = fin (reader r)" .
  then have 1: "readSetting ops enc r = (if unat ?c < 2 ^ 30 then Some (Inr True, enc1, r1) else Some (Inl ErrSettingValue, enc, r1))"
    "rok ok r1" "rbits content r1 = int_setting_bits settingMaxQpackBlockedStreams ?d" "fin (reader r1) = EOF"
    using r(3) cap(1) by simp_all
  have "rbits content r1 = int_setting_bits settingMaxQpackBlockedStreams ?d @ []" using 1(3) by simp
  from readSetting_blocked [OF 1(2) this decoders_fit, of enc1]
  obtain r2 where c2: "readSetting ops enc1 r1 = (if unat ?d < 2 ^ 16
       then (case SetMaxBlockedStreams (uint ?d) enc1 of (x, enc') \<Rightarrow> Some (map_sum id (\<lambda>_. True) x, enc', r2))
       else Some (Inl ErrSettingValue, enc1, r2))"
    "rok ok r2" "rbits content r2 = []" "fin (reader r2) = fin (reader r1)" .
  then have 2: "readSetting ops enc1 r1 = Some (Inr True, enc1\<lparr>maxBlockedStreams := uint (ConcurrentDecoders config)\<rparr>, r2)"
    "rok ok r2" "rbits content r2 = []" "fin (reader r2) = EOF"
    using 1(4) blk decoders_value(3) [of "ConcurrentDecoders config"] by simp_all
  from ReadBits_spec [OF 2(2), of 16] 2(3,4) obtain r3 where
    "readSetting ops enc' r2 = Some (Inr False, enc', r3)" "rok ok r3" "rbits content r3 = []" "fin (reader r3) = EOF" for enc'
    by (auto simp: readSetting_def)
  note fin3 = this
  show ?thesis
  proof (cases "unat ?c < 2 ^ 30")
    case True
    let ?enc = "enc1\<lparr>maxBlockedStreams := uint (ConcurrentDecoders config)\<rparr>"
    have "readSettings ops enc r = Some (None, ?enc, r3)"
      using True 1(1) 2(1) fin3(1) [of ?enc]
      by (simp add: readSettings.simps [of ops enc r] readSettings.simps [of ops enc1 r1] readSettings.simps [of ops ?enc r2])
    with True cap(2,3) fin3(2-4) show ?thesis by (intro exI [of _ ?enc] exI [of _ r3]) simp
  next
    case False
    with 1(1) show ?thesis by (simp add: readSettings.simps [of ops enc r])
  qed
qed

end

section \<open>Properties of settings\<close>

text \<open>C37: The settings of one endpoint arrive at the other. \<open>WriteTo\<close> reports the bytes it wrote, which
  \<open>sendSettings\<close> relies on; reading them applies the table capacity and the number of
  concurrent decoders to an encoder that has inserted nothing yet, and changes nothing else. A
  capacity of 2 to the 30th or more is written, but the reader refuses it.\<close>

theorem settings_roundtrip:
  assumes "reliable_sink wops out" "byte_source rops content fin ok" "unat (DecoderTableCapacity config) < 2 ^ 62"
    "qbase enc = 0" "blockedStreams enc \<le> uint (ConcurrentDecoders config)"
  shows "\<exists>w' bs. WriteTo wops config w = ((length bs, None), w') \<and> out w' = out w @ bs \<and>
    (\<forall>r. rok ok r \<and> rbits content r = bytes_bits bs \<and> fin (reader r) = EOF \<longrightarrow>
      (\<exists>enc' r'. readSettings rops enc r = Some (
         if unat (DecoderTableCapacity config) < 2 ^ 30 then None else Some ErrSettingValue, enc', r') \<and>
        (if unat (DecoderTableCapacity config) < 2 ^ 30
         then qcapacity enc' = DecoderTableCapacity config \<and> maxBlockedStreams enc' = uint (ConcurrentDecoders config) \<and>
           enc'\<lparr>qtable := qtable enc, maxBlockedStreams := maxBlockedStreams enc\<rparr> = enc
         else enc' = enc)))"
proof -
  from reliable_sink.WriteTo_spec [OF assms(1,3)] obtain n w' where w: "WriteTo wops config w = ((n, None), w')"
    "out w' = out w @ bits_bytes (settings_bits config)" "n = length (bits_bytes (settings_bits config))"
    "bytes_bits (bits_bytes (settings_bits config)) = settings_bits config" by blast
  with byte_source.readSettings_written [OF assms(2-5)] show ?thesis
    by (intro exI [of _ w'] exI [of _ "bits_bytes (settings_bits config)"]) (auto; metis)
qed

definition example_config :: Config where
  "example_config = \<lparr>DecoderTableCapacity = 4096, ConcurrentDecoders = 10, MaxConcurrentPushes = 100,
     TrackConnections = False, InformationalResponses = False\<rparr>"

theorem settings_roundtrip_witness:
  "\<exists>w' enc' r'. WriteTo buf_ops example_config [] = ((length w', None), w') \<and>
     readSettings source_ops (example_encoder 0) (NewBitReader (w', EOF)) = Some (None, enc', r') \<and>
     qcapacity enc' = 4096 \<and> maxBlockedStreams enc' = 10"
proof -
  have "unat (DecoderTableCapacity example_config) < 2 ^ 62" by (simp add: example_config_def)
  moreover have "qbase (example_encoder 0) = 0 \<and> blockedStreams (example_encoder 0) \<le> uint (ConcurrentDecoders example_config)"
    by code_simp
  ultimately obtain w' bs where w: "WriteTo buf_ops example_config [] = ((length bs, None), w')" "w' = [] @ bs"
    "\<forall>r. rok (\<lambda>_. True) r \<and> rbits fst r = bytes_bits bs \<and> snd (reader r) = EOF \<longrightarrow>
      (\<exists>enc' r'. readSettings source_ops (example_encoder 0) r = Some (
         if unat (DecoderTableCapacity example_config) < 2 ^ 30 then None else Some ErrSettingValue, enc', r') \<and>
        (if unat (DecoderTableCapacity example_config) < 2 ^ 30
         then qcapacity enc' = DecoderTableCapacity example_config \<and>
           maxBlockedStreams enc' = uint (ConcurrentDecoders example_config) \<and>
           enc'\<lparr>qtable := qtable (example_encoder 0), maxBlockedStreams := maxBlockedStreams (example_encoder 0)\<rparr> = example_encoder 0
         else enc' = example_encoder 0))"
    using settings_roundtrip [OF buf.reliable_sink_axioms src.byte_source_axioms, of example_config "example_encoder 0" "[]"]
    by blast
  let ?r = "NewBitReader (w', EOF)"
  have "rok (\<lambda>_. True) ?r \<and> rbits fst ?r = bytes_bits bs \<and> snd (reader ?r) = EOF"
    using w(2) by (simp add: rok_def rbits_def NewBitReader_def)
  with w(3) show ?thesis using w(1,2) by (fastforce simp: example_config_def)
qed

text \<open>Reading settings always returns, whatever the peer sends: the loop ends with the input.\<close>

theorem readSettings_terminates:
  assumes "byte_source ops content fin ok" "rok ok r"
  shows "\<exists>e enc' r'. readSettings ops enc r = Some (e, enc', r')"
  using byte_source.readSettings_returns [OF assms] by blast

theorem readSettings_terminates_witness:
  "\<exists>e enc' r'. readSettings source_ops (example_encoder 0) (NewBitReader ([0, 5, 1, 9], EOF)) = Some (e, enc', r')"
  by (rule readSettings_terminates [OF src.byte_source_axioms]) (simp add: rok_def NewBitReader_def)

text \<open>A SETTINGS frame that ends inside the identifier of a setting is taken as complete: an \<open>EOF\<close> with
  one byte left is not told apart from one at the end.\<close>

theorem truncated_settings_accepted:
  assumes "byte_source ops content fin ok" "rok ok r" "length (rbits content r) < 16" "fin (reader r) = EOF"
  shows "\<exists>r'. readSettings ops enc r = Some (None, enc, r')"
proof -
  from byte_source.ReadBits_spec [OF assms(1,2), of 16] assms(3,4) obtain r' where
    "ReadBits ops 16 r = (Inl EOF, r')" by auto
  then show ?thesis by (simp add: readSettings.simps readSetting_def)
qed

theorem truncated_settings_accepted_witness:
  "\<exists>r'. readSettings source_ops (example_encoder 0) (NewBitReader ([0], EOF)) = Some (None, example_encoder 0, r')"
  by (rule truncated_settings_accepted [OF src.byte_source_axioms]) (simp_all add: rok_def rbits_def NewBitReader_def)

end
