(* ===== verification/Concat.thy ===== *)
theory Concat
  imports StdIO
begin

text \<open>
  \<open>ConcatenatingReader\<close> of \<open>src/io/concat.go\<close>: a reader that joins the readers other
  goroutines hand to it over an unbuffered channel. The channel is the list of the
  \<open>AddReader\<close> calls that wait to hand over their reader, in the order in which the runtime
  serves them; an \<open>AddReader\<close> call returns when the reader it gave has been drained.
\<close>

section \<open>The reader\<close>

record 'r concatReader =
  catPending :: "'r list"
  catClosed :: bool
  catCurrent :: "'r option"
  catDrained :: nat

definition NewConcatenatingReader :: "'r concatReader" where
  "NewConcatenatingReader = \<lparr>catPending = [], catClosed = False, catCurrent = None, catDrained = 0\<rparr>"

text \<open>The start of an \<open>AddReader\<close> call; it waits from here on.\<close>

definition AddReader :: "'r \<Rightarrow> ('r concatReader, unit) io" where
  "AddReader r cat =
     (if catClosed cat then (Inl (Panic ''send on closed channel''), cat)
      else (Inr (), cat\<lparr>catPending := catPending cat @ [r]\<rparr>))"

text \<open>Closing a channel panics when it is closed already; goroutines that wait to send on it panic, too.\<close>

definition concatClose :: "('r concatReader, unit) io" where
  "concatClose cat =
     (if catClosed cat then (Inl (Panic ''close of closed channel''), cat)
      else if catPending cat \<noteq> [] then (Inl (Panic ''send on closed channel''), cat\<lparr>catClosed := True\<rparr>)
      else (Inr (), cat\<lparr>catClosed := True\<rparr>))"

text \<open>
  The \<open>AddReader\<close> call whose reader is drained returns, and the next reader is received. When
  none is there, the call waits; it goes on as a call with no current reader does.
\<close>

definition catNext :: "('r concatReader, bool) io" where
  "catNext cat =
     (let d = catDrained cat + (if catCurrent cat = None then 0 else 1) in
      case catPending cat of
        r # rs \<Rightarrow> (Inr True, cat\<lparr>catDrained := d, catCurrent := Some r, catPending := rs\<rparr>)
      | [] \<Rightarrow> (if catClosed cat then Inr False else Inl Blocked, cat\<lparr>catDrained := d, catCurrent := None\<rparr>))"

function readCurrent :: "'r src_ops \<Rightarrow> nat \<Rightarrow> 'r \<Rightarrow> 'r concatReader \<Rightarrow> (byte list \<times> goerr option) \<times> 'r concatReader" where
  "readCurrent ops n r cat =
     (case srcRead ops n r of ((p, err), r') \<Rightarrow>
        (if err = Some EOF then
           (case catPending cat of
              r'' # rs \<Rightarrow> readCurrent ops n r'' (snd (catNext (cat\<lparr>catCurrent := Some r'\<rparr>)))
            | [] \<Rightarrow>
                (case catNext (cat\<lparr>catCurrent := Some r'\<rparr>) of
                   (Inl e, cat') \<Rightarrow> (([], Some e), cat')
                 | (Inr _, cat') \<Rightarrow> (([], Some EOF), cat')))
         else ((p, err), cat\<lparr>catCurrent := Some r'\<rparr>)))"
  by pat_completeness auto
termination
  by (relation "measure (\<lambda>(ops, n, r, cat). length (catPending cat))") (auto simp: catNext_def Let_def)

declare readCurrent.simps [simp del]

definition concatRead :: "'r src_ops \<Rightarrow> nat \<Rightarrow> 'r concatReader \<Rightarrow> (byte list \<times> goerr option) \<times> 'r concatReader" where
  "concatRead ops n cat =
     (case catCurrent cat of
        Some r \<Rightarrow> readCurrent ops n r cat
      | None \<Rightarrow>
          (case catNext cat of
             (Inl e, cat') \<Rightarrow> (([], Some e), cat')
           | (Inr found, cat') \<Rightarrow>
               (case catCurrent cat' of
                  None \<Rightarrow> (([], Some EOF), cat')
                | Some r \<Rightarrow> readCurrent ops n r cat')))"

definition concat_ops :: "'r src_ops \<Rightarrow> 'r concatReader src_ops" where
  "concat_ops ops = \<lparr>srcReadByte = None, srcRead = concatRead ops\<rparr>"

section \<open>It is a source of the joined contents\<close>

text \<open>
  A source whose end comes alone, without bytes; all readers of the standard library that
  minhq uses are of this kind. What a read delivers together with an \<open>EOF\<close> is lost here.
\<close>

locale clean_source = byte_source ops content fin ok
  for ops :: "'r src_ops" and content :: "'r \<Rightarrow> byte list" and fin :: "'r \<Rightarrow> goerr" and ok :: "'r \<Rightarrow> bool" +
  assumes clean: "ok r \<Longrightarrow> 0 < n \<Longrightarrow> srcRead ops n r = ((p, Some e), r') \<Longrightarrow> p = []"

interpretation src: clean_source source_ops fst snd "\<lambda>_. True"
  by unfold_locales (auto simp: source_ops_def source_read_n_def split: if_splits)

definition catReaders :: "'r concatReader \<Rightarrow> 'r list" where
  "catReaders cat = (case catCurrent cat of None \<Rightarrow> [] | Some r \<Rightarrow> [r]) @ catPending cat"

definition catContent :: "('r \<Rightarrow> byte list) \<Rightarrow> 'r concatReader \<Rightarrow> byte list" where
  "catContent content cat = concat (map content (catReaders cat))"

definition catOk :: "('r \<Rightarrow> goerr) \<Rightarrow> ('r \<Rightarrow> bool) \<Rightarrow> bool \<Rightarrow> nat \<Rightarrow> 'r concatReader \<Rightarrow> bool" where
  "catOk fin ok c calls cat \<longleftrightarrow> catClosed cat = c \<and> (\<forall>r \<in> set (catReaders cat). ok r \<and> fin r = EOF) \<and>
     catDrained cat + length (catReaders cat) = calls"

definition catFin :: "bool \<Rightarrow> goerr" where
  "catFin c = (if c then EOF else Blocked)"

text \<open>What a read has to deliver of \<open>all\<close>, the bytes that are left, before the end \<open>F\<close>.\<close>

definition delivers :: "('s \<Rightarrow> byte list) \<Rightarrow> ('s \<Rightarrow> bool) \<Rightarrow> byte list \<Rightarrow> goerr \<Rightarrow> nat \<Rightarrow>
    (byte list \<times> goerr option) \<times> 's \<Rightarrow> bool" where
  "delivers left good all F n res \<longleftrightarrow> (\<exists>k e s. res = ((take k all, e), s) \<and> k \<le> n \<and> k \<le> length all \<and>
     good s \<and> left s = drop k all \<and> (case e of None \<Rightarrow> 0 < k | Some x \<Rightarrow> x = F \<and> k = length all \<and> k < n))"

context clean_source
begin

lemma clean_read:
  assumes "ok r" "0 < n" "fin r = EOF"
  shows "(\<exists>k r'. srcRead ops n r = ((take k (content r), None), r') \<and> 0 < k \<and> k \<le> n \<and> k \<le> length (content r) \<and>
      ok r' \<and> content r' = drop k (content r) \<and> fin r' = EOF) \<or>
    (\<exists>r'. srcRead ops n r = (([], Some EOF), r') \<and> content r = [] \<and> ok r' \<and> content r' = [] \<and> fin r' = EOF)"
proof -
  from source_read [OF assms(1,2)] obtain k e r' where r: "srcRead ops n r = ((take k (content r), e), r')"
    "k \<le> n" "k \<le> length (content r)" "ok r'" "content r' = drop k (content r)" "fin r' = EOF"
    "case e of None \<Rightarrow> 0 < k | Some x \<Rightarrow> x = fin r \<and> k = length (content r) \<and> k < n"
    using assms(3) by auto
  show ?thesis
  proof (cases e)
    case None
    with r show ?thesis by auto
  next
    case (Some x)
    with clean [OF assms(1,2)] r have "take k (content r) = []" by blast
    with Some r assms(3) show ?thesis by auto
  qed
qed

lemma readCurrent_spec:
  assumes "0 < n" "ok r" "fin r = EOF" "\<forall>x \<in> set (catPending cat). ok x \<and> fin x = EOF"
  shows "delivers (catContent content) (catOk fin ok (catClosed cat) (catDrained cat + 1 + length (catPending cat)))
    (content r @ concat (map content (catPending cat))) (catFin (catClosed cat)) n (readCurrent ops n r cat)"
  using assms(2-4)
proof (induction "length (catPending cat)" arbitrary: r cat rule: less_induct)
  case less
  from clean_read [OF less.prems(1) assms(1) less.prems(2)] show ?case
  proof (elim disjE exE conjE)
    fix k r'
    assume r: "srcRead ops n r = ((take k (content r), None), r')" "0 < k" "k \<le> n" "k \<le> length (content r)"
      "ok r'" "content r' = drop k (content r)" "fin r' = EOF"
    then have "readCurrent ops n r cat = ((take k (content r), None), cat\<lparr>catCurrent := Some r'\<rparr>)"
      by (simp add: readCurrent.simps [of ops n r])
    moreover have "catOk fin ok (catClosed cat) (catDrained cat + 1 + length (catPending cat)) (cat\<lparr>catCurrent := Some r'\<rparr>)"
      using r less.prems by (simp add: catOk_def catReaders_def)
    moreover have "catContent content (cat\<lparr>catCurrent := Some r'\<rparr>) = drop k (content r) @ concat (map content (catPending cat))"
      using r by (simp add: catContent_def catReaders_def)
    ultimately show ?thesis
      unfolding delivers_def using r by (intro exI [of _ k] exI [of _ None]) simp
  next
    fix r' assume r: "srcRead ops n r = (([], Some EOF), r')" "content r = []"
    show ?thesis
    proof (cases "catPending cat")
      case Nil
      with r assms(1) show ?thesis
        by (simp add: delivers_def readCurrent.simps [of ops n r] catNext_def catOk_def catReaders_def catContent_def catFin_def)
    next
      case (Cons x xs)
      let ?cat = "snd (catNext (cat\<lparr>catCurrent := Some r'\<rparr>))"
      have c: "catPending ?cat = xs" "catClosed ?cat = catClosed cat" "catDrained ?cat = catDrained cat + 1"
        using Cons by (simp_all add: catNext_def)
      have "readCurrent ops n r cat = readCurrent ops n x ?cat"
        using r Cons by (simp add: readCurrent.simps [of ops n r])
      with less.hyps [of ?cat x] less.prems(3) Cons c r(2) show ?thesis by simp
    qed
  qed
qed

lemma concatRead_spec:
  assumes "catOk fin ok c calls cat" "0 < n"
  shows "delivers (catContent content) (catOk fin ok c calls) (catContent content cat) (catFin c) n (concatRead ops n cat)"
proof (cases "catCurrent cat")
  case (Some r)
  with assms readCurrent_spec [of n r cat] show ?thesis
    by (simp add: concatRead_def catOk_def [of _ _ _ _ cat] catReaders_def [of cat] catContent_def [of _ cat])
next
  case None
  show ?thesis
  proof (cases "catPending cat")
    case Nil
    with None assms show ?thesis
      by (auto simp: delivers_def concatRead_def catNext_def catOk_def catReaders_def catContent_def catFin_def)
  next
    case (Cons r rs)
    let ?cat = "snd (catNext cat)"
    have c: "catNext cat = (Inr True, ?cat)" "catPending ?cat = rs" "catCurrent ?cat = Some r"
      "catClosed ?cat = catClosed cat" "catDrained ?cat = catDrained cat"
      using None Cons by (simp_all add: catNext_def)
    have "concatRead ops n cat = readCurrent ops n r ?cat"
      by (subst concatRead_def, subst c(1)) (simp add: None c(3))
    with None Cons c assms readCurrent_spec [of n r ?cat] show ?thesis
      by (simp add: catOk_def [of _ _ _ _ cat] catReaders_def [of cat] catContent_def [of _ cat])
  qed
qed

text \<open>An error comes alone, and when no reader is left.\<close>

lemma readCurrent_error:
  assumes "0 < n" "ok r" "fin r = EOF" "\<forall>x \<in> set (catPending cat). ok x \<and> fin x = EOF"
    "readCurrent ops n r cat = ((p, Some e), cat')"
  shows "p = [] \<and> catReaders cat' = []"
  using assms(2-5)
proof (induction "length (catPending cat)" arbitrary: r cat rule: less_induct)
  case less
  from clean_read [OF less.prems(1) assms(1) less.prems(2)] less.prems(4) obtain r' where
    r: "srcRead ops n r = (([], Some EOF), r')" by (auto simp: readCurrent.simps [of ops n r])
  show ?case
  proof (cases "catPending cat")
    case Nil
    with r less.prems(4) show ?thesis by (auto simp: readCurrent.simps [of ops n r] catNext_def catReaders_def split: if_splits)
  next
    case (Cons x xs)
    let ?cat = "snd (catNext (cat\<lparr>catCurrent := Some r'\<rparr>))"
    have "catPending ?cat = xs" using Cons by (simp add: catNext_def)
    moreover have "readCurrent ops n r cat = readCurrent ops n x ?cat"
      using r Cons by (simp add: readCurrent.simps [of ops n r])
    ultimately show ?thesis using less.hyps [of ?cat x] less.prems(3,4) Cons by simp
  qed
qed

lemma concatRead_error:
  assumes "catOk fin ok c calls cat" "0 < n" "concatRead ops n cat = ((p, Some e), cat')"
  shows "p = [] \<and> catReaders cat' = []"
proof (cases "catCurrent cat")
  case (Some r)
  with assms readCurrent_error [OF assms(2), of r cat p e cat'] show ?thesis
    by (simp add: concatRead_def catOk_def catReaders_def)
next
  case None
  show ?thesis
  proof (cases "catPending cat")
    case Nil
    with None assms(3) show ?thesis by (auto simp: concatRead_def catNext_def catReaders_def split: if_splits)
  next
    case (Cons r rs)
    let ?cat = "snd (catNext cat)"
    have c: "catNext cat = (Inr True, ?cat)" "catPending ?cat = rs" "catCurrent ?cat = Some r"
      using None Cons by (simp_all add: catNext_def)
    have "concatRead ops n cat = readCurrent ops n r ?cat"
      by (subst concatRead_def, subst c(1)) (simp add: None c(3))
    with None Cons c assms readCurrent_error [OF assms(2), of r ?cat p e cat'] show ?thesis
      by (simp add: catOk_def catReaders_def [of cat])
  qed
qed

lemma concat_source:
  "byte_source (concat_ops ops) (catContent content) (\<lambda>cat. catFin (catClosed cat)) (catOk fin ok c calls)"
proof (unfold_locales, goal_cases)
  case (3 cat n)
  then have c: "catClosed cat = c" by (simp add: catOk_def)
  from concatRead_spec [OF 3] obtain k e s where
    "concatRead ops n cat = ((take k (catContent content cat), e), s)" "k \<le> n" "k \<le> length (catContent content cat)"
    "catOk fin ok c calls s" "catContent content s = drop k (catContent content cat)"
    "case e of None \<Rightarrow> 0 < k | Some x \<Rightarrow> x = catFin c \<and> k = length (catContent content cat) \<and> k < n"
    unfolding delivers_def by blast
  moreover from this(4) have "catClosed s = c" by (simp add: catOk_def)
  ultimately show ?case
    unfolding c by (intro exI [of _ k] exI [of _ e] exI [of _ s]) (simp add: concat_ops_def)
qed (simp_all add: concat_ops_def)

end

section \<open>Runs\<close>

text \<open>
  The calls of all goroutines on one concatenating reader, in the order in which they take effect. \<open>added\<close>
  are the readers of the \<open>AddReader\<close> calls as they were given, \<open>got\<close> the bytes that the
  \<open>Read\<close> calls have returned. The readers that are added are good ones that end with \<open>EOF\<close>.
\<close>

inductive concatRun :: "'r src_ops \<Rightarrow> ('r \<Rightarrow> bool) \<Rightarrow> 'r concatReader \<Rightarrow> 'r list \<Rightarrow> byte list \<Rightarrow> bool" for ops good where
  start: "concatRun ops good NewConcatenatingReader [] []"
| add: "concatRun ops good cat added got \<Longrightarrow> good r \<Longrightarrow> AddReader r cat = (Inr (), cat') \<Longrightarrow>
    concatRun ops good cat' (added @ [r]) got"
| read: "concatRun ops good cat added got \<Longrightarrow> 0 < n \<Longrightarrow> concatRead ops n cat = ((p, err), cat') \<Longrightarrow>
    concatRun ops good cat' added (got @ p)"
| close: "concatRun ops good cat added got \<Longrightarrow> concatClose cat = (Inr (), cat') \<Longrightarrow> concatRun ops good cat' added got"

context clean_source
begin

lemma concatRun_inv:
  assumes "concatRun ops (\<lambda>r. ok r \<and> fin r = EOF) cat added got"
  shows "catOk fin ok (catClosed cat) (length added) cat \<and> got @ catContent content cat = concat (map content added)"
  using assms
proof induction
  case start
  show ?case by (simp add: NewConcatenatingReader_def catOk_def catReaders_def catContent_def)
next
  case (add cat added got r cat')
  then have "\<not> catClosed cat" "cat' = cat\<lparr>catPending := catPending cat @ [r]\<rparr>"
    by (auto simp: AddReader_def split: if_splits)
  with add show ?case by (auto simp: catOk_def catReaders_def catContent_def simp flip: append_assoc split: option.splits)
next
  case (read cat added got n p err cat')
  from concatRead_spec [OF conjunct1 [OF read.IH] read.hyps(2)] read.hyps(3) have
    "catOk fin ok (catClosed cat) (length added) cat'" "p @ catContent content cat' = catContent content cat"
    by (auto simp: delivers_def)
  with read.IH show ?case by (auto simp: catOk_def)
next
  case (close cat added got cat')
  then have "cat' = cat\<lparr>catClosed := True\<rparr>" by (auto simp: concatClose_def split: if_splits)
  with close.IH show ?case by (simp add: catOk_def catReaders_def catContent_def)
qed

end

section \<open>Properties\<close>

text \<open>C36: The readers are joined in the order in which they were added, without loss. Over every sequence of
  \<open>AddReader\<close>, \<open>Read\<close> and \<open>Close\<close> calls that do not panic, what was read so far is the beginning of the
  joined contents of the readers that were added. As long as a byte of them is left, \<open>Read\<close> returns at
  least one byte and no error. When none is left it waits for another reader, or returns \<open>EOF\<close>, but the
  latter only after \<open>Close\<close>; by then all \<open>AddReader\<close> calls have returned.\<close>

theorem concat_in_order:
  assumes "clean_source ops content fin ok" "concatRun ops (\<lambda>r. ok r \<and> fin r = EOF) cat added got" "0 < n"
    "concatRead ops n cat = ((p, err), cat')"
  shows "\<exists>left. concat (map content added) = got @ left \<and> p = take (length p) left \<and>
    (left \<noteq> [] \<longrightarrow> p \<noteq> [] \<and> err = None) \<and>
    (left = [] \<longrightarrow> p = [] \<and> err = Some (if catClosed cat then EOF else Blocked) \<and>
       (catClosed cat \<longrightarrow> catReaders cat' = [] \<and> catDrained cat' = length added))"
proof -
  note inv = clean_source.concatRun_inv [OF assms(1,2)]
  let ?c = "catContent content cat"
  from clean_source.concatRead_spec [OF assms(1) conjunct1 [OF inv] assms(3)] assms(4) obtain k where
    k: "p = take k ?c" "k \<le> n" "k \<le> length ?c" "catOk fin ok (catClosed cat) (length added) cat'" "catContent content cat' = drop k ?c"
    "case err of None \<Rightarrow> 0 < k | Some x \<Rightarrow> x = catFin (catClosed cat) \<and> k = length ?c \<and> k < n"
    by (auto simp: delivers_def)
  note error = clean_source.concatRead_error [OF assms(1) conjunct1 [OF inv] assms(3), of p _ cat']
  show ?thesis
  proof (cases "?c = []")
    case True
    with k have e: "p = []" "err = Some (catFin (catClosed cat))" by (auto split: option.splits)
    then have "catReaders cat' = []" using error assms(4) by simp
    with e True inv k(4) show ?thesis by (intro exI [of _ ?c]) (auto simp: catFin_def catOk_def)
  next
    case False
    have "err = None"
    proof (cases err)
      case (Some e)
      with error assms(4) k(1,6) False show ?thesis by simp
    qed
    with False inv k(1,3,6) show ?thesis by (intro exI [of _ ?c]) auto
  qed
qed

definition example_cat :: "source concatReader" where
  "example_cat = snd (concatRead source_ops 2 (snd (AddReader ([3, 4], EOF) (snd (AddReader ([], EOF)
     (snd (AddReader ([1, 2], EOF) NewConcatenatingReader)))))))"

lemma example_cat_run:
  "concatRun source_ops (\<lambda>r. True \<and> snd r = EOF) example_cat [([1, 2], EOF), ([], EOF), ([3, 4], EOF)] [1, 2]"
proof -
  let ?run = "concatRun source_ops (\<lambda>r. True \<and> snd r = EOF)"
  let ?c1 = "snd (AddReader ([1, 2], EOF) NewConcatenatingReader)" let ?c2 = "snd (AddReader ([], EOF) ?c1)"
  let ?c3 = "snd (AddReader ([3, 4], EOF) ?c2)"
  have "?run ?c1 ([] @ [([1, 2], EOF)]) []" by (rule concatRun.add [OF concatRun.start]) (simp_all add: AddReader_def NewConcatenatingReader_def)
  then have "?run ?c2 (([] @ [([1, 2], EOF)]) @ [([], EOF)]) []"
    by (rule concatRun.add) (simp_all add: AddReader_def NewConcatenatingReader_def)
  then have "?run ?c3 ((([] @ [([1, 2], EOF)]) @ [([], EOF)]) @ [([3, 4], EOF)]) []"
    by (rule concatRun.add) (simp_all add: AddReader_def NewConcatenatingReader_def)
  from concatRun.read [OF this, of 2 "[1, 2]" None example_cat] show ?thesis
    by (simp add: example_cat_def concatRead_def AddReader_def NewConcatenatingReader_def catNext_def readCurrent.simps
      source_ops_def source_read_n_def)
qed

theorem concat_in_order_witness:
  "\<exists>cat'. concatRead source_ops 1 example_cat = (([3], None), cat')"
proof -
  obtain p err cat' where r: "concatRead source_ops 1 example_cat = ((p, err), cat')" by (metis surj_pair)
  from concat_in_order [OF src.clean_source_axioms example_cat_run _ r] have "p = take (length p) [3, 4]" "p \<noteq> []" "err = None"
    by auto
  moreover have "length p \<le> 1"
    using src.concatRead_spec [OF conjunct1 [OF src.concatRun_inv [OF example_cat_run]], of 1] r by (auto simp: delivers_def)
  ultimately show ?thesis using r by (cases "length p") auto
qed

text \<open>A reader may return its last bytes together with \<open>EOF\<close>, as \<open>io.Reader\<close> allows.\<close>

definition eager_ops :: "source src_ops" where
  "eager_ops = \<lparr>srcReadByte = None, srcRead = (\<lambda>n s.
     if length (fst s) < n then ((fst s, Some (snd s)), ([], snd s)) else source_read_n n s)\<rparr>"

text \<open>The bytes that such a reader delivers with its \<open>EOF\<close> are lost: the loop of \<open>Read\<close> overwrites the
  count when it sees the \<open>EOF\<close>.\<close>

theorem concat_loses_bytes:
  "\<exists>cat'. concatRead eager_ops 8
     \<lparr>catPending = [([1, 2], EOF), ([3], EOF)], catClosed = True, catCurrent = None, catDrained = 0\<rparr> =
     (([], Some EOF), cat')"
  by (simp add: concatRead_def catNext_def readCurrent.simps eager_ops_def)

end
