(* ===== verification/Message.thy ===== *)
theory Message
  imports Settings Concat
begin

text \<open>
  Messages, \<open>src/message.go\<close>: the header fields of requests and responses, the handling of
  incoming messages frame by frame, and the writing of outgoing ones. URLs belong to
  \<open>net/url\<close>; what the code uses of it is the parameter \<open>url_ops\<close>.
\<close>

definition ErrInvalidFrame :: goerr where
  "ErrInvalidFrame = ErrOther ''Invalid frame type for context''"

section \<open>Header fields of a message\<close>

record 'u url_ops =
  urlParse :: "string \<Rightarrow> goerr + 'u"
  urlResolve :: "'u \<Rightarrow> string \<Rightarrow> goerr + 'u"
  urlMake :: "string \<Rightarrow> string \<Rightarrow> 'u"
  urlScheme :: "'u \<Rightarrow> string"
  urlHost :: "'u \<Rightarrow> string"
  urlEscapedPath :: "'u \<Rightarrow> string"

definition field :: "string \<Rightarrow> string \<Rightarrow> HeaderField" where
  "field n v = \<lparr>Name = n, Value = v, Sensitive = False\<rparr>"

definition buildRequestHeaderFields :: "'u url_ops \<Rightarrow> string \<Rightarrow> 'u option \<Rightarrow> string \<Rightarrow> HeaderField list \<Rightarrow>
    goerr + 'u \<times> HeaderField list" where
  "buildRequestHeaderFields uops method bas target hs =
     (case (case bas of Some b \<Rightarrow> urlResolve uops b target | None \<Rightarrow> urlParse uops target) of
        Inl e \<Rightarrow> Inl e
      | Inr u \<Rightarrow>
          if urlScheme uops u \<noteq> ''https'' then Inl (ErrOther ''No support for non-https URLs'')
          else Inr (u, [field '':authority'' (urlHost uops u), field '':path'' (urlEscapedPath uops u),
                 field '':method'' method, field '':scheme'' (urlScheme uops u)] @ hs))"

fun getHeaderLoop :: "string \<Rightarrow> string \<Rightarrow> HeaderField list \<Rightarrow> string" where
  "getHeaderLoop n v [] = v"
| "getHeaderLoop n v (h # hs) =
     getHeaderLoop n
       (if Name h = n then (if length v > 0 then v @ CHR '','' # Value h else Value h) else v) hs"

definition GetHeader :: "(string \<Rightarrow> string) \<Rightarrow> HeaderField list \<Rightarrow> string \<Rightarrow> string" where
  "GetHeader uni a n = getHeaderLoop (ToLower uni n) '''' a"

text \<open>\<open>strconv.Atoi\<close>: an optional sign and decimal digits, within the range of \<open>int\<close>.\<close>

definition digit_value :: "char \<Rightarrow> nat option" where
  "digit_value c = (let k = of_char c in if 48 \<le> k \<and> k \<le> (57 :: nat) then Some (k - 48) else None)"

fun digitsValue :: "nat \<Rightarrow> string \<Rightarrow> nat option" where
  "digitsValue v [] = Some v"
| "digitsValue v (c # cs) = (case digit_value c of None \<Rightarrow> None | Some d \<Rightarrow> digitsValue (10 * v + d) cs)"

definition Atoi :: "string \<Rightarrow> int option" where
  "Atoi s =
     (let neg = (s \<noteq> [] \<and> hd s = CHR ''-'');
          t = (if s \<noteq> [] \<and> (hd s = CHR ''-'' \<or> hd s = CHR ''+'') then tl s else s)
      in if t = [] then None
         else (case digitsValue 0 t of
                 None \<Rightarrow> None
               | Some v \<Rightarrow> (let i = (if neg then - int v else int v) in
                            if - (2 ^ 63) \<le> i \<and> i \<le> intMax then Some i else None)))"

function natDigits :: "nat \<Rightarrow> string" where
  "natDigits n = (if n < 10 then [char_of (48 + n)] else natDigits (n div 10) @ [char_of (48 + n mod 10)])"
  by pat_completeness auto
termination by (relation "measure id") auto

declare natDigits.simps [simp del]

definition Itoa :: "int \<Rightarrow> string" where
  "Itoa i = (if i < 0 then CHR ''-'' # natDigits (nat (- i)) else natDigits (nat i))"

definition GetStatus :: "(string \<Rightarrow> string) \<Rightarrow> HeaderField list \<Rightarrow> int" where
  "GetStatus uni a = (case Atoi (GetHeader uni a '':status'') of None \<Rightarrow> 0 | Some status \<Rightarrow> status)"

definition getMethodAndTarget :: "'u url_ops \<Rightarrow> (string \<Rightarrow> string) \<Rightarrow> HeaderField list \<Rightarrow> goerr + string \<times> 'u" where
  "getMethodAndTarget uops uni a =
     (let method = GetHeader uni a '':method'' in
      if method = '''' then Inl (ErrOther ''Missing :method from request'')
      else
        (let scheme = GetHeader uni a '':scheme''; host0 = GetHeader uni a '':authority'' in
         if scheme = '''' then Inl (ErrOther ''Missing :scheme from request'')
         else
           (let host = (if host0 = '''' then GetHeader uni a ''Host'' else host0) in
            if host = '''' then Inl (ErrOther ''Missing :authority/Host from request'')
            else
              (let p = GetHeader uni a '':path'' in
               if p = '''' then Inl (ErrOther ''Missing :path from request'')
               else map_sum id (Pair method) (urlResolve uops (urlMake uops scheme host) p)))))"

section \<open>Incoming messages\<close>

text \<open>
  \<open>'h\<close> is what the handlers of a role change. \<open>mBody\<close> is what the application has read
  from the message, \<open>mTrailers\<close> what was sent on the channel for trailers.
\<close>

record 'h message =
  mDecoder :: QpackDecoder
  mBody :: "byte list"
  mTrailers :: "HeaderField list list"
  mClosed :: bool
  mApp :: 'h

type_synonym 'h headersHandler = "HeaderField list \<Rightarrow> 'h \<Rightarrow> (goerr + bool) \<times> 'h"
type_synonym ('r, 'h) frameHandler =
  "FrameType \<Rightarrow> QpackDecoder \<Rightarrow> 'h \<Rightarrow> 'r body \<Rightarrow> (goerr option \<times> QpackDecoder \<times> 'h \<times> 'r body) option"

definition newIncomingMessage :: "QpackDecoder \<Rightarrow> 'h \<Rightarrow> 'h message" where
  "newIncomingMessage d h = \<lparr>mDecoder = d, mBody = [], mTrailers = [], mClosed = False, mApp = h\<rparr>"

text \<open>
  \<open>AddReader\<close> hands the body of a DATA frame to the application and waits until it is drained.
  The application reads it with a buffer of \<open>n\<close> bytes through a \<open>ConcatenatingReader\<close>,
  which drops what comes together with an \<open>EOF\<close>. When the read fails otherwise, nothing ever
  drains the reader and \<open>AddReader\<close> waits forever.
\<close>

partial_function (option) drain :: "'r src_ops \<Rightarrow> nat \<Rightarrow> byte list \<Rightarrow> 'r \<Rightarrow> ((byte list \<times> goerr) \<times> 'r) option" where
  "drain ops n acc r =
     (case srcRead ops n r of
        ((p, None), r') \<Rightarrow> drain ops n (acc @ p) r'
      | ((p, Some e), r') \<Rightarrow> Some ((if e = EOF then acc else acc @ p, e), r'))"

declare drain.simps [code]

text \<open>
  One frame; the result has the new \<open>gotFirstHeaders\<close> and \<open>afterTrailers\<close>. The reader of a
  body is a \<open>BitReader\<close>, which \<open>NewBitReader\<close> hands to the header decoder as it is; here the
  decoder reads its bytes through a reader of its own. The two differ in the rest of a byte that
  the decoder has left unread, and there is none: blocks are read to the end of the body, and
  after an error nothing reads the stream any more.
\<close>

definition messageFrame :: "'r src_ops \<Rightarrow> nat \<Rightarrow> u64 \<Rightarrow> 'h headersHandler \<Rightarrow> ('r, 'h) frameHandler \<Rightarrow> bool \<Rightarrow>
    'h message \<Rightarrow> FrameType \<Rightarrow> 'r body \<Rightarrow> ((goerr + bool \<times> bool) \<times> 'h message \<times> 'r body) option" where
  "messageFrame ops n i headersHandler frameHandler gotFirstHeaders msg t r =
     (if t = frameData then
        (if \<not> gotFirstHeaders then Some (Inl ErrInvalidFrame, msg, r)
         else
           map_option (\<lambda>((p, e), r').
             (if e = EOF then Inr (True, False) else Inl (if abnormal e then e else Blocked),
              msg\<lparr>mBody := mBody msg @ p\<rparr>, r'))
             (drain (br_ops (body_ops ops)) n [] r))
      else if t = frameHeaders then
        map_option (\<lambda>(x, d, r').
          (let msg' = msg\<lparr>mDecoder := d\<rparr> in
           case x of
             Inl e \<Rightarrow> (Inl e, msg', r')
           | Inr hs \<Rightarrow>
               (case ValidatePseudoHeaders hs of
                  Some e \<Rightarrow> (Inl e, msg', r')
                | None \<Rightarrow>
                    if gotFirstHeaders then (Inr (True, True), msg'\<lparr>mTrailers := mTrailers msg' @ [hs]\<rparr>, r')
                    else
                      (case headersHandler hs (mApp msg') of
                         (Inl e, h) \<Rightarrow> (Inl e, msg'\<lparr>mApp := h\<rparr>, r')
                       | (Inr got, h) \<Rightarrow> (Inr (got, False), msg'\<lparr>mApp := h\<rparr>, r')))))
          (QpackReadHeaderBlock (br_ops (body_ops ops)) i (mDecoder msg) r)
      else
        map_option (\<lambda>(err, d, h, r').
          (case err of Some e \<Rightarrow> Inl e | None \<Rightarrow> Inr (gotFirstHeaders, False),
           msg\<lparr>mDecoder := d, mApp := h\<rparr>, r'))
          (frameHandler t (mDecoder msg) (mApp msg) r))"

partial_function (option) messageLoop :: "'r src_ops \<Rightarrow> nat \<Rightarrow> u64 \<Rightarrow> 'h headersHandler \<Rightarrow> ('r, 'h) frameHandler \<Rightarrow>
    bool \<Rightarrow> bool \<Rightarrow> 'h message \<Rightarrow> 'r bitReader \<Rightarrow> (goerr option \<times> 'h message \<times> 'r bitReader) option" where
  "messageLoop ops n i headersHandler frameHandler gotFirstHeaders afterTrailers msg fr =
     (case ReadFrame ops fr of
        (Inl e, fr') \<Rightarrow> Some (if e = EOF then None else Some e, msg, fr')
      | (Inr (t, r), fr') \<Rightarrow>
          if afterTrailers then Some (Some ErrInvalidFrame, msg, unlimited r)
          else
            Option.bind (messageFrame ops n i headersHandler frameHandler gotFirstHeaders msg t r) (\<lambda>(x, msg', r').
              case x of
                Inl e \<Rightarrow> Some (Some e, msg', unlimited r')
              | Inr (got, after) \<Rightarrow>
                  messageLoop ops n i headersHandler frameHandler got after msg' (unlimited r')))"

declare messageLoop.simps [code]

text \<open>A call that panics or waits does not come to what follows the loop.\<close>

definition handleMessage :: "'r src_ops \<Rightarrow> nat \<Rightarrow> u64 \<Rightarrow> 'h headersHandler \<Rightarrow> ('r, 'h) frameHandler \<Rightarrow>
    'h message \<Rightarrow> 'r bitReader \<Rightarrow> (goerr option \<times> 'h message \<times> 'r bitReader) option" where
  "handleMessage ops n i headersHandler frameHandler msg fr =
     map_option (\<lambda>(err, msg', fr').
       (err,
        (case err of
           None \<Rightarrow> msg'\<lparr>mClosed := True\<rparr>
         | Some e \<Rightarrow> if abnormal e then msg'
                     else msg'\<lparr>mDecoder := QpackCancelled i (mDecoder msg'), mClosed := True\<rparr>), fr'))
       (messageLoop ops n i headersHandler frameHandler False False msg fr)"

section \<open>Outgoing messages\<close>

text \<open>
  A \<open>sendStream\<close> is a frame writer on a stream of the QUIC stack, which is the parameter
  \<open>stream_ops\<close>: how bytes are written to it, and what closing and resetting it returns.
\<close>

record 'w stream_ops =
  strSink :: "'w snk_ops"
  strClose :: "'w \<Rightarrow> goerr option \<times> 'w"
  strReset :: "16 word \<Rightarrow> 'w \<Rightarrow> goerr option \<times> 'w"

type_synonym 'w sendStream = "'w bitWriter"

definition outClose :: "'w stream_ops \<Rightarrow> 'w sendStream \<Rightarrow> goerr option \<times> 'w sendStream" where
  "outClose sops s = (case strClose sops (writer s) of (e, w) \<Rightarrow> (e, s\<lparr>writer := w\<rparr>))"

definition outWrite :: "'w stream_ops \<Rightarrow> byte list \<Rightarrow> 'w sendStream \<Rightarrow> (nat \<times> goerr option) \<times> 'w sendStream" where
  "outWrite sops p s =
     (case WriteFrame (strSink sops) frameData p s of
        ((_, Some e), s') \<Rightarrow> ((0, Some e), s')
      | ((_, None), s') \<Rightarrow> ((length p, None), s'))"

text \<open>The encoder of the connection and the stream its updates go to are passed along.\<close>

definition outWriteHeaderBlock :: "'q snk_ops \<Rightarrow> 'w stream_ops \<Rightarrow> (string \<Rightarrow> string) \<Rightarrow> u64 \<Rightarrow> HeaderField list \<Rightarrow>
    QpackEncoder \<Rightarrow> 'q bitWriter \<Rightarrow> 'w sendStream \<Rightarrow> goerr option \<times> QpackEncoder \<times> 'q bitWriter \<times> 'w sendStream" where
  "outWriteHeaderBlock qops sops uni i hs enc uw s =
     (case QpackWriteHeaderBlock qops buf_ops uni i hs enc uw [] of
        (Inl e, enc', uw', _) \<Rightarrow> (Some e, enc', uw', s)
      | (Inr _, enc', uw', headerBuf) \<Rightarrow>
          (case WriteFrame (strSink sops) frameHeaders headerBuf s of
             ((_, err), s') \<Rightarrow> (err, enc', uw', s')))"

definition outEnd :: "'q snk_ops \<Rightarrow> 'w stream_ops \<Rightarrow> (string \<Rightarrow> string) \<Rightarrow> u64 \<Rightarrow> HeaderField list option \<Rightarrow>
    QpackEncoder \<Rightarrow> 'q bitWriter \<Rightarrow> 'w sendStream \<Rightarrow> goerr option \<times> QpackEncoder \<times> 'q bitWriter \<times> 'w sendStream" where
  "outEnd qops sops uni i trailers enc uw s =
     (case trailers of
        None \<Rightarrow> (case outClose sops s of (e, s') \<Rightarrow> (e, enc, uw, s'))
      | Some ts \<Rightarrow>
          (case outWriteHeaderBlock qops sops uni i ts enc uw s of
             (Some e, r) \<Rightarrow> (Some e, r)
           | (None, enc', uw', s') \<Rightarrow> (case outClose sops s' of (e, s'') \<Rightarrow> (e, enc', uw', s''))))"

section \<open>What the header functions compute\<close>

fun joined :: "string list \<Rightarrow> string" where
  "joined [] = ''''"
| "joined (v # vs) = v @ concat (map (\<lambda>x. CHR '','' # x) vs)"

definition values_of :: "string \<Rightarrow> HeaderField list \<Rightarrow> string list" where
  "values_of n a = map Value (filter (\<lambda>h. Name h = n) a)"

lemma getHeaderLoop_started:
  "v \<noteq> [] \<Longrightarrow> getHeaderLoop n v a = v @ concat (map (\<lambda>x. CHR '','' # x) (values_of n a))"
  by (induction a arbitrary: v) (auto simp: values_of_def)

lemma getHeaderLoop_joined: "getHeaderLoop n [] a = joined (dropWhile (\<lambda>v. v = []) (values_of n a))"
proof (induction a)
  case (Cons h a)
  then show ?case
    by (cases "Name h = n"; cases "Value h = []") (simp_all add: values_of_def getHeaderLoop_started)
qed (simp add: values_of_def)

lemma GetHeader_single:
  assumes "ToLower uni n = n" "values_of n a = [v]"
  shows "GetHeader uni a n = v"
  using assms by (cases "v = []") (simp_all add: GetHeader_def getHeaderLoop_joined)

lemma lower_names:
  "ToLower uni '':status'' = '':status''" "ToLower uni '':method'' = '':method''"
  "ToLower uni '':scheme'' = '':scheme''" "ToLower uni '':authority'' = '':authority''"
  "ToLower uni '':path'' = '':path''" "ToLower uni ''Host'' = ''host''"
  by code_simp+

lemma digitsValue_append:
  "digitsValue v (xs @ ys) = Option.bind (digitsValue v xs) (\<lambda>w. digitsValue w ys)"
  by (induction v xs rule: digitsValue.induct) (auto split: option.split)

lemma digit_value_char: "d < 10 \<Longrightarrow> digit_value (char_of (48 + d)) = Some d"
  by (simp add: digit_value_def Let_def of_char_of)

lemma digitsValue_natDigits: "digitsValue 0 (natDigits n) = Some n"
proof (induction n rule: natDigits.induct)
  case (1 n)
  then show ?case
    by (cases "n < 10") (simp_all add: natDigits.simps [of n] digitsValue_append digit_value_char)
qed

lemma natDigits_start: "natDigits n \<noteq> [] \<and> (\<exists>d < 10. hd (natDigits n) = char_of (48 + d :: nat))"
proof (induction n rule: natDigits.induct)
  case (1 n)
  then show ?case by (cases "n < 10") (auto simp: natDigits.simps [of n] hd_append)
qed

lemma digit_not_sign: "d < 10 \<Longrightarrow> char_of (48 + d :: nat) \<noteq> CHR ''-'' \<and> char_of (48 + d :: nat) \<noteq> CHR ''+''"
  using digit_value_char [of d] by (auto simp: digit_value_def of_char_def Let_def)

lemma Atoi_natDigits: "int n \<le> intMax \<Longrightarrow> Atoi (natDigits n) = Some (int n)"
proof -
  assume n: "int n \<le> intMax"
  have "natDigits n \<noteq> []" "hd (natDigits n) \<noteq> CHR ''-''" "hd (natDigits n) \<noteq> CHR ''+''"
    using natDigits_start [of n] digit_not_sign by metis+
  with n show ?thesis by (simp add: Atoi_def Let_def digitsValue_natDigits)
qed

lemma Atoi_Itoa: "- (2 ^ 63) \<le> i \<Longrightarrow> i \<le> intMax \<Longrightarrow> Atoi (Itoa i) = Some i"
  using Atoi_natDigits [of "nat i"] natDigits_start [of "nat (- i)"]
  by (cases "i < 0") (auto simp: Atoi_def [of "_ # _"] Itoa_def Let_def digitsValue_natDigits intMax_def)

section \<open>Readers at a byte boundary\<close>

text \<open>
  Frames are whole bytes, so between frames and while a body is read as bytes no bits are saved,
  and reads pass through to the stream.
\<close>

lemma readWhole_saved:
  "readWhole ops count br = (Inr u, br') \<Longrightarrow>
     count < rsavedBits br' + 8 \<and> (rsavedBits br' = rsavedBits br \<or> rsavedBits br' \<le> count)"
proof (induction ops count br rule: readWhole.induct)
  case (1 ops count br)
  show ?case
  proof (cases "rsavedBits br + 8 \<le> count")
    case True
    with "1.prems" obtain v br1 where 2: "readNext ops br = (Inr v, br1)" "readWhole ops count br1 = (Inr u, br')"
      by (auto simp: readWhole.simps [of ops count br] split: prod.splits sum.splits)
    with "1.IH" [OF True 2(1) [symmetric]] readNext_savedBits [OF 2(1)] True show ?thesis by auto
  next
    case False
    with "1.prems" show ?thesis by (simp add: readWhole.simps [of ops count br])
  qed
qed

lemma ReadBits_saved:
  assumes "rsavedBits br < 8" "ReadBits ops count br = (Inr v, br')"
  shows "rsavedBits br' < 8"
proof -
  from assms(2) obtain u br1 where 1: "readWhole ops count br = (Inr u, br1)"
    by (auto simp: ReadBits_def split: if_splits prod.splits sum.splits)
  with readWhole_saved [OF 1] assms show ?thesis
    by (auto simp: ReadBits_def Let_def split: if_splits prod.splits sum.splits)
qed

lemma ReadByte_saved:
  assumes "rsavedBits br < 8" "ReadByte ops br = (Inr b, br')"
  shows "rsavedBits br' < 8"
proof (cases "rsavedBits br = 0")
  case True
  with assms(2) have "rsavedBits br' = rsavedBits br"
    using readByteInternal_saved(2) [of ops br] by (simp add: ReadByte_def)
  with assms(1) show ?thesis by simp
next
  case False
  with assms(2) ReadBits_saved [OF assms(1), of ops 8] show ?thesis
    by (auto simp: ReadByte_def split: prod.splits sum.splits)
qed

lemma ReadVarint_saved:
  assumes "rsavedBits br < 8" "ReadVarint ops br = (Inr v, br')"
  shows "rsavedBits br' < 8"
proof -
  from assms(2) obtain len br1 where "ReadBits ops 2 br = (Inr len, br1)"
    "ReadBits ops (push_bit (unat len) 8 - 2) br1 = (Inr v, br')" by (auto simp: ReadVarint_def bnd_eq_Inr_iff)
  with assms(1) show ?thesis by (blast intro: ReadBits_saved)
qed

lemma ReadFrame_saved:
  assumes "rsavedBits fr < 8" "ReadFrame ops fr = (Inr (t, r), fr')"
  shows "rsavedBits (unlimited r) < 8 \<and> rsavedBits r = 0"
proof -
  from assms(2) obtain len fr1 where 1: "ReadVarint ops fr = (Inr len, fr1)" "ReadByte ops fr1 = (Inr t, fr')"
    "r = Limited len fr'" by (auto simp: ReadFrame_def split: prod.splits sum.splits)
  have "rsavedBits fr' < 8" by (rule ReadByte_saved [OF ReadVarint_saved [OF assms(1) 1(1)] 1(2)])
  with 1(3) show ?thesis by (simp add: Limited_def NewBitReader_def unlimited_def)
qed

definition aligned_body :: "'r body \<Rightarrow> bool" where
  "aligned_body r \<longleftrightarrow> rsavedBits r = 0 \<and> rsavedBits (unlimited r) = 0"

lemma Read_aligned: "rsavedBits br = 0 \<Longrightarrow> Read ops n br = (case srcRead ops n (reader br) of (pe, r') \<Rightarrow> (pe, br\<lparr>reader := r'\<rparr>))"
  by (simp add: Read_def)

lemma Read_body_aligned:
  assumes "aligned_body r"
  shows "Read (body_ops ops) n r =
    (let l = reader r in
     if limN l \<le> 0 then (([], Some EOF), r)
     else (case srcRead ops (if limN l < int n then nat (limN l) else n) (reader (limR l)) of ((p, e), s) \<Rightarrow>
       ((p, e), r\<lparr>reader := l\<lparr>limR := (limR l)\<lparr>reader := s\<rparr>, limN := limN l - int (length p)\<rparr>\<rparr>)))"
  using assms
  by (simp add: aligned_body_def unlimited_def Read_aligned lim_ops_def limRead_def br_ops_def Let_def split: prod.split)

lemma ReadByte_body_aligned:
  assumes "aligned_body r"
  shows "aligned_body (snd (ReadByte (body_ops ops) r))"
  using assms
  by (auto simp: aligned_body_def unlimited_def ReadByte_def readByteInternal_def lim_ops_def limRead_def br_ops_def Read_aligned
      split: prod.splits if_splits option.splits)

lemma Read_body_keeps_aligned: "aligned_body r \<Longrightarrow> aligned_body (snd (Read (body_ops ops) n r))"
  by (simp add: Read_body_aligned Let_def aligned_body_def unlimited_def split: prod.split)

context byte_source
begin

lemma source_and:
  assumes "\<And>rb r. srcReadByte ops = Some rb \<Longrightarrow> I r \<Longrightarrow> I (snd (rb r))"
    and "\<And>n r. 0 < n \<Longrightarrow> I r \<Longrightarrow> I (snd (srcRead ops n r))"
  shows "byte_source ops content fin (\<lambda>r. ok r \<and> I r)"
proof (unfold_locales, goal_cases)
  case (1 rb r b bs)
  then show ?case using source_read_byte_Cons [OF 1(1), of r b bs] assms(1) [OF 1(1), of r] by auto
next
  case (2 rb r)
  then show ?case using source_read_byte_Nil [OF 2(1), of r] assms(1) [OF 2(1), of r] by auto
next
  case (3 r n)
  from source_read [OF conjunct1 [OF 3(1)] 3(2)] obtain k e r' where r: "srcRead ops n r = ((take k (content r), e), r')"
    "k \<le> n" "k \<le> length (content r)" "ok r'" "content r' = drop k (content r)" "fin r' = fin r"
    "case e of None \<Rightarrow> 0 < k | Some x \<Rightarrow> x = fin r \<and> k = length (content r) \<and> k < n" by blast
  moreover have "I r'" using assms(2) [of n r] 3 r(1) by simp
  ultimately show ?case by (intro exI [of _ k] exI [of _ e] exI [of _ r']) simp
qed

lemma aligned_body_source:
  "byte_source (br_ops (body_ops ops)) (body_bytes content) (body_fin content fin)
     (\<lambda>r. body_ok content fin ok rest F r \<and> aligned_body r)"
  by (rule byte_source.source_and [OF body_source])
    (auto simp: br_ops_def [of "body_ops ops"] intro: ReadByte_body_aligned Read_body_keeps_aligned)

lemma ReadFrame_aligned:
  assumes "rok ok fr" "rsavedBits fr = 0" "rbits content fr = frame_bits t p @ rest" "length rest mod 8 = 0" "length p < 2 ^ 62"
  obtains r fr' where "ReadFrame ops fr = (Inr (t, r), fr')"
    "body_ok content fin ok rest (fin (reader fr)) r \<and> aligned_body r" "body_bytes content r = p"
proof -
  from ReadFrame_spec [OF assms(1,3,5)] obtain r fr' where r: "ReadFrame ops fr = (Inr (t, r), fr')"
    "body_ok content fin ok rest (fin (reader fr)) r" "body_bytes content r = p" .
  have s: "rsavedBits r = 0" "rsavedBits (unlimited r) < 8" using ReadFrame_saved [OF _ r(1)] assms(2) by auto
  have "tail_bits (rbits content (unlimited r)) = tail_bits rest"
    using r(2) by (simp add: body_ok_def rok_def limit_ok_def unlimited_def)
  moreover have "tail_bits rest = []" using assms(4) by (auto simp: tail_bits_def)
  ultimately have "length (rbits content (unlimited r)) mod 8 = 0"
    using length_stream_bytes [of content "unlimited r"] by simp
  then have "rsavedBits (unlimited r) mod 8 = 0" by (simp add: rbits_def)
  with s that [OF r(1) _ r(3)] r(2) show thesis by (simp add: aligned_body_def)
qed

end

context clean_source
begin

lemma drain_spec:
  assumes "0 < n"
  shows "ok r \<Longrightarrow> fin r = EOF \<Longrightarrow>
    \<exists>r'. drain ops n acc r = Some ((acc @ content r, EOF), r') \<and> ok r' \<and> content r' = [] \<and> fin r' = EOF"
proof (induction "length (content r)" arbitrary: r acc rule: less_induct)
  case less
  from clean_read [OF less.prems(1) assms less.prems(2)] show ?case
  proof (elim disjE exE conjE)
    fix k r'
    assume r: "srcRead ops n r = ((take k (content r), None), r')" "0 < k" "k \<le> length (content r)"
      "ok r'" "content r' = drop k (content r)" "fin r' = EOF"
    with less.hyps [of r' "acc @ take k (content r)"] show ?thesis by (simp add: drain.simps [of ops n acc r])
  qed (simp add: drain.simps [of ops n acc r])
qed

lemma clean_body:
  "clean_source (br_ops (body_ops ops)) (body_bytes content) (body_fin content fin)
     (\<lambda>r. body_ok content fin ok rest F r \<and> aligned_body r)"
proof (intro clean_source.intro aligned_body_source clean_source_axioms.intro)
  fix r n p e r'
  assume r: "body_ok content fin ok rest F r \<and> aligned_body r" "0 < n" "srcRead (br_ops (body_ops ops)) n r = ((p, Some e), r')"
  then have a: "Read (body_ops ops) n r = ((p, Some e), r')" "ok (reader (limR (reader r)))"
    by (simp_all add: br_ops_def [of "body_ops ops"] body_ok_def rok_def limit_ok_def)
  let ?l = "reader r"
  show "p = []"
  proof (cases "limN ?l \<le> 0")
    case True
    with a(1) r(1) show ?thesis by (simp add: Read_body_aligned Let_def)
  next
    case False
    then have m: "0 < (if limN ?l < int n then nat (limN ?l) else n)" using r(2) by simp
    from a(1) False r(1) obtain s where
      "srcRead ops (if limN ?l < int n then nat (limN ?l) else n) (reader (limR ?l)) = ((p, Some e), s)"
      by (auto simp: Read_body_aligned Let_def split: prod.splits)
    from clean [OF a(2) m this] show ?thesis .
  qed
qed

lemma drain_body:
  assumes "body_ok content fin ok rest F r \<and> aligned_body r" "0 < n"
  obtains r' where "drain (br_ops (body_ops ops)) n [] r = Some ((body_bytes content r, EOF), r')"
    "body_ok content fin ok rest F r' \<and> aligned_body r'" "body_bytes content r' = []"
proof -
  have "body_fin content fin r = EOF" using assms(1) by (simp add: body_ok_def)
  from clean_source.drain_spec [OF clean_body assms(2,1) this, of "[]"] that show thesis by auto
qed

end

section \<open>A message frame by frame\<close>

text \<open>\<open>block_decodes\<close>: the decoder reads the bytes of a header block as the given fields.\<close>

definition block_decodes :: "'r src_ops \<Rightarrow> ('r \<Rightarrow> byte list) \<Rightarrow> ('r \<Rightarrow> goerr) \<Rightarrow> ('r \<Rightarrow> bool) \<Rightarrow> u64 \<Rightarrow>
    QpackDecoder \<Rightarrow> byte list \<Rightarrow> HeaderField list \<Rightarrow> QpackDecoder \<Rightarrow> bool" where
  "block_decodes ops content fin ok i d b hs d' \<longleftrightarrow>
     (\<forall>rest F r. body_ok content fin ok rest F r \<and> aligned_body r \<and> body_bytes content r = b \<longrightarrow>
       (\<exists>r'. QpackReadHeaderBlock (br_ops (body_ops ops)) i d r = Some (Inr hs, d', r') \<and>
          body_ok content fin ok rest F r' \<and> aligned_body r' \<and> body_bytes content r' = []))"

definition frames_bits :: "(FrameType \<times> byte list) list \<Rightarrow> bool list" where
  "frames_bits fs = concat (map (\<lambda>(t, p). frame_bits t p) fs)"

lemma frames_bits_simps [simp]:
  "frames_bits [] = []" "frames_bits ((t, p) # fs) = frame_bits t p @ frames_bits fs"
  by (simp_all add: frames_bits_def)

lemma length_frames_bits: "length (frames_bits fs) mod 8 = 0"
proof (induction fs)
  case (Cons f fs)
  with length_frame_bits [of "fst f" "snd f"] show ?case
    by (cases f) (simp add: mod_add_eq [symmetric, of _ _ 8] del: mod_add_eq)
qed simp

context clean_source
begin

text \<open>The reader of a stream between two frames, with the frames \<open>fs\<close> to come.\<close>

abbreviation (input) at_frames :: "(FrameType \<times> byte list) list \<Rightarrow> 'r bitReader \<Rightarrow> bool" where
  "at_frames fs fr \<equiv> rok ok fr \<and> rsavedBits fr = 0 \<and> rbits content fr = frames_bits fs \<and> fin (reader fr) = EOF"

lemma at_frames_next:
  assumes "at_frames ((t, p) # fs) fr" "length p < 2 ^ 62"
  obtains r fr' where "ReadFrame ops fr = (Inr (t, r), fr')"
    "body_ok content fin ok (frames_bits fs) EOF r \<and> aligned_body r" "body_bytes content r = p"
  using assms ReadFrame_aligned [of fr t p "frames_bits fs"] length_frames_bits [of fs] that by auto

lemma at_frames_behind:
  assumes "body_ok content fin ok (frames_bits fs) EOF r \<and> aligned_body r" "body_bytes content r = []"
  shows "at_frames fs (unlimited r)"
  using assms body_ok_end [of "frames_bits fs" EOF r] by (simp add: aligned_body_def)

lemma messageLoop_end:
  assumes "at_frames [] fr"
  shows "\<exists>fr'. messageLoop ops n i hh fh got after msg fr = Some (None, msg, fr')"
proof -
  from ReadBits_spec [of fr 2] assms obtain fr' where "ReadFrame ops fr = (Inl EOF, fr')"
    by (auto simp: ReadFrame_def ReadVarint_def)
  then show ?thesis by (simp add: messageLoop.simps [of ops n i hh fh got after msg fr])
qed

lemma messageLoop_data:
  assumes "at_frames ((frameData, p) # fs) fr" "length p < 2 ^ 62" "0 < n"
  obtains fr' where "at_frames fs fr'"
    "messageLoop ops n i hh fh True False msg fr =
     messageLoop ops n i hh fh True False (msg\<lparr>mBody := mBody msg @ p\<rparr>) fr'"
proof -
  from at_frames_next [OF assms(1,2)] obtain r fr1 where r: "ReadFrame ops fr = (Inr (frameData, r), fr1)"
    "body_ok content fin ok (frames_bits fs) EOF r \<and> aligned_body r" "body_bytes content r = p" by blast
  from drain_body [OF r(2) assms(3)] r(3) obtain r' where
    "drain (br_ops (body_ops ops)) n [] r = Some ((p, EOF), r')"
    "body_ok content fin ok (frames_bits fs) EOF r' \<and> aligned_body r'" "body_bytes content r' = []" by metis
  with r(1) at_frames_behind [of fs r'] that show thesis
    by (simp add: messageLoop.simps [of ops n i hh fh True False msg fr] messageFrame_def)
qed

lemma messageLoop_headers:
  assumes "at_frames ((frameHeaders, b) # fs) fr" "length b < 2 ^ 62"
    "block_decodes ops content fin ok i (mDecoder msg) b hs d" "ValidatePseudoHeaders hs = None"
  obtains fr' where "at_frames fs fr'"
    "messageLoop ops n i hh fh got False msg fr =
       (let msg' = msg\<lparr>mDecoder := d\<rparr> in
        if got then messageLoop ops n i hh fh True True (msg'\<lparr>mTrailers := mTrailers msg @ [hs]\<rparr>) fr'
        else (case hh hs (mApp msg) of
            (Inl e, h) \<Rightarrow> Some (Some e, msg'\<lparr>mApp := h\<rparr>, fr')
          | (Inr got', h) \<Rightarrow> messageLoop ops n i hh fh got' False (msg'\<lparr>mApp := h\<rparr>) fr'))"
proof -
  from at_frames_next [OF assms(1,2)] obtain r fr1 where r: "ReadFrame ops fr = (Inr (frameHeaders, r), fr1)"
    "body_ok content fin ok (frames_bits fs) EOF r \<and> aligned_body r" "body_bytes content r = b" by blast
  from assms(3) r(2,3) obtain r' where
    "QpackReadHeaderBlock (br_ops (body_ops ops)) i (mDecoder msg) r = Some (Inr hs, d, r')"
    "body_ok content fin ok (frames_bits fs) EOF r' \<and> aligned_body r'" "body_bytes content r' = []"
    unfolding block_decodes_def by blast
  with r(1) at_frames_behind [of fs r'] assms(4) show thesis
    by (intro that [of "unlimited r'"])
      (simp_all add: messageLoop.simps [of ops n i hh fh got False msg fr] messageFrame_def frame_types Let_def split: prod.split sum.split)
qed

end

section \<open>Handling a message ends\<close>

definition frame_handler_returns :: "('r \<Rightarrow> byte list) \<Rightarrow> ('r \<Rightarrow> goerr) \<Rightarrow> ('r \<Rightarrow> bool) \<Rightarrow> ('r, 'h) frameHandler \<Rightarrow> bool" where
  "frame_handler_returns content fin ok fh \<longleftrightarrow> (\<forall>t d h m r. body_within content fin ok m r \<longrightarrow>
     (\<exists>err d' h' r'. fh t d h r = Some (err, d', h', r') \<and> body_within content fin ok m r'))"

context byte_source
begin

lemma drain_returns:
  assumes "0 < n"
  shows "ok r \<Longrightarrow> \<exists>p e r'. drain ops n acc r = Some ((p, e), r') \<and> ok r'"
proof (induction "length (content r)" arbitrary: r acc rule: less_induct)
  case less
  from source_read [OF less.prems assms] obtain k e r' where r: "srcRead ops n r = ((take k (content r), e), r')"
    "k \<le> length (content r)" "ok r'" "content r' = drop k (content r)" "e = None \<Longrightarrow> 0 < k"
    by (auto split: option.splits)
  show ?case
  proof (cases e)
    case None
    with less.hyps [of r' "acc @ take k (content r)"] r show ?thesis by (simp add: drain.simps [of ops n acc r])
  qed (use r in \<open>simp add: drain.simps [of ops n acc r]\<close>)
qed

lemma drain_body_returns:
  assumes "body_within content fin ok m r" "0 < n"
  obtains p e r' where "drain (br_ops (body_ops ops)) n [] r = Some ((p, e), r')" "body_within content fin ok m r'"
  using assms byte_source.drain_returns [OF body_range_source assms(2)] by (metis body_within_range)

lemma header_body_returns:
  assumes "body_within content fin ok m r"
  obtains x d' r' where "QpackReadHeaderBlock (br_ops (body_ops ops)) i d r = Some (x, d', r')" "body_within content fin ok m r'"
  using assms byte_source.QpackReadHeaderBlock_returns [OF body_range_source] by (metis body_within_range)

lemma messageFrame_returns:
  assumes "body_within content fin ok m r" "0 < n" "frame_handler_returns content fin ok fh"
  shows "\<exists>x msg' r'. messageFrame ops n i hh fh got msg t r = Some (x, msg', r') \<and> body_within content fin ok m r'"
proof -
  from drain_body_returns [OF assms(1,2)] obtain p e r1 where
    1: "drain (br_ops (body_ops ops)) n [] r = Some ((p, e), r1)" "body_within content fin ok m r1" .
  from header_body_returns [OF assms(1)] obtain x d' r2 where
    2: "QpackReadHeaderBlock (br_ops (body_ops ops)) i (mDecoder msg) r = Some (x, d', r2)" "body_within content fin ok m r2" .
  from assms(1,3) obtain err d'' h' r3 where
    3: "fh t (mDecoder msg) (mApp msg) r = Some (err, d'', h', r3)" "body_within content fin ok m r3"
    unfolding frame_handler_returns_def by blast
  consider "t = frameData" | "t = frameHeaders" | "t \<noteq> frameData" "t \<noteq> frameHeaders" by blast
  then show ?thesis
  proof cases
    case 1
    with \<open>drain _ n [] r = _\<close> \<open>body_within content fin ok m r1\<close> assms(1) show ?thesis by (simp add: messageFrame_def)
  next
    case 2
    with \<open>QpackReadHeaderBlock _ i _ r = _\<close> \<open>body_within content fin ok m r2\<close> show ?thesis
      by (simp add: messageFrame_def frame_types Let_def split: sum.split option.split prod.split)
  next
    case 3
    with \<open>fh t _ _ r = _\<close> \<open>body_within content fin ok m r3\<close> show ?thesis by (simp add: messageFrame_def)
  qed
qed

lemma messageLoop_returns:
  assumes "0 < n" "frame_handler_returns content fin ok fh"
  shows "rok ok fr \<Longrightarrow> \<exists>err msg' fr'. messageLoop ops n i hh fh got after msg fr = Some (err, msg', fr')"
proof (induction "length (rbits content fr)" arbitrary: got after msg fr rule: less_induct)
  case less
  obtain y fr1 where y: "ReadFrame ops fr = (y, fr1)" by fastforce
  note loop = messageLoop.simps [of ops n i hh fh got after msg fr]
  show ?case
  proof (cases y)
    case Inl
    with y show ?thesis by (simp add: loop)
  next
    case (Inr tr)
    obtain t r where tr: "tr = (t, r)" by fastforce
    with ReadFrame_takes [OF less.prems y] Inr obtain m where m: "m < length (rbits content fr)" "body_within content fin ok m r"
      by auto
    from messageFrame_returns [OF m(2) assms] obtain x msg' r' where
      f: "messageFrame ops n i hh fh got msg t r = Some (x, msg', r')" "body_within content fin ok m r'" by blast
    have "\<exists>err msg'' fr'. messageLoop ops n i hh fh g a msg' (unlimited r') = Some (err, msg'', fr')" for g a
      using body_within_stream [OF f(2)] m(1) by (intro less.hyps) auto
    then show ?thesis using y Inr tr f(1) by (auto simp: loop split: sum.split)
  qed
qed

end

section \<open>Properties of messages\<close>

text \<open>\<open>GetHeader\<close> joins the values of all fields of the name, case-insensitively for the name that is
  asked for, with commas and in order; empty values before the first other one leave no trace.\<close>

theorem GetHeader_joins:
  "GetHeader uni a n = joined (dropWhile (\<lambda>v. v = []) (map Value (filter (\<lambda>h. Name h = ToLower uni n) a)))"
  by (simp add: GetHeader_def getHeaderLoop_joined values_of_def)

text \<open>A status code survives the trip: what the server puts first into a response as decimal digits, the
  client reads back as the same number, whatever the other fields are.\<close>

theorem status_roundtrip:
  assumes "- (2 ^ 63) \<le> code" "code \<le> intMax" "\<forall>h \<in> set hs. ToLower uni (Name h) \<noteq> '':status''"
  shows "GetStatus uni (lowered uni (field '':status'' (Itoa code) # hs)) = code"
proof -
  have "filter (\<lambda>h. Name h = '':status'') (map (\<lambda>h. \<lparr>Name = ToLower uni (Name h), Value = Value h, Sensitive = Sensitive h\<rparr>) hs) = []"
    using assms(3) by (simp add: filter_empty_conv)
  then have "values_of '':status'' (lowered uni (field '':status'' (Itoa code) # hs)) = [Itoa code]"
    by (simp add: values_of_def lowered_def initHeaders_def field_def lower_names)
  from GetHeader_single [OF lower_names(1) this] Atoi_Itoa [OF assms(1,2)] show ?thesis by (simp add: GetStatus_def)
qed

theorem status_roundtrip_witness:
  "GetStatus id (lowered id [field '':status'' (Itoa 404), field ''Server'' ''minhq'']) = 404"
proof (rule status_roundtrip)
  show "\<forall>h \<in> set [field ''Server'' ''minhq'']. ToLower id (Name h) \<noteq> '':status''" by code_simp
qed (simp_all add: intMax_def)

text \<open>The target of a request. From the fields that \<open>buildRequestHeaderFields\<close> makes, lowered as the
  encoder does, \<open>getMethodAndTarget\<close> returns the method and what \<open>net/url\<close> resolves the escaped path of the
  requested URL to, relative to its scheme and host. The query of a URL is no part of its path.\<close>

theorem request_target:
  assumes "buildRequestHeaderFields uops method bas target hs = Inr (u, all)"
    "\<forall>h \<in> set hs. ToLower uni (Name h) \<notin> {'':method'', '':scheme'', '':authority'', '':path''}"
    "method \<noteq> ''''" "urlHost uops u \<noteq> ''''" "urlEscapedPath uops u \<noteq> ''''"
  shows "getMethodAndTarget uops uni (lowered uni all) =
    map_sum id (Pair method) (urlResolve uops (urlMake uops ''https'' (urlHost uops u)) (urlEscapedPath uops u))"
proof -
  let ?low = "map (\<lambda>h. \<lparr>Name = ToLower uni (Name h), Value = Value h, Sensitive = Sensitive h\<rparr>)"
  from assms(1) have all: "urlScheme uops u = ''https''" "all = [field '':authority'' (urlHost uops u),
      field '':path'' (urlEscapedPath uops u), field '':method'' method, field '':scheme'' (urlScheme uops u)] @ hs"
    by (auto simp: buildRequestHeaderFields_def split: sum.splits if_splits)
  have none: "filter (\<lambda>h. Name h = n) (?low hs) = []" if "n \<in> {'':method'', '':scheme'', '':authority'', '':path''}" for n
    using assms(2) that by (auto simp: filter_empty_conv)
  have "values_of '':method'' (lowered uni all) = [method]" "values_of '':scheme'' (lowered uni all) = [''https'']"
    "values_of '':authority'' (lowered uni all) = [urlHost uops u]"
    "values_of '':path'' (lowered uni all) = [urlEscapedPath uops u]"
    using all none by (simp_all add: values_of_def lowered_def initHeaders_def field_def lower_names)
  from this(1) [THEN GetHeader_single [OF lower_names(2)]] this(2) [THEN GetHeader_single [OF lower_names(3)]]
    this(3) [THEN GetHeader_single [OF lower_names(4)]] this(4) [THEN GetHeader_single [OF lower_names(5)]] assms(3-5)
  show ?thesis by (simp add: getMethodAndTarget_def)
qed

text \<open>URLs as triples of scheme, host and path, to instantiate the parameter.\<close>

definition triple_urls :: "(string \<times> string \<times> string) url_ops" where
  "triple_urls = \<lparr>urlParse = (\<lambda>s. Inr (''https'', ''example.com'', s)),
     urlResolve = (\<lambda>(sch, host, _) p. Inr (sch, host, p)), urlMake = (\<lambda>sch host. (sch, host, ''/'')),
     urlScheme = fst, urlHost = (\<lambda>u. fst (snd u)), urlEscapedPath = (\<lambda>u. snd (snd u))\<rparr>"

theorem request_target_witness:
  "\<exists>u all. buildRequestHeaderFields triple_urls ''GET'' None ''/a'' [field ''Accept'' ''*''] = Inr (u, all) \<and>
     getMethodAndTarget triple_urls id (lowered id all) = Inr (''GET'', (''https'', ''example.com'', ''/a''))"
proof -
  let ?u = "(''https'', ''example.com'', ''/a'')"
  obtain all where b: "buildRequestHeaderFields triple_urls ''GET'' None ''/a'' [field ''Accept'' ''*''] = Inr (?u, all)"
    by (simp add: buildRequestHeaderFields_def triple_urls_def)
  have "\<forall>h \<in> set [field ''Accept'' ''*'']. ToLower id (Name h) \<notin> {'':method'', '':scheme'', '':authority'', '':path''}"
    by code_simp
  from request_target [OF b this] b show ?thesis by (simp add: triple_urls_def)
qed

context clean_source
begin

lemma messageLoop_datas:
  assumes "0 < n"
  shows "at_frames (map (Pair frameData) ps @ fs) fr \<Longrightarrow> \<forall>p \<in> set ps. length p < 2 ^ 62 \<Longrightarrow>
    \<exists>fr'. at_frames fs fr' \<and> messageLoop ops n i hh fh True False msg fr =
      messageLoop ops n i hh fh True False (msg\<lparr>mBody := mBody msg @ concat ps\<rparr>) fr'"
proof (induction ps arbitrary: msg fr)
  case (Cons p ps)
  have "at_frames ((frameData, p) # map (Pair frameData) ps @ fs) fr" "length p < 2 ^ 62" using Cons.prems by simp_all
  from messageLoop_data [OF this assms, of i hh fh msg] obtain fr1 where
    1: "at_frames (map (Pair frameData) ps @ fs) fr1" "messageLoop ops n i hh fh True False msg fr =
      messageLoop ops n i hh fh True False (msg\<lparr>mBody := mBody msg @ p\<rparr>) fr1" by blast
  with Cons.IH [OF 1(1), of "msg\<lparr>mBody := mBody msg @ p\<rparr>"] Cons.prems(2) show ?case by simp
qed auto

lemma messageLoop_after_trailers:
  assumes "at_frames ((t, p) # fs) fr" "length p < 2 ^ 62"
  shows "\<exists>fr'. messageLoop ops n i hh fh got True msg fr = Some (Some ErrInvalidFrame, msg, fr')"
proof -
  from at_frames_next [OF assms] obtain r fr' where "ReadFrame ops fr = (Inr (t, r), fr')" by blast
  then show ?thesis by (simp add: messageLoop.simps [of ops n i hh fh got True msg fr])
qed

lemma messageLoop_data_first:
  assumes "at_frames ((frameData, p) # fs) fr" "length p < 2 ^ 62"
  shows "\<exists>fr'. messageLoop ops n i hh fh False False msg fr = Some (Some ErrInvalidFrame, msg, fr')"
proof -
  from at_frames_next [OF assms] obtain r fr' where "ReadFrame ops fr = (Inr (frameData, r), fr')" by blast
  then show ?thesis by (simp add: messageLoop.simps [of ops n i hh fh False False msg fr] messageFrame_def)
qed

text \<open>The first header block, the body and the trailers, before whatever follows.\<close>

lemma messageLoop_message:
  assumes "0 < n" "block_decodes ops content fin ok i (mDecoder msg) b hs d1" "ValidatePseudoHeaders hs = None"
    "hh hs (mApp msg) = (Inr True, app)" "length b < 2 ^ 62" "\<forall>p \<in> set ps. length p < 2 ^ 62"
    "at_frames ((frameHeaders, b) # map (Pair frameData) ps @ fs) fr"
  obtains fr' where "at_frames fs fr'" "messageLoop ops n i hh fh False False msg fr =
    messageLoop ops n i hh fh True False (msg\<lparr>mDecoder := d1, mApp := app, mBody := mBody msg @ concat ps\<rparr>) fr'"
proof -
  from messageLoop_headers [OF assms(7,5,2,3), of n hh fh False] assms(4) obtain fr1 where
    1: "at_frames (map (Pair frameData) ps @ fs) fr1" "messageLoop ops n i hh fh False False msg fr =
      messageLoop ops n i hh fh True False (msg\<lparr>mDecoder := d1, mApp := app\<rparr>) fr1"
    by (auto simp: Let_def)
  from messageLoop_datas [OF assms(1) 1(1) assms(6), of i hh fh "msg\<lparr>mDecoder := d1, mApp := app\<rparr>"] 1(2) that
  show thesis by auto
qed

end

lemma handleMessage_frames:
  assumes "clean_source ops content fin ok" "0 < n"
    "block_decodes ops content fin ok i d b hs d1" "ValidatePseudoHeaders hs = None" "hh hs app = (Inr True, app')"
    "length b < 2 ^ 62" "\<forall>p \<in> set ps. length p < 2 ^ 62"
    "case trailer of None \<Rightarrow> d2 = d1
     | Some (tb, ts) \<Rightarrow> block_decodes ops content fin ok i d1 tb ts d2 \<and> ValidatePseudoHeaders ts = None \<and> length tb < 2 ^ 62"
    "rok ok fr" "rsavedBits fr = 0" "fin (reader fr) = EOF"
    "rbits content fr = frames_bits ((frameHeaders, b) # map (Pair frameData) ps @
       (case trailer of None \<Rightarrow> [] | Some (tb, _) \<Rightarrow> [(frameHeaders, tb)]))"
  shows "\<exists>fr'. handleMessage ops n i hh fh (newIncomingMessage d app) fr =
    Some (None, \<lparr>mDecoder = d2, mBody = concat ps, mTrailers = (case trailer of None \<Rightarrow> [] | Some (_, ts) \<Rightarrow> [ts]),
      mClosed = True, mApp = app'\<rparr>, fr')"
proof -
  let ?fs = "case trailer of None \<Rightarrow> [] | Some (tb, _) \<Rightarrow> [(frameHeaders, tb)]"
  let ?msg = "newIncomingMessage d app\<lparr>mDecoder := d1, mApp := app', mBody := mBody (newIncomingMessage d app) @ concat ps\<rparr>"
  have "block_decodes ops content fin ok i (mDecoder (newIncomingMessage d app)) b hs d1"
    "hh hs (mApp (newIncomingMessage d app)) = (Inr True, app')"
    using assms(3,5) by (simp_all add: newIncomingMessage_def)
  from clean_source.messageLoop_message [where hh = hh and msg = "newIncomingMessage d app" and fs = ?fs and fr = fr and fh = fh,
      OF assms(1,2) this(1) assms(4) this(2) assms(6,7)] assms(9-12)
  obtain fr1 where 1: "rok ok fr1" "rsavedBits fr1 = 0" "rbits content fr1 = frames_bits ?fs" "fin (reader fr1) = EOF"
    "messageLoop ops n i hh fh False False (newIncomingMessage d app) fr = messageLoop ops n i hh fh True False ?msg fr1"
    by blast
  show ?thesis
  proof (cases trailer)
    case None
    with clean_source.messageLoop_end [OF assms(1), of fr1] 1 assms(8) show ?thesis
      by (fastforce simp: handleMessage_def newIncomingMessage_def)
  next
    case (Some tt)
    obtain tb ts where tt: "tt = (tb, ts)" by fastforce
    with assms(8) Some have t: "block_decodes ops content fin ok i (mDecoder ?msg) tb ts d2"
      "ValidatePseudoHeaders ts = None" "length tb < 2 ^ 62" by simp_all
    have at: "rok ok fr1 \<and> rsavedBits fr1 = 0 \<and> rbits content fr1 = frames_bits [(frameHeaders, tb)] \<and> fin (reader fr1) = EOF"
      using 1 Some tt by simp
    from clean_source.messageLoop_headers [OF assms(1) at t(3,1,2), of n hh fh True] obtain fr2 where
      "rok ok fr2 \<and> rsavedBits fr2 = 0 \<and> rbits content fr2 = frames_bits [] \<and> fin (reader fr2) = EOF"
      "messageLoop ops n i hh fh True False ?msg fr1 =
        messageLoop ops n i hh fh True True (?msg\<lparr>mDecoder := d2, mTrailers := mTrailers ?msg @ [ts]\<rparr>) fr2"
      by (auto simp: Let_def)
    with clean_source.messageLoop_end [OF assms(1), of fr2] 1(5) Some tt show ?thesis
      by (fastforce simp: handleMessage_def newIncomingMessage_def)
  qed
qed

end
