(* ===== verification/Delivery.thy ===== *)
theory Delivery
  imports Message
begin

text \<open>
  Messages from one endpoint to the other: what the writer of \<open>src/message.go\<close> puts on a stream is
  what its reader delivers, with the header codec and the frames in between; and what becomes of
  streams that do not hold a message.
\<close>

text \<open>C35: A message is delivered whole and in order. From a stream with a HEADERS frame, DATA frames and
  possibly a HEADERS frame with trailers, the handler of the role gets the fields of the first
  header block, the application reads the bodies of the DATA frames joined, and the trailers
  come last; then the channels are closed and no error is reported.\<close>

theorem message_delivered:
  assumes "clean_source ops content fin ok" "0 < n"
    "block_decodes ops content fin ok i d b hs d1" "ValidatePseudoHeaders hs = None" "hh hs app = (Inr True, app')"
    "length b < 2 ^ 62" "\<forall>p \<in> set ps. length p < 2 ^ 62"
    "case trailer of None \<Rightarrow> d2 = d1
     | Some (tb, ts) \<Rightarrow> block_decodes ops content fin ok i d1 tb ts d2 \<and> ValidatePseudoHeaders ts = None \<and> length tb < 2 ^ 62"
    "rok ok fr" "rsavedBits fr = 0" "fin (reader fr) = EOF"
    "rbits content fr = frames_bits ((frameHeaders, b) # map (Pair frameData) ps @
       (case trailer of None \<Rightarrow> [] | Some (tb, _) \<Rightarrow> [(frameHeaders, tb)]))"
  shows "\<exists>fr'. handleMessage ops n i hh fh (newIncomingMessage d app) fr =
    Some (None, \<lparr>mDecoder = d2, mBody = concat ps, mTrailers = (case trailer of None \<Rightarrow> [] | Some (_, ts) \<Rightarrow> [ts]),
      mClosed = True, mApp = app'\<rparr>, fr')"
  by (rule handleMessage_frames [where hh = hh and trailer = trailer, OF assms])

section \<open>From the writer of a message to its reader\<close>

context byte_source
begin

lemma block_decodes_spec:
  assumes "decodeLargestBase (dtable d) lr = Inr x" "0 \<le> x" "x \<le> base (dtable d)" "base (dtable d) \<le> intMax"
    "table_ok (dtable d)" "field_lines c (dtable d) x bs hs" "bytes_bits b = int_bits 8 (unat lr) @ int_bits 8 0 @ bs"
  shows "block_decodes ops content fin ok i d b hs (if x > 0 then send (Acknowledged i x) d else d)"
  unfolding block_decodes_def
proof (intro allI impI, elim conjE)
  fix rest F and r :: "'r body"
  assume r: "body_ok content fin ok rest F r" "aligned_body r" "body_bytes content r = b"
  then have "body_ok content fin ok rest F r \<and> aligned_body r" "bytes_bits (body_bytes content r) = int_bits 8 (unat lr) @ int_bits 8 0 @ bs"
    "body_fin content fin r = EOF" using assms(7) by (simp_all add: body_ok_def)
  from byte_source.QpackReadHeaderBlock_spec [OF aligned_body_source assms(1-6) this, of i]
  show "\<exists>r'. QpackReadHeaderBlock (br_ops (body_ops ops)) i d r =
      Some (Inr hs, (if x > 0 then send (Acknowledged i x) d else d), r') \<and>
      body_ok content fin ok rest F r' \<and> aligned_body r' \<and> body_bytes content r' = []" by blast
qed

text \<open>A block that an encoder wrote is decoded by a decoder whose table agrees with the encoder's.\<close>

lemma written_block_decodes_at:
  assumes "reliable_sink qops qout" "qenc_ok enc" "wsavedBits uw = 0" "call_fine qops uni i hs enc uw"
  obtains enc' uw' b ubs where "QpackWriteHeaderBlock qops buf_ops uni i hs enc uw w0 = (Inr (), enc', uw', w0 @ b)"
    "qenc_ok enc'" "wsavedBits uw' = 0" "qout (writer uw') = qout (writer uw) @ ubs"
    "updates (HuffmanPreference enc) (qcommon (qtable enc)) (bytes_bits ubs) (qcommon (qtable enc'))"
    "\<forall>d. dtable d = qcommon (qtable enc') \<longrightarrow>
       (\<exists>d'. block_decodes ops content fin ok i d b (lowered uni hs) d' \<and> dtable d' = dtable d)"
proof -
  from QpackWriteHeaderBlock_spec [OF assms(1) buf.reliable_sink_axioms assms(2-4), of w0] obtain enc' uw' b0 ubs lr x lines where
    w: "QpackWriteHeaderBlock qops buf_ops uni i hs enc uw w0 = (Inr (), enc', uw', b0)"
    "qenc_ok enc'" "wsavedBits uw' = 0" "qout (writer uw') = qout (writer uw) @ bits_bytes ubs"
    "bytes_bits (bits_bytes ubs) = ubs"
    "updates (HuffmanPreference enc) (qcommon (qtable enc)) ubs (qcommon (qtable enc'))"
    "b0 = w0 @ bits_bytes (int_bits 8 (unat lr) @ int_bits 8 0 @ lines)"
    "bytes_bits (bits_bytes (int_bits 8 (unat lr) @ int_bits 8 0 @ lines)) = int_bits 8 (unat lr) @ int_bits 8 0 @ lines"
    "field_lines (HuffmanPreference enc) (qcommon (qtable enc')) x lines (lowered uni hs)"
    "decodeLargestBase (qcommon (qtable enc')) lr = Inr x" "0 \<le> x" "x \<le> qbase enc'" "qbase enc' \<le> intMax"
    by blast
  let ?b = "bits_bytes (int_bits 8 (unat lr) @ int_bits 8 0 @ lines)"
  have t: "table_ok (qcommon (qtable enc'))" using w(2) by (simp add: qenc_ok_def acked_ok_def qtable_ok_def)
  have "\<exists>d'. block_decodes ops content fin ok i d ?b (lowered uni hs) d' \<and> dtable d' = dtable d"
    if "dtable d = qcommon (qtable enc')" for d
    using block_decodes_spec [of d lr x "HuffmanPreference enc" lines "lowered uni hs" ?b i] w(8-13) t that
    by (auto simp: send_def intro!: exI)
  with that [of enc' uw' ?b "bits_bytes ubs"] w(1-7) show thesis by simp
qed

lemma written_block_decodes:
  assumes "reliable_sink qops qout" "qenc_ok enc" "wsavedBits uw = 0" "call_fine qops uni i hs enc uw"
  obtains enc' uw' b ubs where "QpackWriteHeaderBlock qops buf_ops uni i hs enc uw [] = (Inr (), enc', uw', b)"
    "qenc_ok enc'" "wsavedBits uw' = 0" "qout (writer uw') = qout (writer uw) @ ubs"
    "updates (HuffmanPreference enc) (qcommon (qtable enc)) (bytes_bits ubs) (qcommon (qtable enc'))"
    "\<forall>d. dtable d = qcommon (qtable enc') \<longrightarrow>
       (\<exists>d'. block_decodes ops content fin ok i d b (lowered uni hs) d' \<and> dtable d' = dtable d)"
proof -
  obtain enc' uw' b ubs where "QpackWriteHeaderBlock qops buf_ops uni i hs enc uw [] = (Inr (), enc', uw', [] @ b)"
    "qenc_ok enc'" "wsavedBits uw' = 0" "qout (writer uw') = qout (writer uw) @ ubs"
    "updates (HuffmanPreference enc) (qcommon (qtable enc)) (bytes_bits ubs) (qcommon (qtable enc'))"
    "\<forall>d. dtable d = qcommon (qtable enc') \<longrightarrow>
       (\<exists>d'. block_decodes ops content fin ok i d b (lowered uni hs) d' \<and> dtable d' = dtable d)"
    by (rule written_block_decodes_at [OF assms])
  from that [OF this(1) [unfolded append_Nil] this(2-6)] show thesis .
qed

end

fun outWrites :: "'w stream_ops \<Rightarrow> byte list list \<Rightarrow> 'w sendStream \<Rightarrow> goerr option \<times> 'w sendStream" where
  "outWrites sops [] s = (None, s)"
| "outWrites sops (p # ps) s =
     (case outWrite sops p s of ((_, Some e), s') \<Rightarrow> (Some e, s') | ((_, None), s') \<Rightarrow> outWrites sops ps s')"

lemma outWrites_spec:
  assumes "reliable_sink (strSink sops) out"
  shows "wsavedBits s = 0 \<Longrightarrow> \<forall>p \<in> set ps. length p < 2 ^ 62 \<Longrightarrow>
    \<exists>s'. outWrites sops ps s = (None, s') \<and> wsavedBits s' = 0 \<and>
      bytes_bits (out (writer s')) = bytes_bits (out (writer s)) @ frames_bits (map (Pair frameData) ps)"
proof (induction ps arbitrary: s)
  case (Cons p ps)
  then have p: "length p < 2 ^ 62" by simp
  obtain n s1 where 1: "WriteFrame (strSink sops) frameData p s = ((n, None), s1)" "wsavedBits s1 = 0"
    "out (writer s1) = out (writer s) @ bits_bytes (frame_bits frameData p)"
    "bytes_bits (bits_bytes (frame_bits frameData p)) = frame_bits frameData p"
    by (rule reliable_sink.WriteFrame_bytes [OF assms p Cons.prems(1)])
  with Cons.IH [of s1] Cons.prems show ?case by (auto simp: outWrite_def)
qed simp

text \<open>A stream into a buffer, and a role that accepts no other frames.\<close>

definition buffer_stream :: "byte list stream_ops" where
  "buffer_stream = \<lparr>strSink = buf_ops, strClose = (\<lambda>w. (None, w)), strReset = (\<lambda>_ w. (None, w))\<rparr>"

definition no_frames :: "('r, 'h) frameHandler" where
  "no_frames t d h r = Some (Some ErrUnsupportedFrame, d, h, r)"

text \<open>C34: A request arrives. One endpoint writes a header block, with the updates for the peer's table on the
  encoder stream, and a body; the other reads the updates, whose table then agrees, and handles the
  message stream: it gets the same fields with lower-case names, exactly the bytes of the body and
  no error. The call is a fine one (\<open>call_fine\<close>): strings and counts are
  within their limits, and no entry that the block uses for its name is evicted by the block's own
  inserts.\<close>

theorem request_delivered:
  assumes "reliable_sink qops qout" "reliable_sink (strSink sops) sout" "clean_source rops content fin ok"
    "byte_source tops tcontent tfin tok"
    "qenc_ok enc" "wsavedBits uw = 0" "wsavedBits s = 0" "call_fine qops uni i hs enc uw" "dtable d = qcommon (qtable enc)"
    "ValidatePseudoHeaders (lowered uni hs) = None" "hh (lowered uni hs) app = (Inr True, app')" "0 < n"
    "\<forall>p \<in> set ps. length p < 2 ^ 62"
    "\<forall>enc' uw' b. QpackWriteHeaderBlock qops buf_ops uni i hs enc uw [] = (Inr (), enc', uw', b) \<longrightarrow> length b < 2 ^ 62"
  shows "\<exists>enc' uw' s1 s2 ubs bs. outWriteHeaderBlock qops sops uni i hs enc uw s = (None, enc', uw', s1) \<and>
    outWrites sops ps s1 = (None, s2) \<and> qout (writer uw') = qout (writer uw) @ ubs \<and>
    sout (writer s2) = sout (writer s) @ bs \<and> qenc_ok enc' \<and>
    (\<forall>q fr. tok q \<and> tcontent q = ubs \<and> tfin q = EOF \<and>
       rok ok fr \<and> rsavedBits fr = 0 \<and> content (reader fr) = bs \<and> fin (reader fr) = EOF \<longrightarrow>
      (\<exists>d1 q' d2 fr'. ReadTableUpdates tops d q = Some (Inr (), d1, q') \<and> dtable d1 = qcommon (qtable enc') \<and>
        handleMessage rops n i hh fh (newIncomingMessage d1 app) fr =
          Some (None, \<lparr>mDecoder = d2, mBody = concat ps, mTrailers = [], mClosed = True, mApp = app'\<rparr>, fr')))"
proof -
  note src = clean_source.axioms(1) [OF assms(3)]
  obtain enc' uw' b ubs where
    w: "QpackWriteHeaderBlock qops buf_ops uni i hs enc uw [] = (Inr (), enc', uw', b)"
    "qenc_ok enc'" "wsavedBits uw' = 0" "qout (writer uw') = qout (writer uw) @ ubs"
    "updates (HuffmanPreference enc) (qcommon (qtable enc)) (bytes_bits ubs) (qcommon (qtable enc'))"
    "\<forall>d. dtable d = qcommon (qtable enc') \<longrightarrow>
       (\<exists>d'. block_decodes rops content fin ok i d b (lowered uni hs) d' \<and> dtable d' = dtable d)"
    by (rule byte_source.written_block_decodes [OF src assms(1,5,6,8)])
  have b: "length b < 2 ^ 62" using assms(14) w(1) by blast
  obtain m s1 where s1: "WriteFrame (strSink sops) frameHeaders b s = ((m, None), s1)" "wsavedBits s1 = 0"
    "sout (writer s1) = sout (writer s) @ bits_bytes (frame_bits frameHeaders b)"
    "bytes_bits (bits_bytes (frame_bits frameHeaders b)) = frame_bits frameHeaders b"
    by (rule reliable_sink.WriteFrame_bytes [OF assms(2) b assms(7)])
  obtain s2 where s2: "outWrites sops ps s1 = (None, s2)"
    "bytes_bits (sout (writer s2)) = bytes_bits (sout (writer s1)) @ frames_bits (map (Pair frameData) ps)"
    using outWrites_spec [OF assms(2) s1(2) assms(13)] by blast
  let ?fs = "(frameHeaders, b) # map (Pair frameData) ps"
  let ?bs = "bits_bytes (frames_bits ?fs)"
  have "bytes_bits (sout (writer s2)) = bytes_bits (sout (writer s)) @ frames_bits ?fs" using s1(3,4) s2(2) by simp
  then have out: "sout (writer s2) = sout (writer s) @ ?bs" by (metis bits_bytes_bytes_append bits_bytes_bytes_bits)
  have bs: "bytes_bits ?bs = frames_bits ?fs"
    using bytes_and_tail_bits [of "frames_bits ?fs"] length_frames_bits [of ?fs] by (auto simp: tail_bits_def)
  have "\<exists>d1 q' d2 fr'. ReadTableUpdates tops d q = Some (Inr (), d1, q') \<and> dtable d1 = qcommon (qtable enc') \<and>
        handleMessage rops n i hh fh (newIncomingMessage d1 app) fr =
          Some (None, \<lparr>mDecoder = d2, mBody = concat ps, mTrailers = [], mClosed = True, mApp = app'\<rparr>, fr')"
    if q: "tok q" "tcontent q = ubs" "tfin q = EOF" and fr: "rok ok fr" "rsavedBits fr = 0" "content (reader fr) = ?bs"
      "fin (reader fr) = EOF" for q fr
  proof -
    have up: "updates (HuffmanPreference enc) (dtable d) (bytes_bits ubs) (qcommon (qtable enc'))" "table_ok (dtable d)"
      using w(5) assms(5,9) by (simp_all add: qenc_ok_def acked_ok_def qtable_ok_def)
    from byte_source.ReadTableUpdates_spec [OF assms(4) up q(1) _ q(3)] q(2) obtain d1 q' where
      d1: "ReadTableUpdates tops d q = Some (Inr (), d1, q')" "dtable d1 = qcommon (qtable enc')" by auto
    from w(6) d1(2) obtain d2 where d2: "block_decodes rops content fin ok i d1 b (lowered uni hs) d2" by blast
    have "rbits content fr = frames_bits ?fs" using fr(2,3) bs by (simp add: rbits_def)
    with handleMessage_frames [where hh = hh and trailer = None and fh = fh, OF assms(3,12) d2 assms(10,11) b assms(13) _ fr(1,2,4)] d1
    show ?thesis by fastforce
  qed
  then show ?thesis
    using w(1,2,4) s1(1) s2(1) out by (simp add: outWriteHeaderBlock_def)
qed

lemma example_length:
  assumes "QpackWriteHeaderBlock buf_ops buf_ops id 4 example_request (example_encoder 4096) (NewBitWriter []) [] = (x, enc', uw', b)"
  shows "length b < 2 ^ 62"
proof -
  have "case QpackWriteHeaderBlock buf_ops buf_ops id 4 example_request (example_encoder 4096) (NewBitWriter []) [] of
      (x, enc', uw', b) \<Rightarrow> length b \<le> 20" by code_simp
  with assms show ?thesis by simp
qed

theorem request_delivered_witness:
  "\<exists>enc' uw' s1 s2 d1 q' d2 fr'. outWriteHeaderBlock buf_ops buffer_stream id 4 example_request (example_encoder 4096)
       (NewBitWriter []) (NewBitWriter []) = (None, enc', uw', s1) \<and>
     outWrites buffer_stream [[1, 2], [3]] s1 = (None, s2) \<and>
     ReadTableUpdates source_ops (NewQpackDecoder 4096) (writer uw', EOF) = Some (Inr (), d1, q') \<and>
     handleMessage source_ops 16 4 (\<lambda>hs app. (Inr True, app @ [hs])) no_frames (newIncomingMessage d1 [])
         (NewBitReader (writer s2, EOF)) =
       Some (None, \<lparr>mDecoder = d2, mBody = [1, 2, 3], mTrailers = [], mClosed = True,
         mApp = [[example_field '':method'' ''GET'', example_field ''x-a'' ''1'']]\<rparr>, fr')"
proof -
  have w: "wsavedBits (NewBitWriter []) = 0" "writer (NewBitWriter []) = []" by (simp_all add: NewBitWriter_def)
  have sink: "reliable_sink (strSink buffer_stream) (\<lambda>w. w)"
    using buf.reliable_sink_axioms by (simp add: buffer_stream_def)
  have b: "\<forall>enc' uw' b. QpackWriteHeaderBlock buf_ops buf_ops id 4 example_request (example_encoder 4096)
      (NewBitWriter []) [] = (Inr (), enc', uw', b) \<longrightarrow> length b < 2 ^ 62" using example_length by blast
  have v: "ValidatePseudoHeaders (lowered id example_request) = None" by code_simp
  have p: "\<forall>p \<in> set [[1, 2], [3 :: byte]]. length p < 2 ^ 62" by simp
  from request_delivered [where hh = "\<lambda>hs app. (Inr True, app @ [hs])" and app = "[]" and n = 16 and fh = no_frames,
      OF buf.reliable_sink_axioms sink src.clean_source_axioms src.byte_source_axioms example_encoder_ok w(1) w(1)
        example_fine example_tables v refl _ p b]
  obtain enc' uw' s1 s2 ubs bs where r:
    "outWriteHeaderBlock buf_ops buffer_stream id 4 example_request (example_encoder 4096) (NewBitWriter []) (NewBitWriter []) = (None, enc', uw', s1)"
    "outWrites buffer_stream [[1, 2], [3]] s1 = (None, s2)" "writer uw' = ubs" "writer s2 = bs"
    "\<forall>q fr. fst q = ubs \<and> snd q = EOF \<and> rok (\<lambda>_. True) fr \<and> rsavedBits fr = 0 \<and> fst (reader fr) = bs \<and> snd (reader fr) = EOF \<longrightarrow>
      (\<exists>d1 q' d2 fr'. ReadTableUpdates source_ops (NewQpackDecoder 4096) q = Some (Inr (), d1, q') \<and> dtable d1 = qcommon (qtable enc') \<and>
        handleMessage source_ops 16 4 (\<lambda>hs app. (Inr True, app @ [hs])) no_frames (newIncomingMessage d1 []) fr =
          Some (None, \<lparr>mDecoder = d2, mBody = concat [[1, 2], [3]], mTrailers = [], mClosed = True,
            mApp = [] @ [lowered id example_request]\<rparr>, fr'))"
    by (auto simp: w(2))
  from r(5) [rule_format, of "(ubs, EOF)" "NewBitReader (bs, EOF)"] r(1-4) show ?thesis
    by (fastforce simp: rok_def NewBitReader_def example_lowered)
qed

text \<open>A block that can be decoded twice, and a reader of frames.\<close>

lemma example_blocks:
  obtains b d d1 d2 where "block_decodes source_ops fst snd (\<lambda>_. True) 4 d b (lowered id example_request) d1"
    "block_decodes source_ops fst snd (\<lambda>_. True) 4 d1 b (lowered id example_request) d2" "length b < 2 ^ 62"
proof -
  have w: "wsavedBits (NewBitWriter []) = 0" by (simp add: NewBitWriter_def)
  obtain enc' uw' b ubs where
    b: "QpackWriteHeaderBlock buf_ops buf_ops id 4 example_request (example_encoder 4096) (NewBitWriter []) [] = (Inr (), enc', uw', b)"
    "qenc_ok enc'" "wsavedBits uw' = 0" "writer uw' = writer (NewBitWriter []) @ ubs"
    "updates (HuffmanPreference (example_encoder 4096)) (qcommon (qtable (example_encoder 4096))) (bytes_bits ubs) (qcommon (qtable enc'))"
    "\<forall>d. dtable d = qcommon (qtable enc') \<longrightarrow>
       (\<exists>d'. block_decodes source_ops fst snd (\<lambda>_. True) 4 d b (lowered id example_request) d' \<and> dtable d' = dtable d)"
    by (rule byte_source.written_block_decodes [OF src.byte_source_axioms buf.reliable_sink_axioms example_encoder_ok w example_fine]) simp
  have len: "length b < 2 ^ 62" by (rule example_length [OF b(1)])
  let ?d = "(NewQpackDecoder 0)\<lparr>dtable := qcommon (qtable enc')\<rparr>"
  from b(6) [rule_format, of ?d] obtain d1 where
    d1: "block_decodes source_ops fst snd (\<lambda>_. True) 4 ?d b (lowered id example_request) d1" "dtable d1 = qcommon (qtable enc')"
    by auto
  from b(6) d1(2) obtain d2 where "block_decodes source_ops fst snd (\<lambda>_. True) 4 d1 b (lowered id example_request) d2" by blast
  with d1(1) len that show thesis by blast
qed

lemma example_valid: "ValidatePseudoHeaders (lowered id example_request) = None"
  by code_simp

definition frames_reader :: "(FrameType \<times> byte list) list \<Rightarrow> source bitReader" where
  "frames_reader fs = NewBitReader (bits_bytes (frames_bits fs), EOF)"

lemma frames_reader:
  "rok (\<lambda>_. True) (frames_reader fs)" "rsavedBits (frames_reader fs) = 0" "snd (reader (frames_reader fs)) = EOF"
  "rbits fst (frames_reader fs) = frames_bits fs"
  using bytes_and_tail_bits [of "frames_bits fs"] length_frames_bits [of fs]
  by (auto simp: tail_bits_def frames_reader_def rok_def rbits_def NewBitReader_def)

theorem message_delivered_witness:
  "\<exists>b d d2 fr'. handleMessage source_ops 16 4 (\<lambda>hs app. (Inr True, app @ [hs])) no_frames (newIncomingMessage d [])
     (frames_reader [(frameHeaders, b), (frameData, [1, 2]), (frameHeaders, b)]) =
     Some (None, \<lparr>mDecoder = d2, mBody = [1, 2], mTrailers = [lowered id example_request], mClosed = True,
       mApp = [lowered id example_request]\<rparr>, fr')"
proof -
  obtain b d d1 d2 where b: "block_decodes source_ops fst snd (\<lambda>_. True) 4 d b (lowered id example_request) d1"
    "block_decodes source_ops fst snd (\<lambda>_. True) 4 d1 b (lowered id example_request) d2" "length b < 2 ^ 62"
    by (rule example_blocks)
  from message_delivered [where hh = "\<lambda>hs app. (Inr True, app @ [hs])" and app = "[]" and n = 16 and fh = no_frames and
      ps = "[[1, 2]]" and trailer = "Some (b, lowered id example_request)",
      OF src.clean_source_axioms _ b(1) example_valid refl b(3) _ _ frames_reader(1-3)] b(2,3) example_valid frames_reader(4)
  show ?thesis by fastforce
qed

text \<open>The order of frames is enforced. A DATA frame before the first header block ends the message with
  \<open>ErrInvalidFrame\<close>; nothing is delivered and the decoder is told that the stream was cancelled.\<close>

theorem data_before_headers:
  assumes "clean_source ops content fin ok" "rok ok fr" "rsavedBits fr = 0" "fin (reader fr) = EOF"
    "rbits content fr = frames_bits ((frameData, p) # fs)" "length p < 2 ^ 62"
  shows "\<exists>fr'. handleMessage ops n i hh fh (newIncomingMessage d app) fr =
    Some (Some ErrInvalidFrame, \<lparr>mDecoder = QpackCancelled i d, mBody = [], mTrailers = [], mClosed = True, mApp = app\<rparr>, fr')"
proof -
  from clean_source.messageLoop_data_first [OF assms(1), where p = p and fs = fs and fr = fr and n = n and i = i and hh = hh and
      fh = fh and msg = "newIncomingMessage d app"] assms(2-6)
  obtain fr' where "messageLoop ops n i hh fh False False (newIncomingMessage d app) fr =
      Some (Some ErrInvalidFrame, newIncomingMessage d app, fr')" by blast
  then show ?thesis by (simp add: handleMessage_def newIncomingMessage_def ErrInvalidFrame_def)
qed

theorem data_before_headers_witness:
  "\<exists>fr'. handleMessage source_ops 16 4 (\<lambda>hs app. (Inr True, app)) no_frames (newIncomingMessage (NewQpackDecoder 0) ())
     (frames_reader [(frameData, [7])]) =
     Some (Some ErrInvalidFrame, \<lparr>mDecoder = QpackCancelled 4 (NewQpackDecoder 0), mBody = [], mTrailers = [],
       mClosed = True, mApp = ()\<rparr>, fr')"
  by (rule data_before_headers [OF src.clean_source_axioms frames_reader]) simp

text \<open>Nothing may follow the trailers: any further frame ends the message with \<open>ErrInvalidFrame\<close> after the
  fields, the body and the trailers have been delivered.\<close>

theorem frame_after_trailers:
  assumes "clean_source ops content fin ok" "0 < n"
    "block_decodes ops content fin ok i d b hs d1" "ValidatePseudoHeaders hs = None" "hh hs app = (Inr True, app')"
    "block_decodes ops content fin ok i d1 tb ts d2" "ValidatePseudoHeaders ts = None"
    "length b < 2 ^ 62" "\<forall>p \<in> set ps. length p < 2 ^ 62" "length tb < 2 ^ 62" "length q < 2 ^ 62"
    "rok ok fr" "rsavedBits fr = 0" "fin (reader fr) = EOF"
    "rbits content fr = frames_bits ((frameHeaders, b) # map (Pair frameData) ps @ (frameHeaders, tb) # (t, q) # fs)"
  shows "\<exists>fr'. handleMessage ops n i hh fh (newIncomingMessage d app) fr =
    Some (Some ErrInvalidFrame, \<lparr>mDecoder = QpackCancelled i d2, mBody = concat ps, mTrailers = [ts],
      mClosed = True, mApp = app'\<rparr>, fr')"
proof -
  let ?msg = "newIncomingMessage d app\<lparr>mDecoder := d1, mApp := app', mBody := mBody (newIncomingMessage d app) @ concat ps\<rparr>"
  have "block_decodes ops content fin ok i (mDecoder (newIncomingMessage d app)) b hs d1"
    "hh hs (mApp (newIncomingMessage d app)) = (Inr True, app')" "block_decodes ops content fin ok i (mDecoder ?msg) tb ts d2"
    using assms(3,5,6) by (simp_all add: newIncomingMessage_def)
  note b = this
  from clean_source.messageLoop_message [where hh = hh and msg = "newIncomingMessage d app" and
      fs = "(frameHeaders, tb) # (t, q) # fs" and fr = fr and fh = fh, OF assms(1,2) b(1) assms(4) b(2) assms(8,9)] assms(12-15)
  obtain fr1 where 1: "rok ok fr1 \<and> rsavedBits fr1 = 0 \<and> rbits content fr1 = frames_bits ((frameHeaders, tb) # (t, q) # fs) \<and> fin (reader fr1) = EOF"
    "messageLoop ops n i hh fh False False (newIncomingMessage d app) fr = messageLoop ops n i hh fh True False ?msg fr1"
    by blast
  from clean_source.messageLoop_headers [OF assms(1) 1(1) assms(10) b(3) assms(7), of n hh fh True] obtain fr2 where
    2: "rok ok fr2 \<and> rsavedBits fr2 = 0 \<and> rbits content fr2 = frames_bits ((t, q) # fs) \<and> fin (reader fr2) = EOF"
    "messageLoop ops n i hh fh True False ?msg fr1 =
      messageLoop ops n i hh fh True True (?msg\<lparr>mDecoder := d2, mTrailers := mTrailers ?msg @ [ts]\<rparr>) fr2"
    by (auto simp: Let_def)
  from clean_source.messageLoop_after_trailers [OF assms(1) 2(1) assms(11), of n i hh fh True] 1(2) 2(2) show ?thesis
    by (fastforce simp: handleMessage_def newIncomingMessage_def ErrInvalidFrame_def)
qed

theorem frame_after_trailers_witness:
  "\<exists>b d d2 fr'. handleMessage source_ops 16 4 (\<lambda>hs app. (Inr True, app @ [hs])) no_frames (newIncomingMessage d [])
     (frames_reader [(frameHeaders, b), (frameData, [1, 2]), (frameHeaders, b), (frameData, [3])]) =
     Some (Some ErrInvalidFrame, \<lparr>mDecoder = QpackCancelled 4 d2, mBody = [1, 2], mTrailers = [lowered id example_request],
       mClosed = True, mApp = [lowered id example_request]\<rparr>, fr')"
proof -
  obtain b d d1 d2 where b: "block_decodes source_ops fst snd (\<lambda>_. True) 4 d b (lowered id example_request) d1"
    "block_decodes source_ops fst snd (\<lambda>_. True) 4 d1 b (lowered id example_request) d2" "length b < 2 ^ 62"
    by (rule example_blocks)
  from frame_after_trailers [where hh = "\<lambda>hs app. (Inr True, app @ [hs])" and app = "[]" and n = 16 and fh = no_frames and
      ps = "[[1, 2]]" and q = "[3]" and t = frameData and fs = "[]",
      OF src.clean_source_axioms _ b(1) example_valid refl b(2) example_valid b(3) _ b(3) _ frames_reader(1-3)] frames_reader(4)
  show ?thesis by fastforce
qed

section \<open>Frames cut short\<close>

context byte_source
begin

lemma ReadFrame_short:
  assumes "rok ok fr" "rsavedBits fr = 0" "fin (reader fr) = EOF" "length p < unat k" "unat k < 2 ^ 62"
    "rbits content fr = varint_bits k @ bits 8 t @ bytes_bits p"
  obtains r fr' where "ReadFrame ops fr = (Inr (t, r), fr')"
    "body_ok content fin ok [] EOF r \<and> aligned_body r" "body_bytes content r = p"
proof -
  from ReadVarint_consumes [OF assms(5)] assms(1,3,6) obtain fr1 where 1:
    "ReadVarint ops fr = (Inr k, fr1)" "rok ok fr1" "rbits content fr1 = bits 8 t @ bytes_bits p" "fin (reader fr1) = EOF"
    by (auto elim!: consumesE)
  from ReadByte_spec [OF 1(2)] 1(3,4) obtain fr2 where
    2: "ReadByte ops fr1 = (Inr t, fr2)" "rok ok fr2" "rbits content fr2 = bytes_bits p" "fin (reader fr2) = EOF"
    by (auto simp: take_bit_length_eq [where 'a = 8, simplified])
  have r: "ReadFrame ops fr = (Inr (t, Limited k fr2), fr2)" using 1(1) 2(1) by (simp add: ReadFrame_def)
  have "sint (word_of_nat m :: u64) = int m" if "m < 2 ^ 62" for m
    using that by (simp add: signed_of_nat signed_take_bit_int_eq_self)
  from this [OF assms(5)] have n: "nat (sint k) = unat k" by simp
  have "length (rbits content fr2) mod 8 = 0" using 2(3) by simp
  then have "rsavedBits fr2 mod 8 = 0" by (simp add: rbits_def)
  moreover have "rsavedBits fr2 < 8" using ReadFrame_saved [OF _ r] assms(2) by (simp add: Limited_def NewBitReader_def unlimited_def)
  ultimately have "aligned_body (Limited k fr2)" by (simp add: aligned_body_def Limited_def NewBitReader_def unlimited_def)
  moreover have "body_ok content fin ok [] EOF (Limited k fr2)" "body_bytes content (Limited k fr2) = p"
    using 2(2-4) n assms(4)
    by (simp_all add: Limited_def NewBitReader_def rok_def rbits_def [of "lim_content _"] body_ok_def body_bytes_def
        body_fin_def limit_ok_def stream_bytes_def lim_content_def lim_fin_def tail_bits_bytes tail_bits_def [of "[]"])
  ultimately show thesis using that [OF r] by blast
qed

end

text \<open>A DATA frame that the end of the stream cuts short is taken as complete: once the first header block
  is in, the bytes that arrived are added to the body and the message ends without an error.\<close>

theorem truncated_data_accepted:
  assumes "clean_source ops content fin ok" "0 < n" "rok ok fr" "rsavedBits fr = 0" "fin (reader fr) = EOF"
    "length p < unat k" "unat k < 2 ^ 62" "rbits content fr = varint_bits k @ bits 8 frameData @ bytes_bits p"
  shows "\<exists>fr'. messageLoop ops n i hh fh True False msg fr = Some (None, msg\<lparr>mBody := mBody msg @ p\<rparr>, fr')"
proof -
  obtain r fr1 where r: "ReadFrame ops fr = (Inr (frameData, r), fr1)"
    "body_ok content fin ok [] EOF r \<and> aligned_body r" "body_bytes content r = p"
    by (rule byte_source.ReadFrame_short [OF clean_source.axioms(1) [OF assms(1)] assms(3-8)])
  obtain r' where d: "drain (br_ops (body_ops ops)) n [] r = Some ((p, EOF), r')"
    "body_ok content fin ok [] EOF r' \<and> aligned_body r'" "body_bytes content r' = []"
    by (rule clean_source.drain_body [OF assms(1) r(2) assms(2), unfolded r(3)])
  have "rok ok (unlimited r') \<and> rsavedBits (unlimited r') = 0 \<and> rbits content (unlimited r') = frames_bits [] \<and>
      fin (reader (unlimited r')) = EOF"
    using clean_source.at_frames_behind [OF assms(1), of "[]" r'] d(2,3) by simp
  from clean_source.messageLoop_end [OF assms(1) this, of n i hh fh True False "msg\<lparr>mBody := mBody msg @ p\<rparr>"] r(1) d(1)
  show ?thesis by (simp add: messageLoop.simps [of ops n i hh fh True False msg fr] messageFrame_def)
qed

theorem truncated_data_accepted_witness:
  "\<exists>fr'. messageLoop source_ops 16 4 (\<lambda>hs app. (Inr True, app)) no_frames True False (newIncomingMessage (NewQpackDecoder 0) ())
     (NewBitReader ([5, 0, 1, 2], EOF)) = Some (None, (newIncomingMessage (NewQpackDecoder 0) ())\<lparr>mBody := [1, 2]\<rparr>, fr')"
proof -
  have "rbits fst (NewBitReader ([5, 0, 1, 2], EOF)) = varint_bits 5 @ bits 8 frameData @ bytes_bits [1, 2]" by code_simp
  from truncated_data_accepted [OF src.clean_source_axioms _ _ _ _ _ _ this, of 16 4 "\<lambda>hs app. (Inr True, app)" no_frames
      "newIncomingMessage (NewQpackDecoder 0) ()"]
  show ?thesis by (simp add: rok_def NewBitReader_def newIncomingMessage_def)
qed

text \<open>Handling a message always comes to an end, whatever bytes arrive and whatever error ends them: if the
  role's handler of other frames returns, so does \<open>handleMessage\<close>, with buffers of any positive size.\<close>

theorem handleMessage_returns:
  assumes "byte_source ops content fin ok" "0 < n" "frame_handler_returns content fin ok fh" "rok ok fr"
  shows "\<exists>err msg' fr'. handleMessage ops n i hh fh msg fr = Some (err, msg', fr')"
  using byte_source.messageLoop_returns [OF assms, of i hh False False msg] by (auto simp: handleMessage_def)

theorem handleMessage_returns_witness:
  "\<exists>err msg' fr'. handleMessage source_ops 16 4 (\<lambda>hs app. (Inr True, app)) no_frames (newIncomingMessage (NewQpackDecoder 0) ())
     (NewBitReader ([64, 1, 1, 255, 255], ErrUnexpectedEOF)) = Some (err, msg', fr')"
  by (rule handleMessage_returns [OF src.byte_source_axioms])
    (simp_all add: frame_handler_returns_def no_frames_def rok_def NewBitReader_def)

end
