(* ===== verification/Connection.thy ===== *)
theory Connection
  imports Delivery
begin

text \<open>
  Connections, \<open>src/connection.go\<close>: error codes, the types of unidirectional streams, setting up
  a connection and serving the streams of the peer. The QUIC connection below (\<open>src/mw\<close> over
  minq) is the parameter \<open>net_ops\<close>. A goroutine is the function of the state that it finds and
  the state that it leaves.
\<close>

section \<open>Constants\<close>

type_synonym HTTPError = "16 word"

definition ErrHttpStopping :: HTTPError where "ErrHttpStopping = 0"
definition ErrHttpNoError :: HTTPError where "ErrHttpNoError = 1"
definition ErrHttpPushRefused :: HTTPError where "ErrHttpPushRefused = 2"
definition ErrHttpInternalError :: HTTPError where "ErrHttpInternalError = 3"
definition ErrHttpPushAlreadyInCache :: HTTPError where "ErrHttpPushAlreadyInCache = 4"
definition ErrHttpRequestCancelled :: HTTPError where "ErrHttpRequestCancelled = 5"
definition ErrHttpDecompressionFailed :: HTTPError where "ErrHttpDecompressionFailed = 6"
definition ErrHttpUnknownStreamType :: HTTPError where "ErrHttpUnknownStreamType = 13"

lemmas http_errors = ErrHttpStopping_def ErrHttpNoError_def ErrHttpPushRefused_def ErrHttpInternalError_def
  ErrHttpPushAlreadyInCache_def ErrHttpRequestCancelled_def ErrHttpDecompressionFailed_def ErrHttpUnknownStreamType_def

definition HTTPError_String :: "HTTPError \<Rightarrow> string" where
  "HTTPError_String e =
     (if e = ErrHttpStopping then ''STOPPING''
      else if e = ErrHttpNoError then ''NO_ERROR''
      else if e = ErrHttpPushRefused then ''PUSH_REFUSED''
      else if e = ErrHttpInternalError then ''INTERNAL_ERROR''
      else if e = ErrHttpPushAlreadyInCache then ''PUSH_ALREADY_IN_CACHE''
      else if e = ErrHttpRequestCancelled then ''REQUEST_CANCELLED''
      else if e = ErrHttpDecompressionFailed then ''HTTP_HPACK_DECOMPRESSION_FAILED''
      else if e = ErrHttpUnknownStreamType then ''HTTP_UNKNOWN_STREAM_TYPE''
      else ''Too lazy to do this right now'')"

type_synonym unidirectionalStreamType = byte

definition unidirectionalStreamControl :: unidirectionalStreamType where "unidirectionalStreamControl = 0x43"
definition unidirectionalStreamPush :: unidirectionalStreamType where "unidirectionalStreamPush = 0x50"
definition unidirectionalStreamQpackEncoder :: unidirectionalStreamType where "unidirectionalStreamQpackEncoder = 0x48"
definition unidirectionalStreamQpackDecoder :: unidirectionalStreamType where "unidirectionalStreamQpackDecoder = 0x68"

lemmas stream_types = unidirectionalStreamControl_def unidirectionalStreamPush_def
  unidirectionalStreamQpackEncoder_def unidirectionalStreamQpackDecoder_def

definition unidirectionalStreamType_String :: "unidirectionalStreamType \<Rightarrow> string" where
  "unidirectionalStreamType_String ut =
     (if ut = unidirectionalStreamControl then ''Control''
      else if ut = unidirectionalStreamPush then ''Push''
      else if ut = unidirectionalStreamQpackEncoder then ''QPACK Encoder''
      else if ut = unidirectionalStreamQpackDecoder then ''QPACK Decoder''
      else ''Unknown'')"

definition ErrWtf :: HTTPError where "ErrWtf = 3"

definition ErrStreamBlocked :: goerr where
  "ErrStreamBlocked = ErrOther ''Unable to open a new stream for the request''"

section \<open>The connection\<close>

text \<open>
  What the code uses of \<open>mw.Connection\<close> on the state \<open>'n\<close> of the QUIC connection: the sending
  side of its streams and their numbers, new streams, with \<open>None\<close> for \<open>nil\<close>, closing with an
  application error, and whether the connection is established. A receiving stream is read and
  can be told to stop.
\<close>

record ('n, 'w) net_ops =
  netStream :: "'w stream_ops"
  netId :: "'w \<Rightarrow> u64"
  netCreateStream :: "'n \<Rightarrow> 'w option \<times> 'n"
  netCreateSendStream :: "'n \<Rightarrow> 'w option \<times> 'n"
  netEstablished :: "'n \<Rightarrow> bool"
  netError :: "16 word \<Rightarrow> string \<Rightarrow> 'n \<Rightarrow> goerr option \<times> 'n"

record 'r recv_ops =
  rcvSource :: "'r src_ops"
  rcvStop :: "16 word \<Rightarrow> 'r \<Rightarrow> goerr option \<times> 'r"

text \<open>
  \<open>cReady\<close>: the channel \<open>ready\<close> is closed. The stream for the updates of the encoder's table
  belongs to the encoder in the source, as does the one for acknowledgments to the decoder.
\<close>

record ('n, 'w) connection =
  cConfig :: Config
  cNet :: 'n
  cDecoder :: QpackDecoder
  cEncoder :: QpackEncoder
  cEncoderStream :: "'w bitWriter"
  cDecoderStream :: 'w
  cControlStream :: "'w sendStream"
  cReady :: bool

definition FatalError :: "('n, 'w) net_ops \<Rightarrow> HTTPError \<Rightarrow> ('n, 'w, 'm) connection_scheme \<Rightarrow>
    goerr option \<times> ('n, 'w, 'm) connection_scheme" where
  "FatalError nops e c = (case netError nops e [] (cNet c) of (err, n) \<Rightarrow> (err, c\<lparr>cNet := n\<rparr>))"

definition sendSettings :: "'w snk_ops \<Rightarrow> Config \<Rightarrow> 'w sendStream \<Rightarrow> goerr option \<times> 'w sendStream" where
  "sendSettings ops config s =
     (case WriteByte ops unidirectionalStreamControl s of
        (Inl e, s1) \<Rightarrow> (Some e, s1)
      | (Inr _, s1) \<Rightarrow>
          (case WriteTo buf_ops config [] of
             ((n, Some e), _) \<Rightarrow> (Some e, s1)
           | ((n, None), buf) \<Rightarrow>
               if n \<noteq> length buf then (Some ErrStreamBlocked, s1)
               else (case WriteFrame ops frameSettings buf s1 of ((_, err), s2) \<Rightarrow> (err, s2))))"

text \<open>The streams for the QPACK encoder and decoder, each begun with its type.\<close>

definition openStream :: "('n, 'w) net_ops \<Rightarrow> unidirectionalStreamType \<Rightarrow> ('n, 'w) io" where
  "openStream nops t n =
     (case netCreateSendStream nops n of
        (None, n') \<Rightarrow> (Inl (Panic ''nil pointer dereference''), n')
      | (Some w, n') \<Rightarrow>
          (case snkWrite (strSink (netStream nops)) w [t] of
             ((_, Some e), _) \<Rightarrow> (Inl e, n')
           | ((_, None), w') \<Rightarrow> (Inr w', n')))"

definition connect :: "('n, 'w) net_ops \<Rightarrow> Config \<Rightarrow> ('n, ('n, 'w) connection) io" where
  "connect nops config n =
     (case netCreateSendStream nops n of
        (None, n1) \<Rightarrow> (Inl (Panic ''nil pointer dereference''), n1)
      | (Some w, n1) \<Rightarrow>
          (case sendSettings (strSink (netStream nops)) config (NewBitWriter w) of
             (Some e, _) \<Rightarrow> (Inl e, n1)
           | (None, control) \<Rightarrow>
               (case openStream nops unidirectionalStreamQpackEncoder n1 of
                  (Inl e, n2) \<Rightarrow> (Inl e, n2)
                | (Inr ew, n2) \<Rightarrow>
                    (case NewQpackEncoder 0 0 of
                       Inl e \<Rightarrow> (Inl e, n2)
                     | Inr enc \<Rightarrow>
                         (case openStream nops unidirectionalStreamQpackDecoder n2 of
                            (Inl e, n3) \<Rightarrow> (Inl e, n3)
                          | (Inr dw, n3) \<Rightarrow>
                              (Inr \<lparr>cConfig = config, cNet = n3, cDecoder = NewQpackDecoder (DecoderTableCapacity config),
                                 cEncoder = enc, cEncoderStream = NewBitWriter ew, cDecoderStream = dw,
                                 cControlStream = control, cReady = False\<rparr>, n3))))))"

section \<open>Streams\<close>

text \<open>\<open>src/stream.go\<close>: a stream is a frame writer and a frame reader over a QUIC stream.\<close>

definition StopSending :: "'r recv_ops \<Rightarrow> HTTPError \<Rightarrow> 'r bitReader \<Rightarrow> goerr option \<times> 'r bitReader" where
  "StopSending rops code fr = (case rcvStop rops code (reader fr) of (e, r) \<Rightarrow> (e, fr\<lparr>reader := r\<rparr>))"

definition Reset :: "'w stream_ops \<Rightarrow> HTTPError \<Rightarrow> 'w sendStream \<Rightarrow> goerr option \<times> 'w sendStream" where
  "Reset sops code s = (case strReset sops code (writer s) of (e, w) \<Rightarrow> (e, s\<lparr>writer := w\<rparr>))"

definition abort :: "'w stream_ops \<Rightarrow> 'r recv_ops \<Rightarrow> 'w sendStream \<Rightarrow> 'r bitReader \<Rightarrow> 'w sendStream \<times> 'r bitReader" where
  "abort sops rops s fr = (snd (Reset sops ErrHttpInternalError s), snd (StopSending rops ErrHttpInternalError fr))"

section \<open>Serving the streams of the peer\<close>

text \<open>The interface \<open>connectionHandler\<close>: the frames and streams that depend on the role.\<close>

type_synonym ('r, 'c) controlHandler = "FrameType \<Rightarrow> 'c \<Rightarrow> 'r body \<Rightarrow> goerr option \<times> 'c \<times> 'r body"
type_synonym ('r, 'c) streamHandler =
  "unidirectionalStreamType \<Rightarrow> 'c \<Rightarrow> 'r bitReader \<Rightarrow> (goerr option \<times> 'c \<times> 'r bitReader) option"

definition handlePriority :: "('n, 'w) net_ops \<Rightarrow> 'r src_ops \<Rightarrow> ('n, 'w, 'm) connection_scheme \<Rightarrow> 'r body \<Rightarrow>
    (goerr option \<times> ('n, 'w, 'm) connection_scheme \<times> 'r body) option" where
  "handlePriority nops ops c r =
     map_option (\<lambda>(err, r').
       case err of
         Some e \<Rightarrow> (Some e, snd (FatalError nops ErrWtf c), r')
       | None \<Rightarrow> (None, c, r'))
       (copyDiscard (br_ops (body_ops ops)) r)"

partial_function (option) controlLoop :: "('n, 'w) net_ops \<Rightarrow> 'r src_ops \<Rightarrow> ('r, ('n, 'w, 'm) connection_scheme) controlHandler \<Rightarrow>
    ('n, 'w, 'm) connection_scheme \<Rightarrow> 'r bitReader \<Rightarrow> (goerr \<times> ('n, 'w, 'm) connection_scheme \<times> 'r bitReader) option" where
  "controlLoop nops ops handler c s =
     (case ReadFrame ops s of
        (Inl e, s') \<Rightarrow> Some (e, c, s')
      | (Inr (t, r), s') \<Rightarrow>
          Option.bind (if t = framePriority then handlePriority nops ops c r else Some (handler t c r)) (\<lambda>(err, c', r').
            case err of
              Some e \<Rightarrow> Some (e, c', unlimited r')
            | None \<Rightarrow> controlLoop nops ops handler c' (unlimited r')))"

declare controlLoop.simps [code]

definition serviceControlStream :: "('n, 'w) net_ops \<Rightarrow> 'r src_ops \<Rightarrow> ('r, ('n, 'w, 'm) connection_scheme) controlHandler \<Rightarrow>
    ('n, 'w, 'm) connection_scheme \<Rightarrow> 'r bitReader \<Rightarrow> (goerr option \<times> ('n, 'w, 'm) connection_scheme \<times> 'r bitReader) option" where
  "serviceControlStream nops ops handler c s =
     (case ReadFrame ops s of
        (Inl e, s') \<Rightarrow> Some (Some e, c, s')
      | (Inr (t, r), s') \<Rightarrow>
          if t \<noteq> frameSettings then Some (None, c, unlimited r)
          else
            Option.bind (readSettings (body_ops ops) (cEncoder c) r) (\<lambda>(err, enc, r').
              let c' = c\<lparr>cEncoder := enc\<rparr> in
              case err of
                Some e \<Rightarrow> Some (Some e, c', unlimited r')
              | None \<Rightarrow>
                  if cReady c' then Some (Some (Panic ''close of closed channel''), c', unlimited r')
                  else map_option (\<lambda>(e, c'', s''). (Some e, c'', s''))
                    (controlLoop nops ops handler (c'\<lparr>cReady := True\<rparr>) (unlimited r'))))"

text \<open>
  The goroutine for one stream of \<open>serviceUnidirectionalStreams\<close>. What \<open>serviceControlStream\<close>
  returns is dropped; a panic ends the program and is the first component of the result.
\<close>

definition serviceUnidirectionalStream :: "('n, 'w) net_ops \<Rightarrow> 'r src_ops \<Rightarrow>
    ('r, ('n, 'w, 'm) connection_scheme) controlHandler \<Rightarrow> ('r, ('n, 'w, 'm) connection_scheme) streamHandler \<Rightarrow>
    ('n, 'w, 'm) connection_scheme \<Rightarrow> 'r bitReader \<Rightarrow> (goerr option \<times> ('n, 'w, 'm) connection_scheme \<times> 'r bitReader) option" where
  "serviceUnidirectionalStream nops ops handler streams c s =
     (let finish = (\<lambda>(err, c', s').
        case err of
          None \<Rightarrow> (None, c', s')
        | Some e \<Rightarrow> if abnormal e then (Some e, c', s') else (None, snd (FatalError nops ErrWtf c'), s')) in
      case ReadByte ops s of
        (Inl e, s1) \<Rightarrow> Some (finish (Some e, c, s1))
      | (Inr t, s1) \<Rightarrow>
          if t = unidirectionalStreamControl then
            map_option (\<lambda>(err, c', s'). finish (if err \<noteq> None \<and> abnormal (the err) then err else None, c', s'))
              (serviceControlStream nops ops handler c s1)
          else if t = unidirectionalStreamQpackDecoder then
            map_option (\<lambda>(e, enc, s'). finish (Some e, c\<lparr>cEncoder := enc\<rparr>, s'))
              (ServiceAcknowledgments ops (cEncoder c, s1))
          else if t = unidirectionalStreamQpackEncoder then
            map_option (\<lambda>(x, d, s').
              finish (case x of Inl e \<Rightarrow> Some e | Inr _ \<Rightarrow> None,
                c\<lparr>cDecoder := (case x of Inl e \<Rightarrow> if abnormal e then d else QpackDecoderClose d | Inr _ \<Rightarrow> QpackDecoderClose d)\<rparr>, s'))
              (ReadTableUpdates (br_ops ops) (cDecoder c) s1)
          else map_option finish (streams t c s1))"

section \<open>What one endpoint writes to the control stream and the other reads\<close>

lemma whole_bytes: "length bs mod 8 = 0 \<Longrightarrow> bytes_bits (bits_bytes bs) = bs"
  using bytes_and_tail_bits [of bs] by (auto simp: tail_bits_def)

lemma settings_small: "length (bits_bytes (settings_bits config)) < 100"
  using varint_class_cases [of "DecoderTableCapacity config"] varint_class_cases [of "ucast (ConcurrentDecoders config) :: u64"]
    varint_class_cases [of "2 ^ varint_class (DecoderTableCapacity config)"]
    varint_class_cases [of "2 ^ varint_class (ucast (ConcurrentDecoders config) :: u64)"]
  by (auto simp: settings_bits_def int_setting_bits_def length_bits_bytes length_varint_bits)

lemma settings_whole: "bytes_bits (bits_bytes (settings_bits config)) = settings_bits config"
  by (rule whole_bytes) (simp add: settings_bits_def int_setting_bits_def length_varint_bits)

context reliable_sink
begin

lemma WriteByte_aligned:
  assumes "wsavedBits s = 0"
  obtains s' where "WriteByte ops t s = (Inr (), s')" "wsavedBits s' = 0"
    "bytes_bits (out (writer s')) = bytes_bits (out (writer s)) @ bits 8 t"
proof -
  have "wsavedBits s < 8" using assms by simp
  with WriteByte_produces [of t] obtain s' where s': "WriteByte ops t s = (Inr (), s')" "wsavedBits s' < 8"
    "wbits out s' = wbits out s @ bits 8 t" unfolding produces_def by blast
  from aligned_output [OF s'(3,2) assms] that [OF s'(1)] show thesis by simp
qed

lemma sendSettings_spec:
  assumes "unat (DecoderTableCapacity config) < 2 ^ 62" "wsavedBits s = 0"
  obtains s' where "sendSettings ops config s = (None, s')" "wsavedBits s' = 0"
    "bytes_bits (out (writer s')) = bytes_bits (out (writer s)) @
       bits 8 unidirectionalStreamControl @ frame_bits frameSettings (bits_bytes (settings_bits config))"
proof -
  obtain s1 where 1: "WriteByte ops unidirectionalStreamControl s = (Inr (), s1)" "wsavedBits s1 = 0"
    "bytes_bits (out (writer s1)) = bytes_bits (out (writer s)) @ bits 8 unidirectionalStreamControl"
    by (rule WriteByte_aligned [OF assms(2)])
  obtain n buf where w: "WriteTo buf_ops config [] = ((n, None), buf)" "buf = [] @ bits_bytes (settings_bits config)"
    "n = length (bits_bytes (settings_bits config))"
    by (rule buf.WriteTo_spec [OF assms(1)])
  have "length buf < 2 ^ 62" using w(2) settings_small [of config] by simp
  then obtain m s2 where "WriteFrame ops frameSettings buf s1 = ((m, None), s2)" "wsavedBits s2 = 0"
    "out (writer s2) = out (writer s1) @ bits_bytes (frame_bits frameSettings buf)"
    "bytes_bits (bits_bytes (frame_bits frameSettings buf)) = frame_bits frameSettings buf"
    by (rule WriteFrame_bytes [OF _ 1(2)])
  with that 1 w show thesis by (simp add: sendSettings_def)
qed

end

context byte_source
begin

lemma ReadByte_bits:
  assumes "rok ok s" "rbits content s = bits 8 (t :: byte) @ rest"
  obtains s' where "ReadByte ops s = (Inr t, s')" "rok ok s'" "rbits content s' = rest" "fin (reader s') = fin (reader s)"
  using ReadByte_spec [OF assms(1)] assms(2) that by (auto simp: take_bit_length_eq [where 'a = 8, simplified])

text \<open>The body of a frame that is one integer.\<close>

lemma varint_body:
  assumes "body_ok content fin ok rest F r" "body_bytes content r = bits_bytes (varint_bits v)" "unat v < 2 ^ 62"
  obtains r1 r2 where "ReadVarint (body_ops ops) r = (Inr v, r1)" "CheckForEOF (body_ops ops) r1 = (None, r2)"
    "rok ok (unlimited r2)" "rbits content (unlimited r2) = rest" "fin (reader (unlimited r2)) = F"
proof -
  have "bytes_bits (body_bytes content r) = varint_bits v @ bytes_bits []" using assms(2) varint_bytes by simp
  from body_consumes [OF byte_source.ReadVarint_consumes [OF _ assms(3)] assms(1) this] obtain r1 where
    1: "ReadVarint (body_ops ops) r = (Inr v, r1)" "body_ok content fin ok rest F r1" "body_bytes content r1 = []" by blast
  from CheckForEOF_body [OF 1(2,3)] obtain r2 where
    2: "CheckForEOF (body_ops ops) r1 = (None, r2)" "body_ok content fin ok rest F r2" "body_bytes content r2 = []" .
  from that [OF 1(1) 2(1) body_ok_end [OF 2(2,3)]] show thesis .
qed

lemma controlLoop_end:
  assumes "rok ok s" "rbits content s = []"
  obtains s' where "controlLoop nops ops handler c s = Some (fin (reader s), c, s')"
proof -
  from ReadBits_spec [OF assms(1), of 2] assms(2) obtain s' where "ReadFrame ops s = (Inl (fin (reader s)), s')"
    by (auto simp: ReadFrame_def ReadVarint_def)
  with that show thesis by (simp add: controlLoop.simps [of nops ops handler c s])
qed

lemma serviceControlStream_settings:
  assumes "rok ok s" "rbits content s = frame_bits frameSettings (bits_bytes (settings_bits config)) @ rest"
    "unat (DecoderTableCapacity config) < 2 ^ 30" "qbase (cEncoder c) = 0"
    "blockedStreams (cEncoder c) \<le> uint (ConcurrentDecoders config)"
  obtains enc s' where "qcapacity enc = DecoderTableCapacity config" "maxBlockedStreams enc = uint (ConcurrentDecoders config)"
    "enc\<lparr>qtable := qtable (cEncoder c), maxBlockedStreams := maxBlockedStreams (cEncoder c)\<rparr> = cEncoder c"
    "rok ok s'" "rbits content s' = rest" "fin (reader s') = fin (reader s)"
    "serviceControlStream nops ops handler c s =
       (if cReady c then Some (Some (Panic ''close of closed channel''), c\<lparr>cEncoder := enc\<rparr>, s')
        else map_option (\<lambda>(e, c', s''). (Some e, c', s'')) (controlLoop nops ops handler (c\<lparr>cEncoder := enc, cReady := True\<rparr>) s'))"
proof -
  let ?p = "bits_bytes (settings_bits config)"
  have p: "length ?p < 2 ^ 62" using settings_small [of config] by simp
  from ReadFrame_spec [OF assms(1,2) p] obtain r s1 where r: "ReadFrame ops s = (Inr (frameSettings, r), s1)"
    "body_ok content fin ok rest (fin (reader s)) r" "body_bytes content r = ?p" .
  have b: "rok (limit_ok content fin ok rest (fin (reader s))) r"
    "rbits (lim_content (stream_bytes content)) r = settings_bits config"
    "lim_fin (stream_bytes content) (\<lambda>br. fin (reader br)) (reader r) = EOF"
    using r(2) body_ok_bits [OF r(2)] r(3) settings_whole [of config] by (simp_all add: body_ok_def body_fin_def)
  have c62: "unat (DecoderTableCapacity config) < 2 ^ 62" using assms(3) by simp
  from byte_source.readSettings_written [OF limit_source c62 assms(4,5) b] assms(3) obtain enc r' where
    e: "readSettings (body_ops ops) (cEncoder c) r = Some (None, enc, r')"
    "qcapacity enc = DecoderTableCapacity config" "maxBlockedStreams enc = uint (ConcurrentDecoders config)"
    "enc\<lparr>qtable := qtable (cEncoder c), maxBlockedStreams := maxBlockedStreams (cEncoder c)\<rparr> = cEncoder c"
    "rok (limit_ok content fin ok rest (fin (reader s))) r'" "rbits (lim_content (stream_bytes content)) r' = []"
    "lim_fin (stream_bytes content) (\<lambda>br. fin (reader br)) (reader r') = EOF" by auto
  have "body_ok content fin ok rest (fin (reader s)) r'" "body_bytes content r' = []"
    using e(5-7) by (simp_all add: body_ok_def body_fin_def body_bytes_def tail_bits_def)
  note done3 = body_ok_end [OF this]
  from r(1) e(1) show thesis
    by (intro that [OF e(2-4) done3]) (simp add: serviceControlStream_def Let_def)
qed

end

context byte_source
begin

lemma readSettings_body:
  assumes "body_within content fin ok m r"
  shows "\<exists>err enc' r'. readSettings (body_ops ops) enc r = Some (err, enc', r') \<and> body_within content fin ok m r'"
proof -
  from assms obtain rest F n where n: "8 * n + length rest \<le> m"
    "rok (\<lambda>l. limit_ok content fin ok rest F l \<and> length (lim_content (stream_bytes content) l) \<le> n) r"
    by (rule body_withinE)
  from byte_source.readSettings_returns [OF bounded_limit_source n(2), of enc] n(1) show ?thesis
    unfolding body_within_def by blast
qed

lemma Read_keeps:
  assumes "0 < n" "rok ok br"
  shows "rok ok (snd (Read ops n br)) \<and> length (rbits content (snd (Read ops n br))) \<le> length (rbits content br)"
proof -
  from byte_source.source_read [OF br_source [of "tail_bits (rbits content br)"] _ assms(1), of br] assms(2) obtain k e br' where
    r: "Read ops n br = ((take k (bits_bytes (rbits content br)), e), br')" "rok ok br'"
    "tail_bits (rbits content br') = tail_bits (rbits content br)" "bits_bytes (rbits content br') = drop k (bits_bytes (rbits content br))"
    by (auto simp: br_ops_def)
  then have "length (rbits content br') \<le> length (rbits content br)"
    using length_stream_bytes [of content br] length_stream_bytes [of content br'] by (simp add: stream_bytes_def)
  with r(1,2) show ?thesis by simp
qed

lemma CheckForEOF_body_within:
  assumes "body_within content fin ok m r"
  shows "body_within content fin ok m (snd (CheckForEOF (body_ops ops) r))"
proof -
  have "shrinks content ok (\<lambda>br. (Inr (), snd (Read (body_ops ops) 1 br)))" if "byte_source (body_ops ops) content fin ok"
    for content fin ok using byte_source.Read_keeps [OF that, of 1] by (simp add: shrinks_def)
  from body_within_shrinks [OF this assms] show ?thesis
    by (auto simp: CheckForEOF_def split: prod.split option.split)
qed

lemma ReadVarint_body_within:
  "body_within content fin ok m r \<Longrightarrow> body_within content fin ok m (snd (ReadVarint (body_ops ops) r))"
  by (rule body_within_shrinks [OF byte_source.ReadVarint_shrinks])

end

section \<open>Serving a stream ends\<close>

text \<open>
  The contract of a \<open>connectionHandler\<close>: it reads the body of a frame that it is given and
  nothing of the stream behind it, and serving a stream of another type returns.
\<close>

locale connection_handler = byte_source ops content fin ok
  for ops :: "'r src_ops" and content fin ok +
  fixes handler :: "('r, ('n, 'w, 'm) connection_scheme) controlHandler"
    and streams :: "('r, ('n, 'w, 'm) connection_scheme) streamHandler"
  assumes handler_within: "body_within content fin ok m r \<Longrightarrow> body_within content fin ok m (snd (snd (handler t c r)))"
    and streams_return: "rok ok s \<Longrightarrow> \<exists>y. streams t c s = Some y"
begin

lemma controlFrame_returns:
  assumes "body_within content fin ok m r"
  shows "\<exists>err c' r'. (if t = framePriority then handlePriority nops ops c r else Some (handler t c r)) = Some (err, c', r') \<and>
    body_within content fin ok m r'"
proof (cases "t = framePriority")
  case True
  from copyDiscard_body [OF assms] obtain e r' where "copyDiscard (br_ops (body_ops ops)) r = Some (e, r')"
    "body_within content fin ok m r'" by blast
  with True show ?thesis by (simp add: handlePriority_def split: option.split)
next
  case False
  with handler_within [OF assms, of t c] show ?thesis by (cases "handler t c r") simp
qed

lemma controlLoop_returns: "rok ok s \<Longrightarrow> \<exists>e c' s'. controlLoop nops ops handler c s = Some (e, c', s')"
proof (induction "length (rbits content s)" arbitrary: c s rule: less_induct)
  case less
  obtain x s1 where x: "ReadFrame ops s = (x, s1)" by fastforce
  note loop = controlLoop.simps [of nops ops handler c s]
  show ?case
  proof (cases x)
    case (Inr tr)
    obtain t r where tr: "tr = (t, r)" by fastforce
    from ReadFrame_takes [OF less.prems x] Inr tr obtain m where m: "m < length (rbits content s)" "body_within content fin ok m r"
      by auto
    from controlFrame_returns [OF m(2)] obtain err c' r' where
      f: "(if t = framePriority then handlePriority nops ops c r else Some (handler t c r)) = Some (err, c', r')"
      "body_within content fin ok m r'" by blast
    have "\<exists>e c'' s'. controlLoop nops ops handler c' (unlimited r') = Some (e, c'', s')"
      using body_within_stream [OF f(2)] m(1) by (intro less.hyps) auto
    with x Inr tr f(1) show ?thesis by (auto simp: loop split: option.split)
  qed (use x in \<open>simp add: loop\<close>)
qed

lemma serviceControlStream_returns:
  assumes "rok ok s"
  shows "\<exists>y. serviceControlStream nops ops handler c s = Some y"
proof -
  obtain x s1 where x: "ReadFrame ops s = (x, s1)" by fastforce
  show ?thesis
  proof (cases x)
    case (Inr tr)
    obtain t r where tr: "tr = (t, r)" by fastforce
    from ReadFrame_takes [OF assms x] Inr tr obtain m where m: "body_within content fin ok m r" by auto
    from readSettings_body [OF m] obtain err enc r' where
      r: "readSettings (body_ops ops) (cEncoder c) r = Some (err, enc, r')" "rok ok (unlimited r')"
      using body_within_stream by blast
    from controlLoop_returns [OF r(2), of nops "c\<lparr>cEncoder := enc, cReady := True\<rparr>"] x Inr tr r(1) show ?thesis by (auto simp: serviceControlStream_def Let_def split: option.split)
  qed (use x in \<open>simp add: serviceControlStream_def\<close>)
qed

lemma serviceUnidirectionalStream_returns:
  assumes "rok ok s"
  shows "\<exists>y. serviceUnidirectionalStream nops ops handler streams c s = Some y"
proof -
  obtain x s1 where x: "ReadByte ops s = (x, s1)" by fastforce
  show ?thesis
  proof (cases x)
    case (Inr t)
    from shrinksD [OF ReadByte_shrinks assms x] have s1: "rok ok s1" by simp
    have "rok (\<lambda>br. rok ok br \<and> tail_bits (rbits content br) = tail_bits (rbits content s1)) (NewBitReader s1)"
      using s1 by (simp add: rok_def [of "\<lambda>br. rok ok br \<and> _ br"] NewBitReader_def)
    from byte_source.updatesLoop_returns [OF br_source this, of "cDecoder c"]
    have "\<exists>y. ReadTableUpdates (br_ops ops) (cDecoder c) s1 = Some y" by (auto simp: ReadTableUpdates_def)
    with x Inr serviceControlStream_returns [OF s1, of nops c] ServiceAcknowledgments_returns [OF s1, of "cEncoder c"]
      streams_return [OF s1, of t c] show ?thesis
      by (auto simp: serviceUnidirectionalStream_def Let_def simp del: split_paired_Ex)
  qed (use x in \<open>simp add: serviceUnidirectionalStream_def\<close>)
qed

end

section \<open>Properties of connections\<close>

lemma control_stream:
  assumes "byte_source rops content fin ok" "unat (DecoderTableCapacity config) < 2 ^ 30" "qbase (cEncoder c) = 0"
    "blockedStreams (cEncoder c) \<le> uint (ConcurrentDecoders config)" "rok ok r"
    "rbits content r = bits 8 unidirectionalStreamControl @ frame_bits frameSettings (bits_bytes (settings_bits config)) @ rest"
  obtains enc s where "qcapacity enc = DecoderTableCapacity config" "maxBlockedStreams enc = uint (ConcurrentDecoders config)"
    "rok ok s" "rbits content s = rest" "fin (reader s) = fin (reader r)"
    "serviceUnidirectionalStream nops rops handler streams c r =
       (if cReady c then Some (Some (Panic ''close of closed channel''), c\<lparr>cEncoder := enc\<rparr>, s)
        else map_option (\<lambda>(e, c', s'). (if abnormal e then Some e else None, c', s'))
          (controlLoop nops rops handler (c\<lparr>cEncoder := enc, cReady := True\<rparr>) s))"
proof -
  obtain s1 where 1: "ReadByte rops r = (Inr unidirectionalStreamControl, s1)" "rok ok s1"
    "rbits content s1 = frame_bits frameSettings (bits_bytes (settings_bits config)) @ rest" "fin (reader s1) = fin (reader r)"
    by (rule byte_source.ReadByte_bits [OF assms(1,5,6)])
  obtain enc s where 2: "qcapacity enc = DecoderTableCapacity config" "maxBlockedStreams enc = uint (ConcurrentDecoders config)"
    "enc\<lparr>qtable := qtable (cEncoder c), maxBlockedStreams := maxBlockedStreams (cEncoder c)\<rparr> = cEncoder c"
    "rok ok s" "rbits content s = rest" "fin (reader s) = fin (reader s1)"
    "serviceControlStream nops rops handler c s1 =
       (if cReady c then Some (Some (Panic ''close of closed channel''), c\<lparr>cEncoder := enc\<rparr>, s)
        else map_option (\<lambda>(e, c', s''). (Some e, c', s'')) (controlLoop nops rops handler (c\<lparr>cEncoder := enc, cReady := True\<rparr>) s))"
    by (rule byte_source.serviceControlStream_settings [OF assms(1) 1(2,3) assms(2-4)])
  show thesis
    by (rule that [OF 2(1,2,4,5)])
      (auto simp: serviceUnidirectionalStream_def 1(1,4) 2(6,7) Let_def option.map_comp comp_def intro!: option.map_cong)
qed

lemma new_encoder: "NewQpackEncoder 0 0 = Inr enc \<Longrightarrow> qbase enc = 0 \<and> blockedStreams enc = 0"
proof -
  have "case NewQpackEncoder 0 0 of Inl _ \<Rightarrow> False | Inr enc \<Rightarrow> qbase enc = 0 \<and> blockedStreams enc = 0" by code_simp
  then show "NewQpackEncoder 0 0 = Inr enc \<Longrightarrow> qbase enc = 0 \<and> blockedStreams enc = 0" by simp
qed

lemma connect_fresh:
  assumes "connect nops config n = (Inr c, n')"
  shows "cConfig c = config" "cDecoder c = NewQpackDecoder (DecoderTableCapacity config)" "\<not> cReady c"
    "qbase (cEncoder c) = 0" "blockedStreams (cEncoder c) = 0"
  using assms new_encoder by (auto simp: connect_def split: option.splits prod.splits sum.splits)

text \<open>C26: Settings are exchanged. The control stream that one endpoint begins makes the other ready when it is
  served: the type of the stream is recognised, the capacity and the number of blocked streams of its
  encoder become those of the sender's configuration, and no connection error is raised when the
  stream ends.\<close>

theorem settings_exchanged:
  assumes "reliable_sink wops out" "byte_source rops content fin ok" "unat (DecoderTableCapacity config) < 2 ^ 30"
    "wsavedBits s = 0" "connect nops config' n = (Inr c, n')"
  shows "\<exists>s' bs. sendSettings wops config s = (None, s') \<and> out (writer s') = out (writer s) @ bs \<and>
    (\<forall>r. rok ok r \<and> rbits content r = bytes_bits bs \<and> fin (reader r) = EOF \<longrightarrow>
      (\<exists>c' r'. serviceUnidirectionalStream nops rops handler streams c r = Some (None, c', r') \<and> cReady c' \<and>
        qcapacity (cEncoder c') = DecoderTableCapacity config \<and>
        maxBlockedStreams (cEncoder c') = uint (ConcurrentDecoders config) \<and> cNet c' = cNet c))"
proof -
  let ?bs = "bits 8 unidirectionalStreamControl @ frame_bits frameSettings (bits_bytes (settings_bits config))"
  note fresh = connect_fresh [OF assms(5)]
  have "unat (DecoderTableCapacity config) < 2 ^ 62" using assms(3) by simp
  then obtain s' where s': "sendSettings wops config s = (None, s')" "bytes_bits (out (writer s')) = bytes_bits (out (writer s)) @ ?bs"
    by (rule reliable_sink.sendSettings_spec [OF assms(1) _ assms(4)])
  then have out: "out (writer s') = out (writer s) @ bits_bytes ?bs"
    by (metis bits_bytes_bytes_append bits_bytes_bytes_bits)
  with s'(2) have bs: "bytes_bits (bits_bytes ?bs) = ?bs" by simp
  have "\<exists>c' r'. serviceUnidirectionalStream nops rops handler streams c r = Some (None, c', r') \<and> cReady c' \<and>
        qcapacity (cEncoder c') = DecoderTableCapacity config \<and>
        maxBlockedStreams (cEncoder c') = uint (ConcurrentDecoders config) \<and> cNet c' = cNet c"
    if r: "rok ok r" "rbits content r = ?bs" "fin (reader r) = EOF" for r
  proof -
    have "rbits content r = bits 8 unidirectionalStreamControl @ frame_bits frameSettings (bits_bytes (settings_bits config)) @ []"
      using r(2) by simp
    from control_stream [OF assms(2,3) fresh(4) _ r(1) this, of nops handler streams] obtain enc s1 where
      1: "qcapacity enc = DecoderTableCapacity config" "maxBlockedStreams enc = uint (ConcurrentDecoders config)"
      "rok ok s1" "rbits content s1 = []" "fin (reader s1) = EOF"
      "serviceUnidirectionalStream nops rops handler streams c r =
         map_option (\<lambda>(e, c', s'). (if abnormal e then Some e else None, c', s'))
          (controlLoop nops rops handler (c\<lparr>cEncoder := enc, cReady := True\<rparr>) s1)"
      using fresh(3,5) r(3) by auto
    from byte_source.controlLoop_end [OF assms(2) 1(3,4), of nops handler "c\<lparr>cEncoder := enc, cReady := True\<rparr>"] 1(5) obtain r' where
      "controlLoop nops rops handler (c\<lparr>cEncoder := enc, cReady := True\<rparr>) s1 = Some (EOF, c\<lparr>cEncoder := enc, cReady := True\<rparr>, r')"
      by auto
    with 1(1,2,6) show ?thesis by simp
  qed
  with s'(1) out bs show ?thesis by (intro exI [of _ s'] exI [of _ "bits_bytes ?bs"]) simp
qed

text \<open>Connections into memory, which log the errors they are closed with.\<close>

definition memory_net :: "(16 word list, byte list) net_ops" where
  "memory_net = \<lparr>netStream = buffer_stream, netId = (\<lambda>_. 4), netCreateStream = (\<lambda>n. (Some [], n)),
     netCreateSendStream = (\<lambda>n. (Some [], n)), netEstablished = (\<lambda>_. True), netError = (\<lambda>e _ n. (None, n @ [e]))\<rparr>"

definition memory_recv :: "source recv_ops" where
  "memory_recv = \<lparr>rcvSource = source_ops, rcvStop = (\<lambda>_ r. (None, r))\<rparr>"

definition example_connection :: "(16 word list, byte list) connection" where
  "example_connection = \<lparr>cConfig = example_config, cNet = [], cDecoder = NewQpackDecoder 4096, cEncoder = example_encoder 4096,
     cEncoderStream = NewBitWriter [], cDecoderStream = [], cControlStream = NewBitWriter [], cReady = False\<rparr>"

lemma memory_sink: "reliable_sink (strSink (netStream memory_net)) (\<lambda>w. w)"
  using buf.reliable_sink_axioms by (simp add: memory_net_def buffer_stream_def)

lemma connect_memory:
  assumes "unat (DecoderTableCapacity config) < 2 ^ 62"
  obtains c where "connect memory_net config n = (Inr c, n)"
proof -
  have "wsavedBits (NewBitWriter []) = 0" by (simp add: NewBitWriter_def)
  then obtain s where "sendSettings (strSink (netStream memory_net)) config (NewBitWriter []) = (None, s)"
    by (rule reliable_sink.sendSettings_spec [OF memory_sink assms])
  moreover have "case NewQpackEncoder 0 0 of Inl _ \<Rightarrow> False | Inr _ \<Rightarrow> True" by code_simp
  then obtain enc where "NewQpackEncoder 0 0 = Inr enc" by (auto split: sum.splits)
  moreover have "openStream memory_net t n = (Inr [t], n)" for t
    by (simp add: openStream_def memory_net_def buffer_stream_def buf_ops_def)
  ultimately show thesis using that by (auto simp: connect_def memory_net_def)
qed

definition no_handler :: "('r, 'c) controlHandler" where
  "no_handler t c r = (Some ErrInvalidFrame, c, r)"

definition no_streams :: "('r, 'c) streamHandler" where
  "no_streams t c s = Some (None, c, s)"

theorem settings_exchanged_witness:
  "\<exists>c n s' c' r'. connect memory_net example_config [] = (Inr c, n) \<and>
     sendSettings buf_ops example_config (NewBitWriter []) = (None, s') \<and>
     serviceUnidirectionalStream memory_net source_ops no_handler no_streams c (NewBitReader (writer s', EOF)) = Some (None, c', r') \<and>
     cReady c' \<and> qcapacity (cEncoder c') = 4096"
proof -
  have cap: "unat (DecoderTableCapacity example_config) < 2 ^ 30" "wsavedBits (NewBitWriter []) = 0"
    by (simp_all add: example_config_def NewBitWriter_def)
  from cap(1) have "unat (DecoderTableCapacity example_config) < 2 ^ 62" by simp
  then obtain c where c: "connect memory_net example_config [] = (Inr c, [])" by (rule connect_memory)
  from settings_exchanged [OF buf.reliable_sink_axioms src.byte_source_axioms cap c, of no_handler no_streams]
  obtain s' bs where s: "sendSettings buf_ops example_config (NewBitWriter []) = (None, s')" "writer s' = writer (NewBitWriter []) @ bs"
    "\<forall>r. rok (\<lambda>_. True) r \<and> rbits fst r = bytes_bits bs \<and> snd (reader r) = EOF \<longrightarrow>
      (\<exists>c' r'. serviceUnidirectionalStream memory_net source_ops no_handler no_streams c r = Some (None, c', r') \<and>
        cReady c' \<and> qcapacity (cEncoder c') = DecoderTableCapacity example_config \<and>
        maxBlockedStreams (cEncoder c') = uint (ConcurrentDecoders example_config) \<and> cNet c' = cNet c)"
    by blast
  then have "writer s' = bs" by (simp add: NewBitWriter_def)
  with c s(1) s(3) [rule_format, of "NewBitReader (bs, EOF)"] show ?thesis
    by (auto simp: rok_def rbits_def NewBitReader_def example_config_def)
qed

lemma example_connection_fresh: "qbase (cEncoder example_connection) = 0" "blockedStreams (cEncoder example_connection) = 0"
  unfolding example_connection_def by code_simp+

text \<open>C31: A peer can crash the program with a second control stream: a connection that is ready closes the channel
  \<open>ready\<close> again when it has read valid settings, which panics.\<close>

theorem second_control_stream:
  assumes "byte_source rops content fin ok" "unat (DecoderTableCapacity config) < 2 ^ 30" "qbase (cEncoder c) = 0"
    "blockedStreams (cEncoder c) \<le> uint (ConcurrentDecoders config)" "cReady c" "rok ok r"
    "rbits content r = bits 8 unidirectionalStreamControl @ frame_bits frameSettings (bits_bytes (settings_bits config)) @ rest"
  shows "\<exists>c' r'. serviceUnidirectionalStream nops rops handler streams c r = Some (Some (Panic ''close of closed channel''), c', r')"
  using control_stream [OF assms(1-4,6,7), of nops handler streams] assms(5) by metis

theorem second_control_stream_witness:
  "\<exists>bs c' r'. serviceUnidirectionalStream memory_net source_ops no_handler no_streams
       (example_connection\<lparr>cReady := True\<rparr>) (NewBitReader (bs, EOF)) = Some (Some (Panic ''close of closed channel''), c', r')"
proof -
  let ?bs = "bits 8 unidirectionalStreamControl @ frame_bits frameSettings (bits_bytes (settings_bits example_config))"
  have "length ?bs mod 8 = 0" using length_frame_bits [of frameSettings] by simp
  then have bs: "bytes_bits (bits_bytes ?bs) = ?bs" by (rule whole_bytes)
  have r: "rok (\<lambda>_. True) (NewBitReader (bits_bytes ?bs, EOF))"
    "rbits fst (NewBitReader (bits_bytes ?bs, EOF)) = bits 8 unidirectionalStreamControl @
       frame_bits frameSettings (bits_bytes (settings_bits example_config)) @ []"
    using bs by (simp_all add: rok_def rbits_def NewBitReader_def)
  have "unat (DecoderTableCapacity example_config) < 2 ^ 30" "qbase (cEncoder (example_connection\<lparr>cReady := True\<rparr>)) = 0"
    "blockedStreams (cEncoder (example_connection\<lparr>cReady := True\<rparr>)) \<le> uint (ConcurrentDecoders example_config)"
    "cReady (example_connection\<lparr>cReady := True\<rparr>)"
    using example_connection_fresh by (simp_all add: example_config_def)
  from second_control_stream [OF src.byte_source_axioms this r, of memory_net no_handler no_streams] show ?thesis by blast
qed

text \<open>Errors on the control stream are not reported. A stream that does not begin with settings is taken
  for served: the connection is left as it was, never becomes ready and raises no error.\<close>

theorem settings_not_first:
  assumes "byte_source rops content fin ok" "t \<noteq> frameSettings" "length p < 2 ^ 62" "rok ok r"
    "rbits content r = bits 8 unidirectionalStreamControl @ frame_bits t p @ rest"
  shows "\<exists>r'. serviceUnidirectionalStream nops rops handler streams c r = Some (None, c, r')"
proof -
  obtain s1 where 1: "ReadByte rops r = (Inr unidirectionalStreamControl, s1)" "rok ok s1" "rbits content s1 = frame_bits t p @ rest"
    by (rule byte_source.ReadByte_bits [OF assms(1,4,5)])
  obtain b s2 where "ReadFrame rops s1 = (Inr (t, b), s2)"
    by (rule byte_source.ReadFrame_spec [OF assms(1) 1(2,3) assms(3)])
  with 1(1) assms(2) show ?thesis by (simp add: serviceUnidirectionalStream_def serviceControlStream_def Let_def)
qed

theorem settings_not_first_witness:
  "\<exists>r'. serviceUnidirectionalStream memory_net source_ops no_handler no_streams example_connection
       (NewBitReader ([0x43, 1, 13, 5], EOF)) = Some (None, example_connection, r')"
proof -
  have "rbits fst (NewBitReader ([0x43, 1, 13, 5], EOF)) = bits 8 unidirectionalStreamControl @ frame_bits frameMaxPushID [5] @ []"
    by code_simp
  from settings_not_first [OF src.byte_source_axioms _ _ _ this] show ?thesis by (simp add: frame_types rok_def NewBitReader_def)
qed

end
