(* ===== verification/Server.thy ===== *)
theory Server
  imports Connection
begin

text \<open>
  Servers, \<open>src/server_connection.go\<close> and \<open>src/server_request.go\<close>: push identifiers and their
  cancellation, requests, responses and server push.
\<close>

section \<open>The connection of a server\<close>

record ('n, 'w) serverConnection = "('n, 'w) connection" +
  nextPushID :: u64
  maxPushID :: u64
  cancelledPushes :: "u64 \<Rightarrow> bool"

text \<open>What a server adds to a connection.\<close>

definition newServerConnection :: "('n, 'w) connection \<Rightarrow> ('n, 'w) serverConnection" where
  "newServerConnection c = connection.extend c (serverConnection.fields 0 0 (\<lambda>_. False))"

definition handleMaxPushID :: "('n, 'w) net_ops \<Rightarrow> 'r src_ops \<Rightarrow> ('n, 'w) serverConnection \<Rightarrow> 'r body \<Rightarrow>
    goerr option \<times> ('n, 'w) serverConnection \<times> 'r body" where
  "handleMaxPushID nops ops c r =
     (case ReadVarint (body_ops ops) r of
        (Inl e, r1) \<Rightarrow> (Some e, snd (FatalError nops ErrWtf c), r1)
      | (Inr n, r1) \<Rightarrow>
          (case CheckForEOF (body_ops ops) r1 of
             (Some e, r2) \<Rightarrow> (Some e, snd (FatalError nops ErrWtf c), r2)
           | (None, r2) \<Rightarrow> (None, if n > maxPushID c then c\<lparr>maxPushID := n\<rparr> else c, r2)))"

definition getNextPushID :: "(('n, 'w) serverConnection, u64) io" where
  "getNextPushID c =
     (if nextPushID c \<ge> maxPushID c then (Inl (ErrOther ''No push IDs available''), c)
      else (Inr (nextPushID c), c\<lparr>nextPushID := nextPushID c + 1\<rparr>))"

definition handleCancelPush :: "'r src_ops \<Rightarrow> ('n, 'w) serverConnection \<Rightarrow> 'r body \<Rightarrow>
    goerr option \<times> ('n, 'w) serverConnection \<times> 'r body" where
  "handleCancelPush ops c r =
     (case ReadVarint (body_ops ops) r of
        (Inl e, r1) \<Rightarrow> (Some e, c, r1)
      | (Inr pushID, r1) \<Rightarrow>
          (case CheckForEOF (body_ops ops) r1 of
             (Some e, r2) \<Rightarrow> (Some e, c, r2)
           | (None, r2) \<Rightarrow> (None, c\<lparr>cancelledPushes := (cancelledPushes c)(pushID := True)\<rparr>, r2)))"

definition cancelPush :: "('n, 'w) net_ops \<Rightarrow> u64 \<Rightarrow> ('n, 'w) serverConnection \<Rightarrow> goerr option \<times> ('n, 'w) serverConnection" where
  "cancelPush nops pushID c =
     (case WriteVarint buf_ops pushID (NewBitWriter []) of
        ((_, Some e), _) \<Rightarrow> (Some e, c)
      | ((_, None), buf) \<Rightarrow>
          (case WriteFrame (strSink (netStream nops)) frameCancelPush (writer buf) (cControlStream c) of
             ((_, Some e), s) \<Rightarrow> (Some e, c\<lparr>cControlStream := s\<rparr>)
           | ((_, None), s) \<Rightarrow> (None, c\<lparr>cControlStream := s, cancelledPushes := (cancelledPushes c)(pushID := True)\<rparr>)))"

definition pushCancelled :: "u64 \<Rightarrow> ('n, 'w) serverConnection \<Rightarrow> bool" where
  "pushCancelled pushID c = cancelledPushes c pushID"

definition serverHandleFrame :: "('n, 'w) net_ops \<Rightarrow> 'r src_ops \<Rightarrow> ('r, ('n, 'w) serverConnection) controlHandler" where
  "serverHandleFrame nops ops t c r =
     (if t = frameMaxPushID then handleMaxPushID nops ops c r
      else if t = frameCancelPush then handleCancelPush ops c r
      else (Some ErrInvalidFrame, c, r))"

definition serverHandleUnidirectionalStream :: "'r recv_ops \<Rightarrow> ('r, ('n, 'w) serverConnection) streamHandler" where
  "serverHandleUnidirectionalStream rops t c s =
     (case StopSending rops ErrHttpUnknownStreamType s of (e, s') \<Rightarrow> Some (e, c, s'))"

section \<open>Requests\<close>

text \<open>The fields of \<open>ServerRequest\<close> that are set from the header block; \<open>ID\<close> is never set.\<close>

record 'u serverRequest =
  srMethod :: string
  srTarget :: "'u option"
  srHeaders :: "HeaderField list"

definition newServerRequest :: "'u serverRequest" where
  "newServerRequest = \<lparr>srMethod = [], srTarget = None, srHeaders = []\<rparr>"

definition setHeaders :: "'u url_ops \<Rightarrow> (string \<Rightarrow> string) \<Rightarrow> HeaderField list \<Rightarrow> 'u serverRequest \<Rightarrow>
    goerr option \<times> 'u serverRequest" where
  "setHeaders uops uni hs req =
     (case getMethodAndTarget uops uni hs of
        Inl e \<Rightarrow> (Some e, \<lparr>srMethod = [], srTarget = None, srHeaders = hs\<rparr>)
      | Inr (m, u) \<Rightarrow> (None, \<lparr>srMethod = m, srTarget = Some u, srHeaders = hs\<rparr>))"

text \<open>
  The handlers of \<open>handle\<close>: \<open>'h\<close> are the requests sent on the channel. The application takes
  each request as it comes. The error of \<open>setHeaders\<close> is dropped, unless it is a panic.
\<close>

definition requestHeaders :: "'u url_ops \<Rightarrow> (string \<Rightarrow> string) \<Rightarrow> 'u serverRequest list headersHandler" where
  "requestHeaders uops uni hs requests =
     (case setHeaders uops uni hs newServerRequest of (err, req) \<Rightarrow> (Inr True, requests @ [req]))"

definition requestFrames :: "('r, 'h) frameHandler" where
  "requestFrames t d h r = Some (Some ErrUnsupportedFrame, d, h, r)"

definition requestHandle :: "'w stream_ops \<Rightarrow> 'r recv_ops \<Rightarrow> nat \<Rightarrow> u64 \<Rightarrow> 'u url_ops \<Rightarrow> (string \<Rightarrow> string) \<Rightarrow> QpackDecoder \<Rightarrow>
    'w sendStream \<Rightarrow> 'r bitReader \<Rightarrow> (goerr option \<times> 'u serverRequest list message \<times> 'w sendStream \<times> 'r bitReader) option" where
  "requestHandle sops rops n i uops uni d s fr =
     map_option (\<lambda>(err, msg, fr').
       case err of
         None \<Rightarrow> (None, msg, s, fr')
       | Some e \<Rightarrow> if abnormal e then (Some e, msg, s, fr')
                   else (None, msg, abort sops rops s fr'))
       (handleMessage (rcvSource rops) n i (requestHeaders uops uni) requestFrames (newIncomingMessage d []) fr)"

section \<open>Responses\<close>

text \<open>
  Waiting for \<open>ready\<close> is \<open>Blocked\<close>. The result tells whether there is a response to write a
  body to, which there is not for status codes of the form 1xx.
\<close>

definition sendResponse :: "('n, 'w) net_ops \<Rightarrow> (string \<Rightarrow> string) \<Rightarrow> u64 \<Rightarrow> int \<Rightarrow> HeaderField list \<Rightarrow>
    ('n, 'w, 'm) connection_scheme \<Rightarrow> 'w sendStream \<Rightarrow> (goerr + bool) \<times> ('n, 'w, 'm) connection_scheme \<times> 'w sendStream" where
  "sendResponse nops uni i statusCode hs c s =
     (case ValidatePseudoHeaders hs of
        Some e \<Rightarrow> (Inl e, c, s)
      | None \<Rightarrow>
          if \<not> cReady c then (Inl Blocked, c, s)
          else
            (let allHeaders = field '':status'' (Itoa statusCode) # hs in
             case outWriteHeaderBlock (strSink (netStream nops)) (netStream nops) uni i allHeaders (cEncoder c) (cEncoderStream c) s of
               (err, enc, uw, s') \<Rightarrow>
                 (let c' = c\<lparr>cEncoder := enc, cEncoderStream := uw\<rparr> in
                  case err of
                    Some e \<Rightarrow> (Inl e, c', s')
                  | None \<Rightarrow> (Inr (\<not> (100 \<le> statusCode \<and> statusCode < 200)), c', s'))))"

definition Respond :: "('n, 'w) net_ops \<Rightarrow> (string \<Rightarrow> string) \<Rightarrow> u64 \<Rightarrow> int \<Rightarrow> HeaderField list \<Rightarrow>
    ('n, 'w, 'm) connection_scheme \<Rightarrow> 'w sendStream \<Rightarrow> (goerr + bool) \<times> ('n, 'w, 'm) connection_scheme \<times> 'w sendStream" where
  "Respond nops uni i statusCode hs c s = sendResponse nops uni i statusCode hs c s"

definition responseCancel :: "'w stream_ops \<Rightarrow> 'w sendStream \<Rightarrow> goerr option \<times> 'w sendStream" where
  "responseCancel sops s = Reset sops ErrHttpRequestCancelled s"

section \<open>Server push\<close>

record 'u serverPushRequest =
  prTarget :: 'u
  prPushID :: u64
  prHeaders :: "HeaderField list"

definition writePushPromise :: "('n, 'w) net_ops \<Rightarrow> (string \<Rightarrow> string) \<Rightarrow> u64 \<Rightarrow> 'u serverPushRequest \<Rightarrow>
    ('n, 'w, 'm) connection_scheme \<Rightarrow> 'w sendStream \<Rightarrow> goerr option \<times> ('n, 'w, 'm) connection_scheme \<times> 'w sendStream" where
  "writePushPromise nops uni i push c s =
     (if \<not> cReady c then (Some Blocked, c, s)
      else
        (case WriteVarint buf_ops (prPushID push) (NewBitWriter []) of
           ((_, Some e), _) \<Rightarrow> (Some e, c, s)
         | ((_, None), headerWriter) \<Rightarrow>
             (case QpackWriteHeaderBlock (strSink (netStream nops)) buf_ops uni i (prHeaders push) (cEncoder c) (cEncoderStream c)
                 (writer headerWriter) of
                (x, enc, uw, headerBuf) \<Rightarrow>
                  (let c' = c\<lparr>cEncoder := enc, cEncoderStream := uw\<rparr> in
                   case x of
                     Inl e \<Rightarrow> (Some e, c', s)
                   | Inr _ \<Rightarrow>
                       (case WriteFrame (strSink (netStream nops)) framePushPromise headerBuf s of
                          ((_, err), s') \<Rightarrow> (err, c', s'))))))"

text \<open>The error of \<open>writePushPromise\<close> is dropped.\<close>

definition Push :: "('n, 'w) net_ops \<Rightarrow> 'u url_ops \<Rightarrow> (string \<Rightarrow> string) \<Rightarrow> u64 \<Rightarrow> 'u serverRequest \<Rightarrow>
    string \<Rightarrow> string \<Rightarrow> HeaderField list \<Rightarrow> ('n, 'w) serverConnection \<Rightarrow> 'w sendStream \<Rightarrow>
    (goerr + 'u serverPushRequest) \<times> ('n, 'w) serverConnection \<times> 'w sendStream" where
  "Push nops uops uni i req method target hs c s =
     (case ValidatePseudoHeaders hs of
        Some e \<Rightarrow> (Inl e, c, s)
      | None \<Rightarrow>
          (case buildRequestHeaderFields uops method (srTarget req) target hs of
             Inl e \<Rightarrow> (Inl e, c, s)
           | Inr (u, allHeaders) \<Rightarrow>
               (case getNextPushID c of
                  (Inl e, c1) \<Rightarrow> (Inl e, c1, s)
                | (Inr pushID, c1) \<Rightarrow>
                    (let push = \<lparr>prTarget = u, prPushID = pushID, prHeaders = allHeaders\<rparr> in
                     case writePushPromise nops uni i push c1 s of
                       (err, c2, s') \<Rightarrow>
                         (case err of
                            Some e \<Rightarrow> if abnormal e then (Inl e, c2, s') else (Inr push, c2, s')
                          | None \<Rightarrow> (Inr push, c2, s'))))))"

definition ReferencePush :: "('n, 'w) net_ops \<Rightarrow> (string \<Rightarrow> string) \<Rightarrow> u64 \<Rightarrow> 'u serverPushRequest \<Rightarrow>
    ('n, 'w, 'm) connection_scheme \<Rightarrow> 'w sendStream \<Rightarrow> goerr option \<times> ('n, 'w, 'm) connection_scheme \<times> 'w sendStream" where
  "ReferencePush = writePushPromise"

definition ErrPushCancelled :: goerr where
  "ErrPushCancelled = ErrOther ''push was already cancelled''"

text \<open>The result has the new stream and whether there is a response to write a body to.\<close>

definition pushRespond :: "('n, 'w) net_ops \<Rightarrow> (string \<Rightarrow> string) \<Rightarrow> int \<Rightarrow> HeaderField list \<Rightarrow> 'u serverPushRequest \<Rightarrow>
    ('n, 'w) serverConnection \<Rightarrow> (goerr + bool \<times> 'w sendStream) \<times> ('n, 'w) serverConnection" where
  "pushRespond nops uni statusCode hs push c =
     (case ValidatePseudoHeaders hs of
        Some e \<Rightarrow> (Inl e, c)
      | None \<Rightarrow>
          if pushCancelled (prPushID push) c then (Inl ErrPushCancelled, c)
          else
            (case netCreateSendStream nops (cNet c) of (w, n) \<Rightarrow>
               (let c' = c\<lparr>cNet := n\<rparr>; ops = strSink (netStream nops) in
                case w of
                  None \<Rightarrow> (Inl (ErrOther ''No avaliable send streams for push response''), c')
                | Some w \<Rightarrow>
                    (case WriteByte ops unidirectionalStreamPush (NewBitWriter w) of
                       (Inl e, _) \<Rightarrow> (Inl e, c')
                     | (Inr _, s1) \<Rightarrow>
                         (case WriteVarint ops (prPushID push) s1 of
                            ((_, Some e), _) \<Rightarrow> (Inl e, c')
                          | ((_, None), s2) \<Rightarrow>
                              (case sendResponse nops uni (netId nops w) statusCode hs c' s2 of
                                 (Inl e, c'', _) \<Rightarrow> (Inl e, c'')
                               | (Inr b, c'', s3) \<Rightarrow> (Inr (b, s3), c'')))))))"

definition pushCancel :: "('n, 'w) net_ops \<Rightarrow> 'u serverPushRequest \<Rightarrow> ('n, 'w) serverConnection \<Rightarrow>
    goerr option \<times> ('n, 'w) serverConnection" where
  "pushCancel nops push c = cancelPush nops (prPushID push) c"

section \<open>The interface to the connection\<close>

context byte_source
begin

lemma serverHandleFrame_within:
  assumes "body_within content fin ok m r"
  shows "body_within content fin ok m (snd (snd (serverHandleFrame nops ops t c r)))"
proof -
  obtain x r1 where 1: "ReadVarint (body_ops ops) r = (x, r1)" by fastforce
  obtain e r2 where 2: "CheckForEOF (body_ops ops) r1 = (e, r2)" by fastforce
  have "body_within content fin ok m r1" using ReadVarint_body_within [OF assms] 1 by simp
  with CheckForEOF_body_within [OF this] assms 1 2 show ?thesis
    by (simp add: serverHandleFrame_def handleMaxPushID_def handleCancelPush_def split: prod.split sum.split option.split)
qed

lemma server_handler:
  "connection_handler ops content fin ok (serverHandleFrame nops ops) (serverHandleUnidirectionalStream rops)"
  by (intro connection_handler.intro byte_source_axioms connection_handler_axioms.intro)
    (auto simp: serverHandleUnidirectionalStream_def intro: serverHandleFrame_within split: prod.split)

lemma handleMaxPushID_spec:
  assumes "body_ok content fin ok rest F r" "body_bytes content r = bits_bytes (varint_bits v)" "unat v < 2 ^ 62"
  obtains r' where "serverHandleFrame nops ops frameMaxPushID c r =
      (None, c\<lparr>maxPushID := max (maxPushID c) v\<rparr>, r')"
    "rok ok (unlimited r')" "rbits content (unlimited r') = rest" "fin (reader (unlimited r')) = F"
proof -
  obtain r1 r2 where "ReadVarint (body_ops ops) r = (Inr v, r1)" "CheckForEOF (body_ops ops) r1 = (None, r2)"
    "rok ok (unlimited r2)" "rbits content (unlimited r2) = rest" "fin (reader (unlimited r2)) = F"
    by (rule varint_body [OF assms])
  then show thesis by (intro that [of r2]) (simp_all add: serverHandleFrame_def handleMaxPushID_def max_def)
qed

end

interpretation srv: connection_handler source_ops fst snd "\<lambda>_. True" "serverHandleFrame nops source_ops"
  "serverHandleUnidirectionalStream rops" for nops :: "('n, 'w) net_ops" and rops
  by (rule src.server_handler)

section \<open>The states of a server's connection\<close>

text \<open>
  Whatever a server does with its connection: it handles frames of the control stream, makes
  pushes, cancels them, answers requests and pushes, and the codec's streams are served.
\<close>

inductive server_step :: "('n, 'w) net_ops \<Rightarrow> 'r src_ops \<Rightarrow> 'u url_ops \<Rightarrow>
    ('n, 'w) serverConnection \<Rightarrow> u64 option \<Rightarrow> ('n, 'w) serverConnection \<Rightarrow> bool" for nops ops uops where
  frame: "serverHandleFrame nops ops t c r = (err, c', r') \<Longrightarrow> server_step nops ops uops c None c'"
| push: "Push nops uops uni i req method target hs c s = (Inr p, c', s') \<Longrightarrow> server_step nops ops uops c (Some (prPushID p)) c'"
| push_error: "Push nops uops uni i req method target hs c s = (Inl e, c', s') \<Longrightarrow> server_step nops ops uops c None c'"
| cancel: "cancelPush nops pushID c = (err, c') \<Longrightarrow> server_step nops ops uops c None c'"
| respond: "sendResponse nops uni i status hs c s = (x, c', s') \<Longrightarrow> server_step nops ops uops c None c'"
| push_respond: "pushRespond nops uni status hs (p :: 'u serverPushRequest) c = (x, c') \<Longrightarrow> server_step nops ops uops c None c'"
| reference: "ReferencePush nops uni i (p :: 'u serverPushRequest) c s = (err, c', s') \<Longrightarrow> server_step nops ops uops c None c'"
| codec: "server_step nops ops uops c None (c\<lparr>cEncoder := enc, cDecoder := d, cReady := b, cNet := n\<rparr>)"

inductive server_run :: "('n, 'w) net_ops \<Rightarrow> 'r src_ops \<Rightarrow> 'u url_ops \<Rightarrow> ('n, 'w) serverConnection \<Rightarrow> u64 list \<Rightarrow> bool"
    for nops ops uops where
  start: "server_run nops ops uops (newServerConnection c) []"
| step: "server_run nops ops uops c ids \<Longrightarrow> server_step nops ops uops c x c' \<Longrightarrow>
    server_run nops ops uops c' (ids @ (case x of None \<Rightarrow> [] | Some i \<Rightarrow> [i]))"

text \<open>The push identifiers of a connection: the next one, the limit and those that were cancelled.\<close>

abbreviation (input) push_state :: "('n, 'w) serverConnection \<Rightarrow> u64 \<times> u64 \<times> (u64 \<Rightarrow> bool)" where
  "push_state c \<equiv> (nextPushID c, maxPushID c, cancelledPushes c)"

lemma FatalError_push_state: "push_state (snd (FatalError nops e c)) = push_state c"
  by (simp add: FatalError_def split: prod.split)

lemma sendResponse_push_state:
  "sendResponse nops uni i status hs c s = (x, c', s') \<Longrightarrow> push_state c' = push_state c"
  by (auto simp: sendResponse_def Let_def split: option.splits if_splits prod.splits)

lemma writePushPromise_push_state:
  "writePushPromise nops uni i p c s = (err, c', s') \<Longrightarrow> push_state c' = push_state c"
  by (auto simp: writePushPromise_def Let_def split: option.splits if_splits prod.splits sum.splits)

lemma pushRespond_push_state:
  assumes "pushRespond nops uni status hs p c = (x, c')"
  shows "push_state c' = push_state c"
  using assms sendResponse_push_state [of nops uni _ status hs "c\<lparr>cNet := _\<rparr>"]
  by (auto simp: pushRespond_def Let_def split: option.splits if_splits prod.splits sum.splits)

lemma cancelPush_push_state:
  "cancelPush nops pushID c = (err, c') \<Longrightarrow>
     nextPushID c' = nextPushID c \<and> maxPushID c' = maxPushID c \<and> (cancelledPushes c i \<longrightarrow> cancelledPushes c' i)"
  by (auto simp: cancelPush_def split: option.splits prod.splits)

lemma serverHandleFrame_push_state:
  "serverHandleFrame nops ops t c r = (err, c', r') \<Longrightarrow>
     nextPushID c' = nextPushID c \<and> maxPushID c \<le> maxPushID c' \<and> (cancelledPushes c i \<longrightarrow> cancelledPushes c' i)"
  by (auto simp: serverHandleFrame_def handleMaxPushID_def handleCancelPush_def FatalError_def
      split: option.splits prod.splits sum.splits if_splits)

lemma Push_push_state:
  assumes "Push nops uops uni i req method target hs c s = (x, c', s')"
  shows "(case x of Inr p \<Rightarrow> prPushID p = nextPushID c \<and> nextPushID c < maxPushID c \<and> nextPushID c' = nextPushID c + 1
      | Inl _ \<Rightarrow> nextPushID c' = nextPushID c \<or> nextPushID c < maxPushID c \<and> nextPushID c' = nextPushID c + 1) \<and>
    maxPushID c' = maxPushID c \<and> cancelledPushes c' = cancelledPushes c"
  using assms writePushPromise_push_state [of nops uni i _ "c\<lparr>nextPushID := nextPushID c + 1\<rparr>" s]
  by (auto simp: Push_def getNextPushID_def Let_def split: option.splits if_splits prod.splits sum.splits)

lemma server_step_push_state:
  assumes "server_step nops ops uops c x c'"
  shows "(case x of
      None \<Rightarrow> nextPushID c' = nextPushID c \<or> nextPushID c < maxPushID c \<and> nextPushID c' = nextPushID c + 1
    | Some i \<Rightarrow> i = nextPushID c \<and> nextPushID c < maxPushID c \<and> nextPushID c' = nextPushID c + 1) \<and>
    maxPushID c \<le> maxPushID c' \<and> (\<forall>i. cancelledPushes c i \<longrightarrow> cancelledPushes c' i)"
  using assms
proof cases
  case frame
  then show ?thesis using serverHandleFrame_push_state by fastforce
next
  case push
  then show ?thesis using Push_push_state [OF push(2)] by simp
next
  case push_error
  then show ?thesis using Push_push_state [OF push_error(2)] by auto
next
  case cancel
  then show ?thesis using cancelPush_push_state by fastforce
next
  case respond
  then show ?thesis using sendResponse_push_state [OF respond(2)] by simp
next
  case push_respond
  then show ?thesis using pushRespond_push_state [OF push_respond(2)] by simp
next
  case reference
  then show ?thesis using writePushPromise_push_state [OF reference(2) [unfolded ReferencePush_def]] by simp
qed simp

lemma unat_succ: "(n :: u64) < m \<Longrightarrow> unat (n + 1) = Suc (unat n)"
  using unsigned_less [of m, where ?'a = nat] by (simp add: unat_word_ariths word_less_nat_alt)

lemma server_run_ids:
  assumes "server_run nops ops uops c ids"
  shows "distinct ids \<and> (\<forall>i \<in> set ids. i < nextPushID c) \<and> nextPushID c \<le> maxPushID c"
  using assms
proof induction
  case (start c)
  then show ?case by (simp add: newServerConnection_def connection.defs serverConnection.defs)
next
  case (step c ids x c')
  from server_step_push_state [OF step.hyps(2)] have max: "maxPushID c \<le> maxPushID c'"
    and x: "case x of
      None \<Rightarrow> nextPushID c' = nextPushID c \<or> nextPushID c < maxPushID c \<and> nextPushID c' = nextPushID c + 1
    | Some i \<Rightarrow> i = nextPushID c \<and> nextPushID c < maxPushID c \<and> nextPushID c' = nextPushID c + 1" by simp_all
  have up: "j < nextPushID c + 1" if "nextPushID c < maxPushID c" "j \<le> nextPushID c" for j
    using that(2) unat_succ [OF that(1)] by (simp add: word_less_nat_alt word_le_nat_alt)
  have le: "nextPushID c + 1 \<le> maxPushID c'" if "nextPushID c < maxPushID c"
    using max that unat_succ [OF that] by (simp add: word_less_nat_alt word_le_nat_alt)
  from step.IH x max up le show ?case
    by (auto split: option.splits intro: order_trans less_imp_le)
qed

section \<open>Push identifiers under concurrency\<close>

text \<open>
  \<open>pushIDLock\<close> is a \<open>sync.RWMutex\<close>: it is held by any number of readers or by one writer. A goroutine
  takes it in one of two ways; \<open>None\<close> is a wait.
\<close>

datatype lockKind = SharedLock | ExclusiveLock

record rwMutex =
  lockReaders :: nat
  lockWriter :: bool

definition unlocked :: rwMutex where
  "unlocked = \<lparr>lockReaders = 0, lockWriter = False\<rparr>"

fun acquireLock :: "lockKind \<Rightarrow> rwMutex \<Rightarrow> rwMutex option" where
  "acquireLock SharedLock m = (if lockWriter m then None else Some (m\<lparr>lockReaders := lockReaders m + 1\<rparr>))"
| "acquireLock ExclusiveLock m = (if lockWriter m \<or> 0 < lockReaders m then None else Some (m\<lparr>lockWriter := True\<rparr>))"

fun releaseLock :: "lockKind \<Rightarrow> rwMutex \<Rightarrow> rwMutex" where
  "releaseLock SharedLock m = m\<lparr>lockReaders := lockReaders m - 1\<rparr>"
| "releaseLock ExclusiveLock m = m\<lparr>lockWriter := False\<rparr>"

text \<open>\<open>getNextPushID\<close> calls \<open>RLock\<close>.\<close>

definition getNextPushIDLock :: lockKind where
  "getNextPushIDLock = SharedLock"

text \<open>
  A goroutine in \<open>getNextPushID\<close>: before the lock; with the lock; after the test; after the load of the
  identifier; after the load of the increment; before the deferred unlock; returned. The increment
  is a load and a store.
\<close>

datatype pushThread = PushCalling | PushLocked | PushTested | PushLoaded u64 | PushAdding u64 u64
  | PushLeaving "u64 option" | PushDone "u64 option"

fun pushIDStep :: "lockKind \<Rightarrow> u64 \<Rightarrow> pushThread \<Rightarrow> u64 \<times> rwMutex \<Rightarrow> (pushThread \<times> u64 \<times> rwMutex) option" where
  "pushIDStep l limit PushCalling (k, m) = map_option (\<lambda>m'. (PushLocked, k, m')) (acquireLock l m)"
| "pushIDStep l limit PushLocked (k, m) = Some (if k \<ge> limit then PushLeaving None else PushTested, k, m)"
| "pushIDStep l limit PushTested (k, m) = Some (PushLoaded k, k, m)"
| "pushIDStep l limit (PushLoaded i) (k, m) = Some (PushAdding i k, k, m)"
| "pushIDStep l limit (PushAdding i v) (k, m) = Some (PushLeaving (Some i), v + 1, m)"
| "pushIDStep l limit (PushLeaving r) (k, m) = Some (PushDone r, k, releaseLock l m)"
| "pushIDStep l limit (PushDone r) (k, m) = None"

text \<open>Any number of goroutines, in any order; the limit does not change meanwhile.\<close>

inductive push_steps :: "lockKind \<Rightarrow> u64 \<Rightarrow> pushThread list \<times> u64 \<times> rwMutex \<Rightarrow> pushThread list \<times> u64 \<times> rwMutex \<Rightarrow> bool" for l limit where
  start: "push_steps l limit x x"
| step: "push_steps l limit x (ts, k, m) \<Longrightarrow> i < length ts \<Longrightarrow> pushIDStep l limit (ts ! i) (k, m) = Some (t, k', m') \<Longrightarrow>
    push_steps l limit x (ts[i := t], k', m')"

lemma push_steps_one:
  "push_steps l limit x (ts, s) \<Longrightarrow> i < length ts \<Longrightarrow> pushIDStep l limit (ts ! i) s = Some (t, s') \<Longrightarrow>
     push_steps l limit x (ts[i := t], s')"
  by (cases s; cases s') (auto intro: push_steps.step)

text \<open>A goroutine alone does in its steps what the function computes.\<close>

lemma getNextPushID_alone:
  "push_steps l (maxPushID c) ([PushCalling], nextPushID c, unlocked)
     (case getNextPushID c of (Inl e, c') \<Rightarrow> ([PushDone None], nextPushID c', unlocked)
      | (Inr i, c') \<Rightarrow> ([PushDone (Some i)], nextPushID c', unlocked))"
proof -
  let ?k = "nextPushID c" and ?run = "push_steps l (maxPushID c) ([PushCalling], nextPushID c, unlocked)"
  obtain m where m: "acquireLock l unlocked = Some m" "releaseLock l m = unlocked" by (cases l) (auto simp: unlocked_def)
  have one: "?run ([t], s) \<Longrightarrow> pushIDStep l (maxPushID c) t s = Some (t', s') \<Longrightarrow> ?run ([t'], s')" for t s t' s'
    using push_steps_one [of l _ _ "[t]" s 0] by simp
  have 1: "?run ([PushLocked], ?k, m)" using one [OF push_steps.start] m(1) by simp
  show ?thesis
  proof (cases "?k \<ge> maxPushID c")
    case True
    have "?run ([PushLeaving None], ?k, m)" using one [OF 1] True by simp
    from one [OF this] m(2) True show ?thesis by (simp add: getNextPushID_def)
  next
    case False
    have "?run ([PushTested], ?k, m)" using one [OF 1] False by simp
    from one [OF this] have "?run ([PushLoaded ?k], ?k, m)" by simp
    from one [OF this] have "?run ([PushAdding ?k ?k], ?k, m)" by simp
    from one [OF this] have "?run ([PushLeaving (Some ?k)], ?k + 1, m)" by simp
    from one [OF this] m(2) False show ?thesis by (simp add: getNextPushID_def)
  qed
qed

text \<open>All goroutines, one after the other, go from \<open>a\<close> to \<open>b\<close>.\<close>

lemma push_sweep:
  assumes "push_steps l limit x (replicate g a, s 0)"
    "\<And>ts i j. push_steps l limit x (ts, s j) \<Longrightarrow> i < length ts \<Longrightarrow> ts ! i = a \<Longrightarrow> push_steps l limit x (ts[i := b], s (Suc j))"
  shows "push_steps l limit x (replicate g b, s g)"
proof -
  have "push_steps l limit x (replicate j b @ replicate (g - j) a, s j)" if "j \<le> g" for j
    using that
  proof (induction j)
    case (Suc j)
    then have d: "replicate (g - j) a = a # replicate (g - Suc j) a" by (metis Suc_diff_Suc Suc_le_lessD replicate_Suc)
    have "push_steps l limit x (replicate j b @ replicate (g - j) a, s j)" using Suc by simp
    from assms(2) [OF this, of j] Suc.prems d have "push_steps l limit x ((replicate j b @ replicate (g - j) a)[j := b], s (Suc j))"
      by (simp add: nth_append)
    moreover have "(replicate j b @ replicate (g - j) a)[j := b] = replicate (Suc j) b @ replicate (g - Suc j) a"
      unfolding d by (simp add: list_update_append) (simp add: replicate_append_same flip: append_Cons append_assoc)
    ultimately show ?case by simp
  qed (use assms(1) in simp)
  from this [of g] show ?thesis by simp
qed

lemma push_sweep_step:
  assumes "push_steps l limit x (replicate g a, s 0)" "\<And>j. pushIDStep l limit a (s j) = Some (b, s (Suc j))"
  shows "push_steps l limit x (replicate g b, s g)"
  using assms(1) by (rule push_sweep) (rule push_steps_one, assumption+, simp add: assms(2))

lemma push_race:
  assumes "n < limit"
  shows "push_steps SharedLock limit (replicate g PushCalling, n, unlocked) (replicate g (PushDone (Some n)), n + of_nat g, unlocked)"
proof -
  let ?m = "\<lambda>j. \<lparr>lockReaders = j, lockWriter = False\<rparr>"
  let ?run = "push_steps SharedLock limit (replicate g PushCalling, n, ?m 0)"
  note one = push_steps_one [of SharedLock limit "(replicate g PushCalling, n, ?m 0)"]
  have "?run (replicate g PushLocked, n, ?m g)"
    using push_sweep_step [where s = "\<lambda>j. (n, ?m j)", OF push_steps.start] by simp
  moreover have "\<not> limit \<le> n" using assms by simp
  ultimately have "?run (replicate g PushTested, n, ?m g)"
    using push_sweep_step [where s = "\<lambda>j. (n, ?m g)", of SharedLock limit _ g PushLocked PushTested] by (simp del: not_le)
  from push_sweep_step [where s = "\<lambda>j. (n, ?m g)", OF this] have "?run (replicate g (PushLoaded n), n, ?m g)" by simp
  then have "?run (replicate g (PushLeaving (Some n)), n + of_nat g, ?m g)"
  proof (intro push_sweep [where s = "\<lambda>j. (n + of_nat j, ?m g)" and a = "PushLoaded n"])
    fix ts i j assume 1: "?run (ts, n + of_nat j, ?m g)" and i: "i < length ts" "ts ! i = PushLoaded n"
    let ?k = "n + of_nat j"
    from one [OF 1 i(1)] i(2) have 2: "?run (ts[i := PushAdding n ?k], ?k, ?m g)" by simp
    from one [OF 2, of i] i(1) show "?run (ts[i := PushLeaving (Some n)], n + of_nat (Suc j), ?m g)"
      by (simp add: ac_simps)
  qed simp
  from push_sweep_step [where s = "\<lambda>j. (n + of_nat g, ?m (g - j))", of _ _ _ g] this
  have "?run (replicate g (PushDone (Some n)), n + of_nat g, ?m (g - g))" by simp
  then show ?thesis by (simp add: unlocked_def)
qed

text \<open>With \<open>Lock\<close> in the place of \<open>RLock\<close>: who is inside is alone, and identifiers that were given out are below the counter.\<close>

fun pushInside :: "pushThread \<Rightarrow> bool" where
  "pushInside PushCalling = False"
| "pushInside (PushDone r) = False"
| "pushInside t = True"

fun pushResult :: "pushThread \<Rightarrow> u64 option" where
  "pushResult (PushLeaving r) = r"
| "pushResult (PushDone r) = r"
| "pushResult t = None"

fun pushLocal :: "u64 \<Rightarrow> u64 \<Rightarrow> pushThread \<Rightarrow> bool" where
  "pushLocal limit k PushTested = (k < limit)"
| "pushLocal limit k (PushLoaded i) = (i = k \<and> k < limit)"
| "pushLocal limit k (PushAdding i v) = (i = k \<and> v = k \<and> k < limit)"
| "pushLocal limit k t = True"

definition pushExclusive :: "u64 \<Rightarrow> pushThread list \<times> u64 \<times> rwMutex \<Rightarrow> bool" where
  "pushExclusive limit s \<longleftrightarrow> (case s of (ts, k, m) \<Rightarrow> k \<le> limit \<and> lockReaders m = 0 \<and>
     (\<forall>i < length ts. pushInside (ts ! i) \<longrightarrow> lockWriter m \<and> pushLocal limit k (ts ! i)) \<and>
     (\<forall>i < length ts. \<forall>j < length ts. pushInside (ts ! i) \<longrightarrow> pushInside (ts ! j) \<longrightarrow> i = j) \<and>
     (\<forall>i < length ts. \<forall>x. pushResult (ts ! i) = Some x \<longrightarrow> x < k) \<and>
     (\<forall>i < length ts. \<forall>j < length ts. \<forall>x. pushResult (ts ! i) = Some x \<longrightarrow> pushResult (ts ! j) = Some x \<longrightarrow> i = j))"

lemma pushExclusive_step:
  assumes inv: "pushExclusive limit (ts, k, m)" and i: "i < length ts"
    and step: "pushIDStep ExclusiveLock limit (ts ! i) (k, m) = Some (t, k', m')"
  shows "pushExclusive limit (ts[i := t], k', m')"
proof -
  have alone: "\<not> pushInside (ts ! j)" if "pushInside (ts ! i)" "j < length ts" "j \<noteq> i" for j
    using inv i that by (auto simp: pushExclusive_def)
  have free: "\<not> pushInside (ts ! j)" if "\<not> lockWriter m" "j < length ts" for j
    using inv that by (auto simp: pushExclusive_def)
  have res: "x < k" if "j < length ts" "pushResult (ts ! j) = Some x" for j x
    using inv that by (auto simp: pushExclusive_def)
  have uniq: "j = j'" if "j < length ts" "j' < length ts" "pushResult (ts ! j) = Some x" "pushResult (ts ! j') = Some x" for j j' x
    using inv that unfolding pushExclusive_def by blast
  have loc: "pushInside (ts ! i) \<Longrightarrow> lockWriter m \<and> pushLocal limit k (ts ! i)" and base: "k \<le> limit" "lockReaders m = 0"
    using inv i by (auto simp: pushExclusive_def)
  note facts = i alone base res uniq
  show ?thesis
  proof (cases "ts ! i")
    case PushCalling
    with step have "t = PushLocked" "k' = k" "\<not> lockWriter m" "m' = m\<lparr>lockWriter := True\<rparr>" by (auto split: if_splits)
    with i base free res uniq show ?thesis by (auto simp: pushExclusive_def nth_list_update)
  next
    case PushLocked
    with step loc facts show ?thesis by (cases "limit \<le> k") (auto simp: pushExclusive_def nth_list_update not_le)
  next
    case PushTested
    with step loc facts show ?thesis by (auto simp: pushExclusive_def nth_list_update)
  next
    case (PushLoaded x)
    with step loc facts show ?thesis by (auto simp: pushExclusive_def nth_list_update)
  next
    case (PushAdding x v)
    with step loc have k: "t = PushLeaving (Some k)" "k' = k + 1" "m' = m" "k < limit" "lockWriter m" "x = k" by auto
    have "k + 1 \<le> limit" using unat_succ [OF k(4)] k(4) by (simp add: word_less_nat_alt word_le_nat_alt)
    moreover have "y < k + 1" if "y \<le> k" for y
      using unat_succ [OF k(4)] that by (simp add: word_less_nat_alt word_le_nat_alt)
    ultimately show ?thesis
      using k PushAdding facts by (auto simp: pushExclusive_def nth_list_update less_imp_le)
  next
    case (PushLeaving r)
    with step loc facts show ?thesis by (auto simp: pushExclusive_def nth_list_update)
  next
    case (PushDone r)
    with step show ?thesis by simp
  qed
qed

lemma push_exclusive:
  assumes "push_steps ExclusiveLock limit x y" "pushExclusive limit x"
  shows "pushExclusive limit y"
  using assms by (induction rule: push_steps.induct) (auto intro: pushExclusive_step)

lemma pushExclusive_start: "n \<le> limit \<Longrightarrow> pushExclusive limit (replicate g PushCalling, n, unlocked)"
  by (simp add: pushExclusive_def unlocked_def)

section \<open>Properties of servers\<close>

text \<open>C19: Push identifiers are used once and only with credit. Over every sequence of operations on a server's
  connection, with frames of whatever content, the identifiers given to pushes are distinct and
  below the limit that the client has granted, without wrap-around of the counter.\<close>

theorem push_ids_distinct:
  assumes "server_run nops ops uops c ids"
  shows "distinct ids \<and> (\<forall>i \<in> set ids. i < maxPushID c) \<and> nextPushID c \<le> maxPushID c"
  using server_run_ids [OF assms] by auto

text \<open>C29: The lock that \<open>getNextPushID\<close> takes does not protect the counter. With any limit and any
  counter below it, any number of goroutines that push at the same time may all get the same
  identifier; each of them raises the counter, which passes the limit when they are more than the
  identifiers left (64-bit wrap-around aside). The cause is that the lock is shared: with the exclusive lock in its place, in all
  runs of any number of goroutines, no two get the same identifier and the counter stays within the limit.\<close>

theorem push_id_race:
  assumes "n < limit"
  shows "push_steps getNextPushIDLock limit (replicate g PushCalling, n, unlocked)
      (replicate g (PushDone (Some n)), n + of_nat g, unlocked) \<and>
    (\<forall>ts k m i j x. push_steps ExclusiveLock limit (replicate g PushCalling, n, unlocked) (ts, k, m) \<and>
       i < length ts \<and> j < length ts \<and> ts ! i = PushDone (Some x) \<and> ts ! j = PushDone (Some x) \<longrightarrow> i = j \<and> k \<le> limit)"
proof (intro conjI allI impI)
  show "push_steps getNextPushIDLock limit (replicate g PushCalling, n, unlocked)
      (replicate g (PushDone (Some n)), n + of_nat g, unlocked)"
    unfolding getNextPushIDLock_def by (rule push_race [OF assms])
  fix ts k m i j x
  assume a: "push_steps ExclusiveLock limit (replicate g PushCalling, n, unlocked) (ts, k, m) \<and>
       i < length ts \<and> j < length ts \<and> ts ! i = PushDone (Some x) \<and> ts ! j = PushDone (Some x)"
  with push_exclusive [OF _ pushExclusive_start] assms have inv: "pushExclusive limit (ts, k, m)" by (auto intro: less_imp_le)
  have "pushResult (ts ! i) = Some x" "pushResult (ts ! j) = Some x" using a by simp_all
  with inv a show "i = j" unfolding pushExclusive_def by blast
  from inv show "k \<le> limit" by (simp add: pushExclusive_def)
qed

theorem push_id_race_witness:
  "push_steps getNextPushIDLock 1 ([PushCalling, PushCalling], 0, unlocked)
     ([PushDone (Some 0), PushDone (Some 0)], 2, unlocked)"
  using push_id_race [of 0 1 2] by (simp add: numeral_2_eq_2)

text \<open>A server's connection that is ready, and the body of a frame.\<close>

definition example_server :: "(16 word list, byte list) serverConnection" where
  "example_server = (newServerConnection example_connection)\<lparr>cEncoder := projr (NewQpackEncoder 0 0), cReady := True\<rparr>"

definition example_body :: "byte list \<Rightarrow> source body" where
  "example_body p = Limited (word_of_nat (length p)) (NewBitReader (p, EOF))"

lemma example_body:
  assumes "length p < 2 ^ 62"
  shows "body_ok fst snd (\<lambda>_. True) [] EOF (example_body p)" "body_bytes fst (example_body p) = p"
  using src.body_ok_Limited [of "NewBitReader (p, EOF)" p "[]" EOF] assms
  by (simp_all add: example_body_def rok_def rbits_def NewBitReader_def)

theorem push_ids_distinct_witness:
  "\<exists>c. server_run memory_net source_ops triple_urls c [0] \<and> 0 < maxPushID c"
proof -
  let ?push = "Push memory_net triple_urls id 4 newServerRequest ''GET'' ''/a'' []"
  let ?f = "serverHandleFrame memory_net source_ops frameMaxPushID example_server (example_body [2])"
  let ?c1 = "fst (snd ?f)" let ?c2 = "fst (snd (?push ?c1 (NewBitWriter [])))"
  have "case ?push ?c1 (NewBitWriter []) of (Inr p, _) \<Rightarrow> prPushID p = 0 | _ \<Rightarrow> False" by code_simp
  then obtain p s where p: "?push ?c1 (NewBitWriter []) = (Inr p, ?c2, s)" "prPushID p = 0"
    by (cases "?push ?c1 (NewBitWriter [])") (auto split: sum.splits)
  have "server_step memory_net source_ops triple_urls (newServerConnection example_connection) None example_server"
    using server_step.codec [where c = "newServerConnection example_connection" and enc = "cEncoder example_server" and
      d = "cDecoder example_server" and b = True and n = "cNet example_server"] by (simp add: example_server_def)
  from server_run.step [OF server_run.start this] have "server_run memory_net source_ops triple_urls example_server []" by simp
  moreover have "?f = (fst ?f, ?c1, snd (snd ?f))" by simp
  from server_run.step [OF calculation server_step.frame [OF this]]
  have "server_run memory_net source_ops triple_urls ?c1 []" by simp
  from server_run.step [OF this server_step.push [OF p(1)]] p(2)
  have "server_run memory_net source_ops triple_urls ?c2 [0]" by simp
  with push_ids_distinct [OF this] show ?thesis by auto
qed

text \<open>C28: A cancelled push stays cancelled. Once the server has handled \<open>CANCEL_PUSH\<close> for a push, then after any
  further operations \<open>Respond\<close> refuses to send its response and opens no stream for it.\<close>

theorem cancelled_push_refused:
  assumes "byte_source ops content fin ok" "body_ok content fin ok rest F r"
    "body_bytes content r = bits_bytes (varint_bits (prPushID p))" "unat (prPushID p) < 2 ^ 62"
    "serverHandleFrame nops ops frameCancelPush c0 r = (err, c, r')"
    "(\<lambda>a b. \<exists>x. server_step nops ops uops a x b)\<^sup>*\<^sup>* c c'" "ValidatePseudoHeaders hs = None"
  shows "err = None \<and> pushRespond nops uni status hs p c' = (Inl ErrPushCancelled, c')"
proof -
  obtain r1 r2 where "ReadVarint (body_ops ops) r = (Inr (prPushID p), r1)" "CheckForEOF (body_ops ops) r1 = (None, r2)"
    by (rule byte_source.varint_body [OF assms(1-4)])
  with assms(5) have c: "err = None" "cancelledPushes c (prPushID p)"
    by (auto simp: serverHandleFrame_def handleCancelPush_def frame_types)
  from assms(6) c(2) have "cancelledPushes c' (prPushID p)"
    by (induction rule: rtranclp_induct) (auto dest: server_step_push_state)
  with c(1) assms(7) show ?thesis by (simp add: pushRespond_def pushCancelled_def)
qed

theorem cancelled_push_refused_witness:
  "pushRespond memory_net id 200 [] \<lparr>prTarget = (), prPushID = 3, prHeaders = []\<rparr>
     (fst (snd (serverHandleFrame memory_net source_ops frameCancelPush example_server (example_body [3])))) =
   (Inl ErrPushCancelled, fst (snd (serverHandleFrame memory_net source_ops frameCancelPush example_server (example_body [3]))))"
proof -
  let ?p = "\<lparr>prTarget = (), prPushID = 3, prHeaders = []\<rparr>"
  let ?f = "serverHandleFrame memory_net source_ops frameCancelPush example_server (example_body [3])"
  have b: "body_bytes fst (example_body [3]) = bits_bytes (varint_bits (prPushID ?p))"
    using example_body(2) [of "[3]"] by simp code_simp
  have v: "ValidatePseudoHeaders [] = None" "unat (prPushID ?p) < 2 ^ 62" "length [3 :: byte] < 2 ^ 62" by (simp_all, code_simp)
  have "?f = (fst ?f, fst (snd ?f), snd (snd ?f))" by simp
  from cancelled_push_refused [where p = ?p, OF src.byte_source_axioms example_body(1) [OF v(3)] b v(2) this rtranclp.rtrancl_refl v(1)]
  show ?thesis by blast
qed

text \<open>A request is handed to the application even if it has no method or target: the error of
  \<open>setHeaders\<close> is dropped, and the stream is not aborted.\<close>

theorem malformed_request_delivered:
  assumes "clean_source (rcvSource rops) content fin ok" "0 < n"
    "block_decodes (rcvSource rops) content fin ok i d b hs d1" "ValidatePseudoHeaders hs = None"
    "getMethodAndTarget uops uni hs = Inl e" "length b < 2 ^ 62" "\<forall>p \<in> set ps. length p < 2 ^ 62"
    "rok ok fr" "rsavedBits fr = 0" "fin (reader fr) = EOF"
    "rbits content fr = frames_bits ((frameHeaders, b) # map (Pair frameData) ps)"
  shows "\<exists>fr'. requestHandle sops rops n i uops uni d s fr =
    Some (None, \<lparr>mDecoder = d1, mBody = concat ps, mTrailers = [], mClosed = True,
      mApp = [\<lparr>srMethod = [], srTarget = None, srHeaders = hs\<rparr>]\<rparr>, s, fr')"
proof -
  have "requestHeaders uops uni hs [] = (Inr True, [\<lparr>srMethod = [], srTarget = None, srHeaders = hs\<rparr>])"
    using assms(5) by (simp add: requestHeaders_def setHeaders_def)
  from handleMessage_frames [where hh = "requestHeaders uops uni" and trailer = None and fh = requestFrames and fr = fr,
      OF assms(1-4) this assms(6,7)] assms(8-11)
  show ?thesis by (fastforce simp: requestHandle_def)
qed

theorem malformed_request_delivered_witness:
  "\<exists>b d d1 fr'. requestHandle buffer_stream memory_recv 16 4 triple_urls id d (NewBitWriter [])
       (frames_reader [(frameHeaders, b), (frameData, [1, 2])]) =
     Some (None, \<lparr>mDecoder = d1, mBody = [1, 2], mTrailers = [], mClosed = True,
       mApp = [\<lparr>srMethod = [], srTarget = None, srHeaders = lowered id example_request\<rparr>]\<rparr>, NewBitWriter [], fr')"
proof -
  have src: "rcvSource memory_recv = source_ops" by (simp add: memory_recv_def)
  obtain b d d1 d2 where b: "block_decodes source_ops fst snd (\<lambda>_. True) 4 d b (lowered id example_request) d1"
    "block_decodes source_ops fst snd (\<lambda>_. True) 4 d1 b (lowered id example_request) d2" "length b < 2 ^ 62"
    by (rule example_blocks)
  have "case getMethodAndTarget triple_urls id (lowered id example_request) of Inl _ \<Rightarrow> True | Inr _ \<Rightarrow> False" by code_simp
  then obtain e where e: "getMethodAndTarget triple_urls id (lowered id example_request) = Inl e" by (auto split: sum.splits)
  from malformed_request_delivered [where rops = memory_recv and n = 16 and ps = "[[1, 2]]" and uops = triple_urls and sops = buffer_stream
      and s = "NewBitWriter []", unfolded src, OF src.clean_source_axioms _ b(1) example_valid e b(3) _ frames_reader(1-3)] frames_reader(4)
  show ?thesis by fastforce
qed

end
