(* ===== verification/Client.thy ===== *)
theory Client
  imports Connection
begin

text \<open>
  Clients, \<open>src/client_connection.go\<close> and \<open>src/client_request.go\<close>: requests and their
  responses, push promises and the credit for pushes.
\<close>

section \<open>Push promises\<close>

text \<open>
  A response is known by its fields and its status. The channel of a promise is a closed flag and
  what was taken from it; the application is taken to be ready to receive.
\<close>

record clientResponse =
  crHeaders :: "HeaderField list"
  crStatus :: int

definition responseOf :: "(string \<Rightarrow> string) \<Rightarrow> HeaderField list \<Rightarrow> clientResponse" where
  "responseOf uni hs = \<lparr>crHeaders = hs, crStatus = GetStatus uni hs\<rparr>"

text \<open>\<open>ppConnected\<close>: the field \<open>c\<close> is not \<open>nil\<close>.\<close>

record 'u pushPromise =
  ppConnected :: bool
  ppHeaders :: "HeaderField list"
  ppMethod :: string
  ppTarget :: "'u option"
  ppPushID :: u64
  ppTaken :: "clientResponse option list"
  ppClosed :: bool
  ppResponse :: "clientResponse option"
  ppCancelled :: bool

definition newPushPromise :: "u64 \<Rightarrow> 'u pushPromise" where
  "newPushPromise pushID = \<lparr>ppConnected = False, ppHeaders = [], ppMethod = [], ppTarget = None, ppPushID = pushID,
     ppTaken = [], ppClosed = False, ppResponse = None, ppCancelled = False\<rparr>"

definition promiseSetHeaders :: "'u url_ops \<Rightarrow> (string \<Rightarrow> string) \<Rightarrow> HeaderField list \<Rightarrow> 'u pushPromise \<Rightarrow>
    goerr option \<times> 'u pushPromise" where
  "promiseSetHeaders uops uni h pp =
     (case getMethodAndTarget uops uni h of
        Inl e \<Rightarrow> (Some e, pp\<lparr>ppHeaders := h, ppMethod := [], ppTarget := None\<rparr>)
      | Inr (m, u) \<Rightarrow> (None, pp\<lparr>ppHeaders := h, ppMethod := m, ppTarget := Some u\<rparr>))"

definition fulfill :: "clientResponse option \<Rightarrow> bool \<Rightarrow> 'u pushPromise \<Rightarrow> goerr option \<times> 'u pushPromise" where
  "fulfill resp cancelled pp =
     (if ppClosed pp then (Some (Panic ''send on closed channel''), pp)
      else (None, pp\<lparr>ppTaken := ppTaken pp @ [resp], ppResponse := resp, ppCancelled := cancelled, ppClosed := True\<rparr>))"

definition isFulfilled :: "'u pushPromise \<Rightarrow> bool" where
  "isFulfilled pp \<longleftrightarrow> ppResponse pp \<noteq> None \<or> ppCancelled pp"

text \<open>\<open>stop\<close> is \<open>StopSending\<close> on the stream of the response.\<close>

definition promiseCancel :: "'w snk_ops \<Rightarrow> (HTTPError \<Rightarrow> goerr option) \<Rightarrow> 'u pushPromise \<Rightarrow> 'w sendStream \<Rightarrow>
    goerr option \<times> 'w sendStream" where
  "promiseCancel ops stop pp control =
     (if isFulfilled pp then
        (if ppResponse pp = None then (Some (Panic ''nil pointer dereference''), control)
         else (stop ErrHttpRequestCancelled, control))
      else
        (case WriteVarint buf_ops (ppPushID pp) (NewBitWriter []) of
           ((_, Some e), _) \<Rightarrow> (Some e, control)
         | ((_, None), buf) \<Rightarrow>
             if \<not> ppConnected pp then (Some (Panic ''nil pointer dereference''), control)
             else (case WriteFrame ops frameCancelPush (writer buf) control of ((_, err), control') \<Rightarrow> (err, control'))))"

section \<open>The connection of a client\<close>

record ('n, 'w, 'u) clientConnection = "('n, 'w) connection" +
  ccMaxPushID :: u64
  promises :: "u64 \<Rightarrow> 'u pushPromise option"

definition NewClientConnection :: "('n, 'w) connection \<Rightarrow> ('n, 'w, 'u) clientConnection" where
  "NewClientConnection c = connection.extend c (clientConnection.fields 0 Map.empty)"

definition getPushPromise :: "u64 \<Rightarrow> ('n, 'w, 'u) clientConnection \<Rightarrow> 'u pushPromise \<times> ('n, 'w, 'u) clientConnection" where
  "getPushPromise pushID c =
     (case promises c pushID of
        Some pp \<Rightarrow> (pp, c)
      | None \<Rightarrow> (newPushPromise pushID, c\<lparr>promises := (promises c)(pushID \<mapsto> newPushPromise pushID)\<rparr>))"

text \<open>An operation on the promise of an identifier, which the connection holds.\<close>

definition onPromise :: "u64 \<Rightarrow> ('u pushPromise \<Rightarrow> goerr option \<times> 'u pushPromise) \<Rightarrow> ('n, 'w, 'u) clientConnection \<Rightarrow>
    goerr option \<times> ('n, 'w, 'u) clientConnection" where
  "onPromise pushID f c =
     (case getPushPromise pushID c of (pp, c') \<Rightarrow>
        (case f pp of (err, pp') \<Rightarrow> (err, c'\<lparr>promises := (promises c')(pushID \<mapsto> pp')\<rparr>)))"

definition clientHandleCancelPush :: "'r src_ops \<Rightarrow> ('n, 'w, 'u) clientConnection \<Rightarrow> 'r body \<Rightarrow>
    goerr option \<times> ('n, 'w, 'u) clientConnection \<times> 'r body" where
  "clientHandleCancelPush ops c r =
     (case ReadVarint (body_ops ops) r of
        (Inl e, r1) \<Rightarrow> (Some e, c, r1)
      | (Inr pushID, r1) \<Rightarrow>
          (case CheckForEOF (body_ops ops) r1 of
             (Some e, r2) \<Rightarrow> (Some e, c, r2)
           | (None, r2) \<Rightarrow> (case onPromise pushID (fulfill None True) c of (err, c') \<Rightarrow> (err, c', r2))))"

definition clientHandleFrame :: "'r src_ops \<Rightarrow> ('r, ('n, 'w, 'u) clientConnection) controlHandler" where
  "clientHandleFrame ops t c r =
     (if t = frameCancelPush then clientHandleCancelPush ops c r else (Some ErrInvalidFrame, c, r))"

text \<open>The error of \<open>WriteVarint\<close> is dropped, which leaves the frame empty.\<close>

definition creditPushes :: "('n, 'w) net_ops \<Rightarrow> u64 \<Rightarrow> ('n, 'w, 'u) clientConnection \<Rightarrow> goerr option \<times> ('n, 'w, 'u) clientConnection" where
  "creditPushes nops incr c =
     (let m = ccMaxPushID c + incr; buf = writer (snd (WriteVarint buf_ops m (NewBitWriter []))) in
      case WriteFrame (strSink (netStream nops)) frameMaxPushID buf (cControlStream c) of
        ((_, err), s) \<Rightarrow> (err, c\<lparr>ccMaxPushID := m, cControlStream := s\<rparr>))"

definition clientConnect :: "('n, 'w) net_ops \<Rightarrow> Config \<Rightarrow> ('n, ('n, 'w, 'u) clientConnection) io" where
  "clientConnect nops config n =
     (case connect nops config n of
        (Inl e, n') \<Rightarrow> (Inl e, n')
      | (Inr c, n') \<Rightarrow>
          (case creditPushes nops (MaxConcurrentPushes config) (NewClientConnection c) of (_, c') \<Rightarrow> (Inr c', n')))"

section \<open>Responses\<close>

text \<open>Division of \<open>int\<close> rounds towards zero.\<close>

definition statusClass :: "int \<Rightarrow> int" where
  "statusClass status = (if status < 0 then - ((- status) div 100) else status div 100)"

definition ErrInvalidStatus :: goerr where
  "ErrInvalidStatus = ErrOther ''invalid or missing status''"

text \<open>
  A push stream. No promise has a channel for informational responses, so they are dropped.
\<close>

definition pushHeaders :: "(string \<Rightarrow> string) \<Rightarrow> u64 \<Rightarrow> ('n, 'w, 'u) clientConnection headersHandler" where
  "pushHeaders uni pushID hs c =
     (if statusClass (GetStatus uni hs) = 0 then (Inl ErrInvalidStatus, c)
      else if statusClass (GetStatus uni hs) = 1 then (Inr False, c)
      else
        (case onPromise pushID (fulfill (Some (responseOf uni hs)) False) c of
           (Some e, c') \<Rightarrow> (Inl e, c')
         | (None, c') \<Rightarrow> (Inr True, c')))"

definition pushFrames :: "('r, 'h) frameHandler" where
  "pushFrames t d h r = Some (Some ErrUnsupportedFrame, d, h, r)"

definition handlePushStream :: "('n, 'w) net_ops \<Rightarrow> 'r src_ops \<Rightarrow> nat \<Rightarrow> u64 \<Rightarrow> (string \<Rightarrow> string) \<Rightarrow>
    ('n, 'w, 'u) clientConnection \<Rightarrow> 'r bitReader \<Rightarrow> (goerr option \<times> ('n, 'w, 'u) clientConnection \<times> 'r bitReader) option" where
  "handlePushStream nops ops n i uni c s =
     (case ReadVarint ops s of
        (Inl e, s1) \<Rightarrow> Some (Some e, c, s1)
      | (Inr pushID, s1) \<Rightarrow>
          (case getPushPromise pushID c of (promise, c1) \<Rightarrow>
             if isFulfilled promise then Some (Some (ErrOther ''double fulfilment of promise''), c1, s1)
             else
               map_option (\<lambda>(err, msg, s').
                 (let c2 = (mApp msg)\<lparr>cDecoder := mDecoder msg\<rparr> in
                  case err of
                    Some e \<Rightarrow> (Some e, c2, s')
                  | None \<Rightarrow> (None, snd (creditPushes nops 1 c2), s')))
                 (handleMessage ops n i (pushHeaders uni pushID) pushFrames (newIncomingMessage (cDecoder c1) c1) s1)))"

definition clientHandleUnidirectionalStream :: "('n, 'w) net_ops \<Rightarrow> 'r recv_ops \<Rightarrow> nat \<Rightarrow> u64 \<Rightarrow> (string \<Rightarrow> string) \<Rightarrow>
    ('r, ('n, 'w, 'u) clientConnection) streamHandler" where
  "clientHandleUnidirectionalStream nops rops n i uni t c s =
     (if t = unidirectionalStreamPush then handlePushStream nops (rcvSource rops) n i uni c s
      else (case StopSending rops ErrHttpUnknownStreamType s of (e, s') \<Rightarrow> Some (e, c, s')))"

section \<open>Requests\<close>

record 'u clientRequest =
  cqMethod :: string
  cqTarget :: 'u
  cqHeaders :: "HeaderField list"

text \<open>
  \<open>newStream\<close> never returns \<open>nil\<close>, so the test for a stream that could not be opened has no
  effect, and writing to it dereferences \<open>nil\<close>.
\<close>

definition Fetch :: "('n, 'w) net_ops \<Rightarrow> 'u url_ops \<Rightarrow> (string \<Rightarrow> string) \<Rightarrow> string \<Rightarrow> string \<Rightarrow> HeaderField list \<Rightarrow>
    ('n, 'w, 'm) connection_scheme \<Rightarrow> (goerr + 'u clientRequest \<times> 'w sendStream) \<times> ('n, 'w, 'm) connection_scheme" where
  "Fetch nops uops uni method target hs c =
     (case ValidatePseudoHeaders hs of
        Some e \<Rightarrow> (Inl e, c)
      | None \<Rightarrow>
          if \<not> cReady c then (Inl Blocked, c)
          else if \<not> netEstablished nops (cNet c) then (Inl (ErrOther ''connection not open''), c)
          else
            (case buildRequestHeaderFields uops method None target hs of
               Inl e \<Rightarrow> (Inl e, c)
             | Inr (u, allHeaders) \<Rightarrow>
                 (case netCreateStream nops (cNet c) of
                    (None, n) \<Rightarrow> (Inl (Panic ''nil pointer dereference''), c\<lparr>cNet := n\<rparr>)
                  | (Some w, n) \<Rightarrow>
                      (case outWriteHeaderBlock (strSink (netStream nops)) (netStream nops) uni (netId nops w) allHeaders
                          (cEncoder c) (cEncoderStream c) (NewBitWriter w) of
                         (err, enc, uw, s) \<Rightarrow>
                           (let c' = c\<lparr>cNet := n, cEncoder := enc, cEncoderStream := uw\<rparr> in
                            case err of
                              Some e \<Rightarrow> (Inl e, c')
                            | None \<Rightarrow> (Inr (\<lparr>cqMethod = method, cqTarget = u, cqHeaders = allHeaders\<rparr>, s), c'))))))"

text \<open>
  What reading a response does to the request: the response and the informational responses that
  were sent on their channels, if there is one for the latter, and the promises.
\<close>

record ('n, 'w, 'u) responseState =
  rsC :: "('n, 'w, 'u) clientConnection"
  rsResponse :: "clientResponse list"
  rsInformational :: "clientResponse list"
  rsPushes :: "u64 list"

definition responseHeaders :: "(string \<Rightarrow> string) \<Rightarrow> ('n, 'w, 'u) responseState headersHandler" where
  "responseHeaders uni hs st =
     (if statusClass (GetStatus uni hs) = 0 then (Inl ErrInvalidStatus, st)
      else if statusClass (GetStatus uni hs) = 1 then
        (Inr False,
         if InformationalResponses (cConfig (rsC st)) then st\<lparr>rsInformational := rsInformational st @ [responseOf uni hs]\<rparr> else st)
      else (Inr True, st\<lparr>rsResponse := rsResponse st @ [responseOf uni hs]\<rparr>))"

definition handlePushPromise :: "'r src_ops \<Rightarrow> 'u url_ops \<Rightarrow> (string \<Rightarrow> string) \<Rightarrow> u64 \<Rightarrow> QpackDecoder \<Rightarrow>
    ('n, 'w, 'u) responseState \<Rightarrow> 'r body \<Rightarrow> (goerr option \<times> QpackDecoder \<times> ('n, 'w, 'u) responseState \<times> 'r body) option" where
  "handlePushPromise ops uops uni i d st r =
     (case ReadVarint (body_ops ops) r of
        (Inl e, r1) \<Rightarrow> Some (Some e, d, st, r1)
      | (Inr pushID, r1) \<Rightarrow>
          map_option (\<lambda>(x, d', r2).
            case x of
              Inl e \<Rightarrow> (Some e, d', st, r2)
            | Inr hs \<Rightarrow>
                (case ValidatePseudoHeaders hs of
                   Some e \<Rightarrow> (Some e, d', st, r2)
                 | None \<Rightarrow>
                     (case CheckForEOF (body_ops ops) r2 of
                        (Some e, r3) \<Rightarrow> (Some e, d', st, r3)
                      | (None, r3) \<Rightarrow>
                          (case onPromise pushID (promiseSetHeaders uops uni hs) (rsC st) of
                             (Some e, c) \<Rightarrow> (Some e, d', st\<lparr>rsC := c\<rparr>, r3)
                           | (None, c) \<Rightarrow> (None, d', st\<lparr>rsC := c, rsPushes := rsPushes st @ [pushID]\<rparr>, r3)))))
            (QpackReadHeaderBlock (br_ops (body_ops ops)) i d r1))"

definition responseFrames :: "'r src_ops \<Rightarrow> 'u url_ops \<Rightarrow> (string \<Rightarrow> string) \<Rightarrow> u64 \<Rightarrow> ('r, ('n, 'w, 'u) responseState) frameHandler" where
  "responseFrames ops uops uni i t d st r =
     (if t = framePushPromise then handlePushPromise ops uops uni i d st r
      else Some (Some ErrUnsupportedFrame, d, st, r))"

text \<open>The last component of the result tells whether the channel of promises was closed.\<close>

definition readResponse :: "'w stream_ops \<Rightarrow> 'r recv_ops \<Rightarrow> nat \<Rightarrow> u64 \<Rightarrow> 'u url_ops \<Rightarrow> (string \<Rightarrow> string) \<Rightarrow> ('n, 'w, 'u) clientConnection \<Rightarrow>
    'w sendStream \<Rightarrow> 'r bitReader \<Rightarrow> (goerr option \<times> ('n, 'w, 'u) responseState message \<times> 'w sendStream \<times> 'r bitReader \<times> bool) option" where
  "readResponse sops rops n i uops uni c s fr =
     map_option (\<lambda>(err, msg, fr').
       case err of
         None \<Rightarrow> (None, msg, s, fr', True)
       | Some e \<Rightarrow> if abnormal e then (Some e, msg, s, fr', False)
                   else (case abort sops rops s fr' of (s', fr'') \<Rightarrow> (None, msg, s', fr'', False)))
       (handleMessage (rcvSource rops) n i (responseHeaders uni) (responseFrames (rcvSource rops) uops uni i)
          (newIncomingMessage (cDecoder c) \<lparr>rsC = c, rsResponse = [], rsInformational = [], rsPushes = []\<rparr>) fr)"

section \<open>What handling a message keeps\<close>

text \<open>A property of the role's state that the handlers keep is kept by the message, whatever arrives.\<close>

definition handlers_keep :: "('h \<Rightarrow> bool) \<Rightarrow> 'h headersHandler \<Rightarrow> ('r, 'h) frameHandler \<Rightarrow> bool" where
  "handlers_keep I hh fh \<longleftrightarrow> (\<forall>hs h. I h \<longrightarrow> I (snd (hh hs h))) \<and>
     (\<forall>t d h r err d' h' r'. fh t d h r = Some (err, d', h', r') \<longrightarrow> I h \<longrightarrow> I h')"

lemma messageFrame_keeps:
  assumes "messageFrame ops n i hh fh got msg t r = Some (x, msg', r')" "handlers_keep I hh fh" "I (mApp msg)"
  shows "I (mApp msg')"
proof -
  have hh: "I h" if "hh hs (mApp msg) = (x, h)" for hs x h
    using assms(2,3) that unfolding handlers_keep_def by (metis snd_conv)
  have fh: "I h'" if "fh t d (mApp msg) r = Some (err, d', h', r')" for d err d' h' r'
    using assms(2,3) that unfolding handlers_keep_def by blast
  consider "t = frameData" | "t = frameHeaders" | "t \<noteq> frameData" "t \<noteq> frameHeaders" by blast
  then show ?thesis
  proof cases
    case 1
    with assms(1,3) show ?thesis by (auto simp: messageFrame_def split: if_splits)
  next
    case 2
    with assms(1) obtain y d b where y: "QpackReadHeaderBlock (br_ops (body_ops ops)) i (mDecoder msg) r = Some (y, d, b)"
      by (auto simp: messageFrame_def frame_types)
    show ?thesis
    proof (cases y)
      case (Inr hs)
      with 2 y assms(1,3) show ?thesis
        by (auto simp: messageFrame_def frame_types Let_def split: if_splits prod.splits sum.splits option.splits dest: hh)
    qed (use 2 y assms(1,3) in \<open>auto simp: messageFrame_def frame_types Let_def\<close>)
  next
    case 3
    with assms(1) show ?thesis by (auto simp: messageFrame_def dest: fh)
  qed
qed

lemma messageLoop_keeps:
  assumes "messageLoop ops n i hh fh got after msg fr = Some y" "handlers_keep I hh fh" "I (mApp msg)"
  shows "I (mApp (fst (snd y)))"
proof -
  have "handlers_keep I hh fh \<longrightarrow> I (mApp msg) \<longrightarrow> I (mApp (fst (snd y)))"
  proof (rule messageLoop.raw_induct [OF _ assms(1), where P = "\<lambda>ops n i hh fh got after msg fr y.
      handlers_keep I hh fh \<longrightarrow> I (mApp msg) \<longrightarrow> I (mApp (fst (snd y)))"], intro impI)
    fix loop ops n i hh fh got after msg fr y
    assume IH: "\<And>ops n i hh fh got after msg fr y. loop ops n i hh fh got after msg fr = Some y \<Longrightarrow>
        handlers_keep I hh fh \<longrightarrow> I (mApp msg) \<longrightarrow> I (mApp (fst (snd y)))"
      and step: "(case ReadFrame ops fr of
        (Inl e, fr') \<Rightarrow> Some (if e = EOF then None else Some e, msg, fr')
      | (Inr (t, r), fr') \<Rightarrow>
          if after then Some (Some ErrInvalidFrame, msg, unlimited r)
          else
            Option.bind (messageFrame ops n i hh fh got msg t r) (\<lambda>(x, msg', r').
              case x of
                Inl e \<Rightarrow> Some (Some e, msg', unlimited r')
              | Inr (got, after) \<Rightarrow> loop ops n i hh fh got after msg' (unlimited r'))) = Some y"
      and I: "handlers_keep I hh fh" "I (mApp msg)"
    obtain z fr1 where z: "ReadFrame ops fr = (z, fr1)" by fastforce
    show "I (mApp (fst (snd y)))"
    proof (cases "(\<exists>e. z = Inl e) \<or> after")
      case True
      with step z I(2) show ?thesis by (auto split: sum.splits)
    next
      case False
      then obtain t r where tr: "z = Inr (t, r)" "\<not> after" by (cases z) auto
      with step z obtain x msg' r' where f: "messageFrame ops n i hh fh got msg t r = Some (x, msg', r')"
        by (auto simp: bind_eq_Some_conv)
      note keep = messageFrame_keeps [OF f I]
      show ?thesis
      proof (cases x)
        case (Inr ga)
        obtain g a where "ga = (g, a)" by fastforce
        with step z tr f Inr have "loop ops n i hh fh g a msg' (unlimited r') = Some y" by simp
        from IH [OF this] keep I(1) show ?thesis by blast
      qed (use step z tr f keep in auto)
    qed
  qed
  with assms(2,3) show ?thesis by blast
qed

lemma handleMessage_keeps:
  assumes "handleMessage ops n i hh fh msg fr = Some (err, msg', fr')" "handlers_keep I hh fh" "I (mApp msg)"
  shows "I (mApp msg')"
  using assms messageLoop_keeps [where I = I, OF _ assms(2,3)]
  by (fastforce simp: handleMessage_def split: option.splits if_splits)

section \<open>The promises of a client\<close>

text \<open>
  A promise is closed when it is fulfilled, then and only then one value was taken from it; no
  promise knows its connection.
\<close>

definition promise_ok :: "u64 \<Rightarrow> 'u pushPromise \<Rightarrow> bool" where
  "promise_ok pushID pp \<longleftrightarrow> ppPushID pp = pushID \<and> \<not> ppConnected pp \<and> (ppClosed pp \<longleftrightarrow> isFulfilled pp) \<and>
     ppTaken pp = (if ppClosed pp then [ppResponse pp] else []) \<and> (ppCancelled pp \<longrightarrow> ppResponse pp = None)"

definition promises_ok :: "('n, 'w, 'u) clientConnection \<Rightarrow> bool" where
  "promises_ok c \<longleftrightarrow> (\<forall>pushID pp. promises c pushID = Some pp \<longrightarrow> promise_ok pushID pp)"

lemma newPushPromise_ok: "promise_ok pushID (newPushPromise pushID)"
  by (simp add: promise_ok_def newPushPromise_def isFulfilled_def)

lemma promiseSetHeaders_ok: "promise_ok pushID pp \<Longrightarrow> promise_ok pushID (snd (promiseSetHeaders uops uni hs pp))"
  by (simp add: promise_ok_def promiseSetHeaders_def isFulfilled_def split: sum.split prod.split)

lemma fulfill_ok:
  "promise_ok pushID pp \<Longrightarrow> cancelled = (resp = None) \<Longrightarrow> promise_ok pushID (snd (fulfill resp cancelled pp))"
  by (cases resp) (auto simp: promise_ok_def fulfill_def isFulfilled_def)

lemma onPromise_ok:
  assumes "promises_ok c" "\<And>pp. promise_ok pushID pp \<Longrightarrow> promise_ok pushID (snd (f pp))"
  shows "promises_ok (snd (onPromise pushID f c))"
proof -
  have f: "promise_ok pushID pp'" if "f pp = (e, pp')" "promise_ok pushID pp" for pp e pp'
    using assms(2) [OF that(2)] that(1) by simp
  show ?thesis
    using assms(1) newPushPromise_ok [of pushID]
    by (auto simp: promises_ok_def onPromise_def getPushPromise_def split: prod.split option.split dest: f)
qed

lemma getPushPromise_ok: "promises_ok c \<Longrightarrow> promises_ok (snd (getPushPromise pushID c))"
  using newPushPromise_ok [of pushID] by (auto simp: promises_ok_def getPushPromise_def split: option.split)

lemma promises_ok_only: "promises c' = promises c \<Longrightarrow> promises_ok c' = promises_ok c"
  by (simp add: promises_ok_def)

lemma creditPushes_promises: "promises (snd (creditPushes nops k c)) = promises c"
  by (simp add: creditPushes_def Let_def split: prod.split)

lemma clientHandleFrame_ok:
  assumes "promises_ok c" "clientHandleFrame ops t c r = (err, c', r')"
  shows "promises_ok c'"
proof -
  have "promises_ok (snd (onPromise pushID (fulfill None True) c))" for pushID
    by (rule onPromise_ok [OF assms(1)]) (rule fulfill_ok, simp_all)
  with assms show ?thesis
    by (auto simp: clientHandleFrame_def clientHandleCancelPush_def split: if_splits prod.splits sum.splits option.splits)
      (metis snd_conv)+
qed

lemma handlePushPromise_ok:
  assumes "promises_ok (rsC st)" "handlePushPromise ops uops uni i d st r = Some (err, d', st', r')"
  shows "promises_ok (rsC st')"
proof -
  have "promises_ok (snd (onPromise pushID (promiseSetHeaders uops uni hs) (rsC st)))" for pushID hs
    by (rule onPromise_ok [OF assms(1)]) (rule promiseSetHeaders_ok)
  then have "promises_ok c" if "onPromise pushID (promiseSetHeaders uops uni hs) (rsC st) = (e, c)" for pushID hs e c
    by (metis that snd_conv)
  note promise = this
  obtain x r1 where x: "ReadVarint (body_ops ops) r = (x, r1)" by fastforce
  show ?thesis
  proof (cases x)
    case (Inr pushID)
    with assms(2) x obtain y d1 r2 where y: "QpackReadHeaderBlock (br_ops (body_ops ops)) i d r1 = Some (y, d1, r2)"
      by (auto simp: handlePushPromise_def)
    show ?thesis
    proof (cases y)
      case Inl
      with assms x Inr y show ?thesis by (auto simp: handlePushPromise_def)
    next
      case (Inr hs)
      with assms x \<open>x = Inr pushID\<close> y show ?thesis
        by (auto simp: handlePushPromise_def split: prod.splits option.splits dest: promise)
    qed
  qed (use assms x in \<open>simp add: handlePushPromise_def\<close>)
qed

lemma response_handlers_keep:
  "handlers_keep (\<lambda>st. promises_ok (rsC st)) (responseHeaders uni) (responseFrames ops uops uni i)"
  unfolding handlers_keep_def
  by (auto simp: responseHeaders_def responseFrames_def split: if_splits intro: handlePushPromise_ok)

lemma push_handlers_keep: "handlers_keep promises_ok (pushHeaders uni pushID) pushFrames"
proof -
  have "promises_ok (snd (onPromise pushID (fulfill (Some (responseOf uni hs)) False) c))" if "promises_ok c" for hs c
    by (rule onPromise_ok [OF that]) (rule fulfill_ok, simp_all)
  then have "promises_ok c'" if "promises_ok c" "onPromise pushID (fulfill (Some (responseOf uni hs)) False) c = (e, c')" for hs c c' e
    by (metis that snd_conv)
  then show ?thesis
    unfolding handlers_keep_def by (auto simp: pushHeaders_def pushFrames_def split: prod.split option.split)
qed

lemma handlePushStream_ok:
  assumes "promises_ok c" "handlePushStream nops ops n i uni c s = Some (err, c', s')"
  shows "promises_ok c'"
proof -
  have "promises_ok (snd (getPushPromise pushID c))" for pushID by (rule getPushPromise_ok [OF assms(1)])
  then have g: "promises_ok c1" if "getPushPromise pushID c = (pp, c1)" for pushID pp c1 by (metis that snd_conv)
  obtain x s1 where x: "ReadVarint ops s = (x, s1)" by fastforce
  show ?thesis
  proof (cases x)
    case (Inr pushID)
    obtain pp c1 where p: "getPushPromise pushID c = (pp, c1)" by fastforce
    show ?thesis
    proof (cases "isFulfilled pp")
      case False
      with assms(2) x Inr p obtain e msg s2 where
        m: "handleMessage ops n i (pushHeaders uni pushID) pushFrames (newIncomingMessage (cDecoder c1) c1) s1 = Some (e, msg, s2)"
        by (auto simp: handlePushStream_def)
      have "promises_ok (mApp msg)"
        by (rule handleMessage_keeps [OF m push_handlers_keep]) (simp add: newIncomingMessage_def g [OF p])
      moreover have "promises c' = promises (mApp msg)"
        using assms(2) x Inr p False m by (auto simp: handlePushStream_def Let_def creditPushes_promises split: option.splits)
      ultimately show ?thesis by (simp add: promises_ok_def)
    qed (use assms x Inr p g [OF p] in \<open>simp add: handlePushStream_def\<close>)
  qed (use assms x in \<open>simp add: handlePushStream_def\<close>)
qed

section \<open>The states of a client's connection\<close>

inductive client_step :: "('n, 'w) net_ops \<Rightarrow> 'r recv_ops \<Rightarrow> 'u url_ops \<Rightarrow>
    ('n, 'w, 'u) clientConnection \<Rightarrow> ('n, 'w, 'u) clientConnection \<Rightarrow> bool" for nops rops uops where
  frame: "clientHandleFrame (rcvSource rops) t c r = (err, c', r') \<Longrightarrow> client_step nops rops uops c c'"
| push_stream: "handlePushStream nops (rcvSource rops) n i uni c s = Some (err, c', s') \<Longrightarrow> client_step nops rops uops c c'"
| response: "readResponse (netStream nops) rops n i uops uni c s fr = Some (err, msg, s', fr', closed) \<Longrightarrow>
    client_step nops rops uops c ((rsC (mApp msg))\<lparr>cDecoder := mDecoder msg\<rparr>)"
| fetch: "Fetch nops uops uni method target hs c = (x, c') \<Longrightarrow> client_step nops rops uops c c'"
| credit: "creditPushes nops k c = (err, c') \<Longrightarrow> client_step nops rops uops c c'"
| codec: "client_step nops rops uops c (c\<lparr>cEncoder := enc, cDecoder := d, cReady := b, cNet := n\<rparr>)"

inductive client_reachable :: "('n, 'w) net_ops \<Rightarrow> 'r recv_ops \<Rightarrow> 'u url_ops \<Rightarrow> ('n, 'w, 'u) clientConnection \<Rightarrow> bool"
    for nops rops uops where
  start: "client_reachable nops rops uops (NewClientConnection c)"
| step: "client_reachable nops rops uops c \<Longrightarrow> client_step nops rops uops c c' \<Longrightarrow> client_reachable nops rops uops c'"

lemma Fetch_promises: "Fetch nops uops uni method target hs c = (x, c') \<Longrightarrow> promises c' = promises c"
  by (auto simp: Fetch_def Let_def split: option.splits if_splits sum.splits prod.splits)

lemma readResponse_ok:
  assumes "promises_ok c" "readResponse sops rops n i uops uni c s fr = Some (err, msg, s', fr', closed)"
  shows "promises_ok ((rsC (mApp msg))\<lparr>cDecoder := mDecoder msg\<rparr>)"
proof -
  let ?start = "newIncomingMessage (cDecoder c) \<lparr>rsC = c, rsResponse = [], rsInformational = [], rsPushes = []\<rparr>"
  from assms(2) obtain e fr1 where m: "handleMessage (rcvSource rops) n i (responseHeaders uni)
      (responseFrames (rcvSource rops) uops uni i) ?start fr = Some (e, msg, fr1)"
    by (auto simp: readResponse_def split: option.splits if_splits prod.splits)
  have "promises_ok (rsC (mApp ?start))" using assms(1) by (simp add: newIncomingMessage_def)
  from handleMessage_keeps [where I = "\<lambda>st. promises_ok (rsC st)", OF m response_handlers_keep this]
  show ?thesis by (simp add: promises_ok_def)
qed

lemma client_step_ok: "client_step nops rops uops c c' \<Longrightarrow> promises_ok c \<Longrightarrow> promises_ok c'"
proof (induction rule: client_step.induct)
  case (frame t c r err c' r')
  then show ?case by (blast intro: clientHandleFrame_ok)
next
  case (push_stream n i uni c s err c' s')
  then show ?case by (blast intro: handlePushStream_ok)
next
  case (response n i uni c s fr err msg s' fr' closed)
  then show ?case by (blast intro: readResponse_ok)
next
  case (fetch uni m u hs c x c')
  then show ?case using promises_ok_only [OF Fetch_promises [OF fetch(1)]] by simp
next
  case (credit k c err c')
  then show ?case using creditPushes_promises [of nops k c] by (simp add: promises_ok_def)
qed (simp add: promises_ok_def)

lemma client_reachable_ok: "client_reachable nops rops uops c \<Longrightarrow> promises_ok c"
proof (induction rule: client_reachable.induct)
  case (start c)
  then show ?case by (simp add: promises_ok_def NewClientConnection_def connection.defs clientConnection.defs)
qed (rule client_step_ok)

section \<open>The interface to the connection\<close>

context byte_source
begin

lemma clientHandleFrame_within:
  assumes "body_within content fin ok m r"
  shows "body_within content fin ok m (snd (snd (clientHandleFrame ops t c r)))"
proof -
  obtain x r1 where 1: "ReadVarint (body_ops ops) r = (x, r1)" by fastforce
  obtain e r2 where 2: "CheckForEOF (body_ops ops) r1 = (e, r2)" by fastforce
  have "body_within content fin ok m r1" using ReadVarint_body_within [OF assms] 1 by simp
  with CheckForEOF_body_within [OF this] assms 1 2 show ?thesis
    by (simp add: clientHandleFrame_def clientHandleCancelPush_def split: prod.split sum.split option.split)
qed

lemma handlePushPromise_returns:
  assumes "body_within content fin ok m r"
  shows "\<exists>err d' st' r'. handlePushPromise ops uops uni i d st r = Some (err, d', st', r') \<and> body_within content fin ok m r'"
proof -
  obtain x r1 where 1: "ReadVarint (body_ops ops) r = (x, r1)" by fastforce
  have w: "body_within content fin ok m r1" using ReadVarint_body_within [OF assms] 1 by simp
  from header_body_returns [OF w, of i d] obtain y d' r2 where
    2: "QpackReadHeaderBlock (br_ops (body_ops ops)) i d r1 = Some (y, d', r2)" "body_within content fin ok m r2" .
  obtain e r3 where 3: "CheckForEOF (body_ops ops) r2 = (e, r3)" by fastforce
  with CheckForEOF_body_within [OF 2(2)] have w3: "body_within content fin ok m r3" by simp
  show ?thesis
  proof (cases x)
    case (Inr pushID)
    with 1 2 3 w3 show ?thesis
      by (cases y) (auto simp: handlePushPromise_def split: option.split prod.split)
  qed (use 1 w in \<open>simp add: handlePushPromise_def\<close>)
qed

lemma client_frames_return:
  "frame_handler_returns content fin ok (responseFrames ops uops uni i)" "frame_handler_returns content fin ok pushFrames"
  using handlePushPromise_returns
  by (auto simp: frame_handler_returns_def responseFrames_def pushFrames_def)

lemma handlePushStream_returns:
  assumes "0 < n" "rok ok s"
  shows "\<exists>y. handlePushStream nops ops n i uni c s = Some y"
proof -
  obtain x s1 where x: "ReadVarint ops s = (x, s1)" by fastforce
  note s1 = shrinksD [OF ReadVarint_shrinks assms(2) x]
  have "\<exists>y. handleMessage ops n i hh pushFrames msg s1 = Some y" for hh and msg :: "('n, 'w, 'u) clientConnection message"
    using messageLoop_returns [OF assms(1) client_frames_return(2) s1(1), of i hh False False msg]
    by (auto simp: handleMessage_def)
  with x show ?thesis
    by (cases x) (auto simp: handlePushStream_def simp del: split_paired_Ex split: prod.split)
qed

lemma client_handler:
  assumes "rcvSource rops = ops" "0 < n"
  shows "connection_handler ops content fin ok (clientHandleFrame ops) (clientHandleUnidirectionalStream nops rops n i uni)"
  using assms(2) unfolding clientHandleUnidirectionalStream_def assms(1)
  by (intro connection_handler.intro byte_source_axioms connection_handler_axioms.intro)
    (auto simp del: split_paired_Ex intro: clientHandleFrame_within handlePushStream_returns split: prod.split)

end

interpretation cli: connection_handler source_ops fst snd "\<lambda>_. True" "clientHandleFrame source_ops"
  "clientHandleUnidirectionalStream nops memory_recv 16 i uni" for nops :: "('n, 'w) net_ops" and i uni
  by (rule src.client_handler) (simp_all add: memory_recv_def)

section \<open>Responses with informational ones before them\<close>

text \<open>The decoder reads a sequence of header blocks.\<close>

fun blocks_decode :: "'r src_ops \<Rightarrow> ('r \<Rightarrow> byte list) \<Rightarrow> ('r \<Rightarrow> goerr) \<Rightarrow> ('r \<Rightarrow> bool) \<Rightarrow> u64 \<Rightarrow>
    QpackDecoder \<Rightarrow> (byte list \<times> HeaderField list) list \<Rightarrow> QpackDecoder \<Rightarrow> bool" where
  "blocks_decode ops content fin ok i d [] d' \<longleftrightarrow> d' = d"
| "blocks_decode ops content fin ok i d ((b, hs) # bs) d' \<longleftrightarrow> length b < 2 ^ 62 \<and> ValidatePseudoHeaders hs = None \<and>
     (\<exists>d1. block_decodes ops content fin ok i d b hs d1 \<and> blocks_decode ops content fin ok i d1 bs d')"

definition informed :: "(string \<Rightarrow> string) \<Rightarrow> HeaderField list list \<Rightarrow> ('n, 'w, 'u) responseState \<Rightarrow> ('n, 'w, 'u) responseState" where
  "informed uni hss st = (if InformationalResponses (cConfig (rsC st))
     then st\<lparr>rsInformational := rsInformational st @ map (responseOf uni) hss\<rparr> else st)"

lemma responseHeaders_informational:
  "statusClass (GetStatus uni hs) = 1 \<Longrightarrow> responseHeaders uni hs st = (Inr False, informed uni [hs] st)"
  by (simp add: responseHeaders_def informed_def)

lemma informed_append: "informed uni hss (informed uni [hs] st) = informed uni (hs # hss) st"
  by (simp add: informed_def)

context clean_source
begin

lemma messageLoop_informational:
  "at_frames (map (\<lambda>(b, _). (frameHeaders, b)) ibs @ fs) fr \<Longrightarrow> blocks_decode ops content fin ok i (mDecoder msg) ibs d \<Longrightarrow>
   \<forall>(b, hs) \<in> set ibs. statusClass (GetStatus uni hs) = 1 \<Longrightarrow>
   \<exists>fr'. at_frames fs fr' \<and> messageLoop ops n i (responseHeaders uni) fh False False msg fr =
     messageLoop ops n i (responseHeaders uni) fh False False (msg\<lparr>mDecoder := d, mApp := informed uni (map snd ibs) (mApp msg)\<rparr>) fr'"
proof (induction ibs arbitrary: msg fr)
  case Nil
  then show ?case by (auto simp: informed_def)
next
  case (Cons bh ibs)
  obtain b hs where bh: "bh = (b, hs)" by fastforce
  with Cons.prems(2) obtain d1 where d1: "length b < 2 ^ 62" "ValidatePseudoHeaders hs = None"
    "block_decodes ops content fin ok i (mDecoder msg) b hs d1" "blocks_decode ops content fin ok i d1 ibs d" by auto
  have st: "responseHeaders uni hs (mApp msg) = (Inr False, informed uni [hs] (mApp msg))"
    using Cons.prems(3) bh by (auto intro: responseHeaders_informational)
  have at: "at_frames ((frameHeaders, b) # map (\<lambda>(b, _). (frameHeaders, b)) ibs @ fs) fr" using Cons.prems(1) bh by simp
  let ?msg = "msg\<lparr>mDecoder := d1, mApp := informed uni [hs] (mApp msg)\<rparr>"
  from messageLoop_headers [OF at d1(1,3,2), of n "responseHeaders uni" fh False] st obtain fr1 where
    1: "at_frames (map (\<lambda>(b, _). (frameHeaders, b)) ibs @ fs) fr1" "messageLoop ops n i (responseHeaders uni) fh False False msg fr =
      messageLoop ops n i (responseHeaders uni) fh False False ?msg fr1"
    by (auto simp: Let_def)
  from Cons.IH [OF 1(1), of ?msg] d1(4) Cons.prems(3) 1(2) bh show ?case by (auto simp: informed_append)
qed

end

section \<open>Properties of clients\<close>

text \<open>C18: A client reads a response. The informational responses that precede it come on their channel, if the
  configuration asks for them, then the response with its status and fields, then its body, in order
  and complete; the channel of promises is closed and the stream is not aborted.\<close>

theorem response_delivered:
  assumes "clean_source (rcvSource rops) content fin ok" "0 < n"
    "blocks_decode (rcvSource rops) content fin ok i (cDecoder c) ibs di" "\<forall>(b, hs) \<in> set ibs. statusClass (GetStatus uni hs) = 1"
    "block_decodes (rcvSource rops) content fin ok i di b hs d1" "ValidatePseudoHeaders hs = None"
    "statusClass (GetStatus uni hs) \<noteq> 0" "statusClass (GetStatus uni hs) \<noteq> 1"
    "length b < 2 ^ 62" "\<forall>p \<in> set ps. length p < 2 ^ 62"
    "rok ok fr" "rsavedBits fr = 0" "fin (reader fr) = EOF"
    "rbits content fr = frames_bits (map (\<lambda>(b, _). (frameHeaders, b)) ibs @ (frameHeaders, b) # map (Pair frameData) ps)"
  shows "\<exists>fr'. readResponse sops rops n i uops uni c s fr =
    Some (None, \<lparr>mDecoder = d1, mBody = concat ps, mTrailers = [], mClosed = True,
      mApp = \<lparr>rsC = c, rsResponse = [\<lparr>crHeaders = hs, crStatus = GetStatus uni hs\<rparr>],
        rsInformational = (if InformationalResponses (cConfig c)
          then map (\<lambda>(b, hs). \<lparr>crHeaders = hs, crStatus = GetStatus uni hs\<rparr>) ibs else []), rsPushes = []\<rparr>\<rparr>, s, fr', True)"
proof -
  let ?ops = "rcvSource rops" and ?hh = "responseHeaders uni" and ?fh = "responseFrames (rcvSource rops) uops uni i"
  let ?st = "\<lparr>rsC = c, rsResponse = [], rsInformational = [], rsPushes = []\<rparr>"
  let ?st1 = "informed uni (map snd ibs) ?st"
  have dec: "blocks_decode ?ops content fin ok i (mDecoder (newIncomingMessage (cDecoder c) ?st)) ibs di"
    using assms(3) by (simp add: newIncomingMessage_def)
  have at: "rok ok fr \<and> rsavedBits fr = 0 \<and> rbits content fr =
      frames_bits (map (\<lambda>(b, _). (frameHeaders, b)) ibs @ (frameHeaders, b) # map (Pair frameData) ps) \<and> fin (reader fr) = EOF"
    using assms(11-14) by simp
  from clean_source.messageLoop_informational [OF assms(1) at dec assms(4), of n ?fh] obtain fr1 where
    1: "rok ok fr1" "rsavedBits fr1 = 0" "rbits content fr1 = frames_bits ((frameHeaders, b) # map (Pair frameData) ps @
      (case None :: (byte list \<times> HeaderField list) option of None \<Rightarrow> [] | Some (tb, _) \<Rightarrow> [(frameHeaders, tb)]))" "fin (reader fr1) = EOF"
    "messageLoop ?ops n i ?hh ?fh False False (newIncomingMessage (cDecoder c) ?st) fr =
     messageLoop ?ops n i ?hh ?fh False False (newIncomingMessage di ?st1) fr1"
    by (auto simp: newIncomingMessage_def)
  have st: "?hh hs ?st1 = (Inr True, ?st1\<lparr>rsResponse := [responseOf uni hs]\<rparr>)"
    using assms(7,8) by (simp add: responseHeaders_def informed_def)
  from handleMessage_frames [where hh = ?hh and trailer = None and fh = ?fh and fr = fr1,
      OF assms(1,2,5,6) st assms(9,10) _ 1(1,2,4,3)] obtain fr' where
    "handleMessage ?ops n i ?hh ?fh (newIncomingMessage di ?st1) fr1 =
      Some (None, \<lparr>mDecoder = d1, mBody = concat ps, mTrailers = [], mClosed = True,
        mApp = ?st1\<lparr>rsResponse := [responseOf uni hs]\<rparr>\<rparr>, fr')" by auto
  then have "handleMessage ?ops n i ?hh ?fh (newIncomingMessage (cDecoder c) ?st) fr =
      Some (None, \<lparr>mDecoder = d1, mBody = concat ps, mTrailers = [], mClosed = True,
        mApp = ?st1\<lparr>rsResponse := [responseOf uni hs]\<rparr>\<rparr>, fr')"
    using 1(5) by (simp add: handleMessage_def)
  then show ?thesis
    by (auto simp: readResponse_def informed_def responseOf_def comp_def split_def)
qed

text \<open>C20: Every promise that a client holds is well-formed, whatever the server sends and in whatever order:
  it is filed under its identifier, its channel is closed exactly when it is fulfilled, and at most
  one value has been taken from it, the response or, for a cancelled push, nothing.\<close>

theorem promises_well_formed:
  assumes "client_reachable nops rops uops c" "promises c pushID = Some pp"
  shows "ppPushID pp = pushID \<and> (ppClosed pp \<longleftrightarrow> isFulfilled pp) \<and> ppTaken pp = (if ppClosed pp then [ppResponse pp] else []) \<and>
    (ppCancelled pp \<longrightarrow> ppResponse pp = None)"
  using client_reachable_ok [OF assms(1)] assms(2) by (simp add: promises_ok_def promise_ok_def)

text \<open>C30: A server can crash a client by cancelling a push that has been fulfilled or cancelled before: the client
  does not test for that and sends on a closed channel, which panics.\<close>

theorem cancel_push_panics:
  assumes "byte_source (rcvSource rops) content fin ok" "client_reachable nops rops uops c"
    "promises c pushID = Some pp" "isFulfilled pp" "unat pushID < 2 ^ 62"
    "body_ok content fin ok rest F r" "body_bytes content r = bits_bytes (varint_bits pushID)"
  shows "\<exists>c' r'. clientHandleFrame (rcvSource rops) frameCancelPush c r = (Some (Panic ''send on closed channel''), c', r')"
proof -
  obtain r1 r2 where "ReadVarint (body_ops (rcvSource rops)) r = (Inr pushID, r1)" "CheckForEOF (body_ops (rcvSource rops)) r1 = (None, r2)"
    by (rule byte_source.varint_body [OF assms(1,6,7,5)])
  moreover have "ppClosed pp"
    using client_reachable_ok [OF assms(2)] assms(3,4) by (simp add: promises_ok_def promise_ok_def)
  ultimately show ?thesis
    using assms(3) by (simp add: clientHandleFrame_def clientHandleCancelPush_def onPromise_def getPushPromise_def fulfill_def)
qed

text \<open>No push can be cancelled by the client. The promises that a client hands out do not know their
  connection, so \<open>Cancel\<close> on a promise that has no response yet dereferences \<open>nil\<close>.\<close>

theorem promise_cancel_panics:
  assumes "client_reachable nops rops uops c" "promises c pushID = Some pp" "ppResponse pp = None" "unat pushID < 2 ^ 62"
  shows "promiseCancel ops stop pp control = (Some (Panic ''nil pointer dereference''), control)"
proof -
  have "ppPushID pp = pushID" "\<not> ppConnected pp"
    using client_reachable_ok [OF assms(1)] assms(2) by (simp_all add: promises_ok_def promise_ok_def)
  moreover obtain w where "WriteVarint buf_ops pushID (NewBitWriter []) = ((2 ^ varint_class pushID, None), w)"
    by (rule WriteVarint_buf [OF assms(4)])
  ultimately show ?thesis using assms(3) by (simp add: promiseCancel_def)
qed

section \<open>Witnesses\<close>

text \<open>A client that was told that push 3 is cancelled.\<close>

definition cancel_body :: "source body" where
  "cancel_body = Limited 1 (NewBitReader ([3], EOF))"

lemma cancel_body: "body_ok fst snd (\<lambda>_. True) [] EOF cancel_body" "body_bytes fst cancel_body = bits_bytes (varint_bits 3)"
proof -
  have "bits_bytes (varint_bits 3) = [3 :: byte]" by code_simp
  with src.body_ok_Limited [of "NewBitReader ([3], EOF)" "[3]" "[]" EOF]
  show "body_ok fst snd (\<lambda>_. True) [] EOF cancel_body" "body_bytes fst cancel_body = bits_bytes (varint_bits 3)"
    by (simp_all add: cancel_body_def rok_def rbits_def NewBitReader_def)
qed

definition example_start :: "(16 word list, byte list, string \<times> string \<times> string) clientConnection" where
  "example_start = NewClientConnection example_connection"

definition example_client :: "(16 word list, byte list, string \<times> string \<times> string) clientConnection" where
  "example_client = fst (snd (clientHandleFrame source_ops frameCancelPush example_start cancel_body))"

lemma example_client:
  "client_reachable memory_net memory_recv triple_urls example_client"
  "\<exists>pp. promises example_client 3 = Some pp \<and> isFulfilled pp \<and> ppResponse pp = None"
proof -
  have "clientHandleFrame (rcvSource memory_recv) frameCancelPush example_start cancel_body =
      (fst (clientHandleFrame source_ops frameCancelPush example_start cancel_body), example_client,
       snd (snd (clientHandleFrame source_ops frameCancelPush example_start cancel_body)))"
    by (simp add: example_client_def memory_recv_def)
  then show "client_reachable memory_net memory_recv triple_urls example_client"
    by (metis example_start_def client_reachable.intros client_step.frame)
  have "case promises example_client 3 of None \<Rightarrow> False | Some pp \<Rightarrow> isFulfilled pp \<and> ppResponse pp = None" by code_simp
  then show "\<exists>pp. promises example_client 3 = Some pp \<and> isFulfilled pp \<and> ppResponse pp = None" by (auto split: option.splits)
qed

theorem promises_well_formed_witness:
  "\<exists>pp. promises example_client 3 = Some pp \<and> ppPushID pp = 3 \<and> ppClosed pp \<and> ppTaken pp = [None]"
  using example_client promises_well_formed [OF example_client(1)] by fastforce

theorem cancel_push_panics_witness:
  "\<exists>c' r'. clientHandleFrame source_ops frameCancelPush example_client cancel_body = (Some (Panic ''send on closed channel''), c', r')"
proof -
  obtain pp where pp: "promises example_client 3 = Some pp" "isFulfilled pp" using example_client(2) by blast
  have "rcvSource memory_recv = source_ops" by (simp add: memory_recv_def)
  with cancel_push_panics [where rops = memory_recv, OF _ example_client(1) pp _ cancel_body] src.byte_source_axioms
  show ?thesis by simp
qed

theorem promise_cancel_panics_witness:
  "\<exists>pp. promises example_client 3 = Some pp \<and>
     promiseCancel buf_ops (\<lambda>_. None) pp (NewBitWriter []) = (Some (Panic ''nil pointer dereference''), NewBitWriter [])"
  using example_client(2) promise_cancel_panics [OF example_client(1), of 3] by fastforce

text \<open>Header blocks with one field of the static table: statuses 103 and 200.\<close>

lemma example_decoder: "cDecoder example_connection = NewQpackDecoder 4096" "table_ok (dtable (NewQpackDecoder 4096))"
  "base (dtable (NewQpackDecoder 4096)) = 0"
proof -
  show "cDecoder example_connection = NewQpackDecoder 4096" by (simp add: example_connection_def)
  show "base (dtable (NewQpackDecoder 4096)) = 0" by code_simp
  show "table_ok (dtable (NewQpackDecoder 4096))"
    using example_encoder_ok unfolding example_tables by (simp add: qenc_ok_def acked_ok_def qtable_ok_def)
qed

lemma static_block:
  assumes "j < 99" "bytes_bits b = int_bits 8 (unat (0 :: u64)) @ int_bits 8 0 @ ([True, True] @ int_bits 6 j) @ []"
  shows "block_decodes source_ops fst snd (\<lambda>_. True) i (NewQpackDecoder 4096) b
    [\<lparr>Name = sname (qpackStaticTable ! j), Value = svalue (qpackStaticTable ! j), Sensitive = False\<rparr>] (NewQpackDecoder 4096)"
  using src.block_decodes_spec [of "NewQpackDecoder 4096" 0 0, OF _ _ _ _ example_decoder(2)
    lines_Cons [where c = HuffmanCodingNever, OF indexed_static [OF assms(1)] lines_Nil] assms(2), where i = i]
  by (simp add: decodeLargestBase_def example_decoder(3) intMax_def)

theorem response_delivered_witness:
  "\<exists>fr'. readResponse buffer_stream memory_recv 16 4 triple_urls id
       (NewClientConnection (example_connection\<lparr>cConfig := example_config\<lparr>InformationalResponses := True\<rparr>\<rparr>)) (NewBitWriter [])
       (frames_reader [(frameHeaders, [0, 0, 0xd8]), (frameHeaders, [0, 0, 0xd9]), (frameData, [1, 2])]) =
     Some (None, \<lparr>mDecoder = NewQpackDecoder 4096, mBody = [1, 2], mTrailers = [], mClosed = True,
       mApp = \<lparr>rsC = NewClientConnection (example_connection\<lparr>cConfig := example_config\<lparr>InformationalResponses := True\<rparr>\<rparr>),
         rsResponse = [\<lparr>crHeaders = [field '':status'' ''200''], crStatus = 200\<rparr>],
         rsInformational = [\<lparr>crHeaders = [field '':status'' ''103''], crStatus = 103\<rparr>], rsPushes = []\<rparr>\<rparr>, NewBitWriter [], fr', True)"
proof -
  let ?c = "NewClientConnection (example_connection\<lparr>cConfig := example_config\<lparr>InformationalResponses := True\<rparr>\<rparr>)
    :: (16 word list, byte list, string \<times> string \<times> string) clientConnection"
  have src: "rcvSource memory_recv = source_ops" by (simp add: memory_recv_def)
  have c: "cDecoder ?c = NewQpackDecoder 4096" "InformationalResponses (cConfig ?c)"
    using example_decoder(1) by (simp_all add: NewClientConnection_def connection.defs clientConnection.defs)
  have f: "[\<lparr>Name = sname (qpackStaticTable ! 24), Value = svalue (qpackStaticTable ! 24), Sensitive = False\<rparr>] = [field '':status'' ''103'']"
    "[\<lparr>Name = sname (qpackStaticTable ! 25), Value = svalue (qpackStaticTable ! 25), Sensitive = False\<rparr>] = [field '':status'' ''200'']"
    by code_simp+
  have b: "block_decodes source_ops fst snd (\<lambda>_. True) 4 (NewQpackDecoder 4096) [0, 0, 0xd8] [field '':status'' ''103''] (NewQpackDecoder 4096)"
    "block_decodes source_ops fst snd (\<lambda>_. True) 4 (NewQpackDecoder 4096) [0, 0, 0xd9] [field '':status'' ''200''] (NewQpackDecoder 4096)"
    unfolding f [symmetric] by (rule static_block; code_simp)+
  have v: "ValidatePseudoHeaders [field '':status'' ''103''] = None" "ValidatePseudoHeaders [field '':status'' ''200''] = None"
    "GetStatus id [field '':status'' ''103''] = 103" "GetStatus id [field '':status'' ''200''] = 200" by code_simp+
  from response_delivered [where rops = memory_recv and n = 16 and c = ?c and ibs = "[([0, 0, 0xd8], [field '':status'' ''103''])]" and
      ps = "[[1, 2]]" and uni = id and uops = triple_urls and sops = buffer_stream and s = "NewBitWriter []" and di = "NewQpackDecoder 4096",
      unfolded src, OF src.clean_source_axioms _ _ _ b(2) v(2) _ _ _ _ frames_reader(1-3)] b(1) v c frames_reader(4)
  show ?thesis by (simp add: statusClass_def)
qed

end
