(* ===== verification/ServerPush.thy ===== *)
theory ServerPush
  imports Server Client
begin

text \<open>
  Server push between a client and a server: the credit for pushes, promises and cancellations
  that one endpoint sends are what the other one takes in; and both endpoints serve whatever
  streams they get to their end.
\<close>

section \<open>Frames with one integer\<close>

context reliable_sink
begin

lemma write_varint_frame:
  assumes "unat v < 2 ^ 62" "wsavedBits s = 0"
  obtains w n s' where "WriteVarint buf_ops v (NewBitWriter []) = ((2 ^ varint_class v, None), w)"
    "WriteFrame ops t (writer w) s = ((n, None), s')" "wsavedBits s' = 0"
    "out (writer s') = out (writer s) @ bits_bytes (frame_bits t (bits_bytes (varint_bits v)))"
    "bytes_bits (bits_bytes (frame_bits t (bits_bytes (varint_bits v)))) = frame_bits t (bits_bytes (varint_bits v))"
proof -
  obtain w where w: "WriteVarint buf_ops v (NewBitWriter []) = ((2 ^ varint_class v, None), w)" "writer w = bits_bytes (varint_bits v)"
    by (rule WriteVarint_buf [OF assms(1)])
  have "length (writer w) < 2 ^ 62" using w(2) varint_class_cases [of v] by (auto simp: varint_bytes)
  from WriteFrame_bytes [OF this assms(2), of t] that [OF w(1)] w(2) show thesis by metis
qed

end

context byte_source
begin

lemma controlLoop_frame:
  assumes "rok ok s" "rbits content s = frame_bits t p @ rest" "length p < 2 ^ 62" "t \<noteq> framePriority"
    and h: "\<And>r. body_ok content fin ok rest (fin (reader s)) r \<Longrightarrow> body_bytes content r = p \<Longrightarrow>
      \<exists>r'. handler t c r = (None, c', r') \<and> rok ok (unlimited r') \<and> rbits content (unlimited r') = rest \<and>
        fin (reader (unlimited r')) = fin (reader s)"
  obtains s' where "controlLoop nops ops handler c s = controlLoop nops ops handler c' s'" "rok ok s'"
    "rbits content s' = rest" "fin (reader s') = fin (reader s)"
proof -
  obtain r s1 where r: "ReadFrame ops s = (Inr (t, r), s1)" "body_ok content fin ok rest (fin (reader s)) r" "body_bytes content r = p"
    by (rule ReadFrame_spec [OF assms(1-3)])
  from h [OF r(2,3)] obtain r' where "handler t c r = (None, c', r')" "rok ok (unlimited r')" "rbits content (unlimited r') = rest"
    "fin (reader (unlimited r')) = fin (reader s)" by blast
  with r(1) assms(4) that [of "unlimited r'"] show thesis by (simp add: controlLoop.simps [of nops ops handler c s])
qed

lemma clientHandleCancelPush_spec:
  assumes "body_ok content fin ok rest F r" "body_bytes content r = bits_bytes (varint_bits v)" "unat v < 2 ^ 62"
  obtains r' where "clientHandleFrame ops frameCancelPush c r =
      (case onPromise v (fulfill None True) c of (err, c') \<Rightarrow> (err, c', r'))"
    "rok ok (unlimited r')" "rbits content (unlimited r') = rest" "fin (reader (unlimited r')) = F"
proof -
  obtain r1 r2 where "ReadVarint (body_ops ops) r = (Inr v, r1)" "CheckForEOF (body_ops ops) r1 = (None, r2)"
    "rok ok (unlimited r2)" "rbits content (unlimited r2) = rest" "fin (reader (unlimited r2)) = F"
    by (rule varint_body [OF assms])
  then show thesis by (intro that [of r2]) (simp_all add: clientHandleFrame_def clientHandleCancelPush_def)
qed

section \<open>Bodies that begin with an integer\<close>

lemma aligned_limit_source:
  "byte_source (body_ops ops) (lim_content (stream_bytes content)) (lim_fin (stream_bytes content) (\<lambda>br. fin (reader br)))
     (\<lambda>l. limit_ok content fin ok rest F l \<and> rsavedBits (limR l) = 0)"
  by (rule byte_source.source_and [OF limit_source])
    (auto simp: lim_ops_def limRead_def br_ops_def Read_aligned split: prod.splits)

lemma ReadVarint_body_aligned:
  assumes "body_ok content fin ok rest F r \<and> aligned_body r" "body_bytes content r = bits_bytes (varint_bits v) @ b" "unat v < 2 ^ 62"
  obtains r' where "ReadVarint (body_ops ops) r = (Inr v, r')" "body_ok content fin ok rest F r' \<and> aligned_body r'"
    "body_bytes content r' = b"
proof -
  let ?ok = "\<lambda>l. limit_ok content fin ok rest F l \<and> rsavedBits (limR l) = 0"
  have "rbits (lim_content (stream_bytes content)) r = varint_bits v @ bytes_bits b"
    using body_ok_bits [OF conjunct1 [OF assms(1)]] assms(2) varint_bytes by simp
  moreover have ok: "rok ?ok r" using assms(1) by (simp add: body_ok_def rok_def aligned_body_def unlimited_def)
  ultimately obtain r' where r': "ReadVarint (body_ops ops) r = (Inr v, r')" "rok ?ok r'"
    "rbits (lim_content (stream_bytes content)) r' = bytes_bits b"
    "lim_fin (stream_bytes content) (\<lambda>br. fin (reader br)) (reader r') = lim_fin (stream_bytes content) (\<lambda>br. fin (reader br)) (reader r)"
    using byte_source.ReadVarint_consumes [OF aligned_limit_source assms(3)] by (auto elim!: consumesE)
  have "rsavedBits r < 8" using assms(1) by (simp add: aligned_body_def)
  from ReadVarint_saved [OF this r'(1)] have "rsavedBits r' < 8" .
  moreover have "length (rbits (lim_content (stream_bytes content)) r') mod 8 = 0" using r'(3) by simp
  then have "rsavedBits r' mod 8 = 0" by (simp add: rbits_def)
  ultimately have "rsavedBits r' = 0" by simp
  with r' assms(1) show thesis
    by (intro that [OF r'(1)]) (auto simp: body_ok_def body_fin_def body_bytes_def aligned_body_def unlimited_def rok_def)
qed

end

lemma frame_arrives:
  assumes "byte_source rops content fin ok" "unat v < 2 ^ 62" "t \<noteq> framePriority"
    "rok ok r" "rbits content r = frame_bits t (bits_bytes (varint_bits v)) @ rest"
    "\<And>b rest F. body_ok content fin ok rest F b \<Longrightarrow> body_bytes content b = bits_bytes (varint_bits v) \<Longrightarrow>
      \<exists>b'. handler t c b = (None, c', b') \<and> rok ok (unlimited b') \<and> rbits content (unlimited b') = rest \<and>
        fin (reader (unlimited b')) = F"
  shows "\<exists>r'. controlLoop nops rops handler c r = controlLoop nops rops handler c' r' \<and> rok ok r' \<and> rbits content r' = rest"
proof -
  have p: "length (bits_bytes (varint_bits v)) < 2 ^ 62" using varint_class_cases [of v] by (auto simp: varint_bytes)
  obtain r' where "controlLoop nops rops handler c r = controlLoop nops rops handler c' r'" "rok ok r'" "rbits content r' = rest"
    by (rule byte_source.controlLoop_frame [where handler = handler and c = c and c' = c', OF assms(1,4,5) p assms(3,6)])
  then show ?thesis by blast
qed

lemma promise_frame_read:
  assumes src: "byte_source rops content fin ok" and fr: "rok ok fr" "rsavedBits fr = 0"
    "rbits content fr = frame_bits framePushPromise (bits_bytes (varint_bits pushID) @ b) @ rest" "length rest mod 8 = 0"
    and len: "length (bits_bytes (varint_bits pushID) @ b) < 2 ^ 62" "unat pushID < 2 ^ 62"
    and b: "block_decodes rops content fin ok i d b hs d'" "ValidatePseudoHeaders hs = None" "getMethodAndTarget uops uni hs = Inr (m, u)"
  shows "\<exists>r fr1 st' r' pp. ReadFrame rops fr = (Inr (framePushPromise, r), fr1) \<and>
    responseFrames rops uops uni i framePushPromise d st r = Some (None, d', st', r') \<and>
    rsPushes st' = rsPushes st @ [pushID] \<and> promises (rsC st') pushID = Some pp \<and>
    ppHeaders pp = hs \<and> ppMethod pp = m \<and> ppTarget pp = Some u \<and> rbits content (unlimited r') = rest"
proof -
  obtain r fr1 where r: "ReadFrame rops fr = (Inr (framePushPromise, r), fr1)"
    "body_ok content fin ok rest (fin (reader fr)) r \<and> aligned_body r" "body_bytes content r = bits_bytes (varint_bits pushID) @ b"
    by (rule byte_source.ReadFrame_aligned [OF src fr len(1)])
  obtain r1 where r1: "ReadVarint (body_ops rops) r = (Inr pushID, r1)" "body_ok content fin ok rest (fin (reader fr)) r1 \<and> aligned_body r1"
    "body_bytes content r1 = b"
    by (rule byte_source.ReadVarint_body_aligned [OF src r(2,3) len(2)])
  from b(1) r1(2,3) obtain r2 where r2: "QpackReadHeaderBlock (br_ops (body_ops rops)) i d r1 = Some (Inr hs, d', r2)"
    "body_ok content fin ok rest (fin (reader fr)) r2" "body_bytes content r2 = []" unfolding block_decodes_def by blast
  obtain r3 where r3: "CheckForEOF (body_ops rops) r2 = (None, r3)" "body_ok content fin ok rest (fin (reader fr)) r3"
    "body_bytes content r3 = []"
    by (rule byte_source.CheckForEOF_body [OF src r2(2,3)])
  obtain c' pp where p: "onPromise pushID (promiseSetHeaders uops uni hs) (rsC st) = (None, c')" "promises c' pushID = Some pp"
    "ppHeaders pp = hs" "ppMethod pp = m" "ppTarget pp = Some u"
    using b(3) by (cases "promises (rsC st) pushID") (simp_all add: onPromise_def getPushPromise_def promiseSetHeaders_def)
  have "responseFrames rops uops uni i framePushPromise d st r = Some (None, d', st\<lparr>rsC := c', rsPushes := rsPushes st @ [pushID]\<rparr>, r3)"
    using r1(1) r2(1) r3(1) p(1) b(2) by (simp add: responseFrames_def handlePushPromise_def)
  with r(1) p(2-5) byte_source.body_ok_end(2) [OF src r3(2,3)] show ?thesis by fastforce
qed

section \<open>Properties of server push\<close>

text \<open>C27: Credit for pushes arrives. The frame by which a client raises its limit is read by the server from the
  control stream, wherever it stands there, and raises the server's limit to the client's; what
  follows on the stream is read next.\<close>

theorem push_credit_arrives:
  assumes "reliable_sink (strSink (netStream nops)) out" "byte_source rops content fin ok"
    "wsavedBits (cControlStream cc) = 0" "unat (ccMaxPushID cc + k) < 2 ^ 62"
  shows "\<exists>cc' bs. creditPushes nops k cc = (None, cc') \<and> ccMaxPushID cc' = ccMaxPushID cc + k \<and>
    out (writer (cControlStream cc')) = out (writer (cControlStream cc)) @ bs \<and>
    (\<forall>sc r rest. rok ok r \<and> rbits content r = bytes_bits bs @ rest \<longrightarrow>
      (\<exists>r'. controlLoop sops rops (serverHandleFrame sops rops) sc r =
          controlLoop sops rops (serverHandleFrame sops rops) (sc\<lparr>maxPushID := max (maxPushID sc) (ccMaxPushID cc')\<rparr>) r' \<and>
        rok ok r' \<and> rbits content r' = rest))"
proof -
  let ?m = "ccMaxPushID cc + k" let ?bs = "bits_bytes (frame_bits frameMaxPushID (bits_bytes (varint_bits ?m)))"
  obtain w n s' where w: "WriteVarint buf_ops ?m (NewBitWriter []) = ((2 ^ varint_class ?m, None), w)"
    "WriteFrame (strSink (netStream nops)) frameMaxPushID (writer w) (cControlStream cc) = ((n, None), s')"
    "out (writer s') = out (writer (cControlStream cc)) @ ?bs"
    "bytes_bits ?bs = frame_bits frameMaxPushID (bits_bytes (varint_bits ?m))"
    by (rule reliable_sink.write_varint_frame [OF assms(1,4,3)])
  have c: "creditPushes nops k cc = (None, cc\<lparr>ccMaxPushID := ?m, cControlStream := s'\<rparr>)"
    using w(1,2) by (simp add: creditPushes_def Let_def)
  have "\<exists>r'. controlLoop sops rops (serverHandleFrame sops rops) sc r =
          controlLoop sops rops (serverHandleFrame sops rops) (sc\<lparr>maxPushID := max (maxPushID sc) ?m\<rparr>) r' \<and>
        rok ok r' \<and> rbits content r' = rest"
    if "rok ok r" "rbits content r = frame_bits frameMaxPushID (bits_bytes (varint_bits ?m)) @ rest" for sc r rest
    by (rule frame_arrives [OF assms(2,4) _ that])
      (simp add: frame_types, metis byte_source.handleMaxPushID_spec [OF assms(2) _ _ assms(4)])
  with c w(3,4) show ?thesis by (intro exI [of _ "cc\<lparr>ccMaxPushID := ?m, cControlStream := s'\<rparr>"] exI [of _ ?bs]) simp
qed


text \<open>C15: A promised push arrives. The server writes the identifier and the fields of the promised request into one
  frame, with the updates for the client's table on the encoder stream; the client, once it has read
  those, reads from the frame a promise with the same identifier, the same fields with lower-case
  names, and the method and target they name, and goes on behind the frame. The call is a fine one (\<open>call_fine\<close>): strings and counts are
  within their limits, and no entry that the block uses for its name is evicted by the block's own
  inserts.\<close>

theorem push_promise_delivered:
  assumes "reliable_sink (strSink (netStream nops)) out" "byte_source rops content fin ok" "byte_source tops tcontent tfin tok"
    "cReady c" "qenc_ok (cEncoder c)" "wsavedBits (cEncoderStream c) = 0" "wsavedBits s = 0"
    "call_fine (strSink (netStream nops)) uni i (prHeaders push) (cEncoder c) (cEncoderStream c)"
    "unat (prPushID push) < 2 ^ 62" "ValidatePseudoHeaders (lowered uni (prHeaders push)) = None"
    "getMethodAndTarget uops uni (lowered uni (prHeaders push)) = Inr (m, u)" "dtable d = qcommon (qtable (cEncoder c))"
    "\<forall>enc' uw' b. QpackWriteHeaderBlock (strSink (netStream nops)) buf_ops uni i (prHeaders push) (cEncoder c) (cEncoderStream c)
       (bits_bytes (varint_bits (prPushID push))) = (Inr (), enc', uw', b) \<longrightarrow> length b < 2 ^ 62"
  shows "\<exists>c' s' ubs bs. writePushPromise nops uni i push c s = (None, c', s') \<and>
    out (writer (cEncoderStream c')) = out (writer (cEncoderStream c)) @ ubs \<and> out (writer s') = out (writer s) @ bs \<and>
    (\<forall>q fr rest (st :: ('k, 'l, 'u) responseState). tok q \<and> tcontent q = ubs \<and> tfin q = EOF \<and> rok ok fr \<and> rsavedBits fr = 0 \<and>
        rbits content fr = bytes_bits bs @ rest \<and> length rest mod 8 = 0 \<longrightarrow>
      (\<exists>d1 q' r fr1 d2 st' r' pp. ReadTableUpdates tops d q = Some (Inr (), d1, q') \<and>
        ReadFrame rops fr = (Inr (framePushPromise, r), fr1) \<and>
        responseFrames rops uops uni i framePushPromise d1 st r = Some (None, d2, st', r') \<and>
        rsPushes st' = rsPushes st @ [prPushID push] \<and> promises (rsC st') (prPushID push) = Some pp \<and>
        ppHeaders pp = lowered uni (prHeaders push) \<and> ppMethod pp = m \<and> ppTarget pp = Some u \<and>
        rbits content (unlimited r') = rest))"
proof -
  let ?qops = "strSink (netStream nops)" and ?i = "prPushID push" and ?hs = "prHeaders push"
  let ?v = "bits_bytes (varint_bits ?i)"
  obtain w where w: "WriteVarint buf_ops ?i (NewBitWriter []) = ((2 ^ varint_class ?i, None), w)" "writer w = ?v"
    by (rule WriteVarint_buf [OF assms(9)])
  obtain enc' uw' b ubs where e: "QpackWriteHeaderBlock ?qops buf_ops uni i ?hs (cEncoder c) (cEncoderStream c) ?v = (Inr (), enc', uw', ?v @ b)"
    "qenc_ok enc'" "wsavedBits uw' = 0" "out (writer uw') = out (writer (cEncoderStream c)) @ ubs"
    "updates (HuffmanPreference (cEncoder c)) (qcommon (qtable (cEncoder c))) (bytes_bits ubs) (qcommon (qtable enc'))"
    "\<forall>d. dtable d = qcommon (qtable enc') \<longrightarrow>
       (\<exists>d'. block_decodes rops content fin ok i d b (lowered uni ?hs) d' \<and> dtable d' = dtable d)"
    by (rule byte_source.written_block_decodes_at [OF assms(2,1,5,6,8)])
  have len: "length (?v @ b) < 2 ^ 62" using assms(13) e(1) by blast
  obtain k s' where s': "WriteFrame ?qops framePushPromise (?v @ b) s = ((k, None), s')" "wsavedBits s' = 0"
    "out (writer s') = out (writer s) @ bits_bytes (frame_bits framePushPromise (?v @ b))"
    "bytes_bits (bits_bytes (frame_bits framePushPromise (?v @ b))) = frame_bits framePushPromise (?v @ b)"
    by (rule reliable_sink.WriteFrame_bytes [OF assms(1) len assms(7)])
  have wp: "writePushPromise nops uni i push c s = (None, c\<lparr>cEncoder := enc', cEncoderStream := uw'\<rparr>, s')"
    using assms(4) w e(1) s'(1) by (simp add: writePushPromise_def Let_def)
  have "\<exists>d1 q' r fr1 d2 st' r' pp. ReadTableUpdates tops d q = Some (Inr (), d1, q') \<and>
        ReadFrame rops fr = (Inr (framePushPromise, r), fr1) \<and>
        responseFrames rops uops uni i framePushPromise d1 st r = Some (None, d2, st', r') \<and>
        rsPushes st' = rsPushes st @ [?i] \<and> promises (rsC st') ?i = Some pp \<and>
        ppHeaders pp = lowered uni ?hs \<and> ppMethod pp = m \<and> ppTarget pp = Some u \<and> rbits content (unlimited r') = rest"
    if q: "tok q" "tcontent q = ubs" "tfin q = EOF" and fr: "rok ok fr" "rsavedBits fr = 0"
      "rbits content fr = frame_bits framePushPromise (?v @ b) @ rest" "length rest mod 8 = 0"
    for q fr rest and st :: "('k, 'l, 'u) responseState"
  proof -
    have up: "updates (HuffmanPreference (cEncoder c)) (dtable d) (bytes_bits ubs) (qcommon (qtable enc'))" "table_ok (dtable d)"
      using e(5) assms(5,12) by (simp_all add: qenc_ok_def acked_ok_def qtable_ok_def)
    from byte_source.ReadTableUpdates_spec [OF assms(3) up q(1) _ q(3)] q(2) obtain d1 q' where
      d1: "ReadTableUpdates tops d q = Some (Inr (), d1, q')" "dtable d1 = qcommon (qtable enc')" by auto
    from e(6) d1(2) obtain d2 where d2: "block_decodes rops content fin ok i d1 b (lowered uni ?hs) d2" by blast
    from promise_frame_read [OF assms(2) fr len assms(9) d2 assms(10,11), of st] d1(1) show ?thesis by blast
  qed
  with wp e(4) s'(3,4) show ?thesis
    by (intro exI [of _ "c\<lparr>cEncoder := enc', cEncoderStream := uw'\<rparr>"] exI [of _ s'] exI [of _ ubs]
        exI [of _ "bits_bytes (frame_bits framePushPromise (?v @ b))"]) simp
qed

text \<open>No loop of an endpoint spins on a stream that ends: a unidirectional stream of any type and content
  to a server or to a client, a request to a server and a response to a client are each handled
  in finitely many steps, of which the last may be a panic or a wait, whatever error the stream
  ends with.\<close>

lemma endpoints_return:
  assumes "byte_source (rcvSource rops) content fin ok" "0 < n" "rok ok r"
  shows "(\<exists>y. serviceUnidirectionalStream nops (rcvSource rops) (serverHandleFrame nops (rcvSource rops))
        (serverHandleUnidirectionalStream rops) sc r = Some y) \<and>
    (\<exists>y. serviceUnidirectionalStream nops (rcvSource rops) (clientHandleFrame (rcvSource rops))
        (clientHandleUnidirectionalStream nops rops n i uni) cc r = Some y) \<and>
    (\<exists>y. requestHandle sops rops n i uops uni d s r = Some y) \<and>
    (\<exists>y. readResponse sops rops n i uops uni cc s r = Some y)"
proof (intro conjI)
  show "\<exists>y. serviceUnidirectionalStream nops (rcvSource rops) (serverHandleFrame nops (rcvSource rops))
      (serverHandleUnidirectionalStream rops) sc r = Some y"
    by (rule connection_handler.serviceUnidirectionalStream_returns [OF byte_source.server_handler [OF assms(1)] assms(3)])
  show "\<exists>y. serviceUnidirectionalStream nops (rcvSource rops) (clientHandleFrame (rcvSource rops))
      (clientHandleUnidirectionalStream nops rops n i uni) cc r = Some y"
    by (rule connection_handler.serviceUnidirectionalStream_returns [OF byte_source.client_handler [OF assms(1) refl assms(2)] assms(3)])
  have "frame_handler_returns content fin ok requestFrames" by (simp add: frame_handler_returns_def requestFrames_def)
  from byte_source.messageLoop_returns [OF assms(1,2) this assms(3), of i "requestHeaders uops uni" False False "newIncomingMessage d []"]
  show "\<exists>y. requestHandle sops rops n i uops uni d s r = Some y"
    by (auto simp: requestHandle_def handleMessage_def simp del: split_paired_Ex)
  from byte_source.messageLoop_returns [OF assms(1,2) byte_source.client_frames_return(1) [OF assms(1), of uops uni i] assms(3), of i
      "responseHeaders uni" False False "newIncomingMessage (cDecoder cc) \<lparr>rsC = cc, rsResponse = [], rsInformational = [], rsPushes = []\<rparr>"]
  show "\<exists>y. readResponse sops rops n i uops uni cc s r = Some y"
    by (auto simp: readResponse_def handleMessage_def simp del: split_paired_Ex)
qed

theorem endpoints_return_witness:
  "\<exists>y. serviceUnidirectionalStream memory_net source_ops (serverHandleFrame memory_net source_ops)
      (serverHandleUnidirectionalStream memory_recv) example_server (NewBitReader ([0x43, 1, 4, 255], ErrUnexpectedEOF)) = Some y"
proof -
  have src: "rcvSource memory_recv = source_ops" by (simp add: memory_recv_def)
  from endpoints_return [where rops = memory_recv and n = 1, unfolded src, OF src.byte_source_axioms,
      where r = "NewBitReader ([0x43, 1, 4, 255], ErrUnexpectedEOF)" and sc = example_server and nops = memory_net and cc = example_start
        and i = 0 and uni = id and sops = buffer_stream and uops = triple_urls and d = "NewQpackDecoder 0" and s = "NewBitWriter []"]
  show ?thesis by (simp add: rok_def NewBitReader_def)
qed

theorem push_credit_arrives_witness:
  "\<exists>cc' bs sc' r'. creditPushes memory_net 7 example_start = (None, cc') \<and> ccMaxPushID cc' = 7 \<and>
     writer (cControlStream cc') = writer (cControlStream example_start) @ bs \<and>
     controlLoop memory_net source_ops (serverHandleFrame memory_net source_ops) example_server (NewBitReader (bs, EOF)) =
       controlLoop memory_net source_ops (serverHandleFrame memory_net source_ops) sc' r' \<and> maxPushID sc' = 7"
proof -
  have s: "wsavedBits (cControlStream example_start) = 0" "ccMaxPushID example_start = 0" "maxPushID example_server = 0" by code_simp+
  then have "unat (ccMaxPushID example_start + 7) < 2 ^ 62" by simp
  from push_credit_arrives [OF memory_sink src.byte_source_axioms s(1) this, of memory_net] obtain cc' bs where
    c: "creditPushes memory_net 7 example_start = (None, cc')" "ccMaxPushID cc' = ccMaxPushID example_start + 7"
    "writer (cControlStream cc') = writer (cControlStream example_start) @ bs"
    "\<forall>sc r rest. rok (\<lambda>_. True) r \<and> rbits fst r = bytes_bits bs @ rest \<longrightarrow>
      (\<exists>r'. controlLoop memory_net source_ops (serverHandleFrame memory_net source_ops) sc r =
          controlLoop memory_net source_ops (serverHandleFrame memory_net source_ops)
            (sc\<lparr>maxPushID := max (maxPushID sc) (ccMaxPushID cc')\<rparr>) r' \<and> rok (\<lambda>_. True) r' \<and> rbits fst r' = rest)"
    by blast
  from c(4) [rule_format, of "NewBitReader (bs, EOF)" "[]" example_server] c(1-3) s(2,3) show ?thesis
    by (fastforce simp: rok_def rbits_def NewBitReader_def)
qed


text \<open>The fields of a promised request.\<close>

definition example_push :: "(string \<times> string \<times> string) serverPushRequest" where
  "example_push = \<lparr>prTarget = (''https'', ''a'', ''/''), prPushID = 3, prHeaders = [field '':authority'' ''a'', field '':path'' ''/'',
     field '':method'' ''GET'', field '':scheme'' ''https'']\<rparr>"

lemma example_push_fields:
  "lowered id (prHeaders example_push) = prHeaders example_push" "ValidatePseudoHeaders (prHeaders example_push) = None"
  "getMethodAndTarget triple_urls id (prHeaders example_push) = Inr (''GET'', (''https'', ''a'', ''/''))"
  by code_simp+

lemma example_push_fine: "call_fine buf_ops id 4 (prHeaders example_push) (example_encoder 4096) (NewBitWriter [])"
proof -
  have w: "case writeTableChanges buf_ops 4 ((example_encoder 4096, initHeaders id (prHeaders example_push)), NewBitWriter []) of
      (x, ((enc, st), w)) \<Rightarrow> length (nameMatches st) = length (headers st) \<and> qbase enc = 1 \<and>
        list_all (\<lambda>x. case x of Some (DynamicE _) \<Rightarrow> False | _ \<Rightarrow> True) (nameMatches st)"
    by code_simp
  have "\<forall>h \<in> set (lowered id (prHeaders example_push)). header_ok HuffmanCodingNever h"
    unfolding example_push_fields by (simp add: example_push_def header_ok_def string_ok_def field_def)
  moreover have "HuffmanPreference (example_encoder 4096) = HuffmanCodingNever" by code_simp
  moreover have "names_live (qcommon (qtable enc)) st \<and> qbase enc \<le> intMax"
    if "writeTableChanges buf_ops 4 ((example_encoder 4096, initHeaders id (prHeaders example_push)), NewBitWriter []) = (Inr (), ((enc, st), uw))"
    for enc st uw
  proof -
    have n: "length (nameMatches st) = length (headers st)" "qbase enc = 1"
      "\<forall>x \<in> set (nameMatches st). case x of Some (DynamicE _) \<Rightarrow> False | _ \<Rightarrow> True"
      using w that by (simp_all add: list_all_iff)
    have "nameMatches st ! i \<noteq> Some (DynamicE d)" if "i < length (headers st)" for i d
      using n(1) bspec [OF n(3) nth_mem, of i] that by auto
    with n(2) show ?thesis by (simp add: names_live_def intMax_def)
  qed
  ultimately show ?thesis by (simp add: call_fine_def)
qed

theorem push_promise_delivered_witness:
  "\<exists>c' s' ubs bs d1 q' r fr1 d2 st' r' pp.
     writePushPromise memory_net id 4 example_push (example_connection\<lparr>cReady := True\<rparr>) (NewBitWriter []) = (None, c', s') \<and>
     writer (cEncoderStream c') = ubs \<and> writer s' = bs \<and>
     ReadTableUpdates source_ops (NewQpackDecoder 4096) (ubs, EOF) = Some (Inr (), d1, q') \<and>
     ReadFrame source_ops (NewBitReader (bs, EOF)) = (Inr (framePushPromise, r), fr1) \<and>
     responseFrames source_ops triple_urls id 4 framePushPromise d1
       \<lparr>rsC = example_start, rsResponse = [], rsInformational = [], rsPushes = []\<rparr> r = Some (None, d2, st', r') \<and>
     rsPushes st' = [3] \<and> promises (rsC st') 3 = Some pp \<and> ppMethod pp = ''GET''"
proof -
  let ?c = "example_connection\<lparr>cReady := True\<rparr>"
  let ?st = "\<lparr>rsC = example_start, rsResponse = [], rsInformational = [], rsPushes = []\<rparr>"
  have sink: "strSink (netStream memory_net) = buf_ops" by (simp add: memory_net_def buffer_stream_def)
  have c: "cReady ?c" "qenc_ok (cEncoder ?c)" "wsavedBits (cEncoderStream ?c) = 0" "wsavedBits (NewBitWriter []) = 0"
    "call_fine (strSink (netStream memory_net)) id 4 (prHeaders example_push) (cEncoder ?c) (cEncoderStream ?c)"
    "unat (prPushID example_push) < 2 ^ 62" "dtable (NewQpackDecoder 4096) = qcommon (qtable (cEncoder ?c))"
    "writer (cEncoderStream ?c) = []" "writer (NewBitWriter []) = []"
    using example_encoder_ok example_push_fine example_tables
    by (simp_all add: example_connection_def NewBitWriter_def sink example_push_def)
  have "case QpackWriteHeaderBlock buf_ops buf_ops id 4 (prHeaders example_push) (example_encoder 4096) (NewBitWriter [])
      (bits_bytes (varint_bits (prPushID example_push))) of (x, enc', uw', b) \<Rightarrow> length b \<le> 60" by code_simp
  then have len: "\<forall>enc' uw' b. QpackWriteHeaderBlock (strSink (netStream memory_net)) buf_ops id 4 (prHeaders example_push) (cEncoder ?c)
      (cEncoderStream ?c) (bits_bytes (varint_bits (prPushID example_push))) = (Inr (), enc', uw', b) \<longrightarrow> length b < 2 ^ 62"
    by (auto simp: sink example_connection_def)
  have v: "ValidatePseudoHeaders (lowered id (prHeaders example_push)) = None"
    "getMethodAndTarget triple_urls id (lowered id (prHeaders example_push)) = Inr (''GET'', (''https'', ''a'', ''/''))"
    by (simp_all only: example_push_fields)
  from push_promise_delivered [OF memory_sink src.byte_source_axioms src.byte_source_axioms c(1-6) v c(7) len]
  obtain c' s' ubs bs where w: "writePushPromise memory_net id 4 example_push ?c (NewBitWriter []) = (None, c', s')"
    "writer (cEncoderStream c') = writer (cEncoderStream ?c) @ ubs" "writer s' = writer (NewBitWriter []) @ bs"
    "\<forall>q fr rest (st :: (16 word list, byte list, string \<times> string \<times> string) responseState).
      True \<and> fst q = ubs \<and> snd q = EOF \<and> rok (\<lambda>_. True) fr \<and> rsavedBits fr = 0 \<and>
        rbits fst fr = bytes_bits bs @ rest \<and> length rest mod 8 = 0 \<longrightarrow>
      (\<exists>d1 q' r fr1 d2 st' r' pp. ReadTableUpdates source_ops (NewQpackDecoder 4096) q = Some (Inr (), d1, q') \<and>
        ReadFrame source_ops fr = (Inr (framePushPromise, r), fr1) \<and>
        responseFrames source_ops triple_urls id 4 framePushPromise d1 st r = Some (None, d2, st', r') \<and>
        rsPushes st' = rsPushes st @ [prPushID example_push] \<and> promises (rsC st') (prPushID example_push) = Some pp \<and>
        ppHeaders pp = lowered id (prHeaders example_push) \<and> ppMethod pp = ''GET'' \<and> ppTarget pp = Some (''https'', ''a'', ''/'') \<and>
        rbits fst (unlimited r') = rest)"
    by blast
  have i: "prPushID example_push = 3" by (simp add: example_push_def)
  from w(4) [rule_format, of "(ubs, EOF)" "NewBitReader (bs, EOF)" "[]" ?st] w(1-3) i c(8,9) show ?thesis
    by (fastforce simp: rok_def rbits_def NewBitReader_def)
qed

end
