(* ===== verification/Middleware.thy ===== *)
theory Middleware
  imports Prelude
begin

text \<open>
  The asynchronous wrapper of minq, \<open>src/mw\<close>: operations that callers hand to the one goroutine
  that may touch minq (\<open>ops.go\<close>), connections with their parked reads and upcalls
  (\<open>connection.go\<close>), streams (\<open>stream.go\<close>) and the two service loops (\<open>connection.go\<close>,
  \<open>server.go\<close>). minq itself is a parameter. The goroutines are a step relation: a caller, the
  service goroutine and the goroutine that drains operations after the end.
\<close>

section \<open>minq\<close>

datatype minqState = StateEstablished | StateClosed | StateError | StateOther nat

text \<open>
  A call into minq returns a value, or first makes an upcall to the handler and goes on from the
  state that the handler leaves. The type is well-founded: a call makes finitely many upcalls.
\<close>

datatype ('c, 's) minqUpcall =
    StateChangedUp 'c minqState
  | NewStreamUp 'c 's
  | NewRecvStreamUp 'c 's
  | StreamReadableUp 'c 's
  | NewConnectionUp 'c

datatype ('m, 'c, 's, 'a) minqCall =
    Return 'a 'm
  | Upcall "('c, 's) minqUpcall" 'm "'m \<Rightarrow> ('m, 'c, 's, 'a) minqCall"

text \<open>A UDP packet; a client hands minq only its data, a server also the address of its sender.\<close>

record Packet =
  DestAddr :: string
  SrcAddr :: string
  Data :: "byte list"

text \<open>
  What the code uses of minq, on its state \<open>'m\<close>, connections \<open>'c\<close> and streams \<open>'s\<close>. The result
  of \<open>mqRead\<close> are the bytes it put into a buffer of the given length. Reading makes no upcall.
\<close>

record ('m, 'c, 's) minq_ops =
  mqIsServer :: "'c \<Rightarrow> bool"
  mqGetState :: "'c \<Rightarrow> 'm \<Rightarrow> minqState"
  mqClose :: "'c \<Rightarrow> 'm \<Rightarrow> ('m, 'c, 's, goerr option) minqCall"
  mqError :: "'c \<Rightarrow> 16 word \<Rightarrow> string \<Rightarrow> 'm \<Rightarrow> ('m, 'c, 's, goerr option) minqCall"
  mqCreateStream :: "'c \<Rightarrow> 'm \<Rightarrow> ('m, 'c, 's, 's) minqCall"
  mqCreateSendStream :: "'c \<Rightarrow> 'm \<Rightarrow> ('m, 'c, 's, 's) minqCall"
  mqWrite :: "'s \<Rightarrow> byte list \<Rightarrow> 'm \<Rightarrow> ('m, 'c, 's, nat \<times> goerr option) minqCall"
  mqCloseStream :: "'s \<Rightarrow> 'm \<Rightarrow> ('m, 'c, 's, goerr option) minqCall"
  mqReset :: "'s \<Rightarrow> 16 word \<Rightarrow> 'm \<Rightarrow> ('m, 'c, 's, goerr option) minqCall"
  mqStopSending :: "'s \<Rightarrow> 16 word \<Rightarrow> 'm \<Rightarrow> ('m, 'c, 's, goerr option) minqCall"
  mqRead :: "'s \<Rightarrow> nat \<Rightarrow> 'm \<Rightarrow> (byte list \<times> goerr option) \<times> 'm"
  mqInput :: "Packet \<Rightarrow> 'm \<Rightarrow> ('m, 'c, 's, unit) minqCall"
  mqCheckTimer :: "'m \<Rightarrow> ('m, 'c, 's, unit) minqCall"

definition ErrorWouldBlock :: goerr where
  "ErrorWouldBlock = ErrOther ''would block''"

section \<open>Operations\<close>

definition ErrConnectionClosed :: goerr where
  "ErrConnectionClosed = ErrOther ''connection closed before operation could complete''"

definition ErrUnknownOperation :: goerr where
  "ErrUnknownOperation = ErrOther ''unknown operation provided''"

text \<open>
  The first argument of an operation is the \<open>*Connection\<close> it was made with, an index into the
  connections of the state below. The buffer of a read is given by its length.
\<close>

datatype 's connectionOperation =
    getStateRequest nat
  | getSendStateRequest nat 's
  | getRecvStateRequest nat 's
  | createStreamRequest nat
  | createSendStreamRequest nat
  | writeRequest nat 's "byte list"
  | readRequest nat 's nat
  | resetRequest nat 's "16 word"
  | closeStreamRequest nat 's
  | stopRequest nat 's "16 word"
  | closeConnectionRequest nat
  | applicationCloseRequest nat "16 word" string

text \<open>What is sent on the result channel of an operation; a \<open>nil\<close> stream is \<open>None\<close>.\<close>

datatype 's opAnswer =
    AnsState minqState
  | AnsStream "'s option"
  | AnsSendStream "'s option"
  | AnsIO nat "byte list" "goerr option"
  | AnsErr "goerr option"

text \<open>
  A caller is in \<open>Add\<close>, waiting for a receiver of its operation; behind \<open>Add\<close>, waiting for the
  result; in \<open>Add\<close>, reporting to itself; or has returned. \<open>NilResult\<close>: its result channel was closed
  under it, and the dereference of the \<open>nil\<close> it received panicked.
\<close>

datatype 's caller =
    Adding "'s connectionOperation"
  | Waiting "'s connectionOperation"
  | Reporting "'s connectionOperation"
  | Returned "'s connectionOperation" "'s opAnswer"
  | NilResult "'s connectionOperation"

section \<open>Connections\<close>

text \<open>
  \<open>remoteStreams\<close> and \<open>remoteRecvStreams\<close> are the goroutines that wait to send a stream on the
  channel of that name; a field with suffix \<open>Closed\<close> says that the channel is closed.
  \<open>accepted\<close>: a server's application has received the connection.
  \<open>readState\<close> holds parked reads: the caller and the length of its buffer.
\<close>

record ('c, 's) mwConnection =
  connMinq :: 'c
  wasConnected :: bool
  connectedClosed :: bool
  closedClosed :: bool
  remoteStreamsClosed :: bool
  accepted :: bool
  remoteStreams :: "'s list"
  remoteRecvStreams :: "'s list"
  readState :: "'s \<rightharpoonup> nat \<times> nat"

definition newConnection :: "'c \<Rightarrow> ('c, 's) mwConnection" where
  "newConnection mc = \<lparr>connMinq = mc, wasConnected = False, connectedClosed = False,
     closedClosed = False, remoteStreamsClosed = False, accepted = False, remoteStreams = [], remoteRecvStreams = [],
     readState = Map.empty\<rparr>"

datatype serviceState = Serving | Deadlocked | Finished

record ('m, 'c, 's) mw =
  minq :: 'm
  conns :: "('c, 's) mwConnection list"
  handlers :: "'c \<rightharpoonup> nat"
  opsClosed :: bool
  callers :: "nat \<rightharpoonup> 's caller"
  isServer :: bool
  service :: serviceState
  crashed :: bool

type_synonym ('m, 'c, 's, 'a) mwIO = "(('m, 'c, 's) mw, 'a) io"

definition setConn :: "nat \<Rightarrow> (('c, 's) mwConnection \<Rightarrow> ('c, 's) mwConnection) \<Rightarrow> ('m, 'c, 's) mw \<Rightarrow> ('m, 'c, 's) mw" where
  "setConn p f st = st\<lparr>conns := (conns st)[p := f (conns st ! p)]\<rparr>"

definition setCaller :: "nat \<Rightarrow> 's caller \<Rightarrow> ('m, 'c, 's) mw \<Rightarrow> ('m, 'c, 's) mw" where
  "setCaller i x st = st\<lparr>callers := (callers st)(i \<mapsto> x)\<rparr>"

text \<open>
  A send on an unbuffered result channel needs its caller at the receive; otherwise the sender
  waits, and forever when it is that caller itself. Closing the channel never waits.
\<close>

definition answer :: "nat \<Rightarrow> 's opAnswer \<Rightarrow> ('m, 'c, 's, unit) mwIO" where
  "answer i a st =
     (case callers st i of
        Some (Waiting op) \<Rightarrow> (Inr (), setCaller i (Returned op a) st)
      | _ \<Rightarrow> (Inl Blocked, st))"

definition closeResult :: "nat \<Rightarrow> ('m, 'c, 's) mw \<Rightarrow> ('m, 'c, 's) mw" where
  "closeResult i st =
     (case callers st i of
        Some (Waiting op) \<Rightarrow> setCaller i (NilResult op) st
      | _ \<Rightarrow> st)"

definition readRequest_read :: "('m, 'c, 's) minq_ops \<Rightarrow> 's \<Rightarrow> nat \<Rightarrow> nat \<Rightarrow> ('m, 'c, 's, bool) mwIO" where
  "readRequest_read mq s i n st =
     (case mqRead mq s n (minq st) of
        ((p, err), m) \<Rightarrow>
          if err \<noteq> Some ErrorWouldBlock
          then bnd (answer i (AnsIO (length p) p err)) (\<lambda>_. ret True) (st\<lparr>minq := m\<rparr>)
          else (Inr False, st\<lparr>minq := m\<rparr>))"

subsection \<open>Upcalls\<close>

definition StateChanged :: "nat \<Rightarrow> minqState \<Rightarrow> ('m, 'c, 's, unit) mwIO" where
  "StateChanged p s st =
     (case s of
        StateEstablished \<Rightarrow>
          if connectedClosed (conns st ! p)
          then (Inl (Panic ''close of closed channel''), setConn p (wasConnected_update (\<lambda>_. True)) st)
          else (Inr (), setConn p (\<lambda>c. c\<lparr>wasConnected := True, connectedClosed := True\<rparr>) st)
      | StateOther _ \<Rightarrow> (Inr (), st)
      | _ \<Rightarrow>
          if closedClosed (conns st ! p) then (Inl (Panic ''close of closed channel''), st)
          else (Inr (), setConn p (closedClosed_update (\<lambda>_. True)) st))"

definition NewStream :: "nat \<Rightarrow> 's \<Rightarrow> ('m, 'c, 's) mw \<Rightarrow> ('m, 'c, 's) mw" where
  "NewStream p s = setConn p (\<lambda>c. c\<lparr>remoteStreams := remoteStreams c @ [s]\<rparr>)"

definition NewRecvStream :: "nat \<Rightarrow> 's \<Rightarrow> ('m, 'c, 's) mw \<Rightarrow> ('m, 'c, 's) mw" where
  "NewRecvStream p s = setConn p (\<lambda>c. c\<lparr>remoteRecvStreams := remoteRecvStreams c @ [s]\<rparr>)"

definition StreamReadable :: "('m, 'c, 's) minq_ops \<Rightarrow> nat \<Rightarrow> 's \<Rightarrow> ('m, 'c, 's, unit) mwIO" where
  "StreamReadable mq p s st =
     (case readState (conns st ! p) s of
        None \<Rightarrow> (Inr (), st)
      | Some (i, n) \<Rightarrow>
          bnd (readRequest_read mq s i n)
            (\<lambda>success. if success then ret () else throw (Panic ''read failed after readable event''))
            (setConn p (\<lambda>c. c\<lparr>readState := (readState c)(s := None)\<rparr>) st))"

text \<open>\<open>serverHandler.NewConnection\<close>: the new connection becomes the handler of its upcalls. The goroutine
  started there waits for \<open>connected\<close>; see the step \<open>connection\<close> below.\<close>

definition mwNewServerConnection :: "('m, 'c, 's) minq_ops \<Rightarrow> 'c \<Rightarrow> ('m, 'c, 's, unit) mwIO" where
  "mwNewServerConnection mq mc st =
     (if mqIsServer mq mc
      then (Inr (), st\<lparr>conns := conns st @ [newConnection mc], handlers := (handlers st)(mc \<mapsto> length (conns st))\<rparr>)
      else (Inl (Panic ''minq.Server spat out a client''), st))"

definition toHandler :: "'c \<Rightarrow> (nat \<Rightarrow> ('m, 'c, 's, unit) mwIO) \<Rightarrow> ('m, 'c, 's, unit) mwIO" where
  "toHandler mc f st = (case handlers st mc of None \<Rightarrow> (Inr (), st) | Some p \<Rightarrow> f p st)"

fun upcall :: "('m, 'c, 's) minq_ops \<Rightarrow> ('c, 's) minqUpcall \<Rightarrow> ('m, 'c, 's, unit) mwIO" where
  "upcall mq (StateChangedUp mc s) st = toHandler mc (\<lambda>p. StateChanged p s) st"
| "upcall mq (NewStreamUp mc s) st = toHandler mc (\<lambda>p st. (Inr (), NewStream p s st)) st"
| "upcall mq (NewRecvStreamUp mc s) st = toHandler mc (\<lambda>p st. (Inr (), NewRecvStream p s st)) st"
| "upcall mq (StreamReadableUp mc s) st = toHandler mc (\<lambda>p. StreamReadable mq p s) st"
| "upcall mq (NewConnectionUp mc) st = mwNewServerConnection mq mc st"

primrec runCall :: "('m, 'c, 's) minq_ops \<Rightarrow> ('m, 'c, 's, 'a) minqCall \<Rightarrow> ('m, 'c, 's, 'a) mwIO" where
  "runCall mq (Return x m) = (\<lambda>st. (Inr x, st\<lparr>minq := m\<rparr>))"
| "runCall mq (Upcall u m k) = (\<lambda>st.
     (case upcall mq u (st\<lparr>minq := m\<rparr>) of
        (Inl e, st') \<Rightarrow> (Inl e, st')
      | (Inr _, st') \<Rightarrow> runCall mq (k (minq st')) st'))"

section \<open>Handling operations\<close>

text \<open>
  \<open>SendState\<close> and \<open>RecvState\<close>, which the state requests of streams call to report, are \<open>Add\<close>
  again: it waits for a receiver of the operation, or, once the operations are closed, reports
  again, and so on until the stack overflows.
\<close>

definition reportAgain :: "('m, 'c, 's, unit) mwIO" where
  "reportAgain st = (Inl (if opsClosed st then Panic ''stack overflow'' else Blocked), st)"

fun report :: "('m, 'c, 's) minq_ops \<Rightarrow> goerr option \<Rightarrow> nat \<Rightarrow> 's connectionOperation \<Rightarrow> ('m, 'c, 's, unit) mwIO" where
  "report mq err i (getStateRequest p) st = answer i (AnsState (mqGetState mq (connMinq (conns st ! p)) (minq st))) st"
| "report mq err i (getSendStateRequest p s) st = reportAgain st"
| "report mq err i (getRecvStateRequest p s) st = reportAgain st"
| "report mq err i (createStreamRequest p) st = answer i (AnsStream None) st"
| "report mq err i (createSendStreamRequest p) st = answer i (AnsSendStream None) st"
| "report mq err i (writeRequest p s bs) st = answer i (AnsIO 0 [] err) st"
| "report mq err i (readRequest p s n) st = answer i (AnsIO 0 [] err) st"
| "report mq err i (resetRequest p s code) st = answer i (AnsErr err) st"
| "report mq err i (closeStreamRequest p s) st = answer i (AnsErr err) st"
| "report mq err i (stopRequest p s code) st = answer i (AnsErr err) st"
| "report mq err i (closeConnectionRequest p) st = answer i (AnsErr err) st"
| "report mq err i (applicationCloseRequest p code t) st = answer i (AnsErr err) st"

definition handleReadRequest :: "('m, 'c, 's) minq_ops \<Rightarrow> nat \<Rightarrow> 's \<Rightarrow> nat \<Rightarrow> nat \<Rightarrow> ('m, 'c, 's, unit) mwIO" where
  "handleReadRequest mq p s i n st =
     (if readState (conns st ! p) s \<noteq> None
      then (Inl (Panic ''someone else is waiting on a read''), st)
      else bnd (readRequest_read mq s i n)
             (\<lambda>success st. (Inr (), if success then st
                else setConn p (\<lambda>c. c\<lparr>readState := (readState c)(s \<mapsto> (i, n))\<rparr>) st)) st)"

definition stopRead :: "nat \<Rightarrow> 's \<Rightarrow> ('m, 'c, 's) mw \<Rightarrow> ('m, 'c, 's) mw" where
  "stopRead p s st =
     (case readState (conns st ! p) s of
        None \<Rightarrow> st
      | Some (j, _) \<Rightarrow> setConn p (\<lambda>c. c\<lparr>readState := (readState c)(s := None)\<rparr>) (closeResult j st))"

fun Handle :: "('m, 'c, 's) minq_ops \<Rightarrow> nat \<Rightarrow> 's connectionOperation \<Rightarrow> ('m, 'c, 's, unit) mwIO" where
  "Handle mq i (closeConnectionRequest p) st =
     bnd (runCall mq (mqClose mq (connMinq (conns st ! p)) (minq st))) (\<lambda>err. report mq err i (closeConnectionRequest p)) st"
| "Handle mq i (applicationCloseRequest p code t) st =
     bnd (runCall mq (mqError mq (connMinq (conns st ! p)) code t (minq st)))
       (\<lambda>err. report mq err i (applicationCloseRequest p code t)) st"
| "Handle mq i (createStreamRequest p) st =
     bnd (runCall mq (mqCreateStream mq (connMinq (conns st ! p)) (minq st))) (\<lambda>s. answer i (AnsStream (Some s))) st"
| "Handle mq i (createSendStreamRequest p) st =
     bnd (runCall mq (mqCreateSendStream mq (connMinq (conns st ! p)) (minq st))) (\<lambda>s. answer i (AnsSendStream (Some s))) st"
| "Handle mq i (writeRequest p s bs) st =
     bnd (runCall mq (mqWrite mq s bs (minq st))) (\<lambda>(n, err). answer i (AnsIO n [] err)) st"
| "Handle mq i (closeStreamRequest p s) st =
     bnd (runCall mq (mqCloseStream mq s (minq st))) (\<lambda>err. report mq err i (closeStreamRequest p s)) st"
| "Handle mq i (resetRequest p s code) st =
     bnd (runCall mq (mqReset mq s code (minq st))) (\<lambda>err. report mq err i (resetRequest p s code)) st"
| "Handle mq i (readRequest p s n) st = handleReadRequest mq p s i n st"
| "Handle mq i (stopRequest p s code) st =
     bnd (runCall mq (mqStopSending mq s code (minq st))) (\<lambda>err. report mq err i (stopRequest p s code)) (stopRead p s st)"
| "Handle mq i op st = report mq (Some ErrUnknownOperation) i op st"

section \<open>Goroutines\<close>

subsection \<open>Callers\<close>

text \<open>
  A call creates a result channel, here the number of the call, adds the operation and receives
  the result. A caller that reports to itself waits at the send; no goroutine but itself
  receives from that channel.
\<close>

definition Add :: "('m, 'c, 's) minq_ops \<Rightarrow> nat \<Rightarrow> 's connectionOperation \<Rightarrow> ('m, 'c, 's) mw \<Rightarrow> ('m, 'c, 's) mw" where
  "Add mq i op st =
     (if opsClosed st
      then (case report mq (Some ErrConnectionClosed) i op (setCaller i (Reporting op) st) of
              (Inl Blocked, st') \<Rightarrow> st'
            | (Inl e, st') \<Rightarrow> st'\<lparr>crashed := True\<rparr>
            | (Inr _, st') \<Rightarrow> st')
      else setCaller i (Adding op) st)"

text \<open>
  The methods of connections and streams: each makes a request and adds it; the caller then
  waits for the result. The receiver is the connection \<open>p\<close>, for streams with the minq stream \<open>s\<close>.
\<close>

definition mwGetState :: "('m, 'c, 's) minq_ops \<Rightarrow> nat \<Rightarrow> nat \<Rightarrow> ('m, 'c, 's) mw \<Rightarrow> ('m, 'c, 's) mw" where
  "mwGetState mq i p = Add mq i (getStateRequest p)"

definition mwClose :: "('m, 'c, 's) minq_ops \<Rightarrow> nat \<Rightarrow> nat \<Rightarrow> ('m, 'c, 's) mw \<Rightarrow> ('m, 'c, 's) mw" where
  "mwClose mq i p = Add mq i (closeConnectionRequest p)"

definition mwError :: "('m, 'c, 's) minq_ops \<Rightarrow> nat \<Rightarrow> nat \<Rightarrow> 16 word \<Rightarrow> string \<Rightarrow> ('m, 'c, 's) mw \<Rightarrow> ('m, 'c, 's) mw" where
  "mwError mq i p e t = Add mq i (applicationCloseRequest p e t)"

definition mwCreateStream :: "('m, 'c, 's) minq_ops \<Rightarrow> nat \<Rightarrow> nat \<Rightarrow> ('m, 'c, 's) mw \<Rightarrow> ('m, 'c, 's) mw" where
  "mwCreateStream mq i p = Add mq i (createStreamRequest p)"

definition mwCreateSendStream :: "('m, 'c, 's) minq_ops \<Rightarrow> nat \<Rightarrow> nat \<Rightarrow> ('m, 'c, 's) mw \<Rightarrow> ('m, 'c, 's) mw" where
  "mwCreateSendStream mq i p = Add mq i (createSendStreamRequest p)"

definition SendState :: "('m, 'c, 's) minq_ops \<Rightarrow> nat \<Rightarrow> nat \<Rightarrow> 's \<Rightarrow> ('m, 'c, 's) mw \<Rightarrow> ('m, 'c, 's) mw" where
  "SendState mq i p s = Add mq i (getSendStateRequest p s)"

definition mwWrite :: "('m, 'c, 's) minq_ops \<Rightarrow> nat \<Rightarrow> nat \<Rightarrow> 's \<Rightarrow> byte list \<Rightarrow> ('m, 'c, 's) mw \<Rightarrow> ('m, 'c, 's) mw" where
  "mwWrite mq i p s bs = Add mq i (writeRequest p s bs)"

definition mwReset :: "('m, 'c, 's) minq_ops \<Rightarrow> nat \<Rightarrow> nat \<Rightarrow> 's \<Rightarrow> 16 word \<Rightarrow> ('m, 'c, 's) mw \<Rightarrow> ('m, 'c, 's) mw" where
  "mwReset mq i p s code = Add mq i (resetRequest p s code)"

definition mwCloseStream :: "('m, 'c, 's) minq_ops \<Rightarrow> nat \<Rightarrow> nat \<Rightarrow> 's \<Rightarrow> ('m, 'c, 's) mw \<Rightarrow> ('m, 'c, 's) mw" where
  "mwCloseStream mq i p s = Add mq i (closeStreamRequest p s)"

definition RecvState :: "('m, 'c, 's) minq_ops \<Rightarrow> nat \<Rightarrow> nat \<Rightarrow> 's \<Rightarrow> ('m, 'c, 's) mw \<Rightarrow> ('m, 'c, 's) mw" where
  "RecvState mq i p s = Add mq i (getRecvStateRequest p s)"

definition mwRead :: "('m, 'c, 's) minq_ops \<Rightarrow> nat \<Rightarrow> nat \<Rightarrow> 's \<Rightarrow> nat \<Rightarrow> ('m, 'c, 's) mw \<Rightarrow> ('m, 'c, 's) mw" where
  "mwRead mq i p s n = Add mq i (readRequest p s n)"

definition mwStopSending :: "('m, 'c, 's) minq_ops \<Rightarrow> nat \<Rightarrow> nat \<Rightarrow> 's \<Rightarrow> 16 word \<Rightarrow> ('m, 'c, 's) mw \<Rightarrow> ('m, 'c, 's) mw" where
  "mwStopSending mq i p s code = Add mq i (stopRequest p s code)"

lemmas mw_methods = mwGetState_def mwClose_def mwError_def mwCreateStream_def mwCreateSendStream_def SendState_def
  mwWrite_def mwReset_def mwCloseStream_def RecvState_def mwRead_def mwStopSending_def

subsection \<open>The service goroutine\<close>

text \<open>
  What a step of the service goroutine leaves: a panic ends the program, a wait for a receiver
  that is not there ends the service.
\<close>

fun finish :: "(goerr + unit) \<times> ('m, 'c, 's) mw \<Rightarrow> ('m, 'c, 's) mw" where
  "finish (Inr _, st) = st"
| "finish (Inl e, st) = (if e = Blocked then st\<lparr>service := Deadlocked\<rparr> else st\<lparr>crashed := True\<rparr>)"

text \<open>
  The head of the loop of \<open>Connection.service\<close>, which tests the state of minq. A server's loop
  has no such test; it ends at a shutdown request.
\<close>

definition ended :: "('m, 'c, 's) minq_ops \<Rightarrow> ('m, 'c, 's) mw \<Rightarrow> bool" where
  "ended mq st \<longleftrightarrow> \<not> isServer st \<and> mqGetState mq (connMinq (conns st ! 0)) (minq st) \<in> {StateClosed, StateError}"

text \<open>
  The receive from \<open>ops.ch\<close> lets the caller go on to wait for its result; it does nothing
  else in between, so that \<open>Handle\<close> finds it there.
\<close>

definition serve :: "('m, 'c, 's) minq_ops \<Rightarrow> nat \<Rightarrow> 's connectionOperation \<Rightarrow> ('m, 'c, 's) mw \<Rightarrow> ('m, 'c, 's) mw" where
  "serve mq i op st = finish (Handle mq i op (setCaller i (Waiting op) st))"

definition servePacket :: "('m, 'c, 's) minq_ops \<Rightarrow> Packet \<Rightarrow> ('m, 'c, 's) mw \<Rightarrow> ('m, 'c, 's) mw" where
  "servePacket mq d st = finish (runCall mq (mqInput mq d (minq st)) st)"

definition serveTimer :: "('m, 'c, 's) minq_ops \<Rightarrow> ('m, 'c, 's) mw \<Rightarrow> ('m, 'c, 's) mw" where
  "serveTimer mq st = finish (runCall mq (mqCheckTimer mq (minq st)) st)"

text \<open>
  \<open>cleanup\<close> of a connection closes two channels; a goroutine that waits to send on the second
  panics. \<open>cleanup\<close> of a server closes only the operations.
\<close>

definition cleanup :: "('m, 'c, 's) mw \<Rightarrow> ('m, 'c, 's) mw" where
  "cleanup st =
     (let st1 = st\<lparr>opsClosed := True, service := Finished\<rparr>; c = conns st ! 0 in
      if \<not> wasConnected c \<and> connectedClosed c \<or> remoteStreamsClosed c \<or> remoteStreams c \<noteq> []
      then st1\<lparr>crashed := True\<rparr>
      else setConn 0 (\<lambda>c. c\<lparr>connectedClosed := True, remoteStreamsClosed := True\<rparr>) st1)"

definition serverCleanup :: "('m, 'c, 's) mw \<Rightarrow> ('m, 'c, 's) mw" where
  "serverCleanup st = st\<lparr>opsClosed := True, service := Finished\<rparr>"

subsection \<open>After the end\<close>

definition drainOps :: "('m, 'c, 's) minq_ops \<Rightarrow> nat \<Rightarrow> 's connectionOperation \<Rightarrow> ('m, 'c, 's) mw \<Rightarrow> ('m, 'c, 's) mw" where
  "drainOps mq i op st =
     (case report mq (Some ErrConnectionClosed) i op (setCaller i (Waiting op) st) of
        (Inr _, st') \<Rightarrow> st'
      | (Inl e, st') \<Rightarrow> if e = Blocked then st' else st'\<lparr>crashed := True\<rparr>)"

subsection \<open>Steps\<close>

definition clientStart :: "'m \<Rightarrow> 'c \<Rightarrow> ('m, 'c, 's) mw" where
  "clientStart m mc = \<lparr>minq = m, conns = [newConnection mc], handlers = [mc \<mapsto> 0], opsClosed = False,
     callers = Map.empty, isServer = False, service = Serving, crashed = False\<rparr>"

definition serverStart :: "'m \<Rightarrow> ('m, 'c, 's) mw" where
  "serverStart m = \<lparr>minq = m, conns = [], handlers = Map.empty, opsClosed = False,
     callers = Map.empty, isServer = True, service = Serving, crashed = False\<rparr>"

fun opConn :: "'s connectionOperation \<Rightarrow> nat" where
  "opConn (getStateRequest p) = p"
| "opConn (getSendStateRequest p s) = p"
| "opConn (getRecvStateRequest p s) = p"
| "opConn (createStreamRequest p) = p"
| "opConn (createSendStreamRequest p) = p"
| "opConn (writeRequest p s bs) = p"
| "opConn (readRequest p s n) = p"
| "opConn (resetRequest p s code) = p"
| "opConn (closeStreamRequest p s) = p"
| "opConn (stopRequest p s code) = p"
| "opConn (closeConnectionRequest p) = p"
| "opConn (applicationCloseRequest p code t) = p"

inductive mwStep :: "('m, 'c, 's) minq_ops \<Rightarrow> ('m, 'c, 's) mw \<Rightarrow> ('m, 'c, 's) mw \<Rightarrow> bool" for mq where
  call: "\<lbrakk>\<not> crashed st; callers st i = None; opConn op < length (conns st)\<rbrakk> \<Longrightarrow> mwStep mq st (Add mq i op st)"
| serve: "\<lbrakk>\<not> crashed st; service st = Serving; \<not> ended mq st; callers st i = Some (Adding op)\<rbrakk>
    \<Longrightarrow> mwStep mq st (serve mq i op st)"
| packet: "\<lbrakk>\<not> crashed st; service st = Serving; \<not> ended mq st\<rbrakk> \<Longrightarrow> mwStep mq st (servePacket mq d st)"
| timer: "\<lbrakk>\<not> crashed st; service st = Serving; \<not> ended mq st\<rbrakk> \<Longrightarrow> mwStep mq st (serveTimer mq st)"
| exit: "\<lbrakk>\<not> crashed st; service st = Serving; ended mq st\<rbrakk> \<Longrightarrow> mwStep mq st (cleanup st)"
| shutdown: "\<lbrakk>\<not> crashed st; service st = Serving; isServer st\<rbrakk> \<Longrightarrow> mwStep mq st (serverCleanup st)"
| drained: "\<lbrakk>\<not> crashed st; opsClosed st; callers st i = Some (Adding op)\<rbrakk> \<Longrightarrow> mwStep mq st (drainOps mq i op st)"
| stream: "\<lbrakk>\<not> crashed st; p < length (conns st); s \<in> set (remoteStreams (conns st ! p))\<rbrakk>
    \<Longrightarrow> mwStep mq st (setConn p (\<lambda>c. c\<lparr>remoteStreams := remove1 s (remoteStreams c)\<rparr>) st)"
| recvStream: "\<lbrakk>\<not> crashed st; p < length (conns st); s \<in> set (remoteRecvStreams (conns st ! p))\<rbrakk>
    \<Longrightarrow> mwStep mq st (setConn p (\<lambda>c. c\<lparr>remoteRecvStreams := remove1 s (remoteRecvStreams c)\<rparr>) st)"
| connection: "\<lbrakk>\<not> crashed st; isServer st; p < length (conns st); connectedClosed (conns st ! p); \<not> accepted (conns st ! p)\<rbrakk>
    \<Longrightarrow> mwStep mq st (setConn p (accepted_update (\<lambda>_. True)) st)"

inductive mwRun :: "('m, 'c, 's) minq_ops \<Rightarrow> ('m, 'c, 's) mw \<Rightarrow> ('m, 'c, 's) mw \<Rightarrow> bool" for mq where
  start: "mwRun mq st st"
| step: "mwRun mq st st' \<Longrightarrow> mwStep mq st' st'' \<Longrightarrow> mwRun mq st st''"

section \<open>Parked reads and waiting callers\<close>

text \<open>
  \<open>triple P m Q\<close>: from a state with \<open>P\<close> the operation never waits for a receiver, and when it
  returns a value, that value and the state satisfy \<open>Q\<close>.
\<close>

definition triple :: "('t \<Rightarrow> bool) \<Rightarrow> ('t, 'a) io \<Rightarrow> ('a \<Rightarrow> 't \<Rightarrow> bool) \<Rightarrow> bool" where
  "triple P m Q \<longleftrightarrow> (\<forall>st. P st \<longrightarrow> (case m st of (Inl e, _) \<Rightarrow> e \<noteq> Blocked | (Inr x, st') \<Rightarrow> Q x st'))"

lemma tripleI:
  assumes "\<And>st. P st \<Longrightarrow> (case m st of (Inl e, _) \<Rightarrow> e \<noteq> Blocked | (Inr x, st') \<Rightarrow> Q x st')"
  shows "triple P m Q"
  using assms by (simp add: triple_def)

lemma triple_Inr: "triple P m Q \<Longrightarrow> P st \<Longrightarrow> m st = (Inr x, st') \<Longrightarrow> Q x st'"
  by (fastforce simp: triple_def)

lemma triple_Inl: "triple P m Q \<Longrightarrow> P st \<Longrightarrow> m st = (Inl e, st') \<Longrightarrow> e \<noteq> Blocked"
  by (fastforce simp: triple_def)

lemma triple_bnd:
  assumes "triple P m Q" "\<And>x. triple (Q x) (f x) R"
  shows "triple P (bnd m f) R"
proof (rule tripleI)
  fix st assume "P st"
  with assms show "case bnd m f st of (Inl e, _) \<Rightarrow> e \<noteq> Blocked | (Inr x, st') \<Rightarrow> R x st'"
    by (cases "m st"; cases "fst (m st)") (fastforce simp: bnd_def triple_def)+
qed

lemma triple_conseq:
  assumes "triple P m Q" "\<And>st. P' st \<Longrightarrow> P st" "\<And>x st. Q x st \<Longrightarrow> Q' x st"
  shows "triple P' m Q'"
  using assms by (fastforce simp: triple_def split: prod.splits sum.splits)

definition parked :: "('m, 'c, 's) mw \<Rightarrow> (nat \<times> 's \<times> nat \<times> nat) set" where
  "parked st = {(p, s, i, n). p < length (conns st) \<and> readState (conns st ! p) s = Some (i, n)}"

text \<open>
  Apart from the callers \<open>X\<close> that are being served: a parked read has its caller waiting, and a
  waiting caller has its read parked. Handlers and operations refer to existing connections.
\<close>

definition settled :: "nat set \<Rightarrow> ('m, 'c, 's) mw \<Rightarrow> bool" where
  "settled X st \<longleftrightarrow>
     (\<forall>p s i n. (p, s, i, n) \<in> parked st \<longrightarrow> i \<notin> X \<and> callers st i = Some (Waiting (readRequest p s n))) \<and>
     (\<forall>i op. i \<notin> X \<longrightarrow> callers st i = Some (Waiting op) \<longrightarrow>
        (\<exists>p s n. op = readRequest p s n \<and> (p, s, i, n) \<in> parked st)) \<and>
     (\<forall>mc p. handlers st mc = Some p \<longrightarrow> p < length (conns st)) \<and>
     (\<forall>i op. callers st i = Some (Adding op) \<longrightarrow> opConn op < length (conns st))"

text \<open>What serving a caller leaves as it was.\<close>

definition framed :: "nat set \<Rightarrow> ('m, 'c, 's) mw \<Rightarrow> ('m, 'c, 's) mw \<Rightarrow> bool" where
  "framed X st st' \<longleftrightarrow>
     opsClosed st' = opsClosed st \<and> service st' = service st \<and> crashed st' = crashed st \<and> isServer st' = isServer st \<and>
     length (conns st) \<le> length (conns st') \<and> (\<forall>i\<in>X. callers st' i = callers st i)"

definition serving :: "nat set \<Rightarrow> ('m, 'c, 's) mw \<Rightarrow> ('m, 'c, 's) mw \<Rightarrow> bool" where
  "serving X g st \<longleftrightarrow> settled X st \<and> framed X g st"

lemma conns_setConn [simp]: "length (conns (setConn p f st)) = length (conns st)"
  by (simp add: setConn_def)

lemma setConn_fields [simp]:
  "minq (setConn p f st) = minq st" "handlers (setConn p f st) = handlers st" "callers (setConn p f st) = callers st"
  "opsClosed (setConn p f st) = opsClosed st" "service (setConn p f st) = service st"
  "crashed (setConn p f st) = crashed st" "isServer (setConn p f st) = isServer st"
  by (simp_all add: setConn_def)

lemma setCaller_fields [simp]:
  "minq (setCaller i x st) = minq st" "handlers (setCaller i x st) = handlers st" "conns (setCaller i x st) = conns st"
  "opsClosed (setCaller i x st) = opsClosed st" "service (setCaller i x st) = service st"
  "crashed (setCaller i x st) = crashed st" "isServer (setCaller i x st) = isServer st"
  "callers (setCaller i x st) = (callers st)(i \<mapsto> x)" "parked (setCaller i x st) = parked st"
  by (simp_all add: setCaller_def parked_def)

lemma nth_setConn:
  "q < length (conns st) \<Longrightarrow> conns (setConn p f st) ! q = (if q = p then f (conns st ! p) else conns st ! q)"
  by (simp add: setConn_def nth_list_update)

lemma parked_setConn: "(\<And>c. readState (f c) = readState c) \<Longrightarrow> parked (setConn p f st) = parked st"
  by (auto simp: parked_def nth_setConn split: if_splits)

lemma parked_unpark:
  "parked (setConn p (\<lambda>c. c\<lparr>readState := (readState c)(s := None)\<rparr>) st) = parked st - {(q, t, i, n). q = p \<and> t = s}"
  by (auto simp: parked_def nth_setConn split: if_splits)

lemma parked_park:
  assumes "p < length (conns st)" "readState (conns st ! p) s = None"
  shows "parked (setConn p (\<lambda>c. c\<lparr>readState := (readState c)(s \<mapsto> (i, n))\<rparr>) st) = insert (p, s, i, n) (parked st)"
  using assms by (auto simp: parked_def nth_setConn split: if_splits)

lemma parked_minq [simp]: "parked (st\<lparr>minq := m\<rparr>) = parked st"
  by (simp add: parked_def)

lemma serving_minq [simp]: "serving X g (st\<lparr>minq := m\<rparr>) = serving X g st"
  by (simp add: serving_def settled_def framed_def)

lemma serving_setConn:
  assumes "serving X g st" "\<And>c. readState (f c) = readState c"
  shows "serving X g (setConn p f st)"
  using assms by (simp add: serving_def settled_def framed_def parked_setConn)

lemma framed_refl [simp]: "framed X st st"
  by (simp add: framed_def)

lemma settled_minq [simp]: "settled X (st\<lparr>minq := m\<rparr>) = settled X st"
  by (simp add: settled_def)

lemma framed_minq [simp]: "framed X g (st\<lparr>minq := m\<rparr>) = framed X g st"
  by (simp add: framed_def)

text \<open>A caller \<open>i\<close> that is being served, beside those in \<open>X\<close>, and can be answered.\<close>

definition answerable :: "nat set \<Rightarrow> ('m, 'c, 's) mw \<Rightarrow> nat \<Rightarrow> ('m, 'c, 's) mw \<Rightarrow> bool" where
  "answerable X g i st \<longleftrightarrow>
     settled (insert i X) st \<and> framed X g st \<and> i \<notin> X \<and> (\<exists>op. callers st i = Some (Waiting op) \<and> opConn op < length (conns st))"

lemma settled_parked:
  "settled X st \<Longrightarrow> (p, s, i, n) \<in> parked st \<Longrightarrow> i \<notin> X \<and> callers st i = Some (Waiting (readRequest p s n))"
  by (simp add: settled_def)

lemma settled_waiting:
  assumes "settled X st" "i \<notin> X" "callers st i = Some (Waiting op)"
  obtains p s n where "op = readRequest p s n" "(p, s, i, n) \<in> parked st"
proof -
  from assms have "\<exists>p s n. op = readRequest p s n \<and> (p, s, i, n) \<in> parked st" unfolding settled_def by blast
  with that show ?thesis by blast
qed

lemma settledI:
  assumes "\<And>p s i n. (p, s, i, n) \<in> parked st \<Longrightarrow> i \<notin> X \<and> callers st i = Some (Waiting (readRequest p s n))"
    and "\<And>i op. i \<notin> X \<Longrightarrow> callers st i = Some (Waiting op) \<Longrightarrow> \<exists>p s n. op = readRequest p s n \<and> (p, s, i, n) \<in> parked st"
    and "\<And>mc p. handlers st mc = Some p \<Longrightarrow> p < length (conns st)"
    and "\<And>i op. callers st i = Some (Adding op) \<Longrightarrow> opConn op < length (conns st)"
  shows "settled X st"
  using assms by (simp add: settled_def)

lemma settled_refs:
  assumes "settled X st"
  shows "handlers st mc = Some p \<Longrightarrow> p < length (conns st)"
    and "callers st i = Some (Adding op) \<Longrightarrow> opConn op < length (conns st)"
  using assms by (simp_all add: settled_def)

lemma settled_unpark:
  assumes st: "settled X st" and park: "(p, s, i, n) \<in> parked st"
  shows "settled (insert i X) (setConn p (\<lambda>c. c\<lparr>readState := (readState c)(s := None)\<rparr>) st)"
proof (rule settledI)
  fix q t j k
  assume "(q, t, j, k) \<in> parked (setConn p (\<lambda>c. c\<lparr>readState := (readState c)(s := None)\<rparr>) st)"
  then have "(q, t, j, k) \<in> parked st" "\<not> (q = p \<and> t = s)" by (auto simp: parked_unpark)
  then show "j \<notin> insert i X \<and> callers (setConn p (\<lambda>c. c\<lparr>readState := (readState c)(s := None)\<rparr>) st) j = Some (Waiting (readRequest q t k))"
    using settled_parked [OF st park] settled_parked [OF st, of q t j k] by auto
next
  fix j op
  assume j: "j \<notin> insert i X" "callers (setConn p (\<lambda>c. c\<lparr>readState := (readState c)(s := None)\<rparr>) st) j = Some (Waiting op)"
  then obtain q t k where "op = readRequest q t k" "(q, t, j, k) \<in> parked st"
    by (auto elim: settled_waiting [OF st])
  moreover from this park j(1) have "\<not> (q = p \<and> t = s)" by (auto simp: parked_def)
  ultimately show "\<exists>q t k. op = readRequest q t k \<and> (q, t, j, k) \<in> parked (setConn p (\<lambda>c. c\<lparr>readState := (readState c)(s := None)\<rparr>) st)"
    by (auto simp: parked_unpark)
qed (use settled_refs [OF st] in auto)

lemma answerable_minq [simp]: "answerable X g i (st\<lparr>minq := m\<rparr>) = answerable X g i st"
  by (simp add: answerable_def)

lemma answer_triple: "triple (answerable X g i) (answer i a) (\<lambda>_. serving X g)"
  by (rule tripleI) (auto simp: answerable_def serving_def answer_def settled_def framed_def)

lemma read_triple:
  "triple (answerable X g i) (readRequest_read mq s i n) (\<lambda>success. if success then serving X g else answerable X g i)"
proof (rule tripleI)
  fix st assume a: "answerable X g i st"
  obtain p err m where r: "mqRead mq s n (minq st) = ((p, err), m)" by (metis surj_pair)
  have "triple (answerable X g i) (bnd (answer i (AnsIO (length p) p err)) (\<lambda>_. ret True))
      (\<lambda>success. if success then serving X g else answerable X g i)"
    by (rule triple_bnd [OF answer_triple]) (simp add: triple_def)
  with a r show "case readRequest_read mq s i n st of (Inl e, _) \<Rightarrow> e \<noteq> Blocked
      | (Inr x, st') \<Rightarrow> (if x then serving X g else answerable X g i) st'"
    by (simp add: readRequest_read_def triple_def)
qed

lemma answerable_unpark:
  assumes "serving X g st" "p < length (conns st)" "readState (conns st ! p) s = Some (i, n)"
  shows "answerable X g i (setConn p (\<lambda>c. c\<lparr>readState := (readState c)(s := None)\<rparr>) st)"
proof -
  have park: "(p, s, i, n) \<in> parked st" using assms by (simp add: parked_def)
  have "settled X st" "framed X g st" using assms(1) by (simp_all add: serving_def)
  with settled_unpark [OF _ park] settled_parked [OF _ park] assms(2) show ?thesis
    by (auto simp: answerable_def framed_def)
qed

lemma StreamReadable_triple:
  "triple (\<lambda>st. serving X g st \<and> p < length (conns st)) (StreamReadable mq p s) (\<lambda>_. serving X g)"
proof (rule tripleI)
  fix st assume a: "serving X g st \<and> p < length (conns st)"
  show "case StreamReadable mq p s st of (Inl e, _) \<Rightarrow> e \<noteq> Blocked | (Inr x, st') \<Rightarrow> serving X g st'"
  proof (cases "readState (conns st ! p) s")
    case None
    with a show ?thesis by (simp add: StreamReadable_def)
  next
    case (Some q)
    obtain i n where q: "q = (i, n)" by (cases q)
    have "triple (answerable X g i)
        (bnd (readRequest_read mq s i n)
          (\<lambda>success. if success then ret () else throw (Panic ''read failed after readable event''))) (\<lambda>_. serving X g)"
      by (rule triple_bnd [OF read_triple]) (auto simp: triple_def)
    with answerable_unpark [of X g st p s i n] a Some q show ?thesis
      by (simp add: StreamReadable_def triple_def)
  qed
qed

lemma StateChanged_triple: "triple (serving X g) (StateChanged p s) (\<lambda>_. serving X g)"
  by (rule tripleI) (auto simp: StateChanged_def intro!: serving_setConn split: minqState.splits)

lemma mwNewServerConnection_triple: "triple (serving X g) (mwNewServerConnection mq mc) (\<lambda>_. serving X g)"
proof (rule tripleI)
  fix st assume a: "serving X g st"
  have "parked (st\<lparr>conns := conns st @ [newConnection mc], handlers := (handlers st)(mc \<mapsto> length (conns st))\<rparr>) = parked st"
    by (auto simp: parked_def nth_append newConnection_def split: if_splits)
  with a show "case mwNewServerConnection mq mc st of (Inl e, _) \<Rightarrow> e \<noteq> Blocked | (Inr x, st') \<Rightarrow> serving X g st'"
    by (auto simp: mwNewServerConnection_def serving_def settled_def framed_def less_Suc_eq)
qed

lemma toHandler_triple:
  assumes "\<And>p. triple (\<lambda>st. serving X g st \<and> p < length (conns st)) (f p) (\<lambda>_. serving X g)"
  shows "triple (serving X g) (toHandler mc f) (\<lambda>_. serving X g)"
proof (rule tripleI)
  fix st assume a: "serving X g st"
  then have "handlers st mc = Some p \<Longrightarrow> p < length (conns st)" for p by (simp add: serving_def settled_def)
  with a assms show "case toHandler mc f st of (Inl e, _) \<Rightarrow> e \<noteq> Blocked | (Inr x, st') \<Rightarrow> serving X g st'"
    by (cases "handlers st mc") (auto simp: toHandler_def triple_def)
qed

lemma upcall_triple: "triple (serving X g) (upcall mq u) (\<lambda>_. serving X g)"
proof (cases u)
  case (StateChangedUp mc s)
  have "upcall mq u = toHandler mc (\<lambda>p. StateChanged p s)" by (rule ext) (simp add: StateChangedUp)
  moreover have "triple (serving X g) (toHandler mc (\<lambda>p. StateChanged p s)) (\<lambda>_. serving X g)"
    by (rule toHandler_triple) (rule triple_conseq [OF StateChanged_triple], auto)
  ultimately show ?thesis by simp
next
  case (NewStreamUp mc s)
  have "upcall mq u = toHandler mc (\<lambda>p st. (Inr (), NewStream p s st))" by (rule ext) (simp add: NewStreamUp)
  moreover have "triple (serving X g) (toHandler mc (\<lambda>p st. (Inr (), NewStream p s st))) (\<lambda>_. serving X g)"
    by (rule toHandler_triple) (auto simp: triple_def NewStream_def intro!: serving_setConn)
  ultimately show ?thesis by simp
next
  case (NewRecvStreamUp mc s)
  have "upcall mq u = toHandler mc (\<lambda>p st. (Inr (), NewRecvStream p s st))" by (rule ext) (simp add: NewRecvStreamUp)
  moreover have "triple (serving X g) (toHandler mc (\<lambda>p st. (Inr (), NewRecvStream p s st))) (\<lambda>_. serving X g)"
    by (rule toHandler_triple) (auto simp: triple_def NewRecvStream_def intro!: serving_setConn)
  ultimately show ?thesis by simp
next
  case (StreamReadableUp mc s)
  have "upcall mq u = toHandler mc (\<lambda>p. StreamReadable mq p s)" by (rule ext) (simp add: StreamReadableUp)
  then show ?thesis by (simp add: toHandler_triple StreamReadable_triple)
next
  case (NewConnectionUp mc)
  have "upcall mq u = mwNewServerConnection mq mc" by (rule ext) (simp add: NewConnectionUp)
  then show ?thesis by (simp add: mwNewServerConnection_triple)
qed

lemma runCall_triple: "triple (serving X g) (runCall mq call) (\<lambda>_. serving X g)"
proof (induction call)
  case (Return x m)
  then show ?case by (simp add: triple_def)
next
  case (Upcall u m k)
  have r: "runCall mq (Upcall u m k) st = bnd (upcall mq u) (\<lambda>_ st. runCall mq (k (minq st)) st) (st\<lparr>minq := m\<rparr>)" for st
    by (simp add: bnd_def)
  have "triple (serving X g) (bnd (upcall mq u) (\<lambda>_ st. runCall mq (k (minq st)) st)) (\<lambda>_. serving X g)"
    by (rule triple_bnd [OF upcall_triple]) (use Upcall.IH in \<open>fastforce simp: triple_def\<close>)
  then show ?case by (simp add: triple_def r del: runCall.simps)
qed

subsection \<open>Handling an operation\<close>

text \<open>While caller \<open>i\<close> is served, calls into minq leave it waiting.\<close>

lemma answerable_serving:
  assumes "callers g i = Some (Waiting op)" "opConn op < length (conns g)"
  shows "serving {i} g st \<Longrightarrow> answerable {} g i st"
  using assms by (fastforce simp: answerable_def serving_def framed_def)

definition stateQuery :: "'s connectionOperation \<Rightarrow> bool" where
  "stateQuery op \<longleftrightarrow> (\<exists>p s. op = getSendStateRequest p s \<or> op = getRecvStateRequest p s)"

lemma report_triple: "\<not> stateQuery op \<Longrightarrow> triple (answerable X g i) (report mq err i op) (\<lambda>_. serving X g)"
  using answer_triple [of X g i] by (cases op) (auto simp: triple_def stateQuery_def)

lemma call_report_triple:
  assumes "callers g i = Some (Waiting op)" "opConn op < length (conns g)" "\<And>x. triple (answerable {} g i) (f x) (\<lambda>_. serving {} g)"
  shows "triple (serving {i} g) (bnd (runCall mq call) f) (\<lambda>_. serving {} g)"
  by (rule triple_bnd [OF runCall_triple]) (rule triple_conseq [OF assms(3) answerable_serving [OF assms(1,2)]])

lemma settled_park:
  assumes "settled (insert i X) st" "p < length (conns st)" "readState (conns st ! p) s = None" "i \<notin> X"
    "callers st i = Some (Waiting (readRequest p s n))"
  shows "settled X (setConn p (\<lambda>c. c\<lparr>readState := (readState c)(s \<mapsto> (i, n))\<rparr>) st)"
proof (rule settledI)
  fix q t j k
  assume "(q, t, j, k) \<in> parked (setConn p (\<lambda>c. c\<lparr>readState := (readState c)(s \<mapsto> (i, n))\<rparr>) st)"
  then have "(q, t, j, k) = (p, s, i, n) \<or> (q, t, j, k) \<in> parked st" by (simp add: parked_park assms)
  with assms(4,5) settled_parked [OF assms(1), of q t j k]
  show "j \<notin> X \<and> callers (setConn p (\<lambda>c. c\<lparr>readState := (readState c)(s \<mapsto> (i, n))\<rparr>) st) j = Some (Waiting (readRequest q t k))"
    by auto
next
  fix j op
  assume "j \<notin> X" "callers (setConn p (\<lambda>c. c\<lparr>readState := (readState c)(s \<mapsto> (i, n))\<rparr>) st) j = Some (Waiting op)"
  then show "\<exists>q t k. op = readRequest q t k \<and> (q, t, j, k) \<in> parked (setConn p (\<lambda>c. c\<lparr>readState := (readState c)(s \<mapsto> (i, n))\<rparr>) st)"
    using assms by (cases "j = i") (auto simp: parked_park settled_def)
qed (use settled_refs [OF assms(1)] in auto)

lemma handleReadRequest_triple:
  assumes g: "callers g i = Some (Waiting (readRequest p s n))" "p < length (conns g)"
  shows "triple (\<lambda>st. st = g \<and> settled {i} g) (handleReadRequest mq p s i n) (\<lambda>_. serving {} g)"
proof (rule tripleI)
  fix st assume a: "st = g \<and> settled {i} g"
  show "case handleReadRequest mq p s i n st of (Inl e, _) \<Rightarrow> e \<noteq> Blocked | (Inr x, st') \<Rightarrow> serving {} g st'"
  proof (cases "readState (conns g ! p) s = None")
    case True
    have ok: "answerable {} g i g" using a g by (simp add: answerable_def)
    show ?thesis
    proof (cases "snd (fst (mqRead mq s n (minq g))) = Some ErrorWouldBlock")
      case blocked: True
      have "framed {} g (setConn p (\<lambda>c. c\<lparr>readState := (readState c)(s \<mapsto> (i, n))\<rparr>) (g\<lparr>minq := m\<rparr>))" for m
        by (simp add: framed_def)
      with True a g blocked settled_park [of i "{}" "g\<lparr>minq := m\<rparr>" p s n for m] show ?thesis
        by (auto simp: handleReadRequest_def readRequest_read_def bnd_def serving_def split: prod.splits)
    next
      case False
      with ok True a triple_Inr [OF read_triple [of "{}" g i mq s n] ok] triple_Inl [OF read_triple [of "{}" g i mq s n] ok]
      show ?thesis
        by (cases "readRequest_read mq s i n g"; cases "fst (readRequest_read mq s i n g)")
          (auto simp: handleReadRequest_def bnd_def readRequest_read_def split: prod.splits if_splits sum.splits)
    qed
  qed (use a in \<open>simp add: handleReadRequest_def\<close>)
qed

lemma stopRead_serving:
  assumes "settled {i} g" "callers g i = Some (Waiting op)" "p < length (conns g)"
  shows "serving {i} g (stopRead p s g)"
proof (cases "readState (conns g ! p) s")
  case None
  with assms show ?thesis by (simp add: stopRead_def serving_def)
next
  case (Some q)
  obtain j n where q: "q = (j, n)" by (cases q)
  then have park: "(p, s, j, n) \<in> parked g" using Some assms(3) by (simp add: parked_def)
  note j = settled_parked [OF assms(1) park]
  have "settled {j, i} (setConn p (\<lambda>c. c\<lparr>readState := (readState c)(s := None)\<rparr>) g)"
    by (rule settled_unpark [OF assms(1) park])
  then have "settled {i} (setCaller j (NilResult (readRequest p s n)) (setConn p (\<lambda>c. c\<lparr>readState := (readState c)(s := None)\<rparr>) g))"
    by (auto simp: settled_def)
  moreover have "stopRead p s g = setCaller j (NilResult (readRequest p s n)) (setConn p (\<lambda>c. c\<lparr>readState := (readState c)(s := None)\<rparr>) g)"
    using Some q j by (simp add: stopRead_def closeResult_def setConn_def setCaller_def)
  ultimately show ?thesis using j by (auto simp: serving_def framed_def)
qed

lemma Handle_call:
  assumes g: "callers g i = Some (Waiting op)" "opConn op < length (conns g)"
    and h: "Handle mq i op g = bnd (runCall mq call) f g"
    and f: "\<And>x. triple (answerable {} g i) (f x) (\<lambda>_. serving {} g)"
  shows "triple (\<lambda>st. st = g \<and> settled {i} g) (Handle mq i op) (\<lambda>_. serving {} g)"
  using call_report_triple [OF g f, of mq call] h by (simp add: triple_def serving_def)

lemma Handle_triple:
  assumes g: "callers g i = Some (Waiting op)" "opConn op < length (conns g)" "\<not> stateQuery op"
  shows "triple (\<lambda>st. st = g \<and> settled {i} g) (Handle mq i op) (\<lambda>_. serving {} g)"
proof (cases op)
  case (getStateRequest p)
  then show ?thesis using g report_triple [of op "{}" g i mq] by (auto simp: triple_def answerable_def)
next
  case (readRequest p s n)
  then show ?thesis using g handleReadRequest_triple [of g i p s n mq] by (auto simp: triple_def)
next
  case (stopRequest p s code)
  have "triple (serving {i} g) (bnd (runCall mq (mqStopSending mq s code (minq g))) (\<lambda>err. report mq err i op)) (\<lambda>_. serving {} g)"
    by (rule call_report_triple [OF g(1,2) report_triple [OF g(3)]])
  with stopRequest g stopRead_serving [of i g op p s] show ?thesis
    by (auto simp: triple_def stopRead_def closeResult_def setConn_def setCaller_def split: option.splits caller.splits)
next
  case (createStreamRequest p)
  show ?thesis by (rule Handle_call [OF g(1,2)], unfold createStreamRequest, rule Handle.simps) (rule answer_triple)
next
  case (createSendStreamRequest p)
  show ?thesis by (rule Handle_call [OF g(1,2)], unfold createSendStreamRequest, rule Handle.simps) (rule answer_triple)
next
  case (writeRequest p s bs)
  show ?thesis by (rule Handle_call [OF g(1,2)], unfold writeRequest, rule Handle.simps) (simp add: answer_triple split: prod.split)
next
  case (resetRequest p s code)
  show ?thesis by (rule Handle_call [OF g(1,2)], unfold resetRequest, rule Handle.simps) (simp add: report_triple stateQuery_def)
next
  case (closeStreamRequest p s)
  show ?thesis by (rule Handle_call [OF g(1,2)], unfold closeStreamRequest, rule Handle.simps) (simp add: report_triple stateQuery_def)
next
  case (closeConnectionRequest p)
  show ?thesis by (rule Handle_call [OF g(1,2)], unfold closeConnectionRequest, rule Handle.simps) (simp add: report_triple stateQuery_def)
next
  case (applicationCloseRequest p code t)
  show ?thesis by (rule Handle_call [OF g(1,2)], unfold applicationCloseRequest, rule Handle.simps) (simp add: report_triple stateQuery_def)
qed (use g in \<open>auto simp: stateQuery_def\<close>)

subsection \<open>The invariant\<close>

text \<open>
  Unless the program crashed or the service goroutine waits forever, the operations are closed
  exactly when the service has ended, and every waiting caller has its read parked.
\<close>

definition healthy :: "('m, 'c, 's) mw \<Rightarrow> bool" where
  "healthy st \<longleftrightarrow> settled {} st \<and> (opsClosed st \<longleftrightarrow> service st = Finished) \<and> service st \<noteq> Deadlocked"

definition mwInv :: "('m, 'c, 's) mw \<Rightarrow> bool" where
  "mwInv st \<longleftrightarrow> crashed st \<or> (service st = Deadlocked \<and> \<not> opsClosed st) \<or> healthy st"

lemma healthy_serving: "healthy g \<Longrightarrow> serving {} g st \<Longrightarrow> healthy st"
  by (simp add: healthy_def serving_def framed_def)

lemma healthy_finish:
  assumes "triple P m (\<lambda>_. serving {} g)" "P st" "service g \<noteq> Deadlocked" "opsClosed g \<longleftrightarrow> service g = Finished"
  shows "crashed (finish (m st)) \<or> healthy (finish (m st))"
proof (cases "fst (m st)")
  case (Inl e)
  then have "m st = (Inl e, snd (m st))" by (simp add: prod_eq_iff)
  with triple_Inl [OF assms(1,2) this] show ?thesis by (metis finish.simps(2) mw.select_convs(8) mw.surjective mw.update_convs(8))
next
  case (Inr x)
  then have "m st = (Inr x, snd (m st))" by (simp add: prod_eq_iff)
  with triple_Inr [OF assms(1,2) this] assms(3,4) show ?thesis
    by (metis finish.simps(1) healthy_def serving_def framed_def)
qed

lemma report_reporting:
  assumes "callers st i = Some (Reporting op)" "opsClosed st"
  shows "report mq err i op st = (Inl (if stateQuery op then Panic ''stack overflow'' else Blocked), st)"
  using assms by (cases op) (simp_all add: answer_def reportAgain_def stateQuery_def)

lemma Add_closed:
  "opsClosed st \<Longrightarrow> Add mq i op st = (setCaller i (Reporting op) st)\<lparr>crashed := crashed st \<or> stateQuery op\<rparr>"
  by (simp add: Add_def report_reporting setCaller_def)

lemma Add_open: "\<not> opsClosed st \<Longrightarrow> Add mq i op st = setCaller i (Adding op) st"
  by (simp add: Add_def)

text \<open>What an operation reports once the connection is closed.\<close>

fun closedAnswer :: "('m, 'c, 's) minq_ops \<Rightarrow> ('m, 'c, 's) mw \<Rightarrow> 's connectionOperation \<Rightarrow> 's opAnswer" where
  "closedAnswer mq st (getStateRequest p) = AnsState (mqGetState mq (connMinq (conns st ! p)) (minq st))"
| "closedAnswer mq st (createStreamRequest p) = AnsStream None"
| "closedAnswer mq st (createSendStreamRequest p) = AnsSendStream None"
| "closedAnswer mq st (writeRequest p s bs) = AnsIO 0 [] (Some ErrConnectionClosed)"
| "closedAnswer mq st (readRequest p s n) = AnsIO 0 [] (Some ErrConnectionClosed)"
| "closedAnswer mq st op = AnsErr (Some ErrConnectionClosed)"

lemma drainOps_result:
  assumes "opsClosed st"
  shows "drainOps mq i op st =
    (if stateQuery op then (setCaller i (Waiting op) st)\<lparr>crashed := True\<rparr> else setCaller i (Returned op (closedAnswer mq st op)) st)"
  using assms by (cases op) (simp_all add: drainOps_def answer_def reportAgain_def stateQuery_def setCaller_def)

lemma settled_setCaller:
  assumes "settled {} st" "opConn op < length (conns st)" "x = Adding op \<or> x = Reporting op \<or> x = Returned op a"
    "\<And>op'. callers st i \<noteq> Some (Waiting op')"
  shows "settled {} (setCaller i x st)"
proof (rule settledI)
  fix p s j n assume "(p, s, j, n) \<in> parked (setCaller i x st)"
  with settled_parked [OF assms(1), of p s j n] assms(4) show "j \<notin> {} \<and> callers (setCaller i x st) j = Some (Waiting (readRequest p s n))"
    by (auto simp del: not_Some_eq)
next
  fix j op' assume "callers (setCaller i x st) j = Some (Waiting op')"
  with assms(1,3) show "\<exists>p s n. op' = readRequest p s n \<and> (p, s, j, n) \<in> parked (setCaller i x st)"
    by (auto simp: settled_def split: if_splits)
qed (use assms settled_refs [OF assms(1)] in \<open>auto split: if_splits\<close>)

lemma settled_serve:
  assumes "settled {} st" "callers st i = Some (Adding op)"
  shows "settled {i} (setCaller i (Waiting op) st)"
  using assms settled_parked [OF assms(1)] by (force simp: settled_def)

lemma serve_stateQuery:
  "stateQuery op \<Longrightarrow> \<not> opsClosed st \<Longrightarrow> serve mq i op st = (setCaller i (Waiting op) st)\<lparr>service := Deadlocked\<rparr>"
  by (cases op) (simp_all add: serve_def reportAgain_def stateQuery_def setCaller_def)

lemma serve_healthy:
  assumes "healthy st" "callers st i = Some (Adding op)" "\<not> stateQuery op"
  shows "crashed (serve mq i op st) \<or> healthy (serve mq i op st)"
proof -
  let ?g = "setCaller i (Waiting op) st"
  have "settled {} st" using assms(1) by (simp add: healthy_def)
  then have "opConn op < length (conns ?g)" "settled {i} ?g"
    using assms settled_refs(2) [of "{}" st i op] settled_serve by simp_all
  with assms show ?thesis unfolding serve_def
    by (intro healthy_finish [OF Handle_triple]) (auto simp: healthy_def)
qed

lemma minq_healthy:
  assumes "healthy st"
  shows "crashed (finish (runCall mq call st)) \<or> healthy (finish (runCall mq call st))"
  using assms by (intro healthy_finish [OF runCall_triple [of "{}" st]]) (auto simp: healthy_def serving_def)

lemma setConn_inv:
  assumes "mwInv st" "\<And>c. readState (f c) = readState c"
  shows "mwInv (setConn p f st)"
  using assms by (simp add: mwInv_def healthy_def settled_def parked_setConn)

lemma cleanup_inv:
  assumes "healthy st"
  shows "mwInv (cleanup st)"
proof -
  have "settled {} (st\<lparr>opsClosed := True, service := Finished\<rparr>)"
    using assms by (simp add: healthy_def settled_def parked_def)
  then show ?thesis
    by (auto simp: cleanup_def Let_def mwInv_def healthy_def settled_def parked_setConn)
qed

lemma mwStep_inv:
  assumes "mwStep mq st st'" "mwInv st"
  shows "mwInv st'"
  using assms
proof cases
  case (call i op)
  show ?thesis
  proof (cases "opsClosed st")
    case True
    with call assms(2) settled_setCaller [of st op "Reporting op" _ i] show ?thesis
      by (auto simp: Add_closed mwInv_def healthy_def settled_def parked_def)
  next
    case False
    with call assms(2) settled_setCaller [of st op "Adding op" _ i] show ?thesis
      by (auto simp: Add_open mwInv_def healthy_def)
  qed
next
  case (serve i op)
  with assms(2) have h: "healthy st" by (auto simp: mwInv_def)
  then have "\<not> opsClosed st" using serve by (simp add: healthy_def)
  with h serve serve_healthy [of st i op mq] show ?thesis
    by (cases "stateQuery op") (auto simp: serve_stateQuery mwInv_def)
next
  case (packet d)
  with assms(2) minq_healthy [of st mq "mqInput mq d (minq st)"] show ?thesis by (auto simp: mwInv_def servePacket_def)
next
  case timer
  with assms(2) minq_healthy [of st mq "mqCheckTimer mq (minq st)"] show ?thesis by (auto simp: mwInv_def serveTimer_def)
next
  case exit
  with assms(2) cleanup_inv show ?thesis by (auto simp: mwInv_def)
next
  case shutdown
  with assms(2) show ?thesis by (auto simp: mwInv_def healthy_def serverCleanup_def settled_def parked_def)
next
  case (drained i op)
  with assms(2) have h: "settled {} st" by (auto simp: mwInv_def healthy_def)
  with drained assms(2) settled_setCaller [OF h settled_refs(2) [OF h drained(4)], of "Returned op _" _ i] show ?thesis
    by (auto simp: drainOps_result mwInv_def healthy_def)
qed (use assms in \<open>auto intro!: setConn_inv\<close>)

lemma mwRun_inv: "mwRun mq st st' \<Longrightarrow> mwInv st \<Longrightarrow> mwInv st'"
  by (induction rule: mwRun.induct) (auto intro: mwStep_inv)

lemma start_inv: "mwInv (clientStart m mc)" "mwInv (serverStart m)"
  by (auto simp: mwInv_def healthy_def settled_def parked_def clientStart_def serverStart_def newConnection_def)

section \<open>Properties\<close>

definition mwReachable :: "('m, 'c, 's) minq_ops \<Rightarrow> ('m, 'c, 's) mw \<Rightarrow> bool" where
  "mwReachable mq st \<longleftrightarrow> (\<exists>m mc. mwRun mq (clientStart m mc) st) \<or> (\<exists>m. mwRun mq (serverStart m) st)"

lemma reachable_inv: "mwReachable mq st \<Longrightarrow> mwInv st"
  by (auto simp: mwReachable_def intro: mwRun_inv start_inv)

lemma reachable_healthy: "mwReachable mq st \<Longrightarrow> \<not> crashed st \<Longrightarrow> service st \<noteq> Deadlocked \<Longrightarrow> healthy st"
  using reachable_inv by (auto simp: mwInv_def)

text \<open>
  A minq for examples: a stream of bytes, which blocks when it is empty. Input is appended and
  announced, and closing changes the state, once.
\<close>

definition demoMinq :: "(minqState \<times> byte list, unit, unit) minq_ops" where
  "demoMinq = \<lparr>mqIsServer = (\<lambda>_. True), mqGetState = (\<lambda>_. fst),
     mqClose = (\<lambda>c (s, b). if s \<in> {StateClosed, StateError} then Return None (s, b)
       else Upcall (StateChangedUp () StateClosed) (StateClosed, b) (Return None)),
     mqError = (\<lambda>c _ _ (s, b). if s \<in> {StateClosed, StateError} then Return None (s, b)
       else Upcall (StateChangedUp () StateError) (StateError, b) (Return None)),
     mqCreateStream = (\<lambda>c. Return ()), mqCreateSendStream = (\<lambda>c. Return ()),
     mqWrite = (\<lambda>s p. Return (length p, None)), mqCloseStream = (\<lambda>s. Return None),
     mqReset = (\<lambda>s code. Return None), mqStopSending = (\<lambda>s code. Return None),
     mqRead = (\<lambda>s n (st, b). if b = [] then (([], Some ErrorWouldBlock), (st, b)) else ((take n b, None), (st, drop n b))),
     mqInput = (\<lambda>d (st, b). if b @ Data d = [] then Return () (st, b)
       else Upcall (StreamReadableUp () ()) (st, b @ Data d) (Return ())),
     mqCheckTimer = Return ()\<rparr>"

definition demoPacket :: Packet where
  "demoPacket = \<lparr>DestAddr = ''client'', SrcAddr = ''server'', Data = [5, 6]\<rparr>"

definition demoStart :: "(minqState \<times> byte list, unit, unit) mw" where
  "demoStart = clientStart (StateOther 0, []) ()"

text \<open>One read, added and served on an empty stream.\<close>

definition demoParked :: "(minqState \<times> byte list, unit, unit) mw" where
  "demoParked = serve demoMinq 7 (readRequest 0 () 4) (mwRead demoMinq 7 0 () 4 demoStart)"

lemmas demo_defs = demoMinq_def demoPacket_def demoStart_def demoParked_def clientStart_def newConnection_def mw_methods Add_def serve_def
  setCaller_def setConn_def handleReadRequest_def readRequest_read_def bnd_def answer_def ended_def

lemma demoParked_eq: "demoParked = demoStart\<lparr>callers := [7 \<mapsto> Waiting (readRequest 0 () 4)],
    conns := [(newConnection ())\<lparr>readState := [() \<mapsto> (7, 4)]\<rparr>]\<rparr>"
  by (simp add: demo_defs)

lemma demoParked_reachable: "mwReachable demoMinq demoParked"
proof -
  have "mwStep demoMinq demoStart (mwRead demoMinq 7 0 () 4 demoStart)"
    unfolding mw_methods by (rule mwStep.call) (simp_all add: demo_defs)
  moreover have "mwStep demoMinq (mwRead demoMinq 7 0 () 4 demoStart) demoParked"
    unfolding demoParked_def by (rule mwStep.serve) (simp_all add: demo_defs)
  ultimately show ?thesis unfolding mwReachable_def demoStart_def by (blast intro: mwRun.intros)
qed

lemma demoQuery_reachable: "mwReachable demoMinq (SendState demoMinq 1 0 () demoStart)"
proof -
  have "mwStep demoMinq demoStart (SendState demoMinq 1 0 () demoStart)"
    unfolding mw_methods by (rule mwStep.call) (simp_all add: demo_defs)
  then show ?thesis unfolding mwReachable_def demoStart_def by (blast intro: mwRun.intros)
qed

text \<open>C21: In every reachable state of the wrapper, for client and server, with any minq and any
  interleaving of callers, packets and timers, and as long as the program has not crashed and the
  service goroutine is not deadlocked: the callers that wait for a result are exactly those of the
  parked reads. Every other operation that the service accepted has been answered, once, and no parked
  read has lost its caller.\<close>

theorem callers_accounted:
  assumes "mwReachable mq st" "\<not> crashed st" "service st \<noteq> Deadlocked"
  shows "callers st i = Some (Waiting op) \<longleftrightarrow>
    (\<exists>p s n. op = readRequest p s n \<and> p < length (conns st) \<and> readState (conns st ! p) s = Some (i, n))"
proof -
  have st: "settled {} st" using reachable_healthy [OF assms] by (simp add: healthy_def)
  have "(p, s, i, n) \<in> parked st \<longleftrightarrow> p < length (conns st) \<and> readState (conns st ! p) s = Some (i, n)" for p s n
    by (simp add: parked_def)
  moreover have "callers st i = Some (Waiting op) \<longleftrightarrow> (\<exists>p s n. op = readRequest p s n \<and> (p, s, i, n) \<in> parked st)"
    using st unfolding settled_def by blast
  ultimately show ?thesis by simp
qed

theorem callers_accounted_witness:
  "callers demoParked 7 = Some (Waiting (readRequest 0 () 4)) \<and> readState (conns demoParked ! 0) () = Some (7, 4)"
  using callers_accounted [OF demoParked_reachable, of 7 "readRequest 0 () 4"] by (simp add: demoParked_eq demo_defs)

text \<open>The service goroutine waits forever for a receiver only when it handles a request for the state of a stream.\<close>

lemma service_never_waits:
  assumes "mwReachable mq st" "mwStep mq st st'" "service st = Serving" "service st' = Deadlocked" "\<not> crashed st'"
  shows "\<exists>i op. callers st i = Some (Adding op) \<and> stateQuery op \<and> st' = serve mq i op st"
proof -
  have "\<not> crashed st" using assms(2) by cases auto
  with assms have h: "healthy st" by (auto intro: reachable_healthy)
  have d: "\<not> healthy st'" using assms(4) by (simp add: healthy_def)
  from assms(2) show ?thesis
  proof cases
    case (call i op)
    then show ?thesis using assms h by (auto simp: Add_def healthy_def)
  next
    case (serve i op)
    then show ?thesis using serve_healthy [OF h, of i op mq] d assms(5) by auto
  next
    case (packet x)
    then show ?thesis using minq_healthy [OF h] d assms(5) by (auto simp: servePacket_def)
  next
    case timer
    then show ?thesis using minq_healthy [OF h] d assms(5) by (auto simp: serveTimer_def)
  next
    case (drained i op)
    then show ?thesis using assms by (auto simp: drainOps_result split: if_splits)
  qed (use assms in \<open>auto simp: cleanup_def Let_def serverCleanup_def split: if_splits\<close>)
qed

text \<open>After a deadlock only callers that come to \<open>Add\<close> change anything.\<close>

lemma deadlock_step:
  assumes "mwStep mq st st'" "service st = Deadlocked" "\<not> opsClosed st"
  shows "service st' = Deadlocked \<and> \<not> opsClosed st' \<and>
    (callers st' j = callers st j \<or> callers st j = None \<and> (\<exists>op. callers st' j = Some (Adding op)))"
  using assms by cases (auto simp: Add_open)

lemma deadlock_run:
  assumes "mwRun mq st st'" "service st = Deadlocked" "\<not> opsClosed st"
  shows "service st' = Deadlocked \<and> \<not> opsClosed st' \<and>
    (callers st' j = callers st j \<or> callers st j = None \<and> (\<exists>op. callers st' j = Some (Adding op)))"
  using assms
proof (induction rule: mwRun.induct)
  case (step st st' st'')
  with deadlock_step [OF step.hyps(2), of j] show ?case by auto
qed simp

text \<open>C24: \<open>SendState\<close> and \<open>RecvState\<close> deadlock the connection: the service goroutine can receive such
  a request, reports it by adding it again to the channel that it alone receives from, and never
  continues. From then on no caller that had not returned before ever returns.\<close>

theorem state_query_deadlocks:
  assumes "mwReachable mq st" "\<not> crashed st" "service st = Serving" "\<not> ended mq st"
    "callers st i = Some (Adding op)" "stateQuery op"
  shows "mwStep mq st (serve mq i op st) \<and>
    (\<forall>st'. mwRun mq (serve mq i op st) st' \<longrightarrow> service st' = Deadlocked \<and>
       (\<forall>j op' a. callers st' j = Some (Returned op' a) \<longrightarrow> callers st j = Some (Returned op' a)))"
proof (intro conjI allI impI)
  show "mwStep mq st (serve mq i op st)" by (rule mwStep.serve [OF assms(2-5)])
  have "healthy st" using assms by (auto intro: reachable_healthy)
  then have o: "\<not> opsClosed st" using assms(3) by (simp add: healthy_def)
  fix st' assume r: "mwRun mq (serve mq i op st) st'"
  show "service st' = Deadlocked" using deadlock_run [OF r] by (simp add: serve_stateQuery [OF assms(6) o] o)
  fix j op' a assume "callers st' j = Some (Returned op' a)"
  with deadlock_run [OF r, of j] show "callers st j = Some (Returned op' a)"
    by (auto simp: serve_stateQuery [OF assms(6) o] o split: if_splits)
qed

theorem state_query_deadlocks_witness:
  "service (serve demoMinq 1 (getSendStateRequest 0 ()) (SendState demoMinq 1 0 () demoStart)) = Deadlocked"
proof -
  let ?st = "SendState demoMinq 1 0 () demoStart"
  note r = demoQuery_reachable
  have "\<forall>st'. mwRun demoMinq (serve demoMinq 1 (getSendStateRequest 0 ()) ?st) st' \<longrightarrow> service st' = Deadlocked"
    using state_query_deadlocks [OF r, of 1 "getSendStateRequest 0 ()"] by (simp add: demo_defs stateQuery_def)
  then show ?thesis using mwRun.start by blast
qed

subsection \<open>After the end\<close>

text \<open>What a caller finds once the service has ended, and what each step then changes.\<close>

definition afterEnd :: "('m, 'c, 's) minq_ops \<Rightarrow> ('m, 'c, 's) mw \<Rightarrow> ('m, 'c, 's) mw \<Rightarrow> bool" where
  "afterEnd mq st st' \<longleftrightarrow>
     service st' = Finished \<and> opsClosed st' \<and> minq st' = minq st \<and> (\<forall>p. connMinq (conns st' ! p) = connMinq (conns st ! p)) \<and>
     (\<forall>i. callers st' i = callers st i
        \<or> callers st i = None \<and> (\<exists>op. callers st' i = Some (Reporting op))
        \<or> (\<exists>op. callers st i = Some (Adding op) \<and> callers st' i = Some (Returned op (closedAnswer mq st op))))"

lemma closedAnswer_cong:
  "minq st' = minq st \<Longrightarrow> (\<forall>p. connMinq (conns st' ! p) = connMinq (conns st ! p)) \<Longrightarrow> closedAnswer mq st' op = closedAnswer mq st op"
  by (cases op) simp_all

lemma connMinq_setConn: "p < length (conns st) \<Longrightarrow> (\<And>c. connMinq (f c) = connMinq c) \<Longrightarrow> connMinq (conns (setConn p f st) ! q) = connMinq (conns st ! q)"
  by (cases "p = q") (simp_all add: setConn_def)

lemma end_step:
  assumes "mwStep mq st st'" "service st = Finished" "opsClosed st" "\<not> crashed st'"
  shows "afterEnd mq st st'"
  using assms by cases (auto simp: afterEnd_def Add_closed drainOps_result connMinq_setConn split: if_splits)

lemma end_run:
  assumes "mwRun mq st st'" "service st = Finished" "opsClosed st" "\<not> crashed st'"
  shows "afterEnd mq st st'"
  using assms
proof (induction rule: mwRun.induct)
  case (step st st' st'')
  have "\<not> crashed st'" using step.hyps(2) by cases auto
  with step have a: "afterEnd mq st st'" by simp
  then have b: "afterEnd mq st' st''" using end_step [OF step.hyps(2)] step.prems by (simp add: afterEnd_def)
  have "closedAnswer mq st' = closedAnswer mq st" using a closedAnswer_cong [of st' st mq] by (auto simp: afterEnd_def)
  with a b show ?case unfolding afterEnd_def by (metis caller.distinct option.inject option.distinct(1))
qed (simp add: afterEnd_def)

text \<open>C22: The fate of every call once the service has ended. An operation that waits in \<open>Add\<close> is
  drained: the step that gives it its error (or no stream, or the state) is possible, and no
  other answer is; that error is \<open>ErrConnectionClosed\<close> for a \<open>Close\<close> that comes second, too, although
  the comment at its declaration excludes this. A read that was parked is never answered. A call made later never returns: with
  the operations closed, \<open>Add\<close> reports on the result channel that only the same goroutine
  would receive from.\<close>

theorem calls_after_end:
  assumes "mwReachable mq st" "\<not> crashed st" "service st = Finished"
  shows "(\<forall>i op. callers st i = Some (Adding op) \<and> \<not> stateQuery op \<longrightarrow>
        (\<exists>st'. mwStep mq st st' \<and> \<not> crashed st' \<and> callers st' i = Some (Returned op (closedAnswer mq st op)))) \<and>
    (\<forall>st'. mwRun mq st st' \<and> \<not> crashed st' \<longrightarrow> (\<forall>i op.
        (callers st i = Some (Adding op) \<longrightarrow> callers st' i \<in> {Some (Adding op), Some (Returned op (closedAnswer mq st op))}) \<and>
        (callers st i = Some (Waiting op) \<longrightarrow> callers st' i = Some (Waiting op)) \<and>
        (callers st i = None \<longrightarrow> callers st' i \<in> insert None (range (Some \<circ> Reporting)))))"
proof (intro conjI allI impI)
  have closed: "opsClosed st" using reachable_healthy [OF assms(1,2)] assms(3) by (simp add: healthy_def)
  fix i op assume "callers st i = Some (Adding op) \<and> \<not> stateQuery op"
  with closed assms(2) mwStep.drained [of st i op mq]
  show "\<exists>st'. mwStep mq st st' \<and> \<not> crashed st' \<and> callers st' i = Some (Returned op (closedAnswer mq st op))"
    by (intro exI [of _ "drainOps mq i op st"]) (simp add: drainOps_result)
next
  have closed: "opsClosed st" using reachable_healthy [OF assms(1,2)] assms(3) by (simp add: healthy_def)
  fix st' i op assume "mwRun mq st st' \<and> \<not> crashed st'"
  then have r: "afterEnd mq st st'" using end_run [OF _ assms(3) closed] by blast
  then have c: "callers st' i = callers st i \<or> callers st i = None \<and> (\<exists>op. callers st' i = Some (Reporting op))
      \<or> (\<exists>op. callers st i = Some (Adding op) \<and> callers st' i = Some (Returned op (closedAnswer mq st op)))"
    by (simp add: afterEnd_def)
  show "callers st i = Some (Adding op) \<Longrightarrow> callers st' i \<in> {Some (Adding op), Some (Returned op (closedAnswer mq st op))}"
    using c by auto
  show "callers st i = Some (Waiting op) \<Longrightarrow> callers st' i = Some (Waiting op)"
    using c by auto
  show "callers st i = None \<Longrightarrow> callers st' i \<in> insert None (range (Some \<circ> Reporting))"
    using c by auto
qed

text \<open>The connection above, closed by a second caller while the read is parked; a third waits in \<open>Add\<close>.\<close>

definition demoEnded :: "(minqState \<times> byte list, unit, unit) mw" where
  "demoEnded = cleanup (mwWrite demoMinq 9 0 () [1] (serve demoMinq 8 (closeConnectionRequest 0) (mwClose demoMinq 8 0 demoParked)))"

lemmas demo_end_defs = demoEnded_def demoParked_eq demoStart_def clientStart_def newConnection_def mw_methods Add_def
  serve_def setCaller_def setConn_def answer_def bnd_def cleanup_def toHandler_def StateChanged_def demoMinq_def

lemma demoEnded_reachable: "mwReachable demoMinq demoEnded"
proof -
  let ?s1 = "mwClose demoMinq 8 0 demoParked"
  let ?s2 = "serve demoMinq 8 (closeConnectionRequest 0) ?s1"
  let ?s3 = "mwWrite demoMinq 9 0 () [1] ?s2"
  have "mwStep demoMinq demoParked ?s1"
    unfolding mw_methods by (rule mwStep.call) (simp_all add: demo_end_defs)
  moreover have "mwStep demoMinq ?s1 ?s2"
    by (rule mwStep.serve) (simp_all add: demo_end_defs ended_def)
  moreover have "mwStep demoMinq ?s2 ?s3"
    unfolding mwWrite_def by (rule mwStep.call) (simp_all add: demo_end_defs)
  moreover have "mwStep demoMinq ?s3 demoEnded"
    unfolding demoEnded_def by (rule mwStep.exit) (simp_all add: demo_end_defs ended_def)
  ultimately have "mwRun demoMinq st demoParked \<Longrightarrow> mwRun demoMinq st demoEnded" for st
    by (blast intro: mwRun.step)
  with demoParked_reachable show ?thesis unfolding mwReachable_def by blast
qed

theorem calls_after_end_witness:
  "\<exists>st'. mwStep demoMinq demoEnded st' \<and> callers st' 7 = Some (Waiting (readRequest 0 () 4)) \<and>
     callers st' 9 = Some (Returned (writeRequest 0 () [1]) (AnsIO 0 [] (Some ErrConnectionClosed)))"
proof -
  have e: "\<not> crashed demoEnded" "service demoEnded = Finished"
    "callers demoEnded 9 = Some (Adding (writeRequest 0 () [1]))" "callers demoEnded 7 = Some (Waiting (readRequest 0 () 4))"
    by (simp_all add: demo_end_defs)
  note fate = calls_after_end [OF demoEnded_reachable e(1,2)]
  from conjunct1 [OF fate] e(3) obtain st' where s: "mwStep demoMinq demoEnded st'" "\<not> crashed st'"
    "callers st' 9 = Some (Returned (writeRequest 0 () [1]) (AnsIO 0 [] (Some ErrConnectionClosed)))"
    by (fastforce simp: stateQuery_def)
  moreover have "callers st' 7 = Some (Waiting (readRequest 0 () 4))"
    using conjunct2 [OF fate] mwRun.step [OF mwRun.start s(1)] s(2) e(4) by blast
  ultimately show ?thesis by blast
qed

subsection \<open>Parked reads\<close>

text \<open>C25: A parked read is completed when a packet brings data for its stream: when minq, given the
  packet, makes the upcall for that stream, the caller receives exactly the bytes and the error that
  minq's read then returns, the read is no longer parked, no other caller, connection or channel
  is touched, and minq goes on from the state that the read left.\<close>

theorem parked_read_completed:
  assumes "mwReachable mq st" "\<not> crashed st" "service st = Serving"
    and "handlers st mc = Some p" "readState (conns st ! p) s = Some (i, n)"
    and "mqInput mq pkt (minq st) = Upcall (StreamReadableUp mc s) m k"
    and "mqRead mq s n m = ((d, err), m')" "err \<noteq> Some ErrorWouldBlock"
  shows "servePacket mq pkt st = finish (runCall mq (k m')
    (st\<lparr>conns := (conns st)[p := (conns st ! p)\<lparr>readState := (readState (conns st ! p))(s := None)\<rparr>],
       minq := m', callers := (callers st)(i \<mapsto> Returned (readRequest p s n) (AnsIO (length d) d err))\<rparr>))"
proof -
  have st: "settled {} st" using reachable_healthy [OF assms(1,2)] assms(3) by (simp add: healthy_def)
  then have "(p, s, i, n) \<in> parked st" using assms(4,5) settled_refs(1) [OF st] by (simp add: parked_def)
  from settled_parked [OF st this] assms(4-8) show ?thesis
    by (simp add: servePacket_def toHandler_def StreamReadable_def readRequest_read_def bnd_def answer_def setConn_def setCaller_def)
qed

theorem parked_read_completed_witness:
  "callers (servePacket demoMinq demoPacket demoParked) 7 = Some (Returned (readRequest 0 () 4) (AnsIO 2 [5, 6] None))"
proof -
  have "\<not> crashed demoParked" "service demoParked = Serving" "handlers demoParked () = Some 0"
    "readState (conns demoParked ! 0) () = Some (7, 4)"
    "mqInput demoMinq demoPacket (minq demoParked) = Upcall (StreamReadableUp () ()) (StateOther 0, [5, 6]) (Return ())"
    "mqRead demoMinq () 4 (StateOther 0, [5, 6]) = (([5, 6], None), (StateOther 0, []))"
    by (simp_all add: demoParked_eq demo_defs)
  from parked_read_completed [OF demoParked_reachable this] show ?thesis by simp
qed

text \<open>
  \<open>StopSending\<close> closes the result channel under a parked read: the reader receives \<open>nil\<close>
  and dereferences it.
\<close>

lemma stop_breaks_read:
  assumes "callers st i = Some (Waiting (readRequest p s n))" "p < length (conns st)" "readState (conns st ! p) s = Some (i, n)"
  shows "callers (stopRead p s st) i = Some (NilResult (readRequest p s n))"
  using assms by (simp add: stopRead_def closeResult_def)

text \<open>
  Two reads of one stream at a time panic, as does the end of a client connection while a stream of
  the peer has not been taken from \<open>RemoteStreams\<close>.
\<close>

lemma second_read_panics:
  "readState (conns st ! p) s \<noteq> None \<Longrightarrow> crashed (serve mq i (readRequest p s n) st)"
  by (simp add: serve_def handleReadRequest_def)

lemma untaken_stream_panics: "remoteStreams (conns st ! 0) \<noteq> [] \<Longrightarrow> crashed (cleanup st)"
  by (simp add: cleanup_def)

end
