(* ===== verification/MiddlewareFaults.thy ===== *)
theory MiddlewareFaults
  imports Middleware
begin

text \<open>
  When the wrapper of minq fails. For every step of the service goroutine the exact conditions under which
  it panics, waits forever or makes a caller panic; where minq causes a panic by its upcalls, the
  condition says by which.
\<close>

section \<open>The causes\<close>

text \<open>
  The upcalls that make the wrapper panic: that a connection is established or has ended, when this was
  announced before (the channel is closed already); that a stream is readable on which a read is parked
  and a read would still block; a connection of a client handed to a server.
\<close>

fun badUpcall :: "('m, 'c, 's) minq_ops \<Rightarrow> ('c, 's) minqUpcall \<Rightarrow> ('m, 'c, 's) mw \<Rightarrow> bool" where
  "badUpcall mq (StateChangedUp mc s) st \<longleftrightarrow>
     (case handlers st mc of None \<Rightarrow> False | Some p \<Rightarrow>
        s = StateEstablished \<and> connectedClosed (conns st ! p) \<or> s \<in> {StateClosed, StateError} \<and> closedClosed (conns st ! p))"
| "badUpcall mq (StreamReadableUp mc s) st \<longleftrightarrow>
     (case handlers st mc of None \<Rightarrow> False | Some p \<Rightarrow>
        (case readState (conns st ! p) s of None \<Rightarrow> False
         | Some (i, n) \<Rightarrow> snd (fst (mqRead mq s n (minq st))) = Some ErrorWouldBlock))"
| "badUpcall mq (NewConnectionUp mc) st \<longleftrightarrow> \<not> mqIsServer mq mc"
| "badUpcall mq _ st \<longleftrightarrow> False"

text \<open>A call of minq makes such an upcall, at the state its earlier upcalls have led to.\<close>

primrec badCall :: "('m, 'c, 's) minq_ops \<Rightarrow> ('m, 'c, 's, 'a) minqCall \<Rightarrow> ('m, 'c, 's) mw \<Rightarrow> bool" where
  "badCall mq (Return x m) = (\<lambda>st. False)"
| "badCall mq (Upcall u m k) = (\<lambda>st. badUpcall mq u (st\<lparr>minq := m\<rparr>) \<or>
     (case upcall mq u (st\<lparr>minq := m\<rparr>) of (Inl e, st') \<Rightarrow> False | (Inr _, st') \<Rightarrow> badCall mq (k (minq st')) st'))"

text \<open>The call of minq that the service makes for an operation.\<close>

fun badOp :: "('m, 'c, 's) minq_ops \<Rightarrow> 's connectionOperation \<Rightarrow> ('m, 'c, 's) mw \<Rightarrow> bool" where
  "badOp mq (closeConnectionRequest p) st \<longleftrightarrow> badCall mq (mqClose mq (connMinq (conns st ! p)) (minq st)) st"
| "badOp mq (applicationCloseRequest p code t) st \<longleftrightarrow> badCall mq (mqError mq (connMinq (conns st ! p)) code t (minq st)) st"
| "badOp mq (createStreamRequest p) st \<longleftrightarrow> badCall mq (mqCreateStream mq (connMinq (conns st ! p)) (minq st)) st"
| "badOp mq (createSendStreamRequest p) st \<longleftrightarrow> badCall mq (mqCreateSendStream mq (connMinq (conns st ! p)) (minq st)) st"
| "badOp mq (writeRequest p s bs) st \<longleftrightarrow> badCall mq (mqWrite mq s bs (minq st)) st"
| "badOp mq (closeStreamRequest p s) st \<longleftrightarrow> badCall mq (mqCloseStream mq s (minq st)) st"
| "badOp mq (resetRequest p s code) st \<longleftrightarrow> badCall mq (mqReset mq s code (minq st)) st"
| "badOp mq (stopRequest p s code) st \<longleftrightarrow> badCall mq (mqStopSending mq s code (minq st)) (stopRead p s st)"
| "badOp mq _ st \<longleftrightarrow> False"

text \<open>A read of a stream on which another read is parked, and the stop of such a stream.\<close>

definition secondRead :: "('m, 'c, 's) mw \<Rightarrow> 's connectionOperation \<Rightarrow> bool" where
  "secondRead st op \<longleftrightarrow> (\<exists>p s n. op = readRequest p s n \<and> readState (conns st ! p) s \<noteq> None)"

definition stopsRead :: "('m, 'c, 's) mw \<Rightarrow> 's connectionOperation \<Rightarrow> bool" where
  "stopsRead st op \<longleftrightarrow> (\<exists>p s code. op = stopRequest p s code \<and> readState (conns st ! p) s \<noteq> None)"

text \<open>The callers that have got \<open>nil\<close> from a closed result channel, which panics.\<close>

definition nilResults :: "('m, 'c, 's) mw \<Rightarrow> nat set" where
  "nilResults st = {j. \<exists>op. callers st j = Some (NilResult op)}"

section \<open>What no operation changes\<close>

text \<open>
  While the service runs, \<open>connected\<close> is closed exactly when the flag says so, and \<open>remoteStreams\<close> is
  open.
\<close>

definition sound :: "('m, 'c, 's) mw \<Rightarrow> bool" where
  "sound st \<longleftrightarrow> (\<forall>p < length (conns st). connectedClosed (conns st ! p) = wasConnected (conns st ! p) \<and>
     \<not> remoteStreamsClosed (conns st ! p)) \<and> (isServer st \<or> conns st \<noteq> [])"

definition steady :: "('m, 'c, 's) mw \<Rightarrow> ('m, 'c, 's) mw \<Rightarrow> bool" where
  "steady st st' \<longleftrightarrow> crashed st' = crashed st \<and> service st' = service st \<and> nilResults st' = nilResults st \<and> (sound st \<longrightarrow> sound st')"

definition keeps :: "('m, 'c, 's, 'a) mwIO \<Rightarrow> bool" where
  "keeps m \<longleftrightarrow> (\<forall>st. steady st (snd (m st)))"

lemma steady_refl: "steady st st"
  and steady_trans: "steady st st' \<Longrightarrow> steady st' st'' \<Longrightarrow> steady st st''"
  by (simp_all add: steady_def)

lemma steady_setMinq: "steady st (st\<lparr>minq := m\<rparr>)"
  by (simp add: steady_def sound_def nilResults_def)

lemma conns_setConn_Nil [simp]: "conns (setConn p f st) = [] \<longleftrightarrow> conns st = []"
  by (simp add: setConn_def)

lemma steady_setConn:
  assumes "\<And>c. connectedClosed c = wasConnected c \<and> \<not> remoteStreamsClosed c \<Longrightarrow>
    c = conns st ! p \<Longrightarrow> connectedClosed (f c) = wasConnected (f c) \<and> \<not> remoteStreamsClosed (f c)"
  shows "steady st (setConn p f st)"
  using assms by (auto simp: steady_def sound_def nilResults_def nth_setConn)

lemma steady_answer: "steady st (snd (answer i a st))"
  by (auto simp: answer_def steady_def nilResults_def setCaller_def sound_def split: option.split caller.split if_splits)

lemma keeps_bnd: "keeps m \<Longrightarrow> (\<And>x. keeps (f x)) \<Longrightarrow> keeps (bnd m f)"
  unfolding keeps_def bnd_def by (auto split: prod.splits sum.splits) (metis snd_conv steady_trans)+

lemma keeps_answer: "keeps (answer i a)"
  by (simp add: keeps_def steady_answer)

lemma keeps_ret: "keeps (ret x)"
  and keeps_throw: "keeps (throw e)"
  by (simp_all add: keeps_def steady_refl)

lemma keeps_read: "keeps (readRequest_read mq s i n :: ('m, 'c, 's, bool) mwIO)"
  unfolding keeps_def
proof
  fix st :: "('m, 'c, 's) mw"
  obtain p err m where r: "mqRead mq s n (minq st) = ((p, err), m)" by (metis surj_pair)
  have "steady (st\<lparr>minq := m\<rparr>) (snd (bnd (answer i a) (\<lambda>_. ret True) (st\<lparr>minq := m\<rparr>)))" for a
    using keeps_bnd [OF keeps_answer keeps_ret, of i a "\<lambda>_. True"] unfolding keeps_def by blast
  with steady_setMinq [of st m] show "steady st (snd (readRequest_read mq s i n st))"
    by (auto simp: readRequest_read_def r intro: steady_trans)
qed

lemma keeps_StreamReadable: "keeps (StreamReadable mq p s :: ('m, 'c, 's, unit) mwIO)"
  unfolding keeps_def
proof
  fix st :: "('m, 'c, 's) mw"
  have "keeps (bnd (readRequest_read mq s i n) (\<lambda>x. if x then ret () else throw e))" for i n e
    by (rule keeps_bnd [OF keeps_read]) (simp add: keeps_ret keeps_throw)
  moreover have "steady st (setConn p (\<lambda>c. c\<lparr>readState := (readState c)(s := None)\<rparr>) st)" by (rule steady_setConn) simp
  ultimately show "steady st (snd (StreamReadable mq p s st))"
    by (auto simp: StreamReadable_def keeps_def steady_refl intro: steady_trans split: option.split)
qed

lemma keeps_upcall: "keeps (upcall mq u :: ('m, 'c, 's, unit) mwIO)"
proof -
  have new: "steady st (st\<lparr>conns := conns st @ [newConnection mc], handlers := h\<rparr>)" for st :: "('m, 'c, 's) mw" and mc h
    by (auto simp: steady_def sound_def nilResults_def nth_append newConnection_def less_Suc_eq)
  show ?thesis
    unfolding keeps_def
  proof
    fix st :: "('m, 'c, 's) mw"
    show "steady st (snd (upcall mq u st))"
    proof (cases u)
      case (StateChangedUp mc s)
      then show ?thesis
        by (auto simp: toHandler_def StateChanged_def steady_refl intro!: steady_setConn split: option.split minqState.split)
    next
      case (StreamReadableUp mc s)
      then show ?thesis using keeps_StreamReadable [of mq _ s] by (auto simp: keeps_def toHandler_def steady_refl split: option.split)
    qed (auto simp: toHandler_def NewStream_def NewRecvStream_def mwNewServerConnection_def steady_refl new
        intro!: steady_setConn split: option.split)
  qed
qed

lemma keeps_runCall: "keeps (runCall mq c)"
proof (induction c)
  case (Return x m)
  then show ?case by (simp add: keeps_def steady_setMinq)
next
  case (Upcall u m k)
  have "steady (st\<lparr>minq := m\<rparr>) (snd (upcall mq u (st\<lparr>minq := m\<rparr>)))" for st
    using keeps_upcall unfolding keeps_def by blast
  with Upcall show ?case
    unfolding keeps_def by (auto split: prod.split sum.split) (metis snd_conv rangeI steady_setMinq steady_trans)+
qed

lemma keeps_report: "keeps (report mq err i op)"
  by (cases op) (simp_all add: keeps_def steady_answer reportAgain_def steady_refl)

lemma keeps_run_report: "keeps (bnd (runCall mq c) (\<lambda>err. report mq err i op))"
  and keeps_run_answer: "keeps (bnd (runCall mq d) (\<lambda>x. answer i (a x)))"
  by (auto intro: keeps_bnd keeps_runCall keeps_report keeps_answer)

lemma keeps_handleRead: "keeps (handleReadRequest mq p s i n :: ('m, 'c, 's, unit) mwIO)"
proof -
  have "keeps (\<lambda>st. (Inr (), if x then st else setConn p (\<lambda>c. c\<lparr>readState := (readState c)(s \<mapsto> (i, n))\<rparr>) st) :: _ \<times> ('m, 'c, 's) mw)" for x
    by (auto simp: keeps_def steady_refl intro!: steady_setConn)
  from keeps_bnd [OF keeps_read [of mq s i n] this] show ?thesis
    by (simp add: keeps_def handleReadRequest_def steady_refl)
qed

text \<open>Apart from the stop of a stream, handling an operation keeps all this.\<close>

lemma keeps_Handle:
  assumes "\<And>p s code. op \<noteq> stopRequest p s code"
  shows "keeps (Handle mq i op)"
proof -
  note k = keeps_run_report [unfolded keeps_def, rule_format] keeps_run_answer [unfolded keeps_def, rule_format]
  have w: "steady st (snd (bnd (runCall mq c) (\<lambda>(n, err). answer i (AnsIO n [] err)) st))" for c st
    using k(2) [of st mq c i "\<lambda>(n, err). AnsIO n [] err"] by (simp add: case_prod_beta')
  have h: "steady st (snd (handleReadRequest mq p s i n st))" for st p s n
    using keeps_handleRead [of mq p s i n] by (simp add: keeps_def)
  have r: "steady st (snd (report mq err i op st))" for st err
    using keeps_report [of mq err i op] by (simp add: keeps_def)
  show ?thesis
  proof (cases op)
    case (stopRequest p s code)
    with assms show ?thesis by blast
  qed (use r in \<open>simp_all add: keeps_def k w h\<close>)
qed

section \<open>Panics\<close>

definition panics :: "('m, 'c, 's, 'a) mwIO \<Rightarrow> ('m, 'c, 's) mw \<Rightarrow> bool" where
  "panics m st \<longleftrightarrow> (\<exists>e. fst (m st) = Inl e \<and> e \<noteq> Blocked)"

lemma panics_bnd: "panics (bnd m f) st \<longleftrightarrow> panics m st \<or> (\<exists>x. fst (m st) = Inr x \<and> panics (f x) (snd (m st)))"
  by (auto simp: panics_def bnd_def split: prod.split sum.split)

lemma panics_answer [simp]: "\<not> panics (answer i a) st"
  by (auto simp: panics_def answer_def split: option.split caller.split)

lemma panics_read [simp]: "\<not> panics (readRequest_read mq s i n) (st :: ('m, 'c, 's) mw)"
proof -
  have "\<not> panics (bnd (answer i a) (\<lambda>_. ret True)) st'" for a :: "'s opAnswer" and st' :: "('m, 'c, 's) mw" unfolding panics_bnd by (simp add: panics_def [of "ret True"])
  then show ?thesis by (simp add: panics_def readRequest_read_def split: prod.split)
qed

lemma read_success:
  "fst (readRequest_read mq s i n st) = Inr x \<Longrightarrow> x \<longleftrightarrow> snd (fst (mqRead mq s n (minq st))) \<noteq> Some ErrorWouldBlock"
  by (auto simp: readRequest_read_def bnd_def split: prod.splits if_splits sum.splits)

lemma read_blocks:
  "snd (fst (mqRead mq s n (minq st))) = Some ErrorWouldBlock \<Longrightarrow> fst (readRequest_read mq s i n st) = Inr False"
  by (auto simp: readRequest_read_def split: prod.splits)

lemma panics_upcall: "panics (upcall mq u) st \<longleftrightarrow> badUpcall mq u st"
proof (cases u)
  case (StreamReadableUp mc s)
  have "panics (bnd (readRequest_read mq s i n) (\<lambda>x. if x then ret () else throw (Panic t))) st' \<longleftrightarrow>
      snd (fst (mqRead mq s n (minq st'))) = Some ErrorWouldBlock" for i n t st'
    unfolding panics_bnd using read_success [of mq s i n st'] read_blocks [of mq s n st' i]
    by (auto simp: panics_def [of "ret ()"] panics_def [of "throw _"] split: if_splits)
  moreover have "minq (setConn p f st) = minq st" for p f by (simp add: setConn_def)
  ultimately show ?thesis
    using StreamReadableUp by (auto simp: panics_def toHandler_def StreamReadable_def split: option.split)
qed (auto simp: panics_def toHandler_def StateChanged_def mwNewServerConnection_def split: option.split minqState.split)

lemma panics_runCall: "panics (runCall mq c) st \<longleftrightarrow> badCall mq c st"
proof (induction c arbitrary: st)
  case (Return x m)
  then show ?case by (simp add: panics_def)
next
  case (Upcall u m k)
  obtain x st' where u: "upcall mq u (st\<lparr>minq := m\<rparr>) = (x, st')" by (metis surj_pair)
  have "panics (runCall mq (k (minq st'))) st' \<longleftrightarrow> badCall mq (k (minq st')) st'" by (rule Upcall) simp
  with panics_upcall [of mq u "st\<lparr>minq := m\<rparr>"] u show ?case by (cases x) (auto simp: panics_def)
qed

lemma panics_run_answer: "panics (bnd (runCall mq c) (\<lambda>x. answer i (a x))) st \<longleftrightarrow> badCall mq c st"
  by (simp add: panics_bnd panics_runCall)

lemma panics_report: "\<not> stateQuery op \<Longrightarrow> \<not> panics (report mq err i op) st"
  using panics_answer [of i _ st] by (cases op) (auto simp: stateQuery_def panics_def)

lemma panics_run_report: "\<not> stateQuery op \<Longrightarrow> panics (bnd (runCall mq c) (\<lambda>err. report mq err i op)) st \<longleftrightarrow> badCall mq c st"
  by (simp add: panics_bnd panics_runCall panics_report)

lemma panics_handleRead: "panics (handleReadRequest mq p s i n) st \<longleftrightarrow> readState (conns st ! p) s \<noteq> None"
proof -
  have "\<not> panics (bnd (readRequest_read mq s i n) (\<lambda>x st. (Inr (), f x st))) st" for f
    unfolding panics_bnd by (simp add: panics_def [of "\<lambda>st. (Inr (), _ st)"])
  then show ?thesis by (auto simp: panics_def handleReadRequest_def)
qed

lemma panics_Handle:
  assumes "\<not> opsClosed st"
  shows "panics (Handle mq i op) st \<longleftrightarrow> secondRead st op \<or> badOp mq op st"
proof (cases op)
  case (readRequest p s n)
  then show ?thesis using panics_handleRead [of mq p s i n st] by (simp add: panics_def secondRead_def)
next
  case (stopRequest p s code)
  then show ?thesis
    using panics_run_report [of op mq "mqStopSending mq s code (minq st)" i "stopRead p s st"]
    by (simp add: panics_def secondRead_def stateQuery_def)
next
  case (writeRequest p s bs)
  then show ?thesis using panics_run_answer [of mq "mqWrite mq s bs (minq st)" i "\<lambda>(n, err). AnsIO n [] err" st]
    by (simp add: panics_def secondRead_def case_prod_beta')
qed (use assms panics_run_report [of op mq _ i st] panics_run_answer [of mq _ i _ st] panics_report [of op mq _ i st] in
    \<open>simp_all add: panics_def secondRead_def stateQuery_def reportAgain_def\<close>)

section \<open>Steps of the service\<close>

lemma finish_result:
  "crashed (finish (m st)) \<longleftrightarrow> crashed (snd (m st)) \<or> panics m st"
  "service (finish (m st)) = Deadlocked \<longleftrightarrow> service (snd (m st)) = Deadlocked \<or> fst (m st) = Inl Blocked"
  "nilResults (finish (m st)) = nilResults (snd (m st))" "sound (finish (m st)) = sound (snd (m st))"
  by (cases "m st"; cases "fst (m st)"; auto simp: panics_def nilResults_def sound_def)+

lemma steady_setCaller: "callers st i = Some (Adding op) \<Longrightarrow> steady st (setCaller i (Waiting op) st)"
  by (auto simp: steady_def nilResults_def setCaller_def sound_def)

lemma closeResult_keeps [simp]:
  "crashed (closeResult j st) = crashed st" "service (closeResult j st) = service st" "opsClosed (closeResult j st) = opsClosed st"
  "conns (closeResult j st) = conns st" "isServer (closeResult j st) = isServer st" "minq (closeResult j st) = minq st"
  by (simp_all add: closeResult_def setCaller_def split: option.split caller.split)

lemma stopRead_result:
  "crashed (stopRead p s st) = crashed st" "service (stopRead p s st) = service st" "opsClosed (stopRead p s st) = opsClosed st"
  "sound st \<Longrightarrow> sound (stopRead p s st)"
proof -
  have "steady (closeResult j st) (setConn p (\<lambda>c. c\<lparr>readState := (readState c)(s := None)\<rparr>) (closeResult j st))" for j
    by (rule steady_setConn) simp
  moreover have "sound st \<Longrightarrow> sound (closeResult j st)" for j by (simp add: sound_def)
  ultimately show "crashed (stopRead p s st) = crashed st" "service (stopRead p s st) = service st"
    "sound st \<Longrightarrow> sound (stopRead p s st)" by (auto simp: stopRead_def steady_def split: option.split)
  show "opsClosed (stopRead p s st) = opsClosed st" by (simp add: stopRead_def setConn_def split: option.split)
qed

text \<open>A stop with a parked read gives \<open>nil\<close> to the caller of that read; nothing else does.\<close>

lemma stopRead_nil:
  assumes "\<And>j n. readState (conns st ! p) s = Some (j, n) \<Longrightarrow> \<exists>op. callers st j = Some (Waiting op)"
  shows "nilResults (stopRead p s st) = nilResults st \<longleftrightarrow> readState (conns st ! p) s = None"
proof (cases "readState (conns st ! p) s")
  case None
  then show ?thesis by (simp add: stopRead_def)
next
  case (Some r)
  obtain j n where r: "r = (j, n)" by fastforce
  then obtain op where "callers st j = Some (Waiting op)" using assms Some by blast
  then have "j \<in> nilResults (stopRead p s st)" "j \<notin> nilResults st"
    using Some r by (simp_all add: nilResults_def stopRead_def closeResult_def setConn_def setCaller_def)
  with Some show ?thesis by auto
qed

lemma serve_state:
  assumes "callers st i = Some (Adding op)"
  shows "crashed (snd (Handle mq i op (setCaller i (Waiting op) st))) = crashed st \<and>
    service (snd (Handle mq i op (setCaller i (Waiting op) st))) = service st \<and>
    (sound st \<longrightarrow> sound (snd (Handle mq i op (setCaller i (Waiting op) st)))) \<and>
    nilResults (snd (Handle mq i op (setCaller i (Waiting op) st))) =
      (case op of stopRequest p s code \<Rightarrow> nilResults (stopRead p s (setCaller i (Waiting op) st)) | _ \<Rightarrow> nilResults st)"
proof (cases "\<exists>p s code. op = stopRequest p s code")
  case False
  then have "steady (setCaller i (Waiting op) st) (snd (Handle mq i op (setCaller i (Waiting op) st)))"
    using keeps_Handle [of op mq i] by (auto simp: keeps_def)
  with steady_setCaller [OF assms] False show ?thesis
    by (cases op) (auto simp: steady_def)
next
  case True
  then obtain p s code where op: "op = stopRequest p s code" by blast
  let ?st = "setCaller i (Waiting op) st"
  have "steady (stopRead p s ?st) (snd (Handle mq i op ?st))"
    unfolding op Handle.simps using keeps_run_report [of mq _ i "stopRequest p s code"] unfolding keeps_def by blast
  with steady_setCaller [OF assms] stopRead_result [where st = ?st and p = p and s = s] op show ?thesis by (auto simp: steady_def)
qed

lemma sound_step:
  assumes "mwStep mq st st'" "service st = Serving \<longrightarrow> sound st" "service st' = Serving"
  shows "sound st'"
  using assms(1)
proof cases
  case (call i op)
  then show ?thesis using assms by (cases "opsClosed st") (auto simp: Add_open Add_closed setCaller_def sound_def)
next
  case (serve i op)
  then show ?thesis using assms(2) serve_state [of st i op mq] by (simp add: serve_def finish_result)
next
  case (packet d)
  then show ?thesis using assms(2) keeps_runCall [of mq "mqInput mq d (minq st)"]
    by (auto simp: servePacket_def finish_result keeps_def steady_def)
next
  case timer
  then show ?thesis using assms(2) keeps_runCall [of mq "mqCheckTimer mq (minq st)"]
    by (auto simp: serveTimer_def finish_result keeps_def steady_def)
next
  case exit
  then show ?thesis using assms(3) by (simp add: cleanup_def Let_def setConn_def split: if_splits)
next
  case shutdown
  then show ?thesis using assms(3) by (simp add: serverCleanup_def)
next
  case (drained i op)
  then show ?thesis using assms by (auto simp: drainOps_result setCaller_def sound_def split: if_splits)
next
  case (stream p s)
  then show ?thesis using assms steady_setConn [of st p "\<lambda>c. c\<lparr>remoteStreams := remove1 s (remoteStreams c)\<rparr>"]
    by (simp add: steady_def)
next
  case (recvStream p s)
  then show ?thesis using assms steady_setConn [of st p "\<lambda>c. c\<lparr>remoteRecvStreams := remove1 s (remoteRecvStreams c)\<rparr>"]
    by (simp add: steady_def)
next
  case (connection p)
  then show ?thesis using assms steady_setConn [of st p "accepted_update (\<lambda>_. True)"] by (simp add: steady_def)
qed

lemma run_sound: "mwRun mq st0 st \<Longrightarrow> sound st0 \<Longrightarrow> service st = Serving \<longrightarrow> sound st"
  by (induction rule: mwRun.induct) (auto intro: sound_step)

lemma reachable_sound: "mwReachable mq st \<Longrightarrow> service st = Serving \<Longrightarrow> sound st"
  unfolding mwReachable_def
  using run_sound [of mq "clientStart _ _" st] run_sound [of mq "serverStart _" st]
  by (auto simp: sound_def clientStart_def serverStart_def newConnection_def)

lemma finish_not_both: "\<not> crashed (snd (m st)) \<Longrightarrow> service (snd (m st)) = Serving \<Longrightarrow> service (finish (m st)) = Serving \<or>
    service (finish (m st)) = Deadlocked \<and> \<not> crashed (finish (m st))"
  by (cases "m st"; cases "fst (m st)") auto

lemma serve_faults:
  assumes "healthy st" "\<not> crashed st" "service st = Serving" "callers st i = Some (Adding op)"
  shows "(crashed (serve mq i op st) \<longleftrightarrow> secondRead st op \<or> badOp mq op (setCaller i (Waiting op) st)) \<and>
    (service (serve mq i op st) = Deadlocked \<longleftrightarrow> stateQuery op) \<and>
    (nilResults (serve mq i op st) = nilResults st \<longleftrightarrow> \<not> stopsRead st op)"
proof (intro conjI)
  let ?st = "setCaller i (Waiting op) st"
  note s = serve_state [OF assms(4), of mq]
  have open': "\<not> opsClosed ?st" using assms(1,3) by (simp add: healthy_def setCaller_def)
  have set: "settled {} st" using assms(1) by (simp add: healthy_def)
  show "crashed (serve mq i op st) \<longleftrightarrow> secondRead st op \<or> badOp mq op ?st"
    using s panics_Handle [OF open'] assms(2) by (simp add: serve_def finish_result secondRead_def)
  show "service (serve mq i op st) = Deadlocked \<longleftrightarrow> stateQuery op"
  proof
    assume "stateQuery op"
    with open' show "service (serve mq i op st) = Deadlocked"
      by (auto simp: serve_def stateQuery_def reportAgain_def)
  next
    assume d: "service (serve mq i op st) = Deadlocked"
    with finish_not_both [of "Handle mq i op" ?st] s assms(2,3) have "\<not> crashed (serve mq i op st)" by (auto simp: serve_def)
    with serve_healthy [OF assms(1,4), of mq] d show "stateQuery op" by (auto simp: healthy_def)
  qed
  have waits: "\<exists>op'. callers ?st j = Some (Waiting op')" if "op = stopRequest p t code" "readState (conns ?st ! p) t = Some (j, n)" for p t code j n
  proof -
    have "p < length (conns st)" using set assms(4) that(1) by (fastforce simp: settled_def)
    with set that(2) show ?thesis by (auto simp: settled_def parked_def setCaller_def)
  qed
  have nil: "nilResults ?st = nilResults st" using steady_setCaller [OF assms(4)] by (simp add: steady_def)
  show "nilResults (serve mq i op st) = nilResults st \<longleftrightarrow> \<not> stopsRead st op"
  proof (cases "\<exists>p t code. op = stopRequest p t code")
    case True
    then obtain p t code where op: "op = stopRequest p t code" by blast
    from stopRead_nil [of ?st p t] waits [OF op] nil s op show ?thesis
      by (auto simp: serve_def finish_result stopsRead_def)
  next
    case False
    then have "\<not> stopsRead st op" by (simp add: stopsRead_def)
    moreover have "nilResults (serve mq i op st) = nilResults st"
      using s False by (cases op) (simp_all add: serve_def finish_result)
    ultimately show ?thesis by simp
  qed
qed

lemma minq_faults:
  assumes "healthy st" "\<not> crashed st" "service st = Serving"
  shows "(crashed (finish (runCall mq c st)) \<longleftrightarrow> badCall mq c st) \<and> service (finish (runCall mq c st)) = Serving \<and>
    nilResults (finish (runCall mq c st)) = nilResults st"
proof -
  have k: "steady st (snd (runCall mq c st))" using keeps_runCall [of mq c] by (simp add: keeps_def)
  then have "service (finish (runCall mq c st)) = Serving"
    using finish_not_both [of "runCall mq c" st] minq_healthy [OF assms(1), of mq c] assms(2,3)
    by (auto simp: steady_def healthy_def)
  with k assms(2) show ?thesis by (simp add: finish_result panics_runCall steady_def)
qed

section \<open>The property\<close>


text \<open>In the example, one read is parked; a second one would panic, and a stop would leave its caller with \<open>nil\<close>.\<close>

definition demoQueued :: "(minqState \<times> byte list, unit, unit) mw" where
  "demoQueued = mwRead demoMinq 8 0 () 2 (mwStopSending demoMinq 9 0 () 0 demoParked)"

lemma demoQueued_eq: "demoQueued = demoParked\<lparr>callers := [7 \<mapsto> Waiting (readRequest 0 () 4), 9 \<mapsto> Adding (stopRequest 0 () 0),
    8 \<mapsto> Adding (readRequest 0 () 2)]\<rparr>"
  by (simp add: demoQueued_def demoParked_eq demoStart_def clientStart_def mwRead_def mwStopSending_def Add_def setCaller_def)

lemma demoQueued_reachable: "mwReachable demoMinq demoQueued"
proof -
  let ?st = "mwStopSending demoMinq 9 0 () 0 demoParked"
  have "mwStep demoMinq demoParked ?st"
    unfolding mwStopSending_def by (rule mwStep.call) (simp_all add: demoParked_eq demoStart_def clientStart_def)
  moreover have "mwStep demoMinq ?st demoQueued"
    unfolding demoQueued_def mwRead_def
    by (rule mwStep.call) (simp_all add: mwStopSending_def Add_def setCaller_def demoParked_eq demoStart_def clientStart_def)
  ultimately show ?thesis using demoParked_reachable unfolding mwReachable_def by (blast intro: mwRun.step)
qed


end
