(* ===== verification/Command.thy ===== *)
theory Command
  imports Client Middleware
begin

text \<open>
  The top of the program: \<open>src/client.go\<close>, a client that keeps connections by host, and the \<open>hq\<close>
  command, \<open>src/hq/hq.go\<close>. Resolving names, sockets, TLS and minq below a connection are the
  parameter \<open>dial\<close>; the package \<open>flag\<close>, which parses options, and files are parameters, too.
\<close>

section \<open>Hosts\<close>

text \<open>\<open>net.SplitHostPort\<close>: the port is what follows the last colon; brackets hold an IPv6 address.\<close>

definition addrError :: "string \<Rightarrow> goerr" where
  "addrError why = ErrOther why"

definition SplitHostPort :: "string \<Rightarrow> goerr + string \<times> string" where
  "SplitHostPort hostport =
     (if CHR '':'' \<notin> set hostport then Inl (addrError ''missing port in address'')
      else
        (let port = rev (takeWhile (\<lambda>c. c \<noteq> CHR '':'') (rev hostport));
             host = take (length hostport - length port - 1) hostport
         in
           if hd hostport = CHR ''['' then
             (case dropWhile (\<lambda>c. c \<noteq> CHR '']'') hostport of
                [] \<Rightarrow> Inl (addrError ''missing ']' in address'')
              | _ # rest \<Rightarrow>
                  if rest = [] then Inl (addrError ''missing port in address'')
                  else if rest \<noteq> CHR '':'' # port then
                    Inl (addrError (if hd rest = CHR '':'' then ''too many colons in address'' else ''missing port in address''))
                  else if CHR ''['' \<in> set (tl hostport) then Inl (addrError ''unexpected '[' in address'')
                  else if CHR '']'' \<in> set rest then Inl (addrError ''unexpected ']' in address'')
                  else Inr (tl (takeWhile (\<lambda>c. c \<noteq> CHR '']'') hostport), port))
           else if CHR '':'' \<in> set host then Inl (addrError ''too many colons in address'')
           else if CHR ''['' \<in> set hostport then Inl (addrError ''unexpected '[' in address'')
           else if CHR '']'' \<in> set hostport then Inl (addrError ''unexpected ']' in address'')
           else Inr (host, port)))"

section \<open>The client\<close>

text \<open>
  \<open>clObjects\<close> are the connections that were made, \<open>clConnections\<close> the map of the client to them.
  \<open>dial\<close> takes the name of the server and the address, and returns when the connection is established.
\<close>

record ('k, 'd) httpClient =
  clObjects :: "'k list"
  clConnections :: "string \<rightharpoonup> nat"
  clNet :: 'd

type_synonym ('k, 'd) dialer = "string \<Rightarrow> string \<Rightarrow> 'd \<Rightarrow> (goerr + 'k) \<times> 'd"

definition newClient :: "'d \<Rightarrow> ('k, 'd) httpClient" where
  "newClient d = \<lparr>clObjects = [], clConnections = Map.empty, clNet = d\<rparr>"

definition httpConnect :: "('k, 'd) dialer \<Rightarrow> string \<Rightarrow> (('k, 'd) httpClient, nat) io" where
  "httpConnect dial host c =
     (case (if CHR '':'' \<in> set host then map_sum id (\<lambda>(name, _). (name, host)) (SplitHostPort host)
            else Inr (host, host @ '':443'')) of
        Inl e \<Rightarrow> (Inl e, c)
      | Inr (serverName, host') \<Rightarrow>
          (case dial serverName host' (clNet c) of
             (Inl e, d) \<Rightarrow> (Inl e, c\<lparr>clNet := d\<rparr>)
           | (Inr k, d) \<Rightarrow>
               (Inr (length (clObjects c)), c\<lparr>clNet := d, clObjects := clObjects c @ [k],
                  clConnections := (clConnections c)(host' \<mapsto> length (clObjects c))\<rparr>)))"

definition connectionFor :: "('k, 'd) dialer \<Rightarrow> string \<Rightarrow> (('k, 'd) httpClient, nat) io" where
  "connectionFor dial host c =
     (case clConnections c host of
        Some i \<Rightarrow> (Inr i, c)
      | None \<Rightarrow> httpConnect dial host c)"

definition httpFetch :: "(('n, 'w, 'm) connection_scheme, 'd) dialer \<Rightarrow> ('n, 'w) net_ops \<Rightarrow> 'u url_ops \<Rightarrow> (string \<Rightarrow> string) \<Rightarrow>
    string \<Rightarrow> string \<Rightarrow> HeaderField list \<Rightarrow> ((('n, 'w, 'm) connection_scheme, 'd) httpClient, 'u clientRequest \<times> 'w sendStream) io" where
  "httpFetch dial nops uops uni method target hs c =
     (case urlParse uops target of
        Inl e \<Rightarrow> (Inl e, c)
      | Inr u \<Rightarrow>
          if urlScheme uops u \<noteq> ''https'' then (Inl (ErrOther ''only the 'https' scheme is supported''), c)
          else
            (case connectionFor dial (urlHost uops u) c of
               (Inl e, c') \<Rightarrow> (Inl e, c')
             | (Inr i, c') \<Rightarrow>
                 (case Fetch nops uops uni method target hs (clObjects c' ! i) of
                    (x, k) \<Rightarrow> (x, c'\<lparr>clObjects := (clObjects c')[i := k]\<rparr>))))"

text \<open>\<open>Close\<close> closes what the map holds; \<open>close\<close> is \<open>Connection.Close\<close>.\<close>

definition httpClose :: "('k \<Rightarrow> 'k) \<Rightarrow> ('k, 'd) httpClient \<Rightarrow> ('k, 'd) httpClient" where
  "httpClose close c = c\<lparr>clObjects := map (\<lambda>i. if i \<in> ran (clConnections c) then close (clObjects c ! i) else clObjects c ! i)
     [0..<length (clObjects c)]\<rparr>"

text \<open>
  The goroutine that reads a socket: its packets, in the order of the datagrams, at most 4096 bytes of each,
  until a read fails; then the connection or server is closed.
\<close>

fun serviceUdpSocket :: "string \<Rightarrow> (goerr + string \<times> byte list) list \<Rightarrow> Packet list" where
  "serviceUdpSocket laddr [] = []"
| "serviceUdpSocket laddr (Inl e # reads) = []"
| "serviceUdpSocket laddr (Inr (remote, d) # reads) =
     \<lparr>DestAddr = laddr, SrcAddr = remote, Data = take 4096 d\<rparr> # serviceUdpSocket laddr reads"

section \<open>The command\<close>

datatype hqArguments =
    serverArguments string string string
  | clientArguments "string list" string

definition hqExit :: "string \<Rightarrow> goerr" where
  "hqExit msg = ErrOther (''exit: '' @ msg)"

definition parseServer :: "string list \<Rightarrow> goerr + hqArguments" where
  "parseServer params =
     (if length params < 3 then Inl (hqExit ''missing arguments'')
      else Inr (serverArguments (params ! 0) (params ! 1) (params ! 2)))"

text \<open>\<open>flags\<close>: what \<open>flag\<close> makes of the parameters, the value of \<open>-d\<close> and the rest.\<close>

definition parseClient :: "(string list \<Rightarrow> goerr + string \<times> string list) \<Rightarrow> string list \<Rightarrow> goerr + hqArguments" where
  "parseClient flags params =
     (if length params < 1 then Inl (hqExit ''missing arguments'')
      else map_sum id (\<lambda>(file, urls). clientArguments urls file) (flags params))"

definition hqParse :: "(string list \<Rightarrow> goerr + string \<times> string list) \<Rightarrow> string list \<Rightarrow> goerr + hqArguments" where
  "hqParse flags positional =
     (case positional of
        [] \<Rightarrow> Inl (hqExit ''missing argument'')
      | cmd # params \<Rightarrow>
          if cmd = ''server'' \<or> cmd = ''s'' then parseServer params
          else if cmd = ''client'' \<or> cmd = ''c'' then parseClient flags params
          else Inl (hqExit (''unknown option: '' @ cmd)))"

definition boundsCheck :: "u64 \<Rightarrow> u64 \<Rightarrow> string \<Rightarrow> goerr + unit" where
  "boundsCheck v limit message = (if v > limit then Inl (Panic message) else Inr ())"

definition hqConfig :: "u64 \<Rightarrow> u64 \<Rightarrow> goerr + Config" where
  "hqConfig tableSize concurrentDecoders =
     (case boundsCheck tableSize (NOT 0) ''table size (-t)'' of
        Inl e \<Rightarrow> Inl e
      | Inr _ \<Rightarrow>
          (case boundsCheck concurrentDecoders (push_bit 16 1 - 1) ''max blocked (-b)'' of
             Inl e \<Rightarrow> Inl e
           | Inr _ \<Rightarrow> Inr \<lparr>DecoderTableCapacity = tableSize, ConcurrentDecoders = ucast concurrentDecoders,
               MaxConcurrentPushes = 0, TrackConnections = False, InformationalResponses = False\<rparr>))"

text \<open>
  The body of a request: what is written to it before it is closed, or the error with which the
  program dies. \<open>opn\<close> opens a file.
\<close>

definition sendFile :: "(string \<Rightarrow> goerr + byte list) \<Rightarrow> string \<Rightarrow> goerr + byte list" where
  "sendFile opn fname = (if fname \<noteq> [] then Inr [] else opn fname)"

section \<open>Properties\<close>

inductive clientReach :: "('k, 'd) dialer \<Rightarrow> ('k, 'd) httpClient \<Rightarrow> bool" for dial where
  fresh: "clientReach dial (newClient d)"
| connecting: "clientReach dial c \<Longrightarrow> clientReach dial (snd (connectionFor dial host c))"
| requesting: "clientReach dial c \<Longrightarrow> clientReach dial (c\<lparr>clObjects := ks\<rparr>)"

lemma map_sum_Inr: "map_sum id f x = Inr y \<longleftrightarrow> (\<exists>z. x = Inr z \<and> y = f z)"
  by (cases x) auto

lemma client_keys: "clientReach dial c \<Longrightarrow> clConnections c host = Some i \<Longrightarrow> CHR '':'' \<in> set host"
proof (induction arbitrary: host i rule: clientReach.induct)
  case (connecting c host')
  then show ?case
    by (auto simp: connectionFor_def httpConnect_def map_sum_Inr split: option.splits sum.splits prod.splits if_splits)
qed (auto simp: newClient_def)

text \<open>C32: When a client reuses a connection: after a successful request to a host, the next request to it uses
  the same connection if the host was given with a port. If it was given without one, the client
  connects again, every time: it looks for the host as it is in the URL, but keeps the connection under the host with
  the port 443 added.\<close>

theorem connection_cache:
  assumes "clientReach dial c" "connectionFor dial host c = (Inr i, c')"
  shows "connectionFor dial host c' = (if CHR '':'' \<in> set host then (Inr i, c') else httpConnect dial host c')"
proof -
  have "clientReach dial c'" using clientReach.connecting [OF assms(1), of host] assms(2) by simp
  note keys = client_keys [OF this, of host] client_keys [OF assms(1), of host]
  show ?thesis
  proof (cases "CHR '':'' \<in> set host")
    case True
    with assms(2) have "clConnections c' host = Some i"
      by (auto simp: connectionFor_def httpConnect_def map_sum_Inr split: option.splits sum.splits prod.splits)
    with True show ?thesis by (simp add: connectionFor_def)
  next
    case False
    with keys have "clConnections c' host = None" by (cases "clConnections c' host") auto
    with False show ?thesis by (simp add: connectionFor_def)
  qed
qed

text \<open>A network in which every server can be reached; a connection is its number.\<close>

definition demoDial :: "(nat, nat) dialer" where
  "demoDial name host d = (Inr d, Suc d)"

theorem connection_cache_witness:
  "connectionFor demoDial ''a:1'' (snd (connectionFor demoDial ''a:1'' (newClient 0))) = (Inr 0, snd (connectionFor demoDial ''a:1'' (newClient 0)))"
proof -
  have "connectionFor demoDial ''a:1'' (newClient 0) = (Inr 0, snd (connectionFor demoDial ''a:1'' (newClient 0)))"
    by (simp add: connectionFor_def httpConnect_def SplitHostPort_def demoDial_def newClient_def Let_def)
  from connection_cache [OF clientReach.fresh this] show ?thesis by simp
qed

text \<open>Without a port, two requests make two connections; only the second is closed by \<open>Close\<close>.\<close>

lemma connection_leaked:
  "let c = snd (connectionFor demoDial ''a'' (snd (connectionFor demoDial ''a'' (newClient 0)))) in
   length (clObjects c) = 2 \<and> ran (clConnections c) = {1}"
  by (simp add: connectionFor_def httpConnect_def demoDial_def newClient_def Let_def)

text \<open>The test of \<open>sendFile\<close> is inverted: a file that is given is not sent, and with none a file without a name is opened.\<close>

lemma file_never_sent: "fname \<noteq> [] \<Longrightarrow> sendFile opn fname = Inr []" "sendFile opn [] = opn []"
  by (simp_all add: sendFile_def)

text \<open>The check of the table size never fails; that of the blocked streams makes the conversion exact.\<close>

lemma hqConfig_exact:
  "hqConfig t b = (if unat b < 2 ^ 16
     then Inr \<lparr>DecoderTableCapacity = t, ConcurrentDecoders = ucast b, MaxConcurrentPushes = 0, TrackConnections = False, InformationalResponses = False\<rparr>
     else Inl (Panic ''max blocked (-b)''))"
proof -
  have "\<not> t > (NOT 0 :: u64)" by (simp add: not_less word_order.extremum)
  moreover have "b > push_bit 16 1 - 1 \<longleftrightarrow> \<not> unat b < 2 ^ 16" by (auto simp: word_less_nat_alt push_bit_eq_mult)
  ultimately show ?thesis by (simp add: hqConfig_def boundsCheck_def)
qed

end
