(* ===== verification/QifParse.thy ===== *)
theory QifParse
  imports Codec StdIO
begin

text \<open>
  QIF files, the text form of header blocks that the \<open>qif\<close> command reads and writes: the reader of
  \<open>src/hc/qif/qif_parse.go\<close> and \<open>writeBlock\<close> of \<open>src/hc/qif/decoder.go\<close>. The
  reader is refined to a parser of lists of lines, whatever the line ends of the file are.
\<close>

section \<open>Reading\<close>

definition LF :: byte where "LF = 10"
definition CR :: byte where "CR = 13"
definition TAB :: byte where "TAB = 9"
definition HASH :: byte where "HASH = 35"

lemmas qif_chars = LF_def CR_def TAB_def HASH_def

record 'r qifReader =
  qifR :: 'r
  qifEol :: bool

definition NewReader :: "'r \<Rightarrow> 'r qifReader" where
  "NewReader r = \<lparr>qifR = r, qifEol = False\<rparr>"

definition reallyReadByte :: "'r src_ops \<Rightarrow> ('r qifReader, byte) io" where
  "reallyReadByte ops q =
     (case srcReadByte ops of
        Some rb \<Rightarrow> (case rb (qifR q) of (x, r) \<Rightarrow> (x, q\<lparr>qifR := r\<rparr>))
      | None \<Rightarrow>
          (case srcRead ops 1 (qifR q) of ((p, err), r) \<Rightarrow>
             ((case err of
                 Some e \<Rightarrow> Inl e
               | None \<Rightarrow> if length p \<noteq> 1 then Inl ErrNoProgress else Inr (p ! 0)), q\<lparr>qifR := r\<rparr>)))"

definition qifReadByte :: "'r src_ops \<Rightarrow> ('r qifReader, byte) io" where
  "qifReadByte ops q =
     (case reallyReadByte ops q of (x, q1) \<Rightarrow>
      case (if qifEol q \<and> x = Inr LF then reallyReadByte ops q1 else (x, q1)) of (y, q2) \<Rightarrow>
        (y, q2\<lparr>qifEol := (y = Inr CR)\<rparr>))"

partial_function (option) readLine ::
  "'r src_ops \<Rightarrow> byte list \<Rightarrow> 'r qifReader \<Rightarrow> ((goerr + byte list) \<times> 'r qifReader) option" where
  "readLine ops buf q =
     (case qifReadByte ops q of
        (Inl e, q') \<Rightarrow> Some (Inl e, q')
      | (Inr b, q') \<Rightarrow> if b = CR \<or> b = LF then Some (Inr buf, q') else readLine ops (buf @ [b]) q')"

partial_function (option) ignoreUntilEol :: "'r src_ops \<Rightarrow> 'r qifReader \<Rightarrow> (goerr option \<times> 'r qifReader) option" where
  "ignoreUntilEol ops q =
     (case qifReadByte ops q of
        (Inl e, q') \<Rightarrow> Some (Some e, q')
      | (Inr b, q') \<Rightarrow> if b = CR \<or> b = LF then Some (None, q') else ignoreUntilEol ops q')"

text \<open>The loop that skips comments looks at the first byte of each line, also of an empty one.\<close>

partial_function (option) skipComments ::
  "'r src_ops \<Rightarrow> byte list \<Rightarrow> 'r qifReader \<Rightarrow> ((goerr + byte list) \<times> 'r qifReader) option" where
  "skipComments ops line q =
     (case line of
        [] \<Rightarrow> Some (Inl (Panic ''index out of range''), q)
      | b # _ \<Rightarrow>
          if b = HASH
          then (case readLine ops [] q of
                  None \<Rightarrow> None
                | Some (Inl e, q') \<Rightarrow> Some (Inl e, q')
                | Some (Inr line', q') \<Rightarrow> skipComments ops line' q')
          else Some (Inr line, q))"

text \<open>\<open>bytes.SplitN\<close> at the first tab; without a tab there is no second part.\<close>

definition splitField :: "byte list \<Rightarrow> goerr + HeaderField" where
  "splitField line =
     (case dropWhile (\<lambda>b. b \<noteq> TAB) line of
        [] \<Rightarrow> Inl (Panic ''index out of range'')
      | _ # value \<Rightarrow> Inr \<lparr>Name = bytes_string (takeWhile (\<lambda>b. b \<noteq> TAB) line), Value = bytes_string value, Sensitive = False\<rparr>)"

definition readHeaderField :: "'r src_ops \<Rightarrow> 'r qifReader \<Rightarrow> ((goerr + HeaderField option) \<times> 'r qifReader) option" where
  "readHeaderField ops q =
     (case readLine ops [] q of
        None \<Rightarrow> None
      | Some (Inl e, q') \<Rightarrow> Some (Inl e, q')
      | Some (Inr line, q') \<Rightarrow>
          if line = [] then Some (Inr None, q')
          else (case skipComments ops line q' of
                  None \<Rightarrow> None
                | Some (Inl e, q'') \<Rightarrow> Some (Inl e, q'')
                | Some (Inr line', q'') \<Rightarrow>
                    Some (case splitField line' of Inl e \<Rightarrow> Inl e | Inr h \<Rightarrow> Inr (Some h), q'')))"

partial_function (option) qifBlock ::
  "'r src_ops \<Rightarrow> HeaderField list \<Rightarrow> 'r qifReader \<Rightarrow> ((goerr + HeaderField list) \<times> 'r qifReader) option" where
  "qifBlock ops block q =
     (case readHeaderField ops q of
        None \<Rightarrow> None
      | Some (Inl e, q') \<Rightarrow> Some (Inl e, q')
      | Some (Inr None, q') \<Rightarrow> Some (Inr block, q')
      | Some (Inr (Some h), q') \<Rightarrow> qifBlock ops (block @ [h]) q')"

definition qifReadHeaderBlock :: "'r src_ops \<Rightarrow> 'r qifReader \<Rightarrow> ((goerr + HeaderField list) \<times> 'r qifReader) option" where
  "qifReadHeaderBlock ops = qifBlock ops []"

declare readLine.simps [code] ignoreUntilEol.simps [code] skipComments.simps [code] qifBlock.simps [code]

section \<open>Writing\<close>

text \<open>\<open>check\<close> ends the program at an error; the error of the last write is dropped.\<close>

fun qifWriteFields :: "'w snk_ops \<Rightarrow> HeaderField list \<Rightarrow> ('w, unit) io" where
  "qifWriteFields ops [] w = (Inr (), w)"
| "qifWriteFields ops (h # hs) w =
     (case snkWrite ops w (string_bytes (Name h) @ TAB # string_bytes (Value h) @ [LF]) of
        ((_, Some e), w') \<Rightarrow> (Inl e, w')
      | ((_, None), w') \<Rightarrow> qifWriteFields ops hs w')"

definition qifWriteBlock :: "'w snk_ops \<Rightarrow> HeaderField list \<Rightarrow> ('w, unit) io" where
  "qifWriteBlock ops hs w =
     (case qifWriteFields ops hs w of
        (Inl e, w') \<Rightarrow> (Inl e, w')
      | (Inr _, w') \<Rightarrow> (Inr (), snd (snkWrite ops w' [LF])))"

section \<open>A parser of lines\<close>

text \<open>
  \<open>unixEol eol bs\<close>: the bytes with every line end, a CR, an LF or a CR and an LF, made an
  LF; with \<open>eol\<close> the byte before was a CR.
\<close>

fun unixEol :: "bool \<Rightarrow> byte list \<Rightarrow> byte list" where
  "unixEol eol [] = []"
| "unixEol eol (b # bs) =
     (if eol \<and> b = LF then unixEol False bs else if b = CR then LF # unixEol True bs else b # unixEol False bs)"

text \<open>The lines that are ended by an LF, the first preceded by \<open>acc\<close>; what comes after the last is no line.\<close>

fun qifLines :: "byte list \<Rightarrow> byte list \<Rightarrow> byte list list" where
  "qifLines acc [] = []"
| "qifLines acc (b # bs) = (if b = LF then acc # qifLines [] bs else qifLines (acc @ [b]) bs)"

text \<open>The parser: an empty line ends a block, lines that begin with a hash are skipped, others are fields.\<close>

fun lineField :: "goerr \<Rightarrow> byte list \<Rightarrow> byte list list \<Rightarrow> (goerr + HeaderField) \<times> byte list list" where
  "lineField e [] ls = (Inl (Panic ''index out of range''), ls)"
| "lineField e (b # line) [] = (if b = HASH then (Inl e, []) else (splitField (b # line), []))"
| "lineField e (b # line) (l # ls) = (if b = HASH then lineField e l ls else (splitField (b # line), l # ls))"

lemma length_lineField: "length (snd (lineField e l ls)) \<le> length ls"
  by (induction e l ls rule: lineField.induct) auto

function lineBlock :: "goerr \<Rightarrow> HeaderField list \<Rightarrow> byte list list \<Rightarrow> (goerr + HeaderField list) \<times> byte list list" where
  "lineBlock e block [] = (Inl e, [])"
| "lineBlock e block (l # ls) =
     (if l = [] then (Inr block, ls)
      else (case lineField e l ls of
              (Inl x, ls') \<Rightarrow> (Inl x, ls')
            | (Inr h, ls') \<Rightarrow> lineBlock e (block @ [h]) ls'))"
  by pat_completeness auto
termination
  by (relation "measure (\<lambda>(e, block, ls). length ls)") (auto, metis length_lineField le_imp_less_Suc snd_conv)

section \<open>The reader refines the parser\<close>

definition qifView :: "('r \<Rightarrow> byte list) \<Rightarrow> 'r qifReader \<Rightarrow> byte list" where
  "qifView content q = unixEol (qifEol q) (content (qifR q))"

text \<open>A reader that has not failed, and what it will end with.\<close>

definition qifOk :: "('r \<Rightarrow> goerr) \<Rightarrow> ('r \<Rightarrow> bool) \<Rightarrow> goerr \<Rightarrow> 'r qifReader \<Rightarrow> bool" where
  "qifOk fin ok e q \<longleftrightarrow> ok (qifR q) \<and> fin (qifR q) = e"

lemma unixEol_no_CR: "CR \<notin> set (unixEol eol bs)"
  by (induction eol bs rule: unixEol.induct) (auto simp: qif_chars)

context byte_source
begin

lemma reallyReadByte_Nil:
  assumes "qifOk fin ok e q" "content (qifR q) = []"
  shows "\<exists>r. reallyReadByte ops q = (Inl e, q\<lparr>qifR := r\<rparr>) \<and> ok r \<and> fin r = e \<and> content r = []"
proof (cases "srcReadByte ops")
  case None
  from source_read [of "qifR q" 1] assms obtain r where
    "srcRead ops 1 (qifR q) = (([], Some e), r)" "ok r" "content r = []" "fin r = e"
    by (auto simp: qifOk_def split: option.splits)
  with None show ?thesis by (auto simp: reallyReadByte_def)
next
  case (Some rb)
  from source_read_byte_Nil [OF Some] assms obtain r where "rb (qifR q) = (Inl e, r)" "ok r" "content r = []" "fin r = e"
    by (auto simp: qifOk_def)
  with Some show ?thesis by (auto simp: reallyReadByte_def)
qed

lemma reallyReadByte_Cons:
  assumes "qifOk fin ok e q" "content (qifR q) = b # bs"
  shows "\<exists>r. reallyReadByte ops q = (Inr b, q\<lparr>qifR := r\<rparr>) \<and> ok r \<and> fin r = e \<and> content r = bs"
proof (cases "srcReadByte ops")
  case None
  have "ok (qifR q)" "fin (qifR q) = e" using assms(1) by (simp_all add: qifOk_def)
  with source_read [of "qifR q" 1, OF _ zero_less_one] obtain k x r where
    r: "srcRead ops 1 (qifR q) = ((take k (content (qifR q)), x), r)" "k \<le> 1" "ok r" "content r = drop k (content (qifR q))" "fin r = e"
    "case x of None \<Rightarrow> 0 < k | Some y \<Rightarrow> y = fin (qifR q) \<and> k = length (content (qifR q)) \<and> k < 1"
    by metis
  note r = r [unfolded assms(2)]
  from r(2,6) have "x = None" "k = 1" by (auto split: option.splits)
  with None r show ?thesis by (auto simp: reallyReadByte_def)
next
  case (Some rb)
  from source_read_byte_Cons [OF Some _ assms(2)] assms(1) obtain r where "rb (qifR q) = (Inr b, r)" "ok r" "content r = bs" "fin r = e"
    by (auto simp: qifOk_def)
  with Some show ?thesis by (auto simp: reallyReadByte_def)
qed

text \<open>A byte read is the next one of the view; a line end may be read as a CR.\<close>

lemma qifReadByte_Nil:
  assumes "qifOk fin ok e q" "qifView content q = []"
  shows "\<exists>q'. qifReadByte ops q = (Inl e, q') \<and> qifOk fin ok e q' \<and> qifView content q' = []"
proof (cases "content (qifR q)")
  case Nil
  from reallyReadByte_Nil [OF assms(1) Nil] show ?thesis by (auto simp: qifReadByte_def qifOk_def qifView_def)
next
  case (Cons b bs)
  with assms(2) have b: "qifEol q" "b = LF" "unixEol False bs = []" by (auto simp: qifView_def split: if_splits)
  then have bs: "bs = []" by (cases bs) (auto split: if_splits)
  from reallyReadByte_Cons [OF assms(1) Cons] obtain r where
    r: "reallyReadByte ops q = (Inr LF, q\<lparr>qifR := r\<rparr>)" "ok r" "fin r = e" "content r = []" using b bs by auto
  from r(2-4) reallyReadByte_Nil [of e "q\<lparr>qifR := r\<rparr>"] r(1) b(1) show ?thesis
    by (auto simp: qifReadByte_def qifOk_def qifView_def)
qed

lemma qifReadByte_Cons:
  assumes "qifOk fin ok e q" "qifView content q = b # u"
  shows "\<exists>b' q'. qifReadByte ops q = (Inr b', q') \<and> qifOk fin ok e q' \<and> qifView content q' = u \<and>
    (b' = CR \<or> b' = LF \<longleftrightarrow> b = LF) \<and> (b \<noteq> LF \<longrightarrow> b' = b)"
proof -
  obtain c cs where c: "content (qifR q) = c # cs" using assms(2) by (cases "content (qifR q)") (auto simp: qifView_def)
  from reallyReadByte_Cons [OF assms(1) c] obtain r where
    r: "reallyReadByte ops q = (Inr c, q\<lparr>qifR := r\<rparr>)" "ok r" "fin r = e" "content r = cs" by blast
  show ?thesis
  proof (cases "qifEol q \<and> c = LF")
    case True
    with assms(2) c have u: "unixEol False cs = b # u" by (simp add: qifView_def)
    then obtain d ds where d: "cs = d # ds" by (cases cs) auto
    from reallyReadByte_Cons [of e "q\<lparr>qifR := r\<rparr>" d ds] r d obtain r' where
      "reallyReadByte ops (q\<lparr>qifR := r\<rparr>) = (Inr d, q\<lparr>qifR := r'\<rparr>)" "ok r'" "fin r' = e" "content r' = ds"
      by (auto simp: qifOk_def)
    with True r(1) u d show ?thesis
      by (auto simp: qifReadByte_def qifOk_def qifView_def split: if_splits)
  next
    case False
    with assms(2) c r show ?thesis
      by (auto simp: qifReadByte_def qifOk_def qifView_def split: if_splits)
  qed
qed

lemma readLine_spec:
  assumes "qifOk fin ok e q" "qifView content q = u"
  shows "\<exists>x q'. readLine ops acc q = Some (x, q') \<and> qifOk fin ok e q' \<and>
    (case qifLines acc u of [] \<Rightarrow> x = Inl e \<and> qifLines [] (qifView content q') = []
     | l # ls \<Rightarrow> x = Inr l \<and> qifLines [] (qifView content q') = ls)"
  using assms
proof (induction u arbitrary: acc q)
  case Nil
  from qifReadByte_Nil [OF Nil] show ?case by (subst readLine.simps) auto
next
  case (Cons b u)
  from qifReadByte_Cons [OF Cons.prems] obtain b' q' where b': "qifReadByte ops q = (Inr b', q')" "qifOk fin ok e q'"
    "qifView content q' = u" "b' = CR \<or> b' = LF \<longleftrightarrow> b = LF" "b \<noteq> LF \<Longrightarrow> b' = b" by auto
  show ?case
  proof (cases "b = LF")
    case True
    with b' show ?thesis by (subst readLine.simps) auto
  next
    case False
    with Cons.IH [OF b'(2,3), of "acc @ [b]"] b' show ?thesis by (subst readLine.simps) auto
  qed
qed

lemma ignoreUntilEol_spec:
  assumes "qifOk fin ok e q" "qifView content q = u"
  shows "\<exists>x q'. ignoreUntilEol ops q = Some (x, q') \<and> qifOk fin ok e q' \<and>
    x = (if LF \<in> set u then None else Some e) \<and> qifView content q' = tl (dropWhile (\<lambda>b. b \<noteq> LF) u)"
  using assms
proof (induction u arbitrary: q)
  case Nil
  from qifReadByte_Nil [OF Nil] show ?case by (subst ignoreUntilEol.simps) auto
next
  case (Cons b u)
  from qifReadByte_Cons [OF Cons.prems] obtain b' q' where b': "qifReadByte ops q = (Inr b', q')" "qifOk fin ok e q'"
    "qifView content q' = u" "b' = CR \<or> b' = LF \<longleftrightarrow> b = LF" "b \<noteq> LF \<Longrightarrow> b' = b" by auto
  with Cons.IH [OF b'(2,3)] show ?case by (subst ignoreUntilEol.simps) auto
qed

lemma skipComments_spec:
  assumes "qifOk fin ok e q" "qifLines [] (qifView content q) = ls"
  shows "\<exists>x q'. skipComments ops line q = Some (x, q') \<and> qifOk fin ok e q' \<and>
    lineField e line ls = (case x of Inl y \<Rightarrow> Inl y | Inr l \<Rightarrow> splitField l, qifLines [] (qifView content q'))"
  using assms
proof (induction e line ls arbitrary: q rule: lineField.induct)
  case (1 e ls)
  then show ?case by (subst skipComments.simps) auto
next
  case (2 e b line)
  from readLine_spec [OF 2(1) refl, of "[]"] 2 show ?case by (subst skipComments.simps) auto
next
  case (3 e b line l ls)
  from readLine_spec [OF 3(2) refl, of "[]"] 3(3) obtain q' where q': "readLine ops [] q = Some (Inr l, q')"
    "qifOk fin ok e q'" "qifLines [] (qifView content q') = ls" by auto
  show ?case
  proof (cases "b = HASH")
    case True
    with 3(1) [OF True q'(2,3)] q'(1) show ?thesis by (subst skipComments.simps) auto
  next
    case False
    with 3(2,3) show ?thesis by (subst skipComments.simps) auto
  qed
qed

lemma qifBlock_spec:
  assumes "qifOk fin ok e q" "qifLines [] (qifView content q) = ls"
  shows "\<exists>x q'. qifBlock ops block q = Some (x, q') \<and> qifOk fin ok e q' \<and>
    lineBlock e block ls = (x, qifLines [] (qifView content q'))"
  using assms
proof (induction e block ls arbitrary: q rule: lineBlock.induct)
  case (1 e block)
  with readLine_spec [OF 1(1) refl, of "[]"] show ?case by (subst qifBlock.simps) (auto simp: readHeaderField_def)
next
  case (2 e block l ls)
  from readLine_spec [OF 2(2) refl, of "[]"] 2(3) obtain q1 where q1: "readLine ops [] q = Some (Inr l, q1)"
    "qifOk fin ok e q1" "qifLines [] (qifView content q1) = ls" by auto
  show ?case
  proof (cases "l = []")
    case True
    with q1 show ?thesis by (subst qifBlock.simps) (auto simp: readHeaderField_def)
  next
    case False
    from skipComments_spec [OF q1(2,3), of l] obtain x q2 where q2: "skipComments ops l q1 = Some (x, q2)" "qifOk fin ok e q2"
      "lineField e l ls = (case x of Inl y \<Rightarrow> Inl y | Inr l \<Rightarrow> splitField l, qifLines [] (qifView content q2))" by blast
    show ?thesis
    proof (cases "fst (lineField e l ls)")
      case (Inl y)
      with False q1(1) q2 show ?thesis
        by (subst qifBlock.simps) (auto simp: readHeaderField_def split: sum.splits)
    next
      case (Inr h)
      with q2(3) have p: "lineField e l ls = (Inr h, qifLines [] (qifView content q2))" by (metis fst_conv prod.collapse)
      then obtain l' where "x = Inr l'" "splitField l' = Inr h" using q2(3) by (cases x) auto
      with 2(1) [OF False p [symmetric] refl q2(2) refl] False p q1(1) q2(1) show ?thesis
        by (subst qifBlock.simps) (auto simp: readHeaderField_def)
    qed
  qed
qed

end

section \<open>Text of a block\<close>

definition fieldLine :: "HeaderField \<Rightarrow> byte list" where
  "fieldLine h = string_bytes (Name h) @ TAB # string_bytes (Value h)"

definition blockText :: "HeaderField list \<Rightarrow> byte list" where
  "blockText hs = concat (map (\<lambda>h. fieldLine h @ [LF]) hs) @ [LF]"

text \<open>Fields that the format can hold: no line ends, no tab in the name, no hash at its start.\<close>

definition plainField :: "HeaderField \<Rightarrow> bool" where
  "plainField h \<longleftrightarrow> set (string_bytes (Name h)) \<inter> {TAB, CR, LF} = {} \<and> set (string_bytes (Value h)) \<inter> {CR, LF} = {} \<and>
     (Name h \<noteq> [] \<longrightarrow> hd (string_bytes (Name h)) \<noteq> HASH)"

definition unmarked :: "HeaderField \<Rightarrow> HeaderField" where
  "unmarked h = h\<lparr>Sensitive := False\<rparr>"

lemma fieldLine_ends: "plainField h \<Longrightarrow> set (fieldLine h) \<inter> {CR, LF} = {}"
  by (auto simp: fieldLine_def plainField_def qif_chars)

lemma unixEol_line:
  "set l \<inter> {CR, LF} = {} \<Longrightarrow> qifLines acc (unixEol False (l @ LF # rest)) = (acc @ l) # qifLines [] (unixEol False rest)"
  by (induction l arbitrary: acc) (auto simp: qif_chars)

lemma blockText_lines:
  "\<forall>h \<in> set hs. plainField h \<Longrightarrow>
   qifLines [] (unixEol False (blockText hs @ rest)) = map fieldLine hs @ [] # qifLines [] (unixEol False rest)"
proof (induction hs)
  case Nil
  show ?case by (simp add: blockText_def qif_chars)
next
  case (Cons h hs)
  have "blockText (h # hs) @ rest = fieldLine h @ LF # (blockText hs @ rest)" by (simp add: blockText_def)
  with Cons unixEol_line [OF fieldLine_ends, of h "[]" "blockText hs @ rest"] show ?case by simp
qed

lemma takeWhile_TAB:
  "set n \<inter> {TAB} = {} \<Longrightarrow> takeWhile (\<lambda>b. b \<noteq> TAB) (n @ TAB # v) = n \<and> dropWhile (\<lambda>b. b \<noteq> TAB) (n @ TAB # v) = TAB # v"
  by (induction n) auto

lemma splitField_line: "plainField h \<Longrightarrow> splitField (fieldLine h) = Inr (unmarked h)"
  using takeWhile_TAB [of "string_bytes (Name h)" "string_bytes (Value h)"]
  by (cases h) (auto simp: splitField_def fieldLine_def plainField_def unmarked_def)

lemma fieldLine_start: "plainField h \<Longrightarrow> \<exists>b l. fieldLine h = b # l \<and> b \<noteq> HASH"
  by (cases "Name h") (auto simp: fieldLine_def plainField_def qif_chars string_bytes_def)

lemma lineBlock_text:
  "\<forall>h \<in> set hs. plainField h \<Longrightarrow> lineBlock e block (map fieldLine hs @ [] # ls) = (Inr (block @ map unmarked hs), ls)"
proof (induction hs arbitrary: block)
  case (Cons h hs)
  obtain b l where l: "fieldLine h = b # l" "b \<noteq> HASH" using fieldLine_start [of h] Cons.prems by auto
  then have "lineField e (fieldLine h) (map fieldLine hs @ [] # ls) = (splitField (fieldLine h), map fieldLine hs @ [] # ls)"
    by (cases "map fieldLine hs @ [] # ls") auto
  with Cons l(1) splitField_line [of h] show ?case by auto
qed simp

context reliable_sink
begin

lemma whole_write: "\<exists>w'. snkWrite ops w p = ((length p, None), w') \<and> out w' = out w @ p"
proof -
  obtain n e w' where w: "snkWrite ops w p = ((n, e), w')" by (metis surj_pair)
  with reliable_write [of w p] sink_write [OF w] show ?thesis by auto
qed

lemma qifWriteBlock_spec: "\<exists>w'. qifWriteBlock ops hs w = (Inr (), w') \<and> out w' = out w @ blockText hs"
proof -
  have "\<exists>w'. qifWriteFields ops hs w = (Inr (), w') \<and> out w' = out w @ concat (map (\<lambda>h. fieldLine h @ [LF]) hs)"
  proof (induction hs arbitrary: w)
    case (Cons h hs)
    from whole_write [of w "fieldLine h @ [LF]"] obtain w1 where
      "snkWrite ops w (fieldLine h @ [LF]) = ((length (fieldLine h @ [LF]), None), w1)" "out w1 = out w @ fieldLine h @ [LF]"
      by blast
    with Cons [of w1] show ?case by (auto simp: fieldLine_def)
  qed simp
  then obtain w1 where "qifWriteFields ops hs w = (Inr (), w1)" "out w1 = out w @ concat (map (\<lambda>h. fieldLine h @ [LF]) hs)" by blast
  with whole_write [of w1 "[LF]"] show ?thesis by (auto simp: qifWriteBlock_def blockText_def)
qed

end

section \<open>Properties\<close>

text \<open>C17: The reader of QIF files does what the parser of lines says, on every source that ends: it
  returns, with the parser's block or error, and stands before the lines that the parser leaves. Which of CR,
  LF and CR LF end the lines makes no difference, and a last line without an end is no line.\<close>

theorem qif_reader_refines:
  assumes "byte_source ops content fin ok" "ok (qifR q)"
  shows "\<exists>x q'. qifReadHeaderBlock ops q = Some (x, q') \<and> ok (qifR q') \<and> fin (qifR q') = fin (qifR q) \<and>
    lineBlock (fin (qifR q)) [] (qifLines [] (unixEol (qifEol q) (content (qifR q)))) =
      (x, qifLines [] (unixEol (qifEol q') (content (qifR q'))))"
proof -
  have "qifOk fin ok (fin (qifR q)) q" using assms(2) by (simp add: qifOk_def)
  from byte_source.qifBlock_spec [OF assms(1) this refl, of "[]"] show ?thesis
    by (auto simp: qifReadHeaderBlock_def qifOk_def qifView_def)
qed

text \<open>A file with every kind of line end, a comment and a last line without an end.\<close>

definition example_qif :: "byte list" where
  "example_qif = string_bytes ''# c'' @ [CR, LF] @ string_bytes ''a'' @ [TAB] @ string_bytes ''1'' @ [CR] @
     string_bytes ''b'' @ [TAB] @ string_bytes ''2'' @ [LF, CR, LF] @ string_bytes ''x''"

theorem qif_reader_refines_witness:
  "\<exists>x q'. qifReadHeaderBlock source_ops (NewReader (example_qif, EOF)) = Some (x, q') \<and>
     x = Inr [\<lparr>Name = ''a'', Value = ''1'', Sensitive = False\<rparr>, \<lparr>Name = ''b'', Value = ''2'', Sensitive = False\<rparr>]"
proof -
  have "lineBlock EOF [] (qifLines [] (unixEol False example_qif)) =
      (Inr [\<lparr>Name = ''a'', Value = ''1'', Sensitive = False\<rparr>, \<lparr>Name = ''b'', Value = ''2'', Sensitive = False\<rparr>], [])"
    by code_simp
  with qif_reader_refines [OF src.byte_source_axioms, of "NewReader (example_qif, EOF)"] show ?thesis
    by (auto simp: NewReader_def)
qed

text \<open>What the QIF writer writes the QIF reader reads: a block of fields without line ends, without a
  tab in a name or a hash at its start comes back, up to the marks of sensitive fields, which the
  format does not have, and the reader then stands before the lines of what follows.\<close>

theorem qif_roundtrip:
  assumes "reliable_sink wops wout" "byte_source rops content fin ok" "\<forall>h \<in> set hs. plainField h"
  shows "\<exists>w' bs. qifWriteBlock wops hs w = (Inr (), w') \<and> wout w' = wout w @ bs \<and>
    (\<forall>r rest. ok r \<and> content r = bs @ rest \<longrightarrow>
      (\<exists>q'. qifReadHeaderBlock rops (NewReader r) = Some (Inr (map (\<lambda>h. h\<lparr>Sensitive := False\<rparr>) hs), q') \<and> ok (qifR q') \<and>
         qifLines [] (unixEol (qifEol q') (content (qifR q'))) = qifLines [] (unixEol False rest)))"
proof -
  from reliable_sink.qifWriteBlock_spec [OF assms(1)] obtain w' where
    w': "qifWriteBlock wops hs w = (Inr (), w')" "wout w' = wout w @ blockText hs" by blast
  moreover have "\<exists>q'. qifReadHeaderBlock rops (NewReader r) = Some (Inr (map unmarked hs), q') \<and> ok (qifR q') \<and>
      qifLines [] (unixEol (qifEol q') (content (qifR q'))) = qifLines [] (unixEol False rest)"
    if r: "ok r" "content r = blockText hs @ rest" for r rest
  proof -
    have "qifOk fin ok (fin r) (NewReader r)" "qifLines [] (qifView content (NewReader r)) = map fieldLine hs @ [] # qifLines [] (unixEol False rest)"
      using r blockText_lines [OF assms(3)] by (simp_all add: qifOk_def NewReader_def qifView_def)
    from byte_source.qifBlock_spec [OF assms(2) this, of "[]"] show ?thesis
      by (auto simp: lineBlock_text [OF assms(3)] qifReadHeaderBlock_def qifOk_def qifView_def)
  qed
  ultimately show ?thesis by (auto simp: unmarked_def [abs_def])
qed

theorem qif_roundtrip_witness:
  "\<exists>w'. qifWriteBlock buf_ops [\<lparr>Name = ''a'', Value = ''#1'', Sensitive = True\<rparr>] [] = (Inr (), w') \<and>
     map_option fst (qifReadHeaderBlock source_ops (NewReader (w', EOF))) = Some (Inr [\<lparr>Name = ''a'', Value = ''#1'', Sensitive = False\<rparr>])"
proof -
  let ?hs = "[\<lparr>Name = ''a'', Value = ''#1'', Sensitive = True\<rparr>]"
  have "\<forall>h \<in> set ?hs. plainField h" by code_simp
  from qif_roundtrip [OF buf.reliable_sink_axioms src.byte_source_axioms this, of "[]"] obtain w' where
    w': "qifWriteBlock buf_ops ?hs [] = (Inr (), w')"
    "\<exists>q'. qifReadHeaderBlock source_ops (NewReader (w' @ [], EOF)) =
       Some (Inr [\<lparr>Name = ''a'', Value = ''#1'', Sensitive = False\<rparr>], q')"
    by (simp del: append_Nil2) blast
  then show ?thesis by auto
qed

text \<open>
  A line without a tab, or an empty line after a comment, panics; a last block without an empty line
  behind it is lost.
\<close>

lemma qif_line_panics:
  "TAB \<notin> set (b # l) \<Longrightarrow> b \<noteq> HASH \<Longrightarrow> fst (lineBlock e block ((b # l) # ls)) = Inl (Panic ''index out of range'')"
  "fst (lineBlock e block ((HASH # l) # [] # ls)) = Inl (Panic ''index out of range'')"
proof -
  assume "TAB \<notin> set (b # l)" "b \<noteq> HASH"
  then have "dropWhile (\<lambda>b. b \<noteq> TAB) (b # l) = []" by (auto simp: dropWhile_eq_Nil_conv)
  with \<open>b \<noteq> HASH\<close> show "fst (lineBlock e block ((b # l) # ls)) = Inl (Panic ''index out of range'')"
    by (cases ls) (simp_all add: splitField_def)
qed simp

lemma qif_last_block_lost: "\<forall>h \<in> set hs. plainField h \<Longrightarrow> lineBlock EOF block (map fieldLine hs) = (Inl EOF, [])"
proof (induction hs arbitrary: block)
  case (Cons h hs)
  obtain b l where l: "fieldLine h = b # l" "b \<noteq> HASH" using fieldLine_start [of h] Cons.prems by auto
  then have "lineField EOF (fieldLine h) (map fieldLine hs) = (splitField (fieldLine h), map fieldLine hs)"
    by (cases "map fieldLine hs") auto
  with Cons l(1) splitField_line [of h] show ?case by auto
qed simp

end
