(* ===== verification/QifCodec.thy ===== *)
theory QifCodec
  imports QifParse QpackSync
begin

text \<open>
  The \<open>qif\<close> command: \<open>src/hc/qif/encoder.go\<close> turns a QIF file into a file of QPACK table updates and
  header blocks, \<open>src/hc/qif/decoder.go\<close> turns it back. Both are loops around the QPACK encoder and
  decoder. \<open>check\<close>, which ends the program at an error, is the end of an operation with that error.
\<close>

section \<open>Encoder\<close>

text \<open>\<open>encUpdates\<close> is the encoder's bit writer over the buffer \<open>updateStream\<close>.\<close>

record ('r, 'w) qifEncoder =
  encInput :: "'r qifReader"
  encOutput :: "'w bitWriter"
  encAcknowledge :: bool
  encStream :: u64
  encUpdates :: "byte list bitWriter"
  encQpack :: QpackEncoder

definition newEncoder :: "'r \<Rightarrow> 'w \<Rightarrow> goerr + ('r, 'w) qifEncoder" where
  "newEncoder r w =
     (case NewQpackEncoder 4096 3072 of
        Inl e \<Rightarrow> Inl e
      | Inr q \<Rightarrow> Inr \<lparr>encInput = NewReader r, encOutput = NewBitWriter w, encAcknowledge = False, encStream = 0,
          encUpdates = NewBitWriter [], encQpack = q\<rparr>)"

text \<open>
  The test after the copy compares with the length of a buffer that the copy has emptied; it never
  fails.
\<close>

definition encWriteBlock :: "'w snk_ops \<Rightarrow> u64 \<Rightarrow> byte list \<Rightarrow> ('w bitWriter, unit) io" where
  "encWriteBlock ops i block =
     (if block = [] then ret ()
      else bnd (WriteBits ops i 64) (\<lambda>_.
           bnd (WriteBits ops (word_of_nat (length block)) 32) (\<lambda>_ bw.
             case copyTo (Write ops) block bw of
               ((_, Some e), bw') \<Rightarrow> (Inl e, bw')
             | ((_, None), bw') \<Rightarrow> (Inr (), bw'))))"

text \<open>One turn of the loop; the result of the acknowledgment is dropped.\<close>

definition encodeBlock :: "'w snk_ops \<Rightarrow> (string \<Rightarrow> string) \<Rightarrow> HeaderField list \<Rightarrow> (('r, 'w) qifEncoder, unit) io" where
  "encodeBlock ops uni block enc =
     (let i = encStream enc + 1 in
      case QpackWriteHeaderBlock buf_ops buf_ops uni i block (encQpack enc) (encUpdates enc) [] of
        (Inl e, q, u, h) \<Rightarrow> (Inl e, enc\<lparr>encStream := i, encQpack := q, encUpdates := u\<rparr>)
      | (Inr _, q, u, h) \<Rightarrow>
          (case encWriteBlock ops 0 (writer u) (encOutput enc) of
             (Inl e, bw) \<Rightarrow> (Inl e, enc\<lparr>encStream := i, encQpack := q, encUpdates := u, encOutput := bw\<rparr>)
           | (Inr _, bw) \<Rightarrow>
               (case encWriteBlock ops i h bw of
                  (Inl e, bw') \<Rightarrow>
                    (Inl e, enc\<lparr>encStream := i, encQpack := q, encUpdates := u\<lparr>writer := []\<rparr>, encOutput := bw'\<rparr>)
                | (Inr _, bw') \<Rightarrow>
                    (Inr (), enc\<lparr>encStream := i, encQpack := (if encAcknowledge enc then snd (AcknowledgeHeader i q) else q),
                       encUpdates := u\<lparr>writer := []\<rparr>, encOutput := bw'\<rparr>))))"

partial_function (option) Encode ::
  "'r src_ops \<Rightarrow> 'w snk_ops \<Rightarrow> (string \<Rightarrow> string) \<Rightarrow> ('r, 'w) qifEncoder \<Rightarrow> ((goerr + unit) \<times> ('r, 'w) qifEncoder) option" where
  "Encode rops wops uni enc =
     (case qifReadHeaderBlock rops (encInput enc) of
        None \<Rightarrow> None
      | Some (Inl e, q) \<Rightarrow> Some (if e = EOF then Inr () else Inl e, enc\<lparr>encInput := q\<rparr>)
      | Some (Inr block, q) \<Rightarrow>
          (case encodeBlock wops uni block (enc\<lparr>encInput := q\<rparr>) of
             (Inl e, enc') \<Rightarrow> Some (Inl e, enc')
           | (Inr _, enc') \<Rightarrow> Encode rops wops uni enc'))"

declare Encode.simps [code]

section \<open>Decoder\<close>

text \<open>
  The goroutine that reads table updates takes them from a concatenating reader; \<open>AddReader\<close> returns
  when what it was given has been read, which is when the goroutine waits for more: all complete
  instructions have been carried out by then. Its state is therefore a function of the bytes handed to
  it, \<open>decUpdates\<close>: it started with the decoder \<open>decStart\<close>, and the input beyond those bytes
  bss. Acknowledgments go to a writer that drops them and are not kept.
\<close>

record ('r, 'w) qifDecoder =
  decInput :: "'r bitReader"
  decOutput :: 'w
  decUpdates :: "byte list"
  decStart :: QpackDecoder
  decQpack :: QpackDecoder

definition newDecoder :: "'r \<Rightarrow> 'w \<Rightarrow> ('r, 'w) qifDecoder" where
  "newDecoder r w = \<lparr>decInput = NewBitReader r, decOutput = w, decUpdates = [],
     decStart = NewQpackDecoder 4096, decQpack = NewQpackDecoder 4096\<rparr>"

text \<open>\<open>None\<close>: the input has ended.\<close>

definition decReadBlock :: "'r src_ops \<Rightarrow> ('r bitReader, (u64 \<times> nat) option) io" where
  "decReadBlock ops br =
     (case ReadBits ops 64 br of
        (Inl e, br') \<Rightarrow> (if e = EOF then Inr None else Inl e, br')
      | (Inr stream, br') \<Rightarrow> bnd (ReadBits ops 32) (\<lambda>n. ret (Some (stream, unat n))) br')"

text \<open>
  The copy of the limited reader into a buffer reads until all bytes are there or the input ends, which
  is no error. The sizes of the single reads are not modelled.
\<close>

definition decCopyBlock :: "'r src_ops \<Rightarrow> nat \<Rightarrow> ('r bitReader, byte list) io" where
  "decCopyBlock ops n br =
     (case readFullLoop (br_ops ops) n [] br of
        ((p, Some e), br') \<Rightarrow> (if e = EOF then Inr p else Inl e, br')
      | ((p, None), br') \<Rightarrow> (Inr p, br'))"

definition decodeBlock :: "'w snk_ops \<Rightarrow> u64 \<Rightarrow> byte list \<Rightarrow> ('r, 'w) qifDecoder \<Rightarrow> ((goerr + unit) \<times> ('r, 'w) qifDecoder) option" where
  "decodeBlock ops stream p dec =
     (if stream = 0 then
        (let u = decUpdates dec @ p in
         case ReadTableUpdates source_ops (decStart dec) (u, Blocked) of
           None \<Rightarrow> None
         | Some (x, d, _) \<Rightarrow>
             Some (if x = Inl Blocked then Inr () else x, dec\<lparr>decUpdates := u, decQpack := d\<rparr>))
      else
        (case QpackReadHeaderBlock source_ops stream (decQpack dec) (p, EOF) of
           None \<Rightarrow> None
         | Some (Inl e, d, _) \<Rightarrow> Some (Inl e, dec\<lparr>decQpack := d\<rparr>)
         | Some (Inr hs, d, _) \<Rightarrow>
             (case qifWriteBlock ops hs (decOutput dec) of (x, w) \<Rightarrow> Some (x, dec\<lparr>decQpack := d, decOutput := w\<rparr>))))"

partial_function (option) Decode ::
  "'r src_ops \<Rightarrow> 'w snk_ops \<Rightarrow> ('r, 'w) qifDecoder \<Rightarrow> ((goerr + unit) \<times> ('r, 'w) qifDecoder) option" where
  "Decode rops wops dec =
     (case decReadBlock rops (decInput dec) of
        (Inl e, br) \<Rightarrow> Some (Inl e, dec\<lparr>decInput := br\<rparr>)
      | (Inr None, br) \<Rightarrow> Some (Inr (), dec\<lparr>decInput := br\<rparr>)
      | (Inr (Some (stream, n)), br) \<Rightarrow>
          (case decCopyBlock rops n br of
             (Inl e, br') \<Rightarrow> Some (Inl e, dec\<lparr>decInput := br'\<rparr>)
           | (Inr p, br') \<Rightarrow>
               (case decodeBlock wops stream p (dec\<lparr>decInput := br'\<rparr>) of
                  None \<Rightarrow> None
                | Some (Inl e, dec') \<Rightarrow> Some (Inl e, dec')
                | Some (Inr _, dec') \<Rightarrow> Decode rops wops dec')))"

declare Decode.simps [code]

section \<open>Pieces of the file\<close>

definition pieceBytes :: "u64 \<Rightarrow> byte list \<Rightarrow> byte list" where
  "pieceBytes i p = (if p = [] then [] else bits_bytes (bits 64 i @ bits 32 (word_of_nat (length p) :: u64)) @ p)"

lemma unat_length: "length p < 2 ^ 32 \<Longrightarrow> unat (word_of_nat (length p) :: u64) = length p"
  by (simp add: unat_of_nat)

lemma piece_bits:
  "p \<noteq> [] \<Longrightarrow> bytes_bits (pieceBytes i p) = bits 64 i @ bits 32 (word_of_nat (length p) :: u64) @ bytes_bits p"
proof -
  assume "p \<noteq> []"
  moreover have "bytes_bits (bits_bytes (bits 64 i @ bits 32 (word_of_nat (length p) :: u64))) = bits 64 i @ bits 32 (word_of_nat (length p) :: u64)"
    using bytes_and_tail_bits [of "bits 64 i @ bits 32 (word_of_nat (length p) :: u64)"] by (simp add: tail_bits_def)
  ultimately show ?thesis by (simp add: pieceBytes_def)
qed

context reliable_sink
begin

lemma encWriteBlock_spec:
  assumes "wsavedBits bw = 0" "length p < 2 ^ 32"
  shows "\<exists>bw'. encWriteBlock ops i p bw = (Inr (), bw') \<and> wsavedBits bw' = 0 \<and> out (writer bw') = out (writer bw) @ pieceBytes i p"
proof (cases "p = []")
  case True
  with assms show ?thesis by (simp add: encWriteBlock_def pieceBytes_def)
next
  case False
  let ?n = "word_of_nat (length p) :: u64"
  have "unat ?n = length p" using assms(2) by (rule unat_length)
  then have "take_bit 32 ?n = ?n" using assms(2) by (simp add: take_bit_eq_self_unat_iff)
  then have "produces out (WriteBits ops ?n 32) (bits 32 ?n) ()" by (intro WriteBits_produces) simp_all
  moreover have "produces out (WriteBits ops i 64) (bits 64 i) ()"
    by (rule WriteBits_produces) (simp_all add: take_bit_word_eq_self)
  ultimately have "produces out (bnd (WriteBits ops i 64) (\<lambda>_. WriteBits ops ?n 32)) (bits 64 i @ bits 32 ?n) ()"
    by (intro produces_bnd)
  moreover have "wsavedBits bw < 8" using assms(1) by simp
  ultimately obtain bw1 where 1: "bnd (WriteBits ops i 64) (\<lambda>_. WriteBits ops ?n 32) bw = (Inr (), bw1)" "wsavedBits bw1 < 8"
    "wbits out bw1 = wbits out bw @ bits 64 i @ bits 32 ?n" by (rule producesE)
  from copyTo_spec [OF 1(2), of p] obtain bw2 where 2: "copyTo (Write ops) p bw1 = ((length p, None), bw2)" "wsavedBits bw2 < 8"
    "wbits out bw2 = wbits out bw @ bytes_bits (pieceBytes i p)" using 1(3) piece_bits [OF False] by auto
  from 1(1) 2(1) False have "encWriteBlock ops i p bw = (Inr (), bw2)"
    by (auto simp: encWriteBlock_def bnd_def split: prod.splits sum.splits)
  moreover from aligned_output [OF 2(3,2) assms(1)] have "wsavedBits bw2 = 0" "out (writer bw2) = out (writer bw) @ pieceBytes i p"
    by simp_all
  ultimately show ?thesis by blast
qed

end

context byte_source
begin

lemma piece_read:
  assumes "rok ok br" "rbits content br = bytes_bits (pieceBytes i p @ rest)" "p \<noteq> []" "length p < 2 ^ 32"
  shows "\<exists>br1 br2. decReadBlock ops br = (Inr (Some (i, length p)), br1) \<and> decCopyBlock ops (length p) br1 = (Inr p, br2) \<and>
    rok ok br2 \<and> rbits content br2 = bytes_bits rest \<and> fin (reader br2) = fin (reader br)"
proof -
  let ?n = "word_of_nat (length p) :: u64"
  have n: "unat ?n = length p" using assms(4) by (rule unat_length)
  then have t: "take_bit 32 ?n = ?n" using assms(4) by (simp add: take_bit_eq_self_unat_iff)
  have b: "rbits content br = bits 64 i @ (bits 32 ?n @ bytes_bits (p @ rest))" using assms(2) piece_bits [OF assms(3)] by simp
  have "consumes content fin ok (ReadBits ops 64) (bits 64 i) i"
    by (rule ReadBits_value_consumes) (simp_all add: take_bit_word_eq_self)
  from this assms(1) b obtain br0 where 0: "ReadBits ops 64 br = (Inr i, br0)" "rok ok br0"
    "rbits content br0 = bits 32 ?n @ bytes_bits (p @ rest)" "fin (reader br0) = fin (reader br)"
    by (rule consumesE)
  have "consumes content fin ok (ReadBits ops 32) (bits 32 ?n) ?n"
    by (rule ReadBits_value_consumes) (simp_all add: t)
  from this 0(2,3) obtain br1 where 1: "ReadBits ops 32 br0 = (Inr ?n, br1)" "rok ok br1"
    "rbits content br1 = bytes_bits (p @ rest)" "fin (reader br1) = fin (reader br0)"
    by (rule consumesE)
  have c: "bits_bytes (rbits content br1) = p @ rest" "tail_bits (rbits content br1) = []"
    using bytes_and_tail_bits [of "bytes_bits (p @ rest)"] unfolding 1(3) bits_bytes_bytes_bits by simp_all
  with 1(2) have "rok ok br1 \<and> tail_bits (rbits content br1) = []" by simp
  from byte_source.readFullLoop_spec [OF br_source this, of "length p" "[]", unfolded c(1)] obtain br2 where
    2: "rok ok br2" "tail_bits (rbits content br2) = []" "fin (reader br2) = fin (reader br1)"
    "bits_bytes (rbits content br2) = rest" "readFullLoop (br_ops ops) (length p) [] br1 = ((p, None), br2)" by auto
  have "rbits content br2 = bytes_bits rest" using bytes_and_tail_bits [of "rbits content br2"] 2(2,4) by simp
  with 0(1,4) 1(1,4) 2 n show ?thesis by (auto simp: decReadBlock_def decCopyBlock_def)
qed

text \<open>Fewer than eight bytes are taken for the end of the file, not only none.\<close>

lemma file_end:
  assumes "rok ok br" "length (rbits content br) < 64" "fin (reader br) = EOF"
  shows "\<exists>br'. decReadBlock ops br = (Inr None, br')"
  using ReadBits_spec [OF assms(1), of 64] assms(2,3) by (auto simp: decReadBlock_def)

end

section \<open>A run of the encoder and of the decoder\<close>

text \<open>The acknowledgment that the encoder pretends to receive after each block with the option \<open>-a\<close>.\<close>

definition acknowledged :: "bool \<Rightarrow> u64 \<Rightarrow> QpackEncoder \<Rightarrow> QpackEncoder" where
  "acknowledged ack i q = (if ack then snd (AcknowledgeHeader i q) else q)"

text \<open>The bytes of the file for a list of blocks, and what the run needs: every call is one that the encoder can
  make, and no piece is longer than its length field can say.\<close>

fun encodeAll :: "(string \<Rightarrow> string) \<Rightarrow> bool \<Rightarrow> u64 \<Rightarrow> QpackEncoder \<Rightarrow> byte list bitWriter \<Rightarrow> HeaderField list list \<Rightarrow> byte list" where
  "encodeAll uni ack i q uw [] = []"
| "encodeAll uni ack i q uw (b # bs) =
     (case QpackWriteHeaderBlock buf_ops buf_ops uni (i + 1) b q uw [] of
        (_, q', u, h) \<Rightarrow> pieceBytes 0 (writer u) @ pieceBytes (i + 1) h @
          encodeAll uni ack (i + 1) (acknowledged ack (i + 1) q') (u\<lparr>writer := []\<rparr>) bs)"

fun runFine :: "(string \<Rightarrow> string) \<Rightarrow> bool \<Rightarrow> u64 \<Rightarrow> QpackEncoder \<Rightarrow> byte list bitWriter \<Rightarrow> HeaderField list list \<Rightarrow> bool" where
  "runFine uni ack i q uw [] \<longleftrightarrow> True"
| "runFine uni ack i q uw (b # bs) \<longleftrightarrow> i + 1 \<noteq> 0 \<and> call_fine buf_ops uni (i + 1) b q uw \<and>
     (case QpackWriteHeaderBlock buf_ops buf_ops uni (i + 1) b q uw [] of
        (_, q', u, h) \<Rightarrow> length (writer u) < 2 ^ 32 \<and> length h < 2 ^ 32 \<and>
          runFine uni ack (i + 1) (acknowledged ack (i + 1) q') (u\<lparr>writer := []\<rparr>) bs)"

lemma AcknowledgeHeader_pref: "HuffmanPreference (snd (AcknowledgeHeader i q)) = HuffmanPreference q"
  by (auto simp: AcknowledgeHeader_def updateHighestAcknowledged_def Let_def split: prod.splits sum.splits)

lemma acknowledged_spec:
  assumes "qenc_ok q" "qbase q \<le> intMax"
  shows "qenc_ok (acknowledged ack i q) \<and> qtable (acknowledged ack i q) = qtable q \<and>
    HuffmanPreference (acknowledged ack i q) = HuffmanPreference q"
  using assms(1) AcknowledgeHeader_spec [OF assms, of i] AcknowledgeHeader_pref [of i q]
  by (cases "AcknowledgeHeader i q") (auto simp: acknowledged_def)

context byte_source
begin

lemma ReadTableUpdates_waits:
  assumes "updates c (dtable d) (bytes_bits (content r)) t'" "table_ok (dtable d)" "ok r" "fin r \<noteq> EOF"
  shows "\<exists>d' r'. ReadTableUpdates ops d r = Some (Inl (fin r), d', r') \<and> dtable d' = t'"
proof -
  from updatesLoop_updates [OF assms(1,2) refl] obtain d' where d': "dtable d' = t'"
    "\<forall>br rest. rok ok br \<and> rbits content br = bytes_bits (content r) @ rest \<longrightarrow>
      (\<exists>br'. rok ok br' \<and> rbits content br' = rest \<and> fin (reader br') = fin (reader br) \<and>
         updatesLoop ops (d, br) = updatesLoop ops (d', br'))" by blast
  have "rok ok (NewBitReader r)" "rbits content (NewBitReader r) = bytes_bits (content r) @ []" "reader (NewBitReader r) = r"
    using assms(3) by (simp_all add: rok_def NewBitReader_def rbits_def)
  with d'(2) obtain br1 where 1: "rok ok br1" "rbits content br1 = []" "fin (reader br1) = fin r"
    "updatesLoop ops (d, NewBitReader r) = updatesLoop ops (d', br1)" by metis
  from 1(1,2) obtain br' where "ReadBit ops br1 = (Inl (fin (reader br1)), br')" by (rule ReadBit_end)
  with 1(3) assms(4) have "readUpdate ops (d', br1) = (Inl (fin r), (d', br'))" by (simp add: readUpdate_def Let_def)
  with 1(4) d'(1) show ?thesis by (simp add: ReadTableUpdates_def updatesLoop.simps [of ops "(d', br1)"])
qed

end

lemma updates_Nil: "updates c t [] t' \<Longrightarrow> table_ok t \<Longrightarrow> t' = t"
proof -
  assume u: "updates c t [] t'" "table_ok t"
  let ?d = "\<lparr>dtable = t, sent = []\<rparr>"
  from u src.ReadTableUpdates_spec [of c ?d "[]" t' "([], EOF)"] obtain d' r' where
    d': "ReadTableUpdates source_ops ?d ([], EOF) = Some (Inr (), d', r')" "dtable d' = t'" by auto
  have "rok (\<lambda>_. True) (NewBitReader ([], EOF))" "rbits fst (NewBitReader ([], EOF)) = []" "snd (reader (NewBitReader ([], EOF))) = EOF"
    by (simp_all add: rok_def NewBitReader_def rbits_def)
  then obtain br' where "readUpdate source_ops (?d, NewBitReader ([], EOF)) = (Inr False, (?d, br'))" by (rule src.readUpdate_end)
  with d' show "t' = t" by (auto simp add: ReadTableUpdates_def updatesLoop.simps [of source_ops "(?d, NewBitReader ([], EOF))"])
qed

text \<open>One block: what the encoder writes, and how the decoder understands it.\<close>

lemma block_step:
  assumes "qenc_ok q" "wsavedBits uw = 0" "writer uw = []" "call_fine buf_ops uni i b q uw"
  obtains q' u h where "QpackWriteHeaderBlock buf_ops buf_ops uni i b q uw [] = (Inr (), q', u, h)" "qenc_ok q'" "wsavedBits u = 0"
    "qbase q' \<le> intMax" "HuffmanPreference q' = HuffmanPreference q" "h \<noteq> []"
    "updates (HuffmanPreference q) (qcommon (qtable q)) (bytes_bits (writer u)) (qcommon (qtable q'))"
    "\<And>d. dtable d = qcommon (qtable q') \<Longrightarrow>
       \<exists>d' s. QpackReadHeaderBlock source_ops i d (h, EOF) = Some (Inr (lowered uni b), d', s) \<and> dtable d' = dtable d"
proof -
  from QpackWriteHeaderBlock_spec [OF buf.reliable_sink_axioms buf.reliable_sink_axioms assms(1,2,4), of "[]"] obtain q' u h ubs lr x lines where
    w: "QpackWriteHeaderBlock buf_ops buf_ops uni i b q uw [] = (Inr (), q', u, h)"
    "qenc_ok q'" "wsavedBits u = 0" "writer u = writer uw @ bits_bytes ubs" "bytes_bits (bits_bytes ubs) = ubs"
    "updates (HuffmanPreference q) (qcommon (qtable q)) ubs (qcommon (qtable q'))"
    "h = [] @ bits_bytes (int_bits 8 (unat lr) @ int_bits 8 0 @ lines)"
    "bytes_bits (bits_bytes (int_bits 8 (unat lr) @ int_bits 8 0 @ lines)) = int_bits 8 (unat lr) @ int_bits 8 0 @ lines"
    "field_lines (HuffmanPreference q) (qcommon (qtable q')) x lines (lowered uni b)"
    "decodeLargestBase (qcommon (qtable q')) lr = Inr x" "0 \<le> x" "x \<le> qbase q'" "qbase q' \<le> intMax"
    "HuffmanPreference q' = HuffmanPreference q" by blast
  have hb: "bytes_bits h = int_bits 8 (unat lr) @ int_bits 8 0 @ lines" using w(7,8) by simp
  have t: "table_ok (qcommon (qtable q'))" using w(2) by (simp add: qenc_ok_def acked_ok_def qtable_ok_def)
  have "h \<noteq> []" using hb by (auto simp: int_bits_8_0)
  moreover have "\<exists>d' s. QpackReadHeaderBlock source_ops i d (h, EOF) = Some (Inr (lowered uni b), d', s) \<and> dtable d' = dtable d"
    if d: "dtable d = qcommon (qtable q')" for d
    using src.QpackReadHeaderBlock_spec [of d lr x "HuffmanPreference q" lines "lowered uni b" "(h, EOF)" i] w(9-13) hb t d
    by (auto simp: send_def)
  ultimately show thesis using that [of q' u h] w(1-6,13,14) assms(3) by simp
qed

definition blocksLines :: "HeaderField list list \<Rightarrow> byte list list" where
  "blocksLines bss = concat (map (\<lambda>b. map fieldLine b @ [[]]) bss)"

definition plainBlock :: "HeaderField list \<Rightarrow> bool" where
  "plainBlock b \<longleftrightarrow> (\<forall>h \<in> set b. plainField h \<and> \<not> Sensitive h)"

lemma map_unmarked: "plainBlock b \<Longrightarrow> map unmarked b = b"
  by (auto simp: plainBlock_def unmarked_def intro!: map_idI)

lemma Encode_run:
  assumes io: "byte_source rops content fin ok" "reliable_sink wops wout"
  shows "\<lbrakk>qifOk fin ok EOF (encInput enc); qifLines [] (qifView content (encInput enc)) = blocksLines bss;
      \<forall>b \<in> set bss. plainBlock b; qenc_ok (encQpack enc); wsavedBits (encUpdates enc) = 0; writer (encUpdates enc) = [];
      wsavedBits (encOutput enc) = 0; runFine uni (encAcknowledge enc) (encStream enc) (encQpack enc) (encUpdates enc) bss\<rbrakk>
    \<Longrightarrow> \<exists>enc'. Encode rops wops uni enc = Some (Inr (), enc') \<and> wsavedBits (encOutput enc') = 0 \<and>
      wout (writer (encOutput enc')) = wout (writer (encOutput enc)) @
        encodeAll uni (encAcknowledge enc) (encStream enc) (encQpack enc) (encUpdates enc) bss"
proof (induction bss arbitrary: enc)
  case Nil
  from byte_source.qifBlock_spec [OF io(1) Nil.prems(1) refl, of "[]"] Nil.prems(2) obtain q where
    "qifReadHeaderBlock rops (encInput enc) = Some (Inl EOF, q)" by (auto simp: blocksLines_def qifReadHeaderBlock_def)
  with Nil.prems(7) show ?case by (subst Encode.simps) simp
next
  case (Cons b bss)
  let ?i = "encStream enc + 1"
  have plain: "\<forall>h \<in> set b. plainField h" "map unmarked b = b" using Cons.prems(3) map_unmarked by (auto simp: plainBlock_def)
  from byte_source.qifBlock_spec [OF io(1) Cons.prems(1) refl, of "[]"] Cons.prems(2) obtain rd where
    rd: "qifReadHeaderBlock rops (encInput enc) = Some (Inr b, rd)" "qifOk fin ok EOF rd" "qifLines [] (qifView content rd) = blocksLines bss"
    by (auto simp: blocksLines_def qifReadHeaderBlock_def lineBlock_text [OF plain(1)] plain(2))
  have fine: "call_fine buf_ops uni ?i b (encQpack enc) (encUpdates enc)" using Cons.prems(8) by simp
  from Cons.prems(4-6) fine obtain q u h where
    w: "QpackWriteHeaderBlock buf_ops buf_ops uni ?i b (encQpack enc) (encUpdates enc) [] = (Inr (), q, u, h)" "qenc_ok q"
    "wsavedBits u = 0" "qbase q \<le> intMax" by (rule block_step) blast
  with Cons.prems(8) have len: "length (writer u) < 2 ^ 32" "length h < 2 ^ 32"
    and rest: "runFine uni (encAcknowledge enc) ?i (acknowledged (encAcknowledge enc) ?i q) (u\<lparr>writer := []\<rparr>) bss" by auto
  from reliable_sink.encWriteBlock_spec [OF io(2) Cons.prems(7) len(1), of 0] obtain bw where
    1: "encWriteBlock wops 0 (writer u) (encOutput enc) = (Inr (), bw)" "wsavedBits bw = 0"
    "wout (writer bw) = wout (writer (encOutput enc)) @ pieceBytes 0 (writer u)" by blast
  from reliable_sink.encWriteBlock_spec [OF io(2) 1(2) len(2), of ?i] obtain bw' where
    2: "encWriteBlock wops ?i h bw = (Inr (), bw')" "wsavedBits bw' = 0" "wout (writer bw') = wout (writer bw) @ pieceBytes ?i h" by blast
  let ?enc = "enc\<lparr>encInput := rd, encStream := ?i, encQpack := acknowledged (encAcknowledge enc) ?i q,
     encUpdates := u\<lparr>writer := []\<rparr>, encOutput := bw'\<rparr>"
  have "encodeBlock wops uni b (enc\<lparr>encInput := rd\<rparr>) = (Inr (), ?enc)"
    using w(1) 1(1) 2(1) by (simp add: encodeBlock_def acknowledged_def Let_def)
  then have "Encode rops wops uni enc = Encode rops wops uni ?enc" using rd(1) by (subst Encode.simps) simp
  with Cons.IH [of ?enc] rd(2,3) Cons.prems(3) acknowledged_spec [OF w(2,4), of "encAcknowledge enc" ?i] w(1,3) 1(3) 2(2,3) rest
  show ?case by auto
qed

text \<open>The piece with the table updates, if there is one, brings the decoder's table up to date.\<close>

lemma updates_piece:
  assumes "byte_source rops content fin ok" "rok ok (decInput dec)" "rbits content (decInput dec) = bytes_bits (pieceBytes 0 p @ rest)"
    "length p < 2 ^ 32" "fin (reader (decInput dec)) = EOF" "dtable (decQpack dec) = t"
    "updates c (dtable (decStart dec)) (bytes_bits (decUpdates dec)) t" "table_ok (dtable (decStart dec))" "updates c t (bytes_bits p) t'"
  shows "\<exists>dec'. Decode rops wops dec = Decode rops wops dec' \<and> rok ok (decInput dec') \<and> rbits content (decInput dec') = bytes_bits rest \<and>
    fin (reader (decInput dec')) = EOF \<and> dtable (decQpack dec') = t' \<and> decStart dec' = decStart dec \<and> decOutput dec' = decOutput dec \<and>
    updates c (dtable (decStart dec)) (bytes_bits (decUpdates dec')) t'"
proof (cases "p = []")
  case True
  then have "t' = t" using updates_Nil assms(7-9) updates_ok by (metis bytes_bits_Nil)
  with True assms show ?thesis by (intro exI [of _ dec]) (simp add: pieceBytes_def)
next
  case False
  from byte_source.piece_read [OF assms(1-3) False assms(4)] assms(5) obtain br1 br2 where
    r: "decReadBlock rops (decInput dec) = (Inr (Some (0, length p)), br1)" "decCopyBlock rops (length p) br1 = (Inr p, br2)"
    "rok ok br2" "rbits content br2 = bytes_bits rest" "fin (reader br2) = EOF" by auto
  have u: "updates c (dtable (decStart dec)) (bytes_bits (decUpdates dec @ p)) t'"
    using updates_trans [OF assms(9,7)] by simp
  from src.ReadTableUpdates_waits [of c "decStart dec" "(decUpdates dec @ p, Blocked)" t'] u assms(8) obtain d' s where
    d': "ReadTableUpdates source_ops (decStart dec) (decUpdates dec @ p, Blocked) = Some (Inl Blocked, d', s)" "dtable d' = t'" by auto
  have "Decode rops wops dec = Decode rops wops (dec\<lparr>decInput := br2, decUpdates := decUpdates dec @ p, decQpack := d'\<rparr>)"
    using r(1,2) d'(1) by (subst Decode.simps) (simp add: decodeBlock_def)
  with r(3-5) d'(2) u show ?thesis
    by (intro exI [of _ "dec\<lparr>decInput := br2, decUpdates := decUpdates dec @ p, decQpack := d'\<rparr>"]) simp
qed

lemma Decode_run:
  assumes io: "byte_source rops content fin ok" "reliable_sink wops wout"
  shows "\<lbrakk>rok ok (decInput dec); rbits content (decInput dec) = bytes_bits (encodeAll uni ack i q uw bss); fin (reader (decInput dec)) = EOF;
      qenc_ok q; wsavedBits uw = 0; writer uw = []; runFine uni ack i q uw bss; dtable (decQpack dec) = qcommon (qtable q);
      updates (HuffmanPreference q) (dtable (decStart dec)) (bytes_bits (decUpdates dec)) (qcommon (qtable q)); table_ok (dtable (decStart dec))\<rbrakk>
    \<Longrightarrow> \<exists>dec'. Decode rops wops dec = Some (Inr (), dec') \<and>
      wout (decOutput dec') = wout (decOutput dec) @ concat (map (blockText \<circ> lowered uni) bss)"
proof (induction bss arbitrary: dec i q uw)
  case Nil
  with byte_source.file_end [OF io(1) Nil(1)] obtain br where "decReadBlock rops (decInput dec) = (Inr None, br)" by auto
  then show ?case by (subst Decode.simps) simp
next
  case (Cons b bss)
  let ?i = "i + 1"
  have fine: "call_fine buf_ops uni ?i b q uw" using Cons.prems(7) by simp
  from Cons.prems(4-6) fine obtain q' u h where
    w: "QpackWriteHeaderBlock buf_ops buf_ops uni ?i b q uw [] = (Inr (), q', u, h)" "qenc_ok q'"
    "wsavedBits u = 0" "qbase q' \<le> intMax" "HuffmanPreference q' = HuffmanPreference q" "h \<noteq> []"
    "updates (HuffmanPreference q) (qcommon (qtable q)) (bytes_bits (writer u)) (qcommon (qtable q'))"
    "\<And>d. dtable d = qcommon (qtable q') \<Longrightarrow>
       \<exists>d' s. QpackReadHeaderBlock source_ops ?i d (h, EOF) = Some (Inr (lowered uni b), d', s) \<and> dtable d' = dtable d"
    by (rule block_step) blast
  let ?rest = "encodeAll uni ack ?i (acknowledged ack ?i q') (u\<lparr>writer := []\<rparr>) bss"
  from w(1) Cons.prems(7) have len: "length (writer u) < 2 ^ 32" "length h < 2 ^ 32" "?i \<noteq> 0"
    and rest: "runFine uni ack ?i (acknowledged ack ?i q') (u\<lparr>writer := []\<rparr>) bss" by auto
  have bits: "rbits content (decInput dec) = bytes_bits (pieceBytes 0 (writer u) @ pieceBytes ?i h @ ?rest)"
    using Cons.prems(2) w(1) by simp
  have "\<exists>dec1. Decode rops wops dec = Decode rops wops dec1 \<and> rok ok (decInput dec1) \<and>
      rbits content (decInput dec1) = bytes_bits (pieceBytes ?i h @ ?rest) \<and> fin (reader (decInput dec1)) = EOF \<and>
      dtable (decQpack dec1) = qcommon (qtable q') \<and> decStart dec1 = decStart dec \<and> decOutput dec1 = decOutput dec \<and>
      updates (HuffmanPreference q) (dtable (decStart dec)) (bytes_bits (decUpdates dec1)) (qcommon (qtable q'))"
    by (rule updates_piece [OF io(1) Cons.prems(1) bits len(1) Cons.prems(3,8-10) w(7)])
  then obtain dec1 where d1: "Decode rops wops dec = Decode rops wops dec1" "rok ok (decInput dec1)"
    "rbits content (decInput dec1) = bytes_bits (pieceBytes ?i h @ ?rest)" "fin (reader (decInput dec1)) = EOF"
    "dtable (decQpack dec1) = qcommon (qtable q')" "decStart dec1 = decStart dec" "decOutput dec1 = decOutput dec"
    "updates (HuffmanPreference q) (dtable (decStart dec)) (bytes_bits (decUpdates dec1)) (qcommon (qtable q'))" by blast
  from byte_source.piece_read [OF io(1) d1(2,3) w(6) len(2)] d1(4) obtain br1 br2 where
    r: "decReadBlock rops (decInput dec1) = (Inr (Some (?i, length h)), br1)" "decCopyBlock rops (length h) br1 = (Inr h, br2)"
    "rok ok br2" "rbits content br2 = bytes_bits ?rest" "fin (reader br2) = EOF" by auto
  from w(8) [OF d1(5)] obtain d' s where
    d': "QpackReadHeaderBlock source_ops ?i (decQpack dec1) (h, EOF) = Some (Inr (lowered uni b), d', s)" "dtable d' = qcommon (qtable q')"
    using d1(5) by auto
  from reliable_sink.qifWriteBlock_spec [OF io(2), of "lowered uni b" "decOutput dec1"] obtain w' where
    w': "qifWriteBlock wops (lowered uni b) (decOutput dec1) = (Inr (), w')" "wout w' = wout (decOutput dec1) @ blockText (lowered uni b)" by blast
  let ?dec = "dec1\<lparr>decInput := br2, decQpack := d', decOutput := w'\<rparr>"
  have "Decode rops wops dec1 = Decode rops wops ?dec"
    using r(1,2) d'(1) w'(1) len(3) by (subst Decode.simps) (simp add: decodeBlock_def)
  with d1(1) Cons.IH [of ?dec ?i "acknowledged ack ?i q'" "u\<lparr>writer := []\<rparr>"] r(3-5) acknowledged_spec [OF w(2,4), of ack ?i] w(3,5)
    rest d'(2) d1(6-8) w'(2) Cons.prems(10)
  show ?case by auto
qed

lemma blocks_text: "\<forall>b \<in> set bss. plainBlock b \<Longrightarrow> qifLines [] (unixEol False (concat (map blockText bss))) = blocksLines bss"
proof (induction bss)
  case (Cons b bss)
  then have "\<forall>h \<in> set b. plainField h" by (simp add: plainBlock_def)
  with blockText_lines [OF this, of "concat (map blockText bss)"] Cons show ?case by (simp add: blocksLines_def)
qed (simp add: blocksLines_def)

text \<open>A file through encoder and decoder, for any encoder and decoder whose tables agree.\<close>

lemma qif_file_roundtrip:
  assumes src: "byte_source rops content fin ok" "ok r" "fin r = EOF" "content r = concat (map blockText bss)" "\<forall>b \<in> set bss. plainBlock b"
    and out: "reliable_sink fops fout" "byte_source frops fcontent ffin fok" and snk: "reliable_sink wops wout"
    and enc: "encInput enc = NewReader r" "qenc_ok (encQpack enc)" "encUpdates enc = NewBitWriter []" "wsavedBits (encOutput enc) = 0"
      "runFine uni (encAcknowledge enc) (encStream enc) (encQpack enc) (encUpdates enc) bss"
  shows "\<exists>enc' bytes. Encode rops fops uni enc = Some (Inr (), enc') \<and>
    fout (writer (encOutput enc')) = fout (writer (encOutput enc)) @ bytes \<and>
    (\<forall>fr dec. fok fr \<and> fcontent fr = bytes \<and> ffin fr = EOF \<and> decInput dec = NewBitReader fr \<and> decUpdates dec = [] \<and>
        decQpack dec = decStart dec \<and> dtable (decStart dec) = qcommon (qtable (encQpack enc)) \<longrightarrow>
      (\<exists>dec'. Decode frops wops dec = Some (Inr (), dec') \<and>
         wout (decOutput dec') = wout (decOutput dec) @ concat (map (blockText \<circ> lowered uni) bss)))"
proof -
  have "qifOk fin ok EOF (encInput enc)" "qifLines [] (qifView content (encInput enc)) = blocksLines bss"
    using src(2-4) enc(1) blocks_text [OF src(5)] by (simp_all add: qifOk_def NewReader_def qifView_def)
  from Encode_run [OF src(1) out(1) this src(5) enc(2) _ _ enc(4,5)] enc(3) obtain enc' where
    e: "Encode rops fops uni enc = Some (Inr (), enc')" "fout (writer (encOutput enc')) = fout (writer (encOutput enc)) @
      encodeAll uni (encAcknowledge enc) (encStream enc) (encQpack enc) (encUpdates enc) bss"
    by (auto simp: NewBitWriter_def)
  have t: "table_ok (qcommon (qtable (encQpack enc)))" using enc(2) by (simp add: qenc_ok_def acked_ok_def qtable_ok_def)
  have "\<exists>dec'. Decode frops wops dec = Some (Inr (), dec') \<and>
      wout (decOutput dec') = wout (decOutput dec) @ concat (map (blockText \<circ> lowered uni) bss)"
    if d: "fok fr" "fcontent fr = encodeAll uni (encAcknowledge enc) (encStream enc) (encQpack enc) (encUpdates enc) bss" "ffin fr = EOF"
      "decInput dec = NewBitReader fr" "decUpdates dec = []" "decQpack dec = decStart dec"
      "dtable (decStart dec) = qcommon (qtable (encQpack enc))" for fr dec
    using d t enc(2,3,5) Decode_run [OF out(2) snk, of dec uni "encAcknowledge enc" "encStream enc" "encQpack enc" "encUpdates enc" bss]
    by (simp add: rok_def rbits_def NewBitReader_def NewBitWriter_def updates.updates_refl)
  with e show ?thesis by blast
qed

end
