(* ===== verification/QifMain.thy ===== *)
theory QifMain
  imports QifCodec Message
begin

text \<open>
  The command line of the \<open>qif\<close> command, \<open>src/hc/qif/qif.go\<close>: the options of \<open>encode\<close> and
  \<open>decode\<close> and how they set up the encoder and the decoder. Opening the files by their names is
  not modelled; the files are arguments. \<open>check\<close> ends the program at an error.
\<close>

section \<open>Options\<close>

record encodeOptions =
  optAck :: bool
  optVerbose :: bool
  optCapacity :: u64
  optReferenceable :: u64
  optMaxBlocked :: int

definition encodeDefaults :: encodeOptions where
  "encodeDefaults = \<lparr>optAck = False, optVerbose = False, optCapacity = 4096, optReferenceable = 4096, optMaxBlocked = 0\<rparr>"

definition checkAtoi :: "string \<Rightarrow> goerr + int" where
  "checkAtoi s = (case Atoi s of None \<Rightarrow> Inl (ErrOther ''strconv.Atoi'') | Some i \<Rightarrow> Inr i)"

text \<open>
  The loop over the options. It looks at the first character of the first argument, which an empty
  argument does not have; an option that it does not know leaves the arguments as they are.
\<close>

partial_function (option) encodeArgs :: "string list \<Rightarrow> encodeOptions \<Rightarrow> (goerr + (string list \<times> encodeOptions)) option" where
  "encodeArgs args opts =
     (if length args \<le> 1 then Some (Inr (args, opts))
      else if args ! 0 = [] then Some (Inl (Panic ''slice bounds out of range''))
      else if hd (args ! 0) \<noteq> CHR ''-'' then Some (Inr (args, opts))
      else if args ! 0 = ''-a'' then encodeArgs (drop 1 args) (opts\<lparr>optAck := True\<rparr>)
      else if args ! 0 = ''-v'' then encodeArgs (drop 1 args) (opts\<lparr>optVerbose := True\<rparr>)
      else if args ! 0 = ''-b'' then
        (case checkAtoi (args ! 1) of
           Inl e \<Rightarrow> Some (Inl e)
         | Inr sz \<Rightarrow> encodeArgs (drop 2 args) (opts\<lparr>optMaxBlocked := sz\<rparr>))
      else if args ! 0 = ''-t'' then
        (case checkAtoi (args ! 1) of
           Inl e \<Rightarrow> Some (Inl e)
         | Inr sz \<Rightarrow> encodeArgs (drop 2 args) (opts\<lparr>optCapacity := word_of_int sz, optReferenceable := word_of_int sz\<rparr>))
      else if args ! 0 = ''-r'' then
        (case checkAtoi (args ! 1) of
           Inl e \<Rightarrow> Some (Inl e)
         | Inr sz \<Rightarrow> encodeArgs (drop 2 args) (opts\<lparr>optReferenceable := word_of_int sz\<rparr>))
      else encodeArgs args opts)"

record decodeOptions =
  optAsync :: bool
  optLog :: bool
  optTable :: u64

definition decodeDefaults :: decodeOptions where
  "decodeDefaults = \<lparr>optAsync = False, optLog = False, optTable = 4096\<rparr>"

partial_function (option) decodeArgs :: "string list \<Rightarrow> decodeOptions \<Rightarrow> (goerr + (string list \<times> decodeOptions)) option" where
  "decodeArgs args opts =
     (if length args \<le> 1 then Some (Inr (args, opts))
      else if args ! 0 = [] then Some (Inl (Panic ''slice bounds out of range''))
      else if hd (args ! 0) \<noteq> CHR ''-'' then Some (Inr (args, opts))
      else if args ! 0 = ''-a'' then decodeArgs (drop 1 args) (opts\<lparr>optAsync := True\<rparr>)
      else if args ! 0 = ''-v'' then decodeArgs (drop 1 args) (opts\<lparr>optLog := True\<rparr>)
      else if args ! 0 = ''-t'' then
        (case checkAtoi (args ! 1) of
           Inl e \<Rightarrow> Some (Inl e)
         | Inr sz \<Rightarrow> decodeArgs (drop 2 args) (opts\<lparr>optTable := word_of_int sz\<rparr>))
      else decodeArgs args opts)"

declare encodeArgs.simps [code] decodeArgs.simps [code]

section \<open>Setting up\<close>

definition encodeSetup :: "encodeOptions \<Rightarrow> 'r \<Rightarrow> 'w \<Rightarrow> goerr + ('r, 'w) qifEncoder" where
  "encodeSetup opts r w =
     (case newEncoder r w of
        Inl e \<Rightarrow> Inl e
      | Inr enc \<Rightarrow>
          (case QpackSetCapacity (optCapacity opts) (encQpack enc) of
             (Inl e, _) \<Rightarrow> Inl e
           | (Inr _, q) \<Rightarrow>
               (case SetMaxBlockedStreams (optMaxBlocked opts) (QpackSetReferenceableLimit (optReferenceable opts) q) of
                  (Inl e, _) \<Rightarrow> Inl e
                | (Inr _, q') \<Rightarrow> Inr (enc\<lparr>encAcknowledge := optAck opts, encQpack := q'\<rparr>))))"

text \<open>The names of the input and the output file; an empty name is the standard input or output.\<close>

definition fileNames :: "string list \<Rightarrow> string \<times> string" where
  "fileNames args =
     (case args of [] \<Rightarrow> ([], []) | [a] \<Rightarrow> (a, []) | a # b # _ \<Rightarrow> (a, b))"

definition encodeMain :: "'r src_ops \<Rightarrow> 'w snk_ops \<Rightarrow> (string \<Rightarrow> string) \<Rightarrow> (string \<Rightarrow> 'r) \<Rightarrow> (string \<Rightarrow> 'w) \<Rightarrow> string list \<Rightarrow>
    ((goerr + unit) \<times> ('r, 'w) qifEncoder option) option" where
  "encodeMain rops wops uni opn crt args =
     (case encodeArgs args encodeDefaults of
        None \<Rightarrow> None
      | Some (Inl e) \<Rightarrow> Some (Inl e, None)
      | Some (Inr (rest, opts)) \<Rightarrow>
          (case encodeSetup opts (opn (fst (fileNames rest))) (crt (snd (fileNames rest))) of
             Inl e \<Rightarrow> Some (Inl e, None)
           | Inr enc \<Rightarrow> map_option (\<lambda>(x, enc'). (x, Some enc')) (Encode rops wops uni enc)))"

definition decodeSetup :: "decodeOptions \<Rightarrow> 'r \<Rightarrow> 'w \<Rightarrow> ('r, 'w) qifDecoder" where
  "decodeSetup opts r w =
     (let dec = newDecoder r w; d = (decQpack dec)\<lparr>dtable := SetCapacity (optTable opts) (dtable (decQpack dec))\<rparr>
      in dec\<lparr>decStart := d, decQpack := d\<rparr>)"

section \<open>Properties\<close>

text \<open>An option that is not known, before another argument, keeps the loop spinning.\<close>

lemma unknown_option_spins:
  assumes "o1 = CHR ''-'' # x" "x \<notin> {''a'', ''v'', ''b'', ''t'', ''r''}"
  shows "encodeArgs (o1 # arg # args) opts = None"
proof (rule ccontr)
  assume "encodeArgs (o1 # arg # args) opts \<noteq> None"
  then obtain y where "encodeArgs (o1 # arg # args) opts = Some y" by auto
  then have "o1 # arg # args \<noteq> o1 # arg # args"
    by (rule encodeArgs.raw_induct [where P = "\<lambda>as os y. as \<noteq> o1 # arg # args", rotated])
      (use assms in \<open>auto split: if_splits\<close>)
  then show False by simp
qed

lemma emptyTable_SetCapacity: "SetCapacity c (emptyTable\<lparr>capacity := c'\<rparr>) = emptyTable\<lparr>capacity := c\<rparr>"
  by (simp add: SetCapacity_def evictTo_def emptyTable_def)

text \<open>With equal table sizes the encoder and the decoder start in step.\<close>

lemma encodeSetup_spec:
  assumes "encodeSetup opts r w = Inr enc" "unat (optCapacity opts) < 2 ^ 62"
  shows "encInput enc = NewReader r \<and> encOutput enc = NewBitWriter w \<and> encUpdates enc = NewBitWriter [] \<and> encStream enc = 0 \<and>
    encAcknowledge enc = optAck opts \<and> qenc_ok (encQpack enc) \<and> qcommon (qtable (encQpack enc)) = emptyTable\<lparr>capacity := optCapacity opts\<rparr>"
proof -
  obtain q0 where q0: "NewQpackEncoder 4096 3072 = Inr q0" "qenc_ok q0" using qenc_ok_New [of 4096 3072] by auto
  then have t0: "qcommon (qtable q0) = emptyTable\<lparr>capacity := 4096\<rparr>"
    by (auto simp: NewQpackEncoder_def NewQpackEncoderTable_def QpackTableSetCapacity_def emptyTable_def Let_def
      qcommon_SetReferenceableLimit split: if_splits)
  obtain q1 where q1: "QpackSetCapacity (optCapacity opts) q0 = (Inr (), q1)"
    "qcommon (qtable q1) = emptyTable\<lparr>capacity := optCapacity opts\<rparr>"
    using t0 by (auto simp: QpackSetCapacity_def QpackTableSetCapacity_def emptyTable_def Let_def qcommon_SetReferenceableLimit)
  have "qenc_ok q1" by (rule qenc_ok_SetCapacity [OF q0(2) assms(2) q1(1)])
  then have "qenc_ok (QpackSetReferenceableLimit (optReferenceable opts) q1)" by (rule qenc_ok_SetLimit)
  then have "qenc_ok ((QpackSetReferenceableLimit (optReferenceable opts) q1)\<lparr>maxBlockedStreams := m\<rparr>)" for m
    by (subst qenc_ok_cong) simp_all
  then show ?thesis using assms(1) q0(1) q1
    by (auto simp: encodeSetup_def newEncoder_def SetMaxBlockedStreams_def QpackSetReferenceableLimit_def
      qcommon_SetReferenceableLimit split: if_splits)
qed

lemma decodeSetup_spec:
  "decInput (decodeSetup opts r w) = NewBitReader r \<and> decOutput (decodeSetup opts r w) = w \<and> decUpdates (decodeSetup opts r w) = [] \<and>
   decQpack (decodeSetup opts r w) = decStart (decodeSetup opts r w) \<and>
   dtable (decStart (decodeSetup opts r w)) = emptyTable\<lparr>capacity := optTable opts\<rparr>"
  by (simp add: decodeSetup_def newDecoder_def Let_def NewQpackDecoder_def NewQpackDecoderTable_def emptyTable_SetCapacity)

text \<open>C16: A QIF file survives the \<open>qif\<close> command with the sequential decoder, that is, without \<open>-a\<close> for
  \<open>decode\<close>. Whatever the other options, as long as the table sizes given to both programs are equal:
  encoding a file of blocks and decoding the result, both programs come to their regular end, and
  the output is the text of the same blocks with lower-case names. All table updates and blocks have
  gone through the file in order, and encoder and decoder have stayed in step. The condition
  \<open>runFine\<close> says of the encoder's run that in each block the entries used for their names are not
  evicted by the block's own inserts (\<open>name_reference_evicted\<close> shows that they can be), that
  strings and counts are within their limits, and that every piece is shorter than \<open>2^32\<close> bytes.\<close>

theorem qif_command_roundtrip:
  assumes input: "byte_source rops content fin ok" "ok r" "fin r = EOF" "content r = concat (map blockText bss)" "\<forall>b \<in> set bss. plainBlock b"
    and out: "reliable_sink fops fout" "byte_source frops fcontent ffin fok" "reliable_sink wops wout"
    and opts: "encodeSetup eopts r w = Inr enc" "unat (optCapacity eopts) < 2 ^ 62" "optTable dopts = optCapacity eopts" "\<not> optAsync dopts"
    and fine: "runFine uni (optAck eopts) 0 (encQpack enc) (NewBitWriter []) bss"
  shows "\<exists>enc' bytes. Encode rops fops uni enc = Some (Inr (), enc') \<and> fout (writer (encOutput enc')) = fout w @ bytes \<and>
    (\<forall>fr v. fok fr \<and> fcontent fr = bytes \<and> ffin fr = EOF \<longrightarrow>
      (\<exists>dec'. Decode frops wops (decodeSetup dopts fr v) = Some (Inr (), dec') \<and>
         wout (decOutput dec') = wout v @ concat (map (blockText \<circ> lowered uni) bss)))"
proof -
  note e = encodeSetup_spec [OF opts(1,2)]
  from qif_file_roundtrip [OF input out, of enc uni] e fine obtain enc' bytes where
    r: "Encode rops fops uni enc = Some (Inr (), enc')" "fout (writer (encOutput enc')) = fout w @ bytes"
    and dec: "\<And>fr dec. fok fr \<and> fcontent fr = bytes \<and> ffin fr = EOF \<and> decInput dec = NewBitReader fr \<and> decUpdates dec = [] \<and>
        decQpack dec = decStart dec \<and> dtable (decStart dec) = qcommon (qtable (encQpack enc)) \<Longrightarrow>
      (\<exists>dec'. Decode frops wops dec = Some (Inr (), dec') \<and>
         wout (decOutput dec') = wout (decOutput dec) @ concat (map (blockText \<circ> lowered uni) bss))"
    by (auto simp: NewBitWriter_def)
  have "\<exists>dec'. Decode frops wops (decodeSetup dopts fr v) = Some (Inr (), dec') \<and>
         wout (decOutput dec') = wout v @ concat (map (blockText \<circ> lowered uni) bss)"
    if "fok fr \<and> fcontent fr = bytes \<and> ffin fr = EOF" for fr v
    using dec [of fr "decodeSetup dopts fr v"] decodeSetup_spec [of dopts fr v] e opts(3) that by simp
  with r show ?thesis by blast
qed

text \<open>The options \<open>-a -t 4096\<close> for the encoder and none for the decoder.\<close>

definition exampleOptions :: encodeOptions where
  "exampleOptions = encodeDefaults\<lparr>optAck := True\<rparr>"

lemma example_options: "encodeArgs [''-a'', ''-t'', ''4096'', ''in'', ''out''] encodeDefaults = Some (Inr ([''in'', ''out''], exampleOptions))"
  by code_simp

definition exampleQpack :: QpackEncoder where
  "exampleQpack = (case encodeSetup exampleOptions () () of Inr enc \<Rightarrow> encQpack enc)"

lemma example_setup: "encodeSetup exampleOptions r w = Inr \<lparr>encInput = NewReader r, encOutput = NewBitWriter w, encAcknowledge = True,
    encStream = 0, encUpdates = NewBitWriter [], encQpack = exampleQpack\<rparr>"
proof -
  have "case encodeSetup exampleOptions () () of Inl _ \<Rightarrow> False | Inr _ \<Rightarrow> True" by code_simp
  moreover have "optAck exampleOptions" by (simp add: exampleOptions_def)
  ultimately show ?thesis
    by (auto simp: encodeSetup_def newEncoder_def exampleQpack_def split: sum.splits prod.splits)
qed

lemma example_run: "runFine id True 0 exampleQpack (NewBitWriter []) [example_request]"
proof -
  have "case writeTableChanges buf_ops 1 ((exampleQpack, initHeaders id example_request), NewBitWriter []) of
      (x, ((enc, st), w)) \<Rightarrow> nameMatches st = [None, None] \<and> length (headers st) = 2 \<and> qbase enc = 1"
    by code_simp
  moreover have "\<forall>h \<in> set (lowered id example_request). header_ok HuffmanCodingAuto h"
    unfolding example_lowered by (simp add: header_ok_def string_ok_def example_field_def)
  moreover have "HuffmanPreference exampleQpack = HuffmanCodingAuto" by code_simp
  ultimately have "call_fine buf_ops id 1 example_request exampleQpack (NewBitWriter [])"
    by (auto simp: call_fine_def names_live_def intMax_def less_Suc_eq numeral_2_eq_2)
  moreover have "case QpackWriteHeaderBlock buf_ops buf_ops id 1 example_request exampleQpack (NewBitWriter []) [] of
      (_, q', u, h) \<Rightarrow> length (writer u) < 20 \<and> length h < 20" by code_simp
  ultimately show ?thesis by auto
qed

theorem qif_command_roundtrip_witness:
  "\<exists>enc enc' dec'. encodeSetup exampleOptions (blockText example_request, EOF) [] = Inr enc \<and>
     Encode source_ops buf_ops id enc = Some (Inr (), enc') \<and>
     Decode source_ops buf_ops (decodeSetup decodeDefaults (writer (encOutput enc'), EOF) []) = Some (Inr (), dec') \<and>
     decOutput dec' = blockText [example_field '':method'' ''GET'', example_field ''x-a'' ''1'']"
proof -
  have "plainBlock example_request" by code_simp
  then have p: "\<forall>b \<in> set [example_request]. plainBlock b" by simp
  have t: "fst (blockText example_request, EOF) = concat (map blockText [example_request])" by simp
  let ?r = "(blockText example_request, EOF)"
  obtain enc where s: "encodeSetup exampleOptions ?r ([] :: byte list) = Inr enc" "encQpack enc = exampleQpack"
    by (simp add: example_setup)
  have o: "unat (optCapacity exampleOptions) < 2 ^ 62" "optTable decodeDefaults = optCapacity exampleOptions" "\<not> optAsync decodeDefaults" "optAck exampleOptions"
    by (simp_all add: exampleOptions_def encodeDefaults_def decodeDefaults_def)
  from qif_command_roundtrip [OF src.byte_source_axioms _ _ t p buf.reliable_sink_axioms src.byte_source_axioms buf.reliable_sink_axioms
      s(1) o(1-3), of id] example_run s(2) o(4) obtain enc' where
    e: "Encode source_ops buf_ops id enc = Some (Inr (), enc')" and
    d: "\<And>fr v. fst fr = writer (encOutput enc') \<and> snd fr = EOF \<Longrightarrow>
      (\<exists>dec'. Decode source_ops buf_ops (decodeSetup decodeDefaults fr v) = Some (Inr (), dec') \<and>
         decOutput dec' = v @ concat (map (blockText \<circ> lowered id) [example_request]))" by auto
  from d [of "(writer (encOutput enc'), EOF)" "[]"] e s(1) show ?thesis by (auto simp: example_lowered)
qed

text \<open>A last argument that looks like an option is taken for a file name; an empty argument panics.\<close>

lemma option_last: "encodeArgs [a] opts = Some (Inr ([a], opts))"
  by (simp add: encodeArgs.simps)

lemma empty_argument_panics: "encodeArgs ([] # a # args) opts = Some (Inl (Panic ''slice bounds out of range''))"
  by (simp add: encodeArgs.simps)

end
